(* ===== verification/Js_Prelude.thy ===== *)
theory Js_Prelude
  imports Main "HOL-Library.Word"
begin

text \<open>
  Shared vocabulary of the development: bytes and JavaScript strings, the values that the
  dynamically typed code inspects with \<^verbatim>\<open>typeof\<close> and truthiness tests, exceptions as
  values of a sum type, the integer coercions of the language (\<open>ToInt32\<close>, \<open>ToUint32\<close>), and the
  generic lemmas on natural-number bit arithmetic, lists and results that the component
  theories share.
\<close>

unbundle bit_operations_syntax

section \<open>Collections\<close>

named_theorems result_simps \<open>rewrite rules for computations that may throw\<close>
named_theorems byte_simps \<open>bit masks and shifts on natural numbers as arithmetic\<close>
named_theorems defs \<open>definitions unfolded by evaluation\<close>

section \<open>Bytes, code units, strings\<close>

type_synonym byte = "8 word"
type_synonym code_unit = "16 word"
type_synonym jsstr = "code_unit list"
type_synonym buffer = "byte list"

text \<open>A JavaScript string is a list of UTF-16 code units; \<open>js\<close> turns an ASCII literal into one.\<close>

definition js :: "string \<Rightarrow> jsstr" where
  [defs]: "js s = map of_char s"

lemma js_append: "js (s @ t) = js s @ js t"
  by (simp add: js_def)

lemma js_Nil [simp]: "js [] = []"
  by (simp add: js_def)

section \<open>Values inspected at run time\<close>

text \<open>
  \<open>JNum\<close> is an integral number, \<open>JFrac t s\<close> a finite non-integral number with truncation \<open>t\<close> and decimal
  text \<open>s\<close>; \<open>JObj\<close> is any other object (neither a string nor a Buffer). NaN and the infinities do not occur.
\<close>

datatype jsval =
    JUndef
  | JNull
  | JBool bool
  | JNum int
  | JFrac int jsstr
  | JStr jsstr
  | JBuf buffer
  | JObj

fun truthy :: "jsval \<Rightarrow> bool" where
  "truthy JUndef = False"
| "truthy JNull = False"
| "truthy (JBool b) = b"
| "truthy (JNum n) = (n \<noteq> 0)"
| "truthy (JFrac t s) = True"
| "truthy (JStr s) = (s \<noteq> [])"
| "truthy (JBuf b) = True"
| "truthy JObj = True"

definition js_or :: "jsval \<Rightarrow> jsval \<Rightarrow> jsval" where
  \<comment> \<open>the operator \<^verbatim>\<open>a || b\<close>\<close>
  [defs]: "js_or a b = (if truthy a then a else b)"

fun is_string :: "jsval \<Rightarrow> bool" where
  "is_string (JStr s) = True"
| "is_string _ = False"

fun is_number :: "jsval \<Rightarrow> bool" where
  "is_number (JNum n) = True"
| "is_number (JFrac t s) = True"
| "is_number _ = False"

fun is_buffer :: "jsval \<Rightarrow> bool" where
  "is_buffer (JBuf b) = True"
| "is_buffer _ = False"

text \<open>The decimal text of an integer, and the conversion to a string that \<^verbatim>\<open>'' + v\<close> performs.\<close>

fun nat_text :: "nat \<Rightarrow> jsstr" where
  "nat_text n = (if n < 10 then [of_nat (48 + n)] else nat_text (n div 10) @ [of_nat (48 + n mod 10)])"

declare nat_text.simps [simp del]

definition int_text :: "int \<Rightarrow> jsstr" where
  "int_text i = (if i < 0 then 45 # nat_text (nat (- i)) else nat_text (nat i))"

section \<open>Exceptions\<close>

datatype js_error =
    RangeError string
  | TypeError string
  | URIError string
  | JsError string

type_synonym 'a result = "js_error + 'a"

definition rbind :: "'e + 'a \<Rightarrow> ('a \<Rightarrow> 'e + 'b) \<Rightarrow> 'e + 'b" where
  "rbind m f = (case m of Inl e \<Rightarrow> Inl e | Inr x \<Rightarrow> f x)"

lemma rbind_simps [simp, result_simps]:
  "rbind (Inl e) f = Inl e"
  "rbind (Inr x) f = f x"
  by (simp_all add: rbind_def)

lemma rbind_eq_Inr [result_simps]:
  "rbind m f = Inr y \<longleftrightarrow> (\<exists>x. m = Inr x \<and> f x = Inr y)"
  by (cases m) auto

lemma rbind_eq_Inl [result_simps]:
  "rbind m f = Inl e \<longleftrightarrow> m = Inl e \<or> (\<exists>x. m = Inr x \<and> f x = Inl e)"
  by (cases m) auto

lemma rbind_assoc: "rbind (rbind m f) g = rbind m (\<lambda>x. rbind (f x) g)"
  by (cases m) auto

fun map_result :: "('a \<Rightarrow> 'b result) \<Rightarrow> 'a list \<Rightarrow> 'b list result" where
  \<comment> \<open>\<^verbatim>\<open>map\<close> with a function that may throw\<close>
  "map_result f [] = Inr []"
| "map_result f (x # xs) = rbind (f x) (\<lambda>y. rbind (map_result f xs) (\<lambda>ys. Inr (y # ys)))"

lemma map_result_append:
  "map_result f (xs @ ys) = rbind (map_result f xs) (\<lambda>a. rbind (map_result f ys) (\<lambda>b. Inr (a @ b)))"
  by (induction xs) (auto simp: rbind_def split: sum.splits)

lemma map_result_map: "map_result f (map g xs) = map_result (\<lambda>x. f (g x)) xs"
  by (induction xs) simp_all

lemma map_result_id: "(\<And>x. x \<in> set xs \<Longrightarrow> f x = Inr x) \<Longrightarrow> map_result f xs = Inr xs"
  by (induction xs) auto

lemma map_result_length: "map_result f xs = Inr ys \<Longrightarrow> length ys = length xs"
  by (induction xs arbitrary: ys) (auto simp: result_simps)

section \<open>Integer coercions\<close>

definition to_uint32 :: "int \<Rightarrow> int" where
  \<comment> \<open>\<^verbatim>\<open>x >>> 0\<close>\<close>
  [defs]: "to_uint32 x = x mod 2 ^ 32"

definition to_int32 :: "int \<Rightarrow> int" where
  \<comment> \<open>\<^verbatim>\<open>x | 0\<close> and \<^verbatim>\<open>~~x\<close>\<close>
  [defs]: "to_int32 x = (x + 2 ^ 31) mod 2 ^ 32 - 2 ^ 31"

lemma to_uint32_id [simp]: "0 \<le> x \<Longrightarrow> x < 2 ^ 32 \<Longrightarrow> to_uint32 x = x"
  by (simp add: to_uint32_def)

lemma to_int32_id [simp]: "- (2 ^ 31) \<le> x \<Longrightarrow> x < 2 ^ 31 \<Longrightarrow> to_int32 x = x"
  by (simp add: to_int32_def)

lemma to_uint32_range: "0 \<le> to_uint32 x \<and> to_uint32 x < 2 ^ 32"
  by (simp add: to_uint32_def)

lemma to_int32_range: "- (2 ^ 31) \<le> to_int32 x \<and> to_int32 x < 2 ^ 31"
proof -
  have "0 \<le> (x + 2 ^ 31) mod 2 ^ 32" "(x + 2 ^ 31) mod 2 ^ 32 < 2 ^ 32"
    by simp_all
  then show ?thesis unfolding to_int32_def by auto
qed

section \<open>Bit masks as arithmetic\<close>

lemma nat_and_mask: "(x::nat) AND mask k = x mod 2 ^ k"
  by (simp add: take_bit_eq_mask [symmetric] take_bit_eq_mod)

lemma nat_and_masks [byte_simps]:
  "(x::nat) AND 0x3 = x mod 4"
  "x AND 0xF = x mod 16"
  "x AND 0x1F = x mod 32"
  "x AND 0x3F = x mod 64"
  "x AND 0x7F = x mod 128"
  "x AND 0xFF = x mod 256"
  "x AND 0x3FF = x mod 1024"
  using nat_and_mask [of x 2] nat_and_mask [of x 4] nat_and_mask [of x 5] nat_and_mask [of x 6]
    nat_and_mask [of x 7] nat_and_mask [of x 8] nat_and_mask [of x 10]
  by (simp_all add: mask_eq_exp_minus_1)

lemma int_and_mask: "(x::int) AND mask k = x mod 2 ^ k"
  by (simp add: take_bit_eq_mask [symmetric] take_bit_eq_mod)

lemma int_and_FF: "(x::int) AND 0xFF = x mod 256"
  using int_and_mask [of x 8] by (simp add: mask_eq_exp_minus_1)

lemma nat_or_add:
  assumes "(b::nat) < 2 ^ k"
  shows "(2 ^ k * a) OR b = 2 ^ k * a + b"
proof -
  have "\<not> (bit (2 ^ k * a) n \<and> bit b n)" for n
  proof (cases "n < k")
    case True
    then show ?thesis
      by (simp add: push_bit_eq_mult [symmetric] mult.commute bit_push_bit_iff_nat)
  next
    case False
    then have "(2::nat) ^ k \<le> 2 ^ n" by simp
    with assms have "b < 2 ^ n" by (rule less_le_trans)
    then have "b div 2 ^ n = 0" by simp
    then show ?thesis by (simp add: bit_iff_odd)
  qed
  then show ?thesis by (metis disjunctive_add)
qed

lemma nat_or_high [byte_simps]:
  "x < 64 \<Longrightarrow> (x::nat) OR 0x80 = x + 0x80"
  "x < 32 \<Longrightarrow> x OR 0xC0 = x + 0xC0"
  "x < 16 \<Longrightarrow> x OR 0xE0 = x + 0xE0"
  "x < 8 \<Longrightarrow> x OR 0xF0 = x + 0xF0"
  using nat_or_add [of x 6 2] nat_or_add [of x 5 6] nat_or_add [of x 4 14] nat_or_add [of x 3 30]
  by (simp_all add: or.commute)

lemma nat_drop_push [byte_simps]:
  "drop_bit n (x::nat) = x div 2 ^ n"
  "push_bit n x = x * 2 ^ n"
  by (simp_all add: drop_bit_eq_div push_bit_eq_mult)

lemma unat_byte_less [simp]: "unat (b::byte) < 256"
  using unsigned_less [of b] by simp

lemma uint_byte_less [simp]: "uint (b::byte) < 256"
  using uint_lt2p [of b] by simp

lemma unat_code_unit_less [simp]: "unat (c::code_unit) < 65536"
  using unsigned_less [of c] by simp

lemma unat_of_nat_byte [simp]: "n < 256 \<Longrightarrow> unat (of_nat n :: byte) = n"
  by (simp add: unat_of_nat)

lemma unat_of_nat_code_unit [simp]: "n < 65536 \<Longrightarrow> unat (of_nat n :: code_unit) = n"
  by (simp add: unat_of_nat)

section \<open>Lists\<close>

lemma take_drop_append_le:
  "length xs \<le> i \<Longrightarrow> drop i (xs @ ys) = drop (i - length xs) ys"
  by simp

lemma drop_Cons_nth: "i < length xs \<Longrightarrow> drop i xs = xs ! i # drop (Suc i) xs"
  by (rule Cons_nth_drop_Suc [symmetric])

lemma sublist_append_left:
  "e \<le> length xs \<Longrightarrow> take (e - s) (drop s (xs @ ys)) = take (e - s) (drop s xs)"
  by simp

lemma concat_snoc: "concat (xss @ [xs]) = concat xss @ xs"
  by simp

end
