(* ===== verification/Js_Utf8.thy ===== *)
theory Js_Utf8
  imports Js_Prelude
begin

text \<open>
  The UTF-8 transcoder of the bundled \<^verbatim>\<open>buffer\<close> module (\<^verbatim>\<open>www/libs/mqtt.js\<close>, functions
  \<^verbatim>\<open>utf8ToBytes\<close>, \<^verbatim>\<open>utf8Slice\<close>, \<^verbatim>\<open>decodeCodePointsArray\<close>): every topic, client id and string
  payload of the MQTT client passes through it. A loop over an index becomes recursion on the
  part of the string or buffer that is still to be read. The main result is that decoding the
  encoding of a well-formed string gives the string back.
\<close>

section \<open>Encoding\<close>

text \<open>
  The byte budget \<^verbatim>\<open>units\<close> is \<^verbatim>\<open>undefined\<close> or 0 (no limit, \<open>None\<close>) or a number; it is decreased
  before each test.
\<close>

definition sub_units :: "int option \<Rightarrow> int \<Rightarrow> int option" where
  "sub_units u k = map_option (\<lambda>x. x - k) u"

definition exhausted :: "int option \<Rightarrow> bool" where
  "exhausted u = (case u of None \<Rightarrow> False | Some x \<Rightarrow> x < 0)"

definition replacement :: "int option \<Rightarrow> byte list" where
  "replacement u = (if exhausted u then [] else [0xEF, 0xBF, 0xBD])"

definition encode_code_point :: "nat \<Rightarrow> byte list" where
  "encode_code_point cp =
     (if cp < 0x80 then [of_nat cp]
      else if cp < 0x800 then
        [of_nat (drop_bit 0x6 cp OR 0xC0),
         of_nat ((cp AND 0x3F) OR 0x80)]
      else if cp < 0x10000 then
        [of_nat (drop_bit 0xC cp OR 0xE0),
         of_nat ((drop_bit 0x6 cp AND 0x3F) OR 0x80),
         of_nat ((cp AND 0x3F) OR 0x80)]
      else
        [of_nat (drop_bit 0x12 cp OR 0xF0),
         of_nat ((drop_bit 0xC cp AND 0x3F) OR 0x80),
         of_nat ((drop_bit 0x6 cp AND 0x3F) OR 0x80),
         of_nat ((cp AND 0x3F) OR 0x80)])"

definition join_surrogates :: "nat \<Rightarrow> nat \<Rightarrow> nat" where
  "join_surrogates lead trail =
     (push_bit 10 (lead - 0xD800) OR (trail - 0xDC00)) + 0x10000"

fun utf8ToBytes_loop :: "int option \<Rightarrow> nat option \<Rightarrow> jsstr \<Rightarrow> byte list" where
  "utf8ToBytes_loop units lead [] = []"
| "utf8ToBytes_loop units lead (c # rest) =
     (let cp = unat c;
          emit = (\<lambda>units cp. let enc = encode_code_point cp; units' = sub_units units (int (length enc)) in
                    if exhausted units' then [] else enc @ utf8ToBytes_loop units' None rest)
      in if cp > 0xD7FF \<and> cp < 0xE000 then
           (case lead of
              None \<Rightarrow>
                if cp > 0xDBFF \<or> rest = [] then
                  replacement (sub_units units 3) @ utf8ToBytes_loop (sub_units units 3) None rest
                else utf8ToBytes_loop units (Some cp) rest
            | Some l \<Rightarrow>
                if cp < 0xDC00 then
                  replacement (sub_units units 3) @ utf8ToBytes_loop (sub_units units 3) (Some cp) rest
                else emit units (join_surrogates l cp))
         else
           (case lead of
              None \<Rightarrow> emit units cp
            | Some l \<Rightarrow> replacement (sub_units units 3) @ emit (sub_units units 3) cp))"

definition utf8ToBytes :: "jsstr \<Rightarrow> int option \<Rightarrow> byte list" where
  "utf8ToBytes s units = utf8ToBytes_loop (if units = Some 0 then None else units) None s"

abbreviation utf8 :: "jsstr \<Rightarrow> byte list" where
  "utf8 s \<equiv> utf8ToBytes s None"

section \<open>Decoding\<close>

definition bytesPerSequence :: "byte \<Rightarrow> nat" where
  "bytesPerSequence firstByte =
     (if firstByte > 0xEF then 4 else if firstByte > 0xDF then 3 else if firstByte > 0xBF then 2 else 1)"

definition continuation :: "byte \<Rightarrow> bool" where
  "continuation b = (b AND 0xC0 = 0x80)"

text \<open>The code point of the sequence at the front of \<open>bs\<close>, when that sequence is complete and valid.\<close>

definition decode_sequence :: "byte list \<Rightarrow> nat option" where
  "decode_sequence bs =
     (let n = bytesPerSequence (bs ! 0); b0 = unat (bs ! 0) in
      if n \<le> length bs then
        (if n = 1 then (if b0 < 0x80 then Some b0 else None)
         else if n = 2 then
           (if continuation (bs ! 1) then
              (let t = push_bit 0x6 (b0 AND 0x1F) OR (unat (bs ! 1) AND 0x3F) in
               if t > 0x7F then Some t else None)
            else None)
         else if n = 3 then
           (if continuation (bs ! 1) \<and> continuation (bs ! 2) then
              (let t = push_bit 0xC (b0 AND 0xF) OR push_bit 0x6 (unat (bs ! 1) AND 0x3F)
                       OR (unat (bs ! 2) AND 0x3F) in
               if t > 0x7FF \<and> (t < 0xD800 \<or> t > 0xDFFF) then Some t else None)
            else None)
         else
           (if continuation (bs ! 1) \<and> continuation (bs ! 2) \<and> continuation (bs ! 3) then
              (let t = push_bit 0x12 (b0 AND 0xF) OR push_bit 0xC (unat (bs ! 1) AND 0x3F)
                       OR push_bit 0x6 (unat (bs ! 2) AND 0x3F) OR (unat (bs ! 3) AND 0x3F) in
               if t > 0xFFFF \<and> t < 0x110000 then Some t else None)
            else None))
      else None)"

definition code_units :: "nat \<Rightarrow> jsstr" where
  "code_units cp =
     (if cp > 0xFFFF then
        (let c = cp - 0x10000 in
         [of_nat ((drop_bit 10 c AND 0x3FF) OR 0xD800), of_nat (0xDC00 OR (c AND 0x3FF))])
      else [of_nat cp])"

lemma bytesPerSequence_pos: "0 < bytesPerSequence b"
  by (simp add: bytesPerSequence_def)

function utf8Slice_loop :: "byte list \<Rightarrow> jsstr" where
  "utf8Slice_loop [] = []"
| "utf8Slice_loop (b # bs) =
     (case decode_sequence (b # bs) of
        None \<Rightarrow> 0xFFFD # utf8Slice_loop bs
      | Some cp \<Rightarrow> code_units cp @ utf8Slice_loop (drop (bytesPerSequence b) (b # bs)))"
  by pat_completeness auto
termination
  by (relation "measure length") (auto simp: bytesPerSequence_pos)

text \<open>\<^verbatim>\<open>String.fromCharCode\<close> is applied to slices of at most \<^verbatim>\<open>MAX_ARGUMENTS_LENGTH\<close> code units.\<close>

definition MAX_ARGUMENTS_LENGTH :: nat where
  "MAX_ARGUMENTS_LENGTH = 0x1000"

lemma MAX_ARGUMENTS_LENGTH_pos: "0 < MAX_ARGUMENTS_LENGTH"
  by (simp add: MAX_ARGUMENTS_LENGTH_def)

function decodeChunks :: "jsstr \<Rightarrow> jsstr" where
  "decodeChunks res =
     (if res = [] then [] else take MAX_ARGUMENTS_LENGTH res @ decodeChunks (drop MAX_ARGUMENTS_LENGTH res))"
  by pat_completeness auto
termination
  by (relation "measure length") (auto simp: MAX_ARGUMENTS_LENGTH_pos)

declare decodeChunks.simps [simp del]

definition decodeCodePointsArray :: "jsstr \<Rightarrow> jsstr" where
  "decodeCodePointsArray res = (if length res \<le> MAX_ARGUMENTS_LENGTH then res else decodeChunks res)"

definition utf8Slice :: "byte list \<Rightarrow> nat \<Rightarrow> nat \<Rightarrow> jsstr" where
  "utf8Slice buf start end =
     decodeCodePointsArray (utf8Slice_loop (drop start (take (min (length buf) end) buf)))"

section \<open>Chunked conversion is the identity\<close>

lemma decodeChunks_id: "decodeChunks res = res"
proof (induction res rule: decodeChunks.induct)
  case (1 res)
  then show ?case
    by (subst decodeChunks.simps) auto
qed

lemma decodeCodePointsArray_id [simp]: "decodeCodePointsArray res = res"
  by (simp add: decodeCodePointsArray_def decodeChunks_id)

lemma utf8Slice_all: "length bs \<le> e \<Longrightarrow> utf8Slice bs 0 e = utf8Slice_loop bs"
  by (simp add: utf8Slice_def)

section \<open>Arithmetic of one sequence\<close>

lemma nat_and_C0: "(x::nat) < 256 \<Longrightarrow> x AND 0xC0 = x div 64 * 64"
proof -
  assume "x < 256"
  have "x AND push_bit 6 y = push_bit 6 (drop_bit 6 x AND y)" for y
    by (rule bit_eqI) (auto simp: bit_simps)
  from this [of 3] have "x AND 0xC0 = x div 64 mod 4 * 64"
    by (simp add: byte_simps)
  with \<open>x < 256\<close> show ?thesis by simp
qed

lemma continuation_iff: "continuation b \<longleftrightarrow> unat b div 64 = 2"
proof -
  have "unat (b AND 0xC0) = unat b AND 0xC0"
    by (simp add: unsigned_and_eq)
  also have "\<dots> = unat b div 64 * 64"
    by (rule nat_and_C0) simp
  finally have eq: "unat (b AND 0xC0) = unat b div 64 * 64" .
  have "continuation b \<longleftrightarrow> unat (b AND 0xC0) = unat (0x80 :: byte)"
    unfolding continuation_def by (rule word_unat_eq_iff)
  then show ?thesis by (simp add: eq)
qed

lemma bytesPerSequence_nat:
  "bytesPerSequence b =
     (if unat b > 0xEF then 4 else if unat b > 0xDF then 3 else if unat b > 0xBF then 2 else 1)"
  by (simp add: bytesPerSequence_def word_less_nat_alt)

lemma or_disjoint:
  "b < 64 \<Longrightarrow> (a * 64 :: nat) OR b = a * 64 + b"
  "b < 4096 \<Longrightarrow> (a * 4096 :: nat) OR b = a * 4096 + b"
  "b < 262144 \<Longrightarrow> (a * 262144 :: nat) OR b = a * 262144 + b"
  using nat_or_add [of b 6 a] nat_or_add [of b 12 a] nat_or_add [of b 18 a]
  by (simp_all add: mult.commute)

lemma encode_1: "cp < 0x80 \<Longrightarrow> encode_code_point cp = [of_nat cp]"
  by (simp add: encode_code_point_def)

lemma encode_2:
  "0x80 \<le> cp \<Longrightarrow> cp < 0x800 \<Longrightarrow>
     encode_code_point cp = [of_nat (cp div 64 + 192), of_nat (cp mod 64 + 128)]"
  by (simp add: encode_code_point_def byte_simps)

lemma encode_3:
  "0x800 \<le> cp \<Longrightarrow> cp < 0x10000 \<Longrightarrow>
     encode_code_point cp =
       [of_nat (cp div 4096 + 224), of_nat (cp div 64 mod 64 + 128), of_nat (cp mod 64 + 128)]"
  by (simp add: encode_code_point_def byte_simps)

lemma encode_4:
  "0x10000 \<le> cp \<Longrightarrow> cp < 0x110000 \<Longrightarrow>
     encode_code_point cp =
       [of_nat (cp div 262144 + 240), of_nat (cp div 4096 mod 64 + 128),
        of_nat (cp div 64 mod 64 + 128), of_nat (cp mod 64 + 128)]"
  by (simp add: encode_code_point_def byte_simps)

lemma length_encode_code_point:
  "length (encode_code_point cp) =
     (if cp < 0x80 then 1 else if cp < 0x800 then 2 else if cp < 0x10000 then 3 else 4)"
  by (simp add: encode_code_point_def)

definition scalar_value :: "nat \<Rightarrow> bool" where
  "scalar_value cp \<longleftrightarrow> cp < 0xD800 \<or> (0xDFFF < cp \<and> cp < 0x110000)"

lemma lead_byte:
  "n < 32 \<Longrightarrow> bytesPerSequence (of_nat (n + 192)) = 2"
  "n < 16 \<Longrightarrow> bytesPerSequence (of_nat (n + 224)) = 3"
  "n < 8 \<Longrightarrow> bytesPerSequence (of_nat (n + 240)) = 4"
  by (simp_all add: bytesPerSequence_nat del: of_nat_add)

lemma continuation_byte: "n < 64 \<Longrightarrow> continuation (of_nat (n + 128))"
  by (simp add: continuation_iff del: of_nat_add)

lemma payload_bits:
  "n < 64 \<Longrightarrow> (n + 128 :: nat) AND 0x3F = n"
  "n < 32 \<Longrightarrow> (n + 192 :: nat) AND 0x1F = n"
  "n < 16 \<Longrightarrow> (n + 224 :: nat) AND 0xF = n"
  "n < 8 \<Longrightarrow> (n + 240 :: nat) AND 0xF = n"
  using mod_mult_self1 [of n 2 64] mod_mult_self1 [of n 6 32] mod_mult_self1 [of n 14 16]
    mod_mult_self1 [of n 15 16]
  by (simp_all add: nat_and_masks)

lemmas sequence_simps = lead_byte continuation_byte payload_bits Let_def nth_Cons'
  or_disjoint nat_drop_push

lemma decode_2:
  "a < 32 \<Longrightarrow> b < 64 \<Longrightarrow> 0x7F < a * 64 + b \<Longrightarrow>
     decode_sequence (of_nat (a + 192) # of_nat (b + 128) # rest) = Some (a * 64 + b)"
  by (simp add: decode_sequence_def sequence_simps del: of_nat_add)

lemma decode_3:
  "a < 16 \<Longrightarrow> b < 64 \<Longrightarrow> c < 64 \<Longrightarrow> 0x7FF < a * 4096 + b * 64 + c \<Longrightarrow>
     a * 4096 + b * 64 + c < 0xD800 \<or> a * 4096 + b * 64 + c > 0xDFFF \<Longrightarrow>
     decode_sequence (of_nat (a + 224) # of_nat (b + 128) # of_nat (c + 128) # rest) =
       Some (a * 4096 + b * 64 + c)"
  by (simp add: decode_sequence_def sequence_simps add.assoc del: of_nat_add)

lemma decode_4:
  "a < 8 \<Longrightarrow> b < 64 \<Longrightarrow> c < 64 \<Longrightarrow> d < 64 \<Longrightarrow>
     0xFFFF < a * 262144 + b * 4096 + c * 64 + d \<Longrightarrow>
     a * 262144 + b * 4096 + c * 64 + d < 0x110000 \<Longrightarrow>
     decode_sequence (of_nat (a + 240) # of_nat (b + 128) # of_nat (c + 128) # of_nat (d + 128) # rest) =
       Some (a * 262144 + b * 4096 + c * 64 + d)"
  by (simp add: decode_sequence_def sequence_simps del: of_nat_add)

lemma split_digits:
  fixes cp :: nat
  shows "cp div 64 * 64 + cp mod 64 = cp"
    and "cp div 4096 * 4096 + cp div 64 mod 64 * 64 + cp mod 64 = cp"
    and "cp div 262144 * 262144 + cp div 4096 mod 64 * 4096 + cp div 64 mod 64 * 64 + cp mod 64 = cp"
proof -
  have q: "cp div 4096 = cp div 64 div 64" "cp div 262144 = cp div 64 div 64 div 64"
    by (simp_all add: div_mult2_eq [symmetric])
  have m: "x div 64 * 64 + x mod 64 = x" for x :: nat by simp
  show "cp div 64 * 64 + cp mod 64 = cp" by (rule m)
  show "cp div 4096 * 4096 + cp div 64 mod 64 * 64 + cp mod 64 = cp"
    using m [of cp] m [of "cp div 64"] unfolding q by linarith
  show "cp div 262144 * 262144 + cp div 4096 mod 64 * 4096 + cp div 64 mod 64 * 64 + cp mod 64 = cp"
    using m [of cp] m [of "cp div 64"] m [of "cp div 64 div 64"] unfolding q by linarith
qed

lemma decode_encode:
  assumes "scalar_value cp"
  shows "decode_sequence (encode_code_point cp @ rest) = Some cp"
proof -
  have bound: "cp < 0x110000" using assms by (auto simp: scalar_value_def)
  consider "cp < 0x80" | "0x80 \<le> cp" "cp < 0x800" | "0x800 \<le> cp" "cp < 0x10000" | "0x10000 \<le> cp"
    by linarith
  then show ?thesis
  proof cases
    case 1
    then show ?thesis
      by (simp add: encode_1 decode_sequence_def bytesPerSequence_nat)
  next
    case 2
    then have "cp div 64 < 32" by (simp add: less_mult_imp_div_less)
    with 2 show ?thesis
      using decode_2 [of "cp div 64" "cp mod 64" rest]
      by (simp add: encode_2 split_digits del: of_nat_add)
  next
    case 3
    then have "cp div 4096 < 16" by (simp add: less_mult_imp_div_less)
    moreover from assms 3 have "cp < 0xD800 \<or> cp > 0xDFFF" by (auto simp: scalar_value_def)
    ultimately show ?thesis
      using 3 decode_3 [of "cp div 4096" "cp div 64 mod 64" "cp mod 64" rest]
      by (simp add: encode_3 split_digits del: of_nat_add)
  next
    case 4
    then have "cp div 262144 < 8" using bound by (simp add: less_mult_imp_div_less)
    with 4 bound show ?thesis
      using decode_4 [of "cp div 262144" "cp div 4096 mod 64" "cp div 64 mod 64" "cp mod 64" rest]
      by (simp add: encode_4 split_digits del: of_nat_add)
  qed
qed

lemma bytesPerSequence_encode:
  assumes "cp < 0x110000"
  shows "bytesPerSequence (hd (encode_code_point cp)) = length (encode_code_point cp)"
proof -
  consider "cp < 0x80" | "0x80 \<le> cp" "cp < 0x800" | "0x800 \<le> cp" "cp < 0x10000" | "0x10000 \<le> cp"
    by linarith
  then show ?thesis
  proof cases
    case 1
    then show ?thesis by (simp add: encode_1 bytesPerSequence_nat)
  next
    case 2
    then show ?thesis by (simp add: encode_2 lead_byte less_mult_imp_div_less del: of_nat_add)
  next
    case 3
    then show ?thesis by (simp add: encode_3 lead_byte less_mult_imp_div_less del: of_nat_add)
  next
    case 4
    with assms show ?thesis by (simp add: encode_4 lead_byte less_mult_imp_div_less del: of_nat_add)
  qed
qed

lemma encode_code_point_nonempty: "encode_code_point cp \<noteq> []"
  by (simp add: encode_code_point_def)

lemma utf8Slice_loop_encode:
  assumes "scalar_value cp"
  shows "utf8Slice_loop (encode_code_point cp @ rest) = code_units cp @ utf8Slice_loop rest"
proof -
  obtain b bs where enc: "encode_code_point cp = b # bs"
    using encode_code_point_nonempty by (cases "encode_code_point cp") auto
  have dec: "decode_sequence (b # (bs @ rest)) = Some cp"
    using decode_encode [OF assms, of rest] enc by simp
  have "bytesPerSequence b = Suc (length bs)"
    using bytesPerSequence_encode [of cp] assms enc by (auto simp: scalar_value_def)
  then show ?thesis by (simp add: enc dec)
qed

section \<open>Well-formed strings\<close>

definition surrogate :: "code_unit \<Rightarrow> bool" where
  "surrogate c \<longleftrightarrow> unat c > 0xD7FF \<and> unat c < 0xE000"

definition lead_surrogate :: "code_unit \<Rightarrow> bool" where
  "lead_surrogate c \<longleftrightarrow> unat c > 0xD7FF \<and> unat c < 0xDC00"

definition trail_surrogate :: "code_unit \<Rightarrow> bool" where
  "trail_surrogate c \<longleftrightarrow> unat c > 0xDBFF \<and> unat c < 0xE000"

text \<open>Every lead surrogate is followed by a trail surrogate, and every trail follows a lead.\<close>

fun wf_utf16 :: "jsstr \<Rightarrow> bool" where
  "wf_utf16 [] = True"
| "wf_utf16 [c] = (\<not> surrogate c)"
| "wf_utf16 (c # d # rest) =
     (if surrogate c then lead_surrogate c \<and> trail_surrogate d \<and> wf_utf16 rest
      else wf_utf16 (d # rest))"

lemma wf_utf16_append: "wf_utf16 a \<Longrightarrow> wf_utf16 b \<Longrightarrow> wf_utf16 (a @ b)"
proof (induction a rule: wf_utf16.induct)
  case (2 c)
  then show ?case by (cases b) auto
qed (auto split: if_splits)

lemma utf8_Nil [simp]: "utf8 [] = []"
  by (simp add: utf8ToBytes_def)

lemma unlimited_units [simp]:
  "sub_units None k = None"
  "\<not> exhausted None"
  by (simp_all add: sub_units_def exhausted_def)

lemma utf8_bmp: "\<not> surrogate c \<Longrightarrow> utf8 (c # rest) = encode_code_point (unat c) @ utf8 rest"
  by (auto simp: utf8ToBytes_def surrogate_def Let_def)

lemma utf8_pair:
  "lead_surrogate c \<Longrightarrow> trail_surrogate d \<Longrightarrow>
     utf8 (c # d # rest) = encode_code_point (join_surrogates (unat c) (unat d)) @ utf8 rest"
  by (auto simp: utf8ToBytes_def lead_surrogate_def trail_surrogate_def Let_def)

lemma join_surrogates_eq:
  assumes "lead_surrogate c" "trail_surrogate d"
  shows "join_surrogates (unat c) (unat d) =
           (unat c - 0xD800) * 1024 + (unat d - 0xDC00) + 0x10000"
proof -
  have "unat d - 0xDC00 < 2 ^ 10" using assms by (auto simp: trail_surrogate_def)
  from nat_or_add [OF this, of "unat c - 0xD800"] show ?thesis
    by (simp add: join_surrogates_def push_bit_eq_mult mult.commute)
qed

lemma scalar_join: "lead_surrogate c \<Longrightarrow> trail_surrogate d \<Longrightarrow> scalar_value (join_surrogates (unat c) (unat d))"
  unfolding scalar_value_def join_surrogates_eq
  by (auto simp: lead_surrogate_def trail_surrogate_def)

lemma scalar_bmp: "\<not> surrogate c \<Longrightarrow> scalar_value (unat c)"
  using unat_code_unit_less [of c] unfolding surrogate_def scalar_value_def by linarith

lemma code_units_bmp: "code_units (unat c) = [c]"
proof -
  have "\<not> 0xFFFF < unat c" using unat_code_unit_less [of c] by linarith
  then show ?thesis by (simp add: code_units_def)
qed

lemma or_surrogate:
  "a < 1024 \<Longrightarrow> (a::nat) OR 0xD800 = a + 0xD800"
  "a < 1024 \<Longrightarrow> 0xDC00 OR (a::nat) = 0xDC00 + a"
  using nat_or_add [of a 10 54] nat_or_add [of a 10 55] by (simp_all add: or.commute add.commute)

lemma code_units_pair:
  assumes "lead_surrogate c" "trail_surrogate d"
  shows "code_units (join_surrogates (unat c) (unat d)) = [c, d]"
proof -
  define h where "h = unat c - 0xD800"
  define l where "l = unat d - 0xDC00"
  have h: "h < 1024" "unat c = h + 0xD800" and l: "l < 1024" "unat d = l + 0xDC00"
    using assms by (auto simp: h_def l_def lead_surrogate_def trail_surrogate_def)
  have "join_surrogates (unat c) (unat d) = h * 1024 + l + 0x10000"
    using join_surrogates_eq [OF assms] by (simp add: h_def l_def)
  then have "code_units (join_surrogates (unat c) (unat d)) = [of_nat (h + 0xD800), of_nat (0xDC00 + l)]"
    using h(1) l(1) by (simp add: code_units_def byte_simps or_surrogate Let_def del: of_nat_add)
  also have "\<dots> = [c, d]"
  proof -
    have "h + 0xD800 = unat c" "0xDC00 + l = unat d" using h l by simp_all
    then show ?thesis by (simp only: of_nat_unat ucast_id)
  qed
  finally show ?thesis .
qed

lemma utf8_decode_encode: "wf_utf16 s \<Longrightarrow> utf8Slice_loop (utf8 s) = s"
proof (induction s rule: wf_utf16.induct)
  case 1
  then show ?case by simp
next
  case (2 c)
  then show ?case
    using utf8Slice_loop_encode [OF scalar_bmp, of c "[]"] by (simp add: utf8_bmp code_units_bmp)
next
  case (3 c d rest)
  show ?case
  proof (cases "surrogate c")
    case True
    with 3 show ?thesis
      by (simp add: utf8_pair utf8Slice_loop_encode scalar_join code_units_pair)
  next
    case False
    with 3 show ?thesis
      by (simp add: utf8_bmp [of c] utf8Slice_loop_encode scalar_bmp code_units_bmp)
  qed
qed

section \<open>ASCII\<close>

definition ascii :: "jsstr \<Rightarrow> bool" where
  "ascii s \<longleftrightarrow> (\<forall>c \<in> set s. unat c < 0x80)"

lemma ascii_not_surrogate: "unat c < 0x80 \<Longrightarrow> \<not> surrogate c"
  by (simp add: surrogate_def)

lemma utf8_ascii: "ascii s \<Longrightarrow> utf8 s = map (\<lambda>c. of_nat (unat c)) s"
  by (induction s) (auto simp: ascii_def utf8_bmp ascii_not_surrogate encode_1)

lemma wf_utf16_ascii: "ascii s \<Longrightarrow> wf_utf16 s"
  by (induction s rule: wf_utf16.induct) (auto simp: ascii_def ascii_not_surrogate)

lemma length_utf8_ascii: "ascii s \<Longrightarrow> length (utf8 s) = length s"
  by (simp add: utf8_ascii)

text \<open>
  \<^bold>\<open>C14.\<close> Round trip of the transcoder: for every string without unpaired surrogates, decoding
  (\<^verbatim>\<open>utf8Slice\<close> over the whole buffer) the bytes produced by \<^verbatim>\<open>utf8ToBytes\<close> gives the string back.
\<close>

theorem utf8_roundtrip:
  assumes "wf_utf16 s"
  shows "utf8Slice (utf8ToBytes s None) 0 (length (utf8ToBytes s None)) = s"
  by (simp add: utf8Slice_all utf8_decode_encode [OF assms])

theorem utf8_roundtrip_witness:
  "utf8Slice (utf8ToBytes [0x41, 0xE9, 0x20AC, 0xD83D, 0xDE00] None) 0
     (length (utf8ToBytes [0x41, 0xE9, 0x20AC, 0xD83D, 0xDE00] None))
   = [0x41, 0xE9, 0x20AC, 0xD83D, 0xDE00]"
proof -
  have "wf_utf16 [0x41, 0xE9, 0x20AC, 0xD83D, 0xDE00]"
    by (simp add: surrogate_def lead_surrogate_def trail_surrogate_def)
  then show ?thesis by (rule utf8_roundtrip)
qed

end
