(* ===== verification/Base64_Js.thy ===== *)
theory Base64_Js
  imports Js_Utf8
begin

text \<open>
  The bundled \<^verbatim>\<open>base64-js\<close> module and the helpers of the \<^verbatim>\<open>buffer\<close> module that call it. Characters
  are code units; numbers built by shifting are natural numbers. The encoder works in chunks of
  16383 bytes; it is proved equal to the plain recursion on triples, and decoding an encoding
  gives the bytes back, with and without the clean-up that \<^verbatim>\<open>Buffer\<close> applies first.
\<close>

section \<open>Tables\<close>

definition base64_code :: string where
  "base64_code = ''ABCDEFGHIJKLMNOPQRSTUVWXYZabcdefghijklmnopqrstuvwxyz0123456789+/''"

definition lookup :: "nat \<Rightarrow> code_unit" where
  "lookup n = of_char (base64_code ! n)"

fun index_from :: "nat \<Rightarrow> code_unit \<Rightarrow> string \<Rightarrow> nat option" where
  "index_from i c [] = None"
| "index_from i c (x # xs) = (if of_char x = c then Some i else index_from (Suc i) c xs)"

text \<open>A character outside the table reads as \<^verbatim>\<open>undefined\<close>, which every shift and bitwise or takes as 0.\<close>

definition revLookup :: "code_unit \<Rightarrow> nat" where
  "revLookup c =
     (if c = of_char CHR ''-'' then 62
      else if c = of_char CHR ''_'' then 63
      else case index_from 0 c base64_code of Some i \<Rightarrow> i | None \<Rightarrow> 0)"

abbreviation pad_char :: code_unit where
  "pad_char \<equiv> of_char CHR ''=''"

section \<open>Decoding\<close>

definition placeHoldersCount :: "jsstr \<Rightarrow> nat result" where
  "placeHoldersCount b64 =
     (let len = length b64 in
      if len mod 4 > 0 then Inl (JsError ''Invalid string. Length must be a multiple of 4'')
      else Inr (if 2 \<le> len \<and> b64 ! (len - 2) = pad_char then 2
                else if 1 \<le> len \<and> b64 ! (len - 1) = pad_char then 1 else 0))"

definition byteLength_b64 :: "jsstr \<Rightarrow> nat result" where
  "byteLength_b64 b64 = rbind (placeHoldersCount b64) (\<lambda>p. Inr (length b64 * 3 div 4 - p))"

text \<open>The loop over complete groups of four characters.\<close>

fun decode_quads :: "jsstr \<Rightarrow> buffer" where
  "decode_quads (a # b # c # d # rest) =
     (let tmp = push_bit 18 (revLookup a) OR push_bit 12 (revLookup b) OR push_bit 6 (revLookup c)
                OR revLookup d
      in of_nat (drop_bit 16 tmp AND 0xFF) # of_nat (drop_bit 8 tmp AND 0xFF) # of_nat (tmp AND 0xFF)
         # decode_quads rest)"
| "decode_quads _ = []"

definition toByteArray :: "jsstr \<Rightarrow> buffer result" where
  "toByteArray b64 =
     rbind (placeHoldersCount b64) (\<lambda>placeHolders.
       let len = length b64;
           l = (if placeHolders > 0 then len - 4 else len);
           ch = (\<lambda>k. revLookup (b64 ! (l + k)))
       in Inr (decode_quads (take l b64) @
            (if placeHolders = 2 then
               (let tmp = push_bit 2 (ch 0) OR drop_bit 4 (ch 1) in [of_nat (tmp AND 0xFF)])
             else if placeHolders = 1 then
               (let tmp = push_bit 10 (ch 0) OR push_bit 4 (ch 1) OR drop_bit 2 (ch 2)
                in [of_nat (drop_bit 8 tmp AND 0xFF), of_nat (tmp AND 0xFF)])
             else [])))"

section \<open>Encoding\<close>

definition tripletToBase64 :: "nat \<Rightarrow> jsstr" where
  "tripletToBase64 num =
     [lookup (drop_bit 18 num AND 0x3F), lookup (drop_bit 12 num AND 0x3F),
      lookup (drop_bit 6 num AND 0x3F), lookup (num AND 0x3F)]"

function encodeChunk :: "buffer \<Rightarrow> nat \<Rightarrow> nat \<Rightarrow> jsstr" where
  "encodeChunk uint8 i e =
     (if i < e then
        tripletToBase64 (push_bit 16 (unat (uint8 ! i)) + push_bit 8 (unat (uint8 ! (i + 1)))
                         + unat (uint8 ! (i + 2)))
        @ encodeChunk uint8 (i + 3) e
      else [])"
  by pat_completeness auto
termination
  by (relation "measure (\<lambda>(u, i, e). e - i)") auto

declare encodeChunk.simps [simp del]

definition maxChunkLength :: nat where
  "maxChunkLength = 16383"

lemma maxChunkLength_pos: "0 < maxChunkLength"
  by (simp add: maxChunkLength_def)

lemma maxChunkLength_dvd: "3 dvd maxChunkLength"
proof -
  have "maxChunkLength = 3 * 5461" by (simp add: maxChunkLength_def)
  then show ?thesis by (rule dvdI)
qed

function encode_parts :: "buffer \<Rightarrow> nat \<Rightarrow> nat \<Rightarrow> jsstr" where
  "encode_parts uint8 i len2 =
     (if i < len2 then
        encodeChunk uint8 i (if i + maxChunkLength > len2 then len2 else i + maxChunkLength)
        @ encode_parts uint8 (i + maxChunkLength) len2
      else [])"
  by pat_completeness auto
termination
  by (relation "measure (\<lambda>(u, i, e). e - i)") (auto simp: maxChunkLength_def)

declare encode_parts.simps [simp del]

definition fromByteArray :: "buffer \<Rightarrow> jsstr" where
  "fromByteArray uint8 =
     (let len = length uint8; extraBytes = len mod 3 in
      encode_parts uint8 0 (len - extraBytes) @
      (if extraBytes = 1 then
         (let tmp = unat (uint8 ! (len - 1)) in
          [lookup (drop_bit 2 tmp), lookup (push_bit 4 tmp AND 0x3F), pad_char, pad_char])
       else if extraBytes = 2 then
         (let tmp = push_bit 8 (unat (uint8 ! (len - 2))) + unat (uint8 ! (len - 1)) in
          [lookup (drop_bit 10 tmp), lookup (drop_bit 4 tmp AND 0x3F),
           lookup (push_bit 2 tmp AND 0x3F), pad_char])
       else []))"

section \<open>The buffer module's helpers\<close>

definition valid_base64_char :: "code_unit \<Rightarrow> bool" where
  "valid_base64_char c \<longleftrightarrow>
     c \<in> set (js base64_code) \<or> c = of_char CHR ''-'' \<or> c = of_char CHR ''_''"

function pad_to_4 :: "jsstr \<Rightarrow> jsstr" where
  "pad_to_4 s = (if length s mod 4 \<noteq> 0 then pad_to_4 (s @ [pad_char]) else s)"
  by pat_completeness auto
termination
  by (relation "measure (\<lambda>s. (4 - length s mod 4) mod 4)") (auto simp: mod_Suc)

declare pad_to_4.simps [simp del]

text \<open>
  \<^verbatim>\<open>trim\<close> removes white space at both ends, which the replacement of invalid characters removes as well.
\<close>

definition base64clean :: "jsstr \<Rightarrow> jsstr" where
  "base64clean str =
     (let s = filter valid_base64_char str in if length s < 2 then [] else pad_to_4 s)"

definition base64ToBytes :: "jsstr \<Rightarrow> buffer result" where
  "base64ToBytes str = toByteArray (base64clean str)"

section \<open>The encoder as a recursion on triples\<close>

fun encode_spec :: "buffer \<Rightarrow> jsstr" where
  "encode_spec (a # b # c # rest) =
     tripletToBase64 (unat a * 65536 + unat b * 256 + unat c) @ encode_spec rest"
| "encode_spec [a, b] =
     [lookup ((unat a * 256 + unat b) div 1024), lookup ((unat a * 256 + unat b) div 16 mod 64),
      lookup ((unat a * 256 + unat b) * 4 mod 64), pad_char]"
| "encode_spec [a] = [lookup (unat a div 4), lookup (unat a * 16 mod 64), pad_char, pad_char]"
| "encode_spec [] = []"

lemma encodeChunk_append:
  "i \<le> m \<Longrightarrow> 3 dvd (m - i) \<Longrightarrow> m \<le> e \<Longrightarrow>
     encodeChunk u i e = encodeChunk u i m @ encodeChunk u m e"
proof (induction u i m rule: encodeChunk.induct)
  case (1 u i m)
  show ?case
  proof (cases "i < m")
    case True
    obtain k where k: "m - i = 3 * k" using "1.prems"(2) by (rule dvdE)
    with True have "0 < k" by (cases k) auto
    with k have "i + 3 \<le> m" "m - (i + 3) = 3 * (k - 1)" by auto
    then have "i + 3 \<le> m" "3 dvd (m - (i + 3))" by (simp_all only: dvd_triv_left)
    then have "encodeChunk u (i + 3) e = encodeChunk u (i + 3) m @ encodeChunk u m e"
      using "1.IH" True "1.prems"(3) by blast
    then show ?thesis
      using True "1.prems"(3) encodeChunk.simps [of u i e] encodeChunk.simps [of u i m] by simp
  next
    case False
    with "1.prems" have "i = m" by simp
    then show ?thesis using encodeChunk.simps [of u m m] by simp
  qed
qed

lemma encode_parts_eq: "3 dvd (len2 - i) \<Longrightarrow> encode_parts u i len2 = encodeChunk u i len2"
proof (induction u i len2 rule: encode_parts.induct)
  case (1 u i len2)
  consider "\<not> i < len2" | "i < len2" "len2 < i + maxChunkLength" | "i < len2" "i + maxChunkLength \<le> len2"
    by linarith
  then show ?case
  proof cases
    case 1
    then show ?thesis using encode_parts.simps [of u i len2] encodeChunk.simps [of u i len2] by simp
  next
    case 2
    then have "encode_parts u (i + maxChunkLength) len2 = []"
      by (simp add: encode_parts.simps [of u "i + maxChunkLength"])
    with 2 show ?thesis using encode_parts.simps [of u i len2] by simp
  next
    case 3
    have "3 dvd ((len2 - i) - maxChunkLength)"
      using "1.prems" maxChunkLength_dvd by (rule dvd_diff_nat)
    then have "3 dvd (len2 - (i + maxChunkLength))" by (simp only: diff_diff_left)
    then have IH: "encode_parts u (i + maxChunkLength) len2 = encodeChunk u (i + maxChunkLength) len2"
      using "1.IH" 3 by blast
    have "encodeChunk u i len2 = encodeChunk u i (i + maxChunkLength) @ encodeChunk u (i + maxChunkLength) len2"
      using 3 maxChunkLength_dvd by (intro encodeChunk_append) simp_all
    with 3 IH show ?thesis using encode_parts.simps [of u i len2] by simp
  qed
qed

lemma encodeChunk_shift:
  "encodeChunk (x # y # z # u) (i + 3) (e + 3) = encodeChunk u i e"
proof (induction u i e rule: encodeChunk.induct)
  case (1 u i e)
  then show ?case
    using encodeChunk.simps [of "x # y # z # u" "i + 3" "e + 3"] encodeChunk.simps [of u i e]
    by (simp add: numeral_3_eq_3)
qed

lemma nth_triple: "1 \<le> k \<Longrightarrow> k \<le> length rest \<Longrightarrow> (a # b # c # rest) ! (length rest + 3 - k) = rest ! (length rest - k)"
  by (simp add: nth_Cons')

lemma encodeChunk_triple:
  "encodeChunk (a # b # c # rest) 0 (n + 3) =
     tripletToBase64 (unat a * 65536 + unat b * 256 + unat c) @ encodeChunk rest 0 n"
  using encodeChunk.simps [of "a # b # c # rest" 0 "n + 3"] encodeChunk_shift [of a b c rest 0 n]
  by (simp add: push_bit_eq_mult nth_Cons')

lemma fromByteArray_triple:
  "fromByteArray (a # b # c # rest) =
     tripletToBase64 (unat a * 65536 + unat b * 256 + unat c) @ fromByteArray rest"
proof -
  let ?L = "length rest" and ?u = "a # b # c # rest"
  define n where "n = ?L - ?L mod 3"
  have L: "length ?u = ?L + 3" by simp
  have m: "(?L + 3) mod 3 = ?L mod 3" by (rule mod_add_self2)
  have "?L mod 3 \<le> ?L" by (rule mod_less_eq_dividend)
  then have n: "?L + 3 - ?L mod 3 = n + 3" unfolding n_def by linarith
  have "3 dvd n" unfolding n_def by (rule dvd_minus_mod)
  then have "3 dvd (n + 3 - 0)" "3 dvd (n - 0)" by simp_all
  then have parts: "encode_parts ?u 0 (n + 3) =
    tripletToBase64 (unat a * 65536 + unat b * 256 + unat c) @ encode_parts rest 0 n"
    by (simp only: encode_parts_eq encodeChunk_triple)
  have idx: "?L mod 3 = 1 \<Longrightarrow> ?u ! (?L + 3 - 1) = rest ! (?L - 1)"
    "?L mod 3 = 2 \<Longrightarrow> ?u ! (?L + 3 - 1) = rest ! (?L - 1)"
    "?L mod 3 = 2 \<Longrightarrow> ?u ! (?L + 3 - 2) = rest ! (?L - 2)"
    using \<open>?L mod 3 \<le> ?L\<close> by (intro nth_triple; linarith)+
  show ?thesis
    unfolding fromByteArray_def Let_def L m n parts n_def [symmetric]
    using idx by simp
qed

lemma fromByteArray_eq_spec: "fromByteArray bs = encode_spec bs"
proof (induction bs rule: encode_spec.induct)
  case (1 a b c rest)
  then show ?case by (simp add: fromByteArray_triple)
next
  case (2 a b)
  then show ?case
    using encode_parts.simps [of "[a, b]" 0 0] by (simp add: fromByteArray_def byte_simps Let_def)
next
  case (3 a)
  then show ?case
    using encode_parts.simps [of "[a]" 0 0] by (simp add: fromByteArray_def byte_simps Let_def)
next
  case 4
  then show ?case
    using encode_parts.simps [of "[]" 0 0] by (simp add: fromByteArray_def)
qed

section \<open>Tables are inverse to each other\<close>

lemma base64_units:
  "js base64_code =
     [65, 66, 67, 68, 69, 70, 71, 72, 73, 74, 75, 76, 77, 78, 79, 80, 81, 82, 83, 84, 85, 86, 87, 88, 89, 90,
      97, 98, 99, 100, 101, 102, 103, 104, 105, 106, 107, 108, 109, 110, 111, 112, 113, 114, 115, 116, 117,
      118, 119, 120, 121, 122, 48, 49, 50, 51, 52, 53, 54, 55, 56, 57, 43, 47]"
  by (simp add: js_def base64_code_def)

lemma distinct_base64_units: "distinct (js base64_code)"
  by (simp add: base64_units)

lemma length_base64_code: "length base64_code = 64"
  by (simp add: base64_code_def)

lemma lookup_nth: "d < 64 \<Longrightarrow> lookup d = js base64_code ! d"
  by (simp add: lookup_def js_def length_base64_code)

lemma index_from_nth:
  "distinct (js xs) \<Longrightarrow> d < length xs \<Longrightarrow> index_from i (js xs ! d) xs = Some (i + d)"
proof (induction xs arbitrary: i d)
  case Nil
  then show ?case by simp
next
  case (Cons x xs)
  then show ?case by (cases d) (auto simp: js_def)
qed

lemma lookup_in_table: "d < 64 \<Longrightarrow> lookup d \<in> set (js base64_code)"
  by (simp add: lookup_nth js_def length_base64_code)

lemma special_not_in_table:
  "pad_char \<notin> set (js base64_code)"
  "of_char CHR ''-'' \<notin> set (js base64_code)"
  "of_char CHR ''_'' \<notin> set (js base64_code)"
  by (simp_all add: base64_units)

lemma lookup_facts:
  assumes "d < 64"
  shows "revLookup (lookup d) = d" "lookup d \<noteq> pad_char" "valid_base64_char (lookup d)"
proof -
  have mem: "lookup d \<in> set (js base64_code)" using assms by (rule lookup_in_table)
  show "lookup d \<noteq> pad_char" using mem special_not_in_table(1) by metis
  show "valid_base64_char (lookup d)" using mem by (simp add: valid_base64_char_def)
  have "index_from 0 (lookup d) base64_code = Some d"
    using index_from_nth [OF distinct_base64_units, of d 0] assms
    by (simp add: lookup_nth length_base64_code)
  moreover have "lookup d \<noteq> of_char CHR ''-''" "lookup d \<noteq> of_char CHR ''_''"
    using mem special_not_in_table(2,3) by metis+
  ultimately show "revLookup (lookup d) = d" by (simp only: revLookup_def if_False option.case)
qed

lemma pad_char_invalid: "\<not> valid_base64_char pad_char"
  using special_not_in_table(1) by (simp add: valid_base64_char_def)

section \<open>Decoding an encoding\<close>

lemma triple_digits:
  fixes a b c :: nat
  assumes "a < 256" "b < 256" "c < 256"
  defines "n \<equiv> a * 65536 + b * 256 + c"
  shows "n div 262144 < 64"
    and "n div 262144 * 262144 + n div 4096 mod 64 * 4096 + n div 64 mod 64 * 64 + n mod 64 = n"
    and "n div 65536 mod 256 = a" "n div 256 mod 256 = b" "n mod 256 = c"
proof -
  have "n < 16777216" using assms by simp
  then show "n div 262144 < 64" by (simp add: less_mult_imp_div_less)
  show "n div 262144 * 262144 + n div 4096 mod 64 * 4096 + n div 64 mod 64 * 64 + n mod 64 = n"
    by (rule split_digits)
  show "n div 65536 mod 256 = a" "n div 256 mod 256 = b" "n mod 256 = c"
  proof -
    have n: "n = (a * 256 + b) * 256 + c" by (simp add: n_def)
    have "n div 256 = a * 256 + b" and mod: "n mod 256 = c"
      using div_mult_self3 [of 256 "a * 256 + b" c] mod_mult_self3 [of "a * 256 + b" 256 c] assms(3)
      by (simp_all only: n [symmetric]) simp_all
    moreover have "n div 65536 = n div 256 div 256" by (simp add: div_mult2_eq [symmetric])
    ultimately show "n div 65536 mod 256 = a" "n div 256 mod 256 = b" "n mod 256 = c"
      using assms by simp_all
  qed
qed

lemma decode_triplet:
  "decode_quads (tripletToBase64 (unat (a::byte) * 65536 + unat (b::byte) * 256 + unat (c::byte)) @ rest) =
     a # b # c # decode_quads rest"
proof -
  define n where "n = unat a * 65536 + unat b * 256 + unat c"
  note digits = triple_digits [of "unat a" "unat b" "unat c", folded n_def, simplified]
  have or: "(n div 262144) * 262144 OR (n div 4096 mod 64) * 4096 OR (n div 64 mod 64) * 64 OR n mod 64 = n"
  proof -
    have b: "x mod 64 \<le> 63" for x :: nat using mod_less_divisor [of 64 x] by linarith
    have "n div 64 mod 64 * 64 + n mod 64 < 4096"
      "n div 4096 mod 64 * 4096 + (n div 64 mod 64 * 64 + n mod 64) < 262144"
      using b [of n] b [of "n div 64"] b [of "n div 4096"] by linarith+
    then show ?thesis using digits(2) by (simp add: or_disjoint add.assoc)
  qed
  have m: "n div 262144 mod 64 = n div 262144" using digits(1) by simp
  show ?thesis
    unfolding n_def [symmetric] tripletToBase64_def
    by (simp add: lookup_facts byte_simps Let_def or m digits)
qed

lemma encode_spec_append: "length ts mod 3 = 0 \<Longrightarrow> encode_spec (ts @ rest) = encode_spec ts @ encode_spec rest"
proof (induction ts rule: encode_spec.induct)
  case (1 a b c ts)
  then show ?case by (simp add: mod_add_self2 [of "length ts" 3, simplified])
qed auto

lemma decode_encode_triples:
  "length ts mod 3 = 0 \<Longrightarrow> decode_quads (encode_spec ts) = ts \<and> length (encode_spec ts) mod 4 = 0"
proof (induction ts rule: encode_spec.induct)
  case (1 a b c ts)
  then show ?case
    by (simp add: decode_triplet mod_add_self2 [of "length ts" 3, simplified])
       (simp add: tripletToBase64_def)
qed auto

lemma encode_triples_no_pad:
  "length ts mod 3 = 0 \<Longrightarrow> pad_char \<notin> set (encode_spec ts) \<and> filter valid_base64_char (encode_spec ts) = encode_spec ts"
proof (induction ts rule: encode_spec.induct)
  case (1 a b c ts)
  then show ?case
    using mod_add_self2 [of "length ts" 3]
    by (auto simp: tripletToBase64_def lookup_facts lookup_facts(2) [simplified] byte_simps dest: sym)
qed auto

lemma placeHoldersCount_0:
  assumes "length e mod 4 = 0" "pad_char \<notin> set e"
  shows "placeHoldersCount e = Inr 0"
proof -
  have "e ! i \<noteq> pad_char" if "i < length e" for i
    using assms(2) nth_mem [OF that] by metis
  then show ?thesis using assms(1) by (auto simp: placeHoldersCount_def Let_def)
qed

lemma placeHoldersCount_tail:
  assumes "length e mod 4 = 0"
  shows "placeHoldersCount (e @ [x, y, pad_char, pad_char]) = Inr 2"
    and "z \<noteq> pad_char \<Longrightarrow> placeHoldersCount (e @ [x, y, z, pad_char]) = Inr 1"
proof -
  have "(length e + 4) mod 4 = 0" using assms by simp
  moreover have "length e + 4 - 2 = length e + 2" "length e + 4 - 1 = length e + 3" by simp_all
  ultimately show "placeHoldersCount (e @ [x, y, pad_char, pad_char]) = Inr 2"
    and "z \<noteq> pad_char \<Longrightarrow> placeHoldersCount (e @ [x, y, z, pad_char]) = Inr 1"
    by (simp_all add: placeHoldersCount_def Let_def nth_append nth_Cons' del: add_2_eq_Suc')
qed

lemma or_small:
  "b < 4 \<Longrightarrow> (a * 4 :: nat) OR b = a * 4 + b"
  "b < 16 \<Longrightarrow> (a * 16 :: nat) OR b = a * 16 + b"
  "b < 1024 \<Longrightarrow> (a * 1024 :: nat) OR b = a * 1024 + b"
  using nat_or_add [of b 2 a] nat_or_add [of b 4 a] nat_or_add [of b 10 a]
  by (simp_all add: mult.commute)

lemma one_byte_bits:
  "n < 256 \<Longrightarrow> ((n div 4) * 4 OR (n * 16 mod 64) div 16) mod 256 = (n::nat)"
proof -
  assume "n < 256"
  have "n * 16 mod 64 div 16 = n mod 4"
    using mod_mult_mult2 [of n 16 4] by simp
  moreover have "n div 4 * 4 OR n mod 4 = n" by (simp add: or_small)
  ultimately show ?thesis using \<open>n < 256\<close> by simp
qed

lemma two_byte_bits:
  "n < 65536 \<Longrightarrow> (n div 1024) * 1024 OR (n div 16 mod 64) * 16 OR (n * 4 mod 64) div 4 = (n::nat)"
proof -
  assume "n < 65536"
  have a: "n * 4 mod 64 div 4 = n mod 16"
    using mod_mult_mult2 [of n 4 16] by simp
  have q: "n div 1024 = n div 16 div 64" by (simp add: div_mult2_eq [symmetric])
  have m: "n div 16 * 16 + n mod 16 = n" "n div 16 div 64 * 64 + n div 16 mod 64 = n div 16" by simp_all
  have b: "n div 16 mod 64 \<le> 63" "n mod 16 \<le> 15"
    using mod_less_divisor [of 64 "n div 16"] mod_less_divisor [of 16 n] by linarith+
  then have "n div 16 mod 64 * 16 + n mod 16 < 1024" by linarith
  then have "(n div 1024) * 1024 OR (n div 16 mod 64) * 16 OR n mod 16 =
    (n div 1024) * 1024 + ((n div 16 mod 64) * 16 + n mod 16)"
    by (simp add: or_small)
  also have "\<dots> = n" using m unfolding q by linarith
  finally show ?thesis by (simp add: a)
qed

lemma toByteArray_triples:
  "length ts mod 3 = 0 \<Longrightarrow> toByteArray (encode_spec ts) = Inr ts"
  using decode_encode_triples [of ts] encode_triples_no_pad [of ts]
  by (simp add: toByteArray_def placeHoldersCount_0)

lemma toByteArray_one:
  assumes "length ts mod 3 = 0"
  shows "toByteArray (encode_spec ts @ encode_spec [a]) = Inr (ts @ [a])"
proof -
  have e: "decode_quads (encode_spec ts) = ts" "length (encode_spec ts) mod 4 = 0"
    using decode_encode_triples [OF assms] by auto
  have d: "unat a div 4 < 64" using unat_byte_less [of a] by linarith
  show ?thesis
    using placeHoldersCount_tail(1) [OF e(2)] d one_byte_bits [of "unat a"]
    by (simp add: toByteArray_def Let_def e(1) nth_append nth_Cons' lookup_facts byte_simps)
qed

lemma toByteArray_two:
  assumes "length ts mod 3 = 0"
  shows "toByteArray (encode_spec ts @ encode_spec [a, b]) = Inr (ts @ [a, b])"
proof -
  have e: "decode_quads (encode_spec ts) = ts" "length (encode_spec ts) mod 4 = 0"
    using decode_encode_triples [OF assms] by auto
  define n where "n = unat a * 256 + unat b"
  have "n < 65536"
    using unat_byte_less [of a] unat_byte_less [of b] unfolding n_def by linarith
  then have n: "n < 65536" "n div 256 mod 256 = unat a" "n mod 256 = unat b"
    using mod_mult_self3 [of "unat a" 256 "unat b"] by (simp_all add: n_def)
  have d: "n div 1024 < 64" using n(1) by (simp add: less_mult_imp_div_less)
  have "lookup (n * 4 mod 64) \<noteq> pad_char" by (rule lookup_facts) simp
  note ph = placeHoldersCount_tail(2) [OF e(2) this]
  show ?thesis
    using ph two_byte_bits [OF n(1)] d n(2,3)
    by (simp add: toByteArray_def Let_def e(1) nth_append nth_Cons' lookup_facts byte_simps n_def [symmetric])
qed

lemma split_mod3:
  obtains ts rest where "bs = ts @ rest" "length ts mod 3 = 0" "length rest < 3"
proof
  let ?k = "length bs - length bs mod 3"
  show "bs = take ?k bs @ drop ?k bs" by simp
  have "length (take ?k bs) = ?k" by simp
  moreover have "3 dvd ?k" by (rule dvd_minus_mod)
  ultimately show "length (take ?k bs) mod 3 = 0" by (simp only: dvd_imp_mod_0)
  show "length (drop ?k bs) < 3" by simp
qed

lemma toByteArray_encode_spec: "toByteArray (encode_spec bs) = Inr bs"
proof -
  obtain ts rest where bs: "bs = ts @ rest" "length ts mod 3 = 0" "length rest < 3"
    by (rule split_mod3)
  from bs(3) consider "rest = []" | a where "rest = [a]" | a b where "rest = [a, b]"
    by (cases rest; cases "tl rest"; cases "tl (tl rest)") auto
  then show ?thesis
    by cases (simp_all add: bs(1) encode_spec_append [OF bs(2)] toByteArray_triples [OF bs(2)]
        toByteArray_one [OF bs(2)] toByteArray_two [OF bs(2)] del: encode_spec.simps(2,3))
qed

lemma pad_to_4_simps:
  "length s mod 4 = 0 \<Longrightarrow> pad_to_4 s = s"
  "length s mod 4 = 0 \<Longrightarrow> pad_to_4 (s @ [x, y, z]) = s @ [x, y, z, pad_char]"
  "length s mod 4 = 0 \<Longrightarrow> pad_to_4 (s @ [x, y]) = s @ [x, y, pad_char, pad_char]"
proof -
  assume s: "length s mod 4 = 0"
  show "pad_to_4 s = s" using s by (simp add: pad_to_4.simps)
  have "(length s + 3) mod 4 = 3" "(length s + 4) mod 4 = 0" "(length s + 2) mod 4 = 2"
    using s mod_add_left_eq [of "length s" 4 3] mod_add_left_eq [of "length s" 4 2] by simp_all
  then have l: "length (s @ [x, y, z]) mod 4 = 3" "length (s @ [x, y, z, w]) mod 4 = 0"
    "length (s @ [x, y]) mod 4 = 2" for x y z w by (simp_all add: add.commute)
  show three: "pad_to_4 (s @ [x, y, z]) = s @ [x, y, z, pad_char]" for x y z
    using l pad_to_4.simps [of "s @ [x, y, z]"] pad_to_4.simps [of "s @ [x, y, z, pad_char]"] by simp
  show "pad_to_4 (s @ [x, y]) = s @ [x, y, pad_char, pad_char]" for x y
    using l three pad_to_4.simps [of "s @ [x, y]"] by simp
qed

lemma base64clean_encode_spec: "base64clean (encode_spec bs) = encode_spec bs"
proof -
  obtain ts rest where bs: "bs = ts @ rest" "length ts mod 3 = 0" "length rest < 3"
    by (rule split_mod3)
  note e = decode_encode_triples [OF bs(2), THEN conjunct2] encode_triples_no_pad [OF bs(2), THEN conjunct2]
  have inv: "\<not> valid_base64_char 61" using pad_char_invalid by simp
  from bs(3) consider "rest = []" | a where "rest = [a]" | a b where "rest = [a, b]"
    by (cases rest; cases "tl rest"; cases "tl (tl rest)") auto
  then show ?thesis
  proof cases
    case 1
    have "length (encode_spec ts) < 2 \<Longrightarrow> encode_spec ts = []"
      using e(1) by (cases "length (encode_spec ts)") (auto simp: mod_less)
    then show ?thesis
      using 1 e by (auto simp: bs(1) base64clean_def Let_def pad_to_4_simps)
  next
    case (2 a)
    have "unat a div 4 < 64" using unat_byte_less [of a] by linarith
    then show ?thesis
      using 2 e inv pad_to_4_simps(3) [OF e(1)]
      by (simp add: bs(1) encode_spec_append [OF bs(2)] base64clean_def Let_def lookup_facts)
  next
    case (3 a b)
    have "(unat a * 256 + unat b) div 1024 < 64"
      using unat_byte_less [of a] unat_byte_less [of b] by linarith
    then show ?thesis
      using 3 e inv pad_to_4_simps(2) [OF e(1)]
      by (simp add: bs(1) encode_spec_append [OF bs(2)] base64clean_def Let_def lookup_facts)
  qed
qed

text \<open>
  \<^bold>\<open>C16.\<close> Round trip of base64: for every buffer, decoding its chunked encoding (\<^verbatim>\<open>fromByteArray\<close>) with
  the clean-up of \<^verbatim>\<open>base64ToBytes\<close> or with \<^verbatim>\<open>toByteArray\<close> alone succeeds and gives the buffer back.
\<close>

theorem base64_roundtrip:
  "base64ToBytes (fromByteArray bs) = Inr bs \<and> toByteArray (fromByteArray bs) = Inr bs"
  by (simp add: base64ToBytes_def fromByteArray_eq_spec base64clean_encode_spec toByteArray_encode_spec)

end
