(* ===== verification/Js_Buffer.thy ===== *)
theory Js_Buffer
  imports Base64_Js
begin

text \<open>
  The \<^verbatim>\<open>Buffer\<close> class of the bundled \<^verbatim>\<open>buffer\<close> module (\<^verbatim>\<open>www/libs/mqtt.js\<close>): allocation, slicing,
  copying, concatenation, comparison, and the integer accessors. A Buffer is a list of bytes; an
  operation that writes into a Buffer returns the new contents, and an exception is an \<open>Inl\<close> value.
  A write outside a typed array is ignored by the language, as \<open>list_update\<close> does. The sharing of
  memory between a Buffer and its slices is not modelled (the MQTT code never writes into a slice).
\<close>

section \<open>Allocation\<close>

definition K_MAX_LENGTH :: int where
  [defs]: "K_MAX_LENGTH = 0x7fffffff"

definition createBuffer :: "int \<Rightarrow> buffer result" where
  [defs]: "createBuffer len =
     (if len > K_MAX_LENGTH then Inl (RangeError ''Invalid typed array length'')
      else if len < 0 then Inl (RangeError ''Invalid typed array length'')
      else Inr (replicate (nat len) 0))"

fun assertSize :: "jsval \<Rightarrow> int result" where
  "assertSize (JNum n) =
     (if n < 0 then Inl (RangeError ''\"size\" argument must not be negative'') else Inr n)"
| "assertSize (JFrac t s) =
     (if t < 0 then Inl (RangeError ''\"size\" argument must not be negative'') else Inr t)"
| "assertSize _ = Inl (TypeError ''\"size\" argument must be a number'')"

definition checked :: "int \<Rightarrow> int result" where
  [defs]: "checked len =
     (if len \<ge> K_MAX_LENGTH then Inl (RangeError ''Attempt to allocate Buffer larger than maximum size'')
      else Inr (to_int32 len))"

definition allocUnsafe :: "jsval \<Rightarrow> buffer result" where
  [defs]: "allocUnsafe sz = rbind (assertSize sz) (\<lambda>n. rbind (checked n) createBuffer)"

definition fromArrayLike :: "int list \<Rightarrow> buffer result" where
  [defs]: "fromArrayLike array =
     rbind (checked (int (length array))) (\<lambda>len.
       rbind (createBuffer len) (\<lambda>buf. Inr (map (\<lambda>x. word_of_int (x AND 255)) array)))"

section \<open>Slicing and copying\<close>

definition clamp_index :: "int \<Rightarrow> int \<Rightarrow> int" where
  \<comment> \<open>a slice bound after coercion: negative bounds count from the end, both ends are clamped\<close>
  [defs]: "clamp_index i len =
     (if i < 0 then (if i + len < 0 then 0 else i + len) else if i > len then len else i)"

definition Buffer_slice :: "buffer \<Rightarrow> int \<Rightarrow> int option \<Rightarrow> buffer" where
  [defs]: "Buffer_slice buf start end =
     (let len = int (length buf);
          s = clamp_index (to_int32 start) len;
          e0 = clamp_index (case end of None \<Rightarrow> len | Some e \<Rightarrow> to_int32 e) len;
          e = (if e0 < s then s else e0)
      in take (nat e - nat s) (drop (nat s) buf))"

definition Buffer_copy ::
  "buffer \<Rightarrow> buffer \<Rightarrow> int \<Rightarrow> int \<Rightarrow> int option \<Rightarrow> (buffer \<times> int) result" where
  [defs]: "Buffer_copy src target targetStart0 start end0 =
     (let n = int (length src); m = int (length target);
          end1 = (case end0 of None \<Rightarrow> n | Some e \<Rightarrow> e);
          targetStart = (if targetStart0 \<ge> m then m else targetStart0);
          end2 = (if end1 > 0 \<and> end1 < start then start else end1)
      in if end2 = start then Inr (target, 0)
         else if m = 0 \<or> n = 0 then Inr (target, 0)
         else if targetStart < 0 then Inl (RangeError ''targetStart out of bounds'')
         else if start < 0 \<or> start \<ge> n then Inl (RangeError ''sourceStart out of bounds'')
         else if end2 < 0 then Inl (RangeError ''sourceEnd out of bounds'')
         else
           (let end3 = (if end2 > n then n else end2);
                end4 = (if m - targetStart < end3 - start then m - targetStart + start else end3);
                len = end4 - start; ts = nat targetStart
            in Inr (take ts target @ take (nat len) (drop (nat start) src)
                      @ drop (ts + nat len) target, len)))"

fun concat_copy :: "buffer \<Rightarrow> int \<Rightarrow> buffer list \<Rightarrow> buffer result" where
  "concat_copy buffer pos [] = Inr buffer"
| "concat_copy buffer pos (buf # list) =
     rbind (Buffer_copy buf buffer pos 0 None) (\<lambda>(buffer', _).
       concat_copy buffer' (pos + int (length buf)) list)"

definition Buffer_concat :: "buffer list \<Rightarrow> int option \<Rightarrow> buffer result" where
  "Buffer_concat list len =
     (if list = [] then createBuffer 0
      else
        (let n = (case len of None \<Rightarrow> sum_list (map (int \<circ> length) list) | Some n \<Rightarrow> n) in
         rbind (allocUnsafe (JNum n)) (\<lambda>buffer. concat_copy buffer 0 list)))"

section \<open>Comparison\<close>

fun compare_loop :: "buffer \<Rightarrow> buffer \<Rightarrow> (byte \<times> byte) option" where
  \<comment> \<open>the first position of the common prefix range at which the bytes differ\<close>
  "compare_loop (x # xs) (y # ys) = (if x \<noteq> y then Some (x, y) else compare_loop xs ys)"
| "compare_loop _ _ = None"

definition Buffer_compare :: "buffer \<Rightarrow> buffer \<Rightarrow> int" where
  "Buffer_compare a b =
     (let (x, y) = (case compare_loop a b of
                      Some (p, q) \<Rightarrow> (unat p, unat q)
                    | None \<Rightarrow> (length a, length b))
      in if x < y then -1 else if y < x then 1 else 0)"

definition Buffer_equals :: "buffer \<Rightarrow> buffer \<Rightarrow> bool" where
  "Buffer_equals a b = (Buffer_compare a b = 0)"

definition Buffer_compare_range ::
  "buffer \<Rightarrow> buffer \<Rightarrow> int option \<Rightarrow> int option \<Rightarrow> int option \<Rightarrow> int option \<Rightarrow> int result" where
  "Buffer_compare_range this target start0 end0 thisStart0 thisEnd0 =
     (let start = (case start0 of None \<Rightarrow> 0 | Some s \<Rightarrow> s);
          end = (case end0 of None \<Rightarrow> int (length target) | Some e \<Rightarrow> e);
          thisStart = (case thisStart0 of None \<Rightarrow> 0 | Some s \<Rightarrow> s);
          thisEnd = (case thisEnd0 of None \<Rightarrow> int (length this) | Some e \<Rightarrow> e)
      in if start < 0 \<or> end > int (length target) \<or> thisStart < 0 \<or> thisEnd > int (length this)
         then Inl (RangeError ''out of range index'')
         else if thisStart \<ge> thisEnd \<and> start \<ge> end then Inr 0
         else if thisStart \<ge> thisEnd then Inr (-1)
         else if start \<ge> end then Inr 1
         else Inr (Buffer_compare (Buffer_slice this (to_uint32 thisStart) (Some (to_uint32 thisEnd)))
                     (Buffer_slice target (to_uint32 start) (Some (to_uint32 end)))))"

section \<open>Reading integers\<close>

text \<open>The accessors are modelled with the range check on (the argument \<^verbatim>\<open>noAssert\<close> omitted).\<close>

definition checkOffset :: "int \<Rightarrow> int \<Rightarrow> nat \<Rightarrow> unit result" where
  [defs]: "checkOffset offset ext len =
     (if offset < 0 then Inl (RangeError ''offset is not uint'')
      else if offset + ext > int len then Inl (RangeError ''Trying to access beyond buffer length'')
      else Inr ())"

definition byte_at :: "buffer \<Rightarrow> int \<Rightarrow> int" where
  [defs]: "byte_at buf i = uint (buf ! nat i)"

definition readUInt8 :: "buffer \<Rightarrow> int \<Rightarrow> int result" where
  [defs]: "readUInt8 buf offset0 =
     (let offset = to_uint32 offset0 in
      rbind (checkOffset offset 1 (length buf)) (\<lambda>_. Inr (byte_at buf offset)))"

definition readUInt16LE :: "buffer \<Rightarrow> int \<Rightarrow> int result" where
  [defs]: "readUInt16LE buf offset0 =
     (let offset = to_uint32 offset0 in
      rbind (checkOffset offset 2 (length buf)) (\<lambda>_.
        Inr (byte_at buf offset OR push_bit 8 (byte_at buf (offset + 1)))))"

definition readUInt16BE :: "buffer \<Rightarrow> int \<Rightarrow> int result" where
  [defs]: "readUInt16BE buf offset0 =
     (let offset = to_uint32 offset0 in
      rbind (checkOffset offset 2 (length buf)) (\<lambda>_.
        Inr (push_bit 8 (byte_at buf offset) OR byte_at buf (offset + 1))))"

definition readUInt32LE :: "buffer \<Rightarrow> int \<Rightarrow> int result" where
  [defs]: "readUInt32LE buf offset0 =
     (let offset = to_uint32 offset0 in
      rbind (checkOffset offset 4 (length buf)) (\<lambda>_.
        Inr ((byte_at buf offset OR push_bit 8 (byte_at buf (offset + 1))
              OR push_bit 16 (byte_at buf (offset + 2)))
             + byte_at buf (offset + 3) * 0x1000000)))"

definition readUInt32BE :: "buffer \<Rightarrow> int \<Rightarrow> int result" where
  [defs]: "readUInt32BE buf offset0 =
     (let offset = to_uint32 offset0 in
      rbind (checkOffset offset 4 (length buf)) (\<lambda>_.
        Inr (byte_at buf offset * 0x1000000
             + (push_bit 16 (byte_at buf (offset + 1)) OR push_bit 8 (byte_at buf (offset + 2))
                OR byte_at buf (offset + 3)))))"

text \<open>The loop of \<^verbatim>\<open>readUIntLE\<close>: \<open>k\<close> bytes from index \<open>i\<close> upward, each with the next power of 256.\<close>

fun read_le_loop :: "buffer \<Rightarrow> int \<Rightarrow> int \<Rightarrow> int \<Rightarrow> nat \<Rightarrow> int \<times> int" where
  "read_le_loop buf i val mul 0 = (val, mul)"
| "read_le_loop buf i val mul (Suc k) =
     read_le_loop buf (i + 1) (val + byte_at buf i * (mul * 0x100)) (mul * 0x100) k"

definition readUIntLE :: "buffer \<Rightarrow> int \<Rightarrow> nat \<Rightarrow> int result" where
  "readUIntLE buf offset0 byteLength =
     (let offset = to_uint32 offset0 in
      rbind (checkOffset offset (int byteLength) (length buf)) (\<lambda>_.
        Inr (fst (read_le_loop buf (offset + 1) (byte_at buf offset) 1 (byteLength - 1)))))"

text \<open>The loop of \<^verbatim>\<open>readUIntBE\<close>: the index runs downward from the last byte.\<close>

fun read_be_loop :: "buffer \<Rightarrow> int \<Rightarrow> int \<Rightarrow> int \<Rightarrow> nat \<Rightarrow> int \<times> int" where
  "read_be_loop buf offset val mul 0 = (val, mul)"
| "read_be_loop buf offset val mul (Suc k) =
     read_be_loop buf offset (val + byte_at buf (offset + int k) * (mul * 0x100)) (mul * 0x100) k"

definition readUIntBE :: "buffer \<Rightarrow> int \<Rightarrow> nat \<Rightarrow> int result" where
  "readUIntBE buf offset0 byteLength =
     (let offset = to_uint32 offset0 in
      rbind (checkOffset offset (int byteLength) (length buf)) (\<lambda>_.
        Inr (fst (read_be_loop buf offset (byte_at buf (offset + int byteLength - 1)) 1
                    (byteLength - 1)))))"

definition sign_fold :: "nat \<Rightarrow> int \<times> int \<Rightarrow> int" where
  "sign_fold byteLength vm =
     (let (val, mul) = vm in if val \<ge> mul * 0x80 then val - 2 ^ (8 * byteLength) else val)"

definition readIntLE :: "buffer \<Rightarrow> int \<Rightarrow> nat \<Rightarrow> int result" where
  "readIntLE buf offset0 byteLength =
     (let offset = to_uint32 offset0 in
      rbind (checkOffset offset (int byteLength) (length buf)) (\<lambda>_.
        Inr (sign_fold byteLength
               (read_le_loop buf (offset + 1) (byte_at buf offset) 1 (byteLength - 1)))))"

definition readIntBE :: "buffer \<Rightarrow> int \<Rightarrow> nat \<Rightarrow> int result" where
  "readIntBE buf offset0 byteLength =
     (let offset = to_uint32 offset0 in
      rbind (checkOffset offset (int byteLength) (length buf)) (\<lambda>_.
        Inr (sign_fold byteLength
               (read_be_loop buf offset (byte_at buf (offset + int byteLength - 1)) 1
                  (byteLength - 1)))))"

definition readInt8 :: "buffer \<Rightarrow> int \<Rightarrow> int result" where
  [defs]: "readInt8 buf offset0 =
     (let offset = to_uint32 offset0 in
      rbind (checkOffset offset 1 (length buf)) (\<lambda>_.
        Inr (if byte_at buf offset AND 0x80 = 0 then byte_at buf offset
             else (0xff - byte_at buf offset + 1) * -1)))"

definition sign16 :: "int \<Rightarrow> int" where
  [defs]: "sign16 val = (if val AND 0x8000 \<noteq> 0 then to_int32 (val OR 0xFFFF0000) else val)"

definition readInt16LE :: "buffer \<Rightarrow> int \<Rightarrow> int result" where
  [defs]: "readInt16LE buf offset0 =
     (let offset = to_uint32 offset0 in
      rbind (checkOffset offset 2 (length buf)) (\<lambda>_.
        Inr (sign16 (byte_at buf offset OR push_bit 8 (byte_at buf (offset + 1))))))"

definition readInt16BE :: "buffer \<Rightarrow> int \<Rightarrow> int result" where
  [defs]: "readInt16BE buf offset0 =
     (let offset = to_uint32 offset0 in
      rbind (checkOffset offset 2 (length buf)) (\<lambda>_.
        Inr (sign16 (byte_at buf (offset + 1) OR push_bit 8 (byte_at buf offset)))))"

definition readInt32LE :: "buffer \<Rightarrow> int \<Rightarrow> int result" where
  [defs]: "readInt32LE buf offset0 =
     (let offset = to_uint32 offset0 in
      rbind (checkOffset offset 4 (length buf)) (\<lambda>_.
        Inr (to_int32 (byte_at buf offset OR push_bit 8 (byte_at buf (offset + 1))
              OR push_bit 16 (byte_at buf (offset + 2)) OR push_bit 24 (byte_at buf (offset + 3))))))"

definition readInt32BE :: "buffer \<Rightarrow> int \<Rightarrow> int result" where
  [defs]: "readInt32BE buf offset0 =
     (let offset = to_uint32 offset0 in
      rbind (checkOffset offset 4 (length buf)) (\<lambda>_.
        Inr (to_int32 (push_bit 24 (byte_at buf offset) OR push_bit 16 (byte_at buf (offset + 1))
              OR push_bit 8 (byte_at buf (offset + 2)) OR byte_at buf (offset + 3)))))"

section \<open>Writing integers\<close>

text \<open>
  A write returns the new contents and the next offset. Division of a JavaScript number followed by
  a bitwise operator truncates towards zero.
\<close>

type_synonym write_result = "(buffer \<times> int) result"

definition tdiv :: "int \<Rightarrow> int \<Rightarrow> int" where
  [defs]: "tdiv a b = sgn a * (\<bar>a\<bar> div b)"

definition set_byte :: "buffer \<Rightarrow> int \<Rightarrow> int \<Rightarrow> buffer" where
  [defs]: "set_byte buf i v = buf[nat i := word_of_int v]"

definition checkInt :: "buffer \<Rightarrow> int \<Rightarrow> int \<Rightarrow> int \<Rightarrow> int \<Rightarrow> int \<Rightarrow> unit result" where
  [defs]: "checkInt buf val offset ext mx mn =
     (if val > mx \<or> val < mn then Inl (RangeError ''\"value\" argument is out of bounds'')
      else if offset + ext > int (length buf) then Inl (RangeError ''Index out of range'')
      else Inr ())"

definition assert_int :: "bool \<Rightarrow> unit result \<Rightarrow> unit result" where
  [defs]: "assert_int noAssert r = (if noAssert then Inr () else r)"

definition writeUInt8 :: "buffer \<Rightarrow> int \<Rightarrow> int \<Rightarrow> bool \<Rightarrow> write_result" where
  [defs]: "writeUInt8 buf val offset0 noAssert =
     (let offset = to_uint32 offset0 in
      rbind (assert_int noAssert (checkInt buf val offset 1 0xff 0)) (\<lambda>_.
        Inr (set_byte buf offset (val AND 0xff), offset + 1)))"

definition writeUInt16LE :: "buffer \<Rightarrow> int \<Rightarrow> int \<Rightarrow> bool \<Rightarrow> write_result" where
  [defs]: "writeUInt16LE buf val offset0 noAssert =
     (let offset = to_uint32 offset0 in
      rbind (assert_int noAssert (checkInt buf val offset 2 0xffff 0)) (\<lambda>_.
        Inr (set_byte (set_byte buf offset (val AND 0xff)) (offset + 1) (drop_bit 8 (to_uint32 val)),
             offset + 2)))"

definition writeUInt16BE :: "buffer \<Rightarrow> int \<Rightarrow> int \<Rightarrow> bool \<Rightarrow> write_result" where
  [defs]: "writeUInt16BE buf val offset0 noAssert =
     (let offset = to_uint32 offset0 in
      rbind (assert_int noAssert (checkInt buf val offset 2 0xffff 0)) (\<lambda>_.
        Inr (set_byte (set_byte buf offset (drop_bit 8 (to_uint32 val))) (offset + 1) (val AND 0xff),
             offset + 2)))"

definition set_le32 :: "buffer \<Rightarrow> int \<Rightarrow> int \<Rightarrow> buffer" where
  [defs]: "set_le32 buf offset val =
     set_byte (set_byte (set_byte (set_byte buf (offset + 3) (drop_bit 24 (to_uint32 val)))
       (offset + 2) (drop_bit 16 (to_uint32 val))) (offset + 1) (drop_bit 8 (to_uint32 val)))
       offset (val AND 0xff)"

definition set_be32 :: "buffer \<Rightarrow> int \<Rightarrow> int \<Rightarrow> buffer" where
  [defs]: "set_be32 buf offset val =
     set_byte (set_byte (set_byte (set_byte buf offset (drop_bit 24 (to_uint32 val)))
       (offset + 1) (drop_bit 16 (to_uint32 val))) (offset + 2) (drop_bit 8 (to_uint32 val)))
       (offset + 3) (val AND 0xff)"

definition writeUInt32LE :: "buffer \<Rightarrow> int \<Rightarrow> int \<Rightarrow> bool \<Rightarrow> write_result" where
  [defs]: "writeUInt32LE buf val offset0 noAssert =
     (let offset = to_uint32 offset0 in
      rbind (assert_int noAssert (checkInt buf val offset 4 0xffffffff 0)) (\<lambda>_.
        Inr (set_le32 buf offset val, offset + 4)))"

definition writeUInt32BE :: "buffer \<Rightarrow> int \<Rightarrow> int \<Rightarrow> bool \<Rightarrow> write_result" where
  [defs]: "writeUInt32BE buf val offset0 noAssert =
     (let offset = to_uint32 offset0 in
      rbind (assert_int noAssert (checkInt buf val offset 4 0xffffffff 0)) (\<lambda>_.
        Inr (set_be32 buf offset val, offset + 4)))"

fun write_le_loop :: "buffer \<Rightarrow> int \<Rightarrow> int \<Rightarrow> int \<Rightarrow> nat \<Rightarrow> buffer" where
  "write_le_loop buf val i mul 0 = buf"
| "write_le_loop buf val i mul (Suc k) =
     write_le_loop (set_byte buf i (tdiv val (mul * 0x100) AND 0xFF)) val (i + 1) (mul * 0x100) k"

definition writeUIntLE :: "buffer \<Rightarrow> int \<Rightarrow> int \<Rightarrow> nat \<Rightarrow> bool \<Rightarrow> write_result" where
  "writeUIntLE buf val offset0 byteLength noAssert =
     (let offset = to_uint32 offset0 in
      rbind (assert_int noAssert
               (checkInt buf val offset (int byteLength) (2 ^ (8 * byteLength) - 1) 0)) (\<lambda>_.
        Inr (write_le_loop (set_byte buf offset (val AND 0xFF)) val (offset + 1) 1 (byteLength - 1),
             offset + int byteLength)))"

fun write_be_loop :: "buffer \<Rightarrow> int \<Rightarrow> int \<Rightarrow> int \<Rightarrow> nat \<Rightarrow> buffer" where
  "write_be_loop buf val offset mul 0 = buf"
| "write_be_loop buf val offset mul (Suc k) =
     write_be_loop (set_byte buf (offset + int k) (tdiv val (mul * 0x100) AND 0xFF)) val offset (mul * 0x100) k"

definition writeUIntBE :: "buffer \<Rightarrow> int \<Rightarrow> int \<Rightarrow> nat \<Rightarrow> bool \<Rightarrow> write_result" where
  "writeUIntBE buf val offset0 byteLength noAssert =
     (let offset = to_uint32 offset0 in
      rbind (assert_int noAssert
               (checkInt buf val offset (int byteLength) (2 ^ (8 * byteLength) - 1) 0)) (\<lambda>_.
        Inr (write_be_loop (set_byte buf (offset + int byteLength - 1) (val AND 0xFF)) val offset 1
               (byteLength - 1), offset + int byteLength)))"

text \<open>
  The signed writers subtract a borrow \<^verbatim>\<open>sub\<close> once a byte written before is not zero: truncated
  division of a negative value is one above the floor exactly then.
\<close>

fun write_int_le_loop :: "buffer \<Rightarrow> int \<Rightarrow> int \<Rightarrow> int \<Rightarrow> int \<Rightarrow> nat \<Rightarrow> buffer" where
  "write_int_le_loop buf val i mul sub 0 = buf"
| "write_int_le_loop buf val i mul sub (Suc k) =
     (let sub' = (if val < 0 \<and> sub = 0 \<and> byte_at buf (i - 1) \<noteq> 0 then 1 else sub) in
      write_int_le_loop (set_byte buf i ((tdiv val (mul * 0x100) - sub') AND 0xFF)) val (i + 1)
        (mul * 0x100) sub' k)"

definition writeIntLE :: "buffer \<Rightarrow> int \<Rightarrow> int \<Rightarrow> nat \<Rightarrow> bool \<Rightarrow> write_result" where
  "writeIntLE buf val offset0 byteLength noAssert =
     (let offset = to_uint32 offset0; limit = 2 ^ (8 * byteLength - 1) in
      rbind (assert_int noAssert (checkInt buf val offset (int byteLength) (limit - 1) (- limit))) (\<lambda>_.
        Inr (write_int_le_loop (set_byte buf offset (val AND 0xFF)) val (offset + 1) 1 0 (byteLength - 1),
             offset + int byteLength)))"

fun write_int_be_loop :: "buffer \<Rightarrow> int \<Rightarrow> int \<Rightarrow> int \<Rightarrow> int \<Rightarrow> nat \<Rightarrow> buffer" where
  "write_int_be_loop buf val offset mul sub 0 = buf"
| "write_int_be_loop buf val offset mul sub (Suc k) =
     (let sub' = (if val < 0 \<and> sub = 0 \<and> byte_at buf (offset + int k + 1) \<noteq> 0 then 1 else sub) in
      write_int_be_loop (set_byte buf (offset + int k) ((tdiv val (mul * 0x100) - sub') AND 0xFF)) val
        offset (mul * 0x100) sub' k)"

definition writeIntBE :: "buffer \<Rightarrow> int \<Rightarrow> int \<Rightarrow> nat \<Rightarrow> bool \<Rightarrow> write_result" where
  "writeIntBE buf val offset0 byteLength noAssert =
     (let offset = to_uint32 offset0; limit = 2 ^ (8 * byteLength - 1) in
      rbind (assert_int noAssert (checkInt buf val offset (int byteLength) (limit - 1) (- limit))) (\<lambda>_.
        Inr (write_int_be_loop (set_byte buf (offset + int byteLength - 1) (val AND 0xFF)) val offset 1 0
               (byteLength - 1), offset + int byteLength)))"

definition writeInt8 :: "buffer \<Rightarrow> int \<Rightarrow> int \<Rightarrow> bool \<Rightarrow> write_result" where
  [defs]: "writeInt8 buf val offset0 noAssert =
     (let offset = to_uint32 offset0 in
      rbind (assert_int noAssert (checkInt buf val offset 1 0x7f (-0x80))) (\<lambda>_.
        let v = (if val < 0 then 0xff + val + 1 else val) in
        Inr (set_byte buf offset (v AND 0xff), offset + 1)))"

definition writeInt16LE :: "buffer \<Rightarrow> int \<Rightarrow> int \<Rightarrow> bool \<Rightarrow> write_result" where
  [defs]: "writeInt16LE buf val offset0 noAssert =
     (let offset = to_uint32 offset0 in
      rbind (assert_int noAssert (checkInt buf val offset 2 0x7fff (-0x8000))) (\<lambda>_.
        Inr (set_byte (set_byte buf offset (val AND 0xff)) (offset + 1) (drop_bit 8 (to_uint32 val)),
             offset + 2)))"

definition writeInt16BE :: "buffer \<Rightarrow> int \<Rightarrow> int \<Rightarrow> bool \<Rightarrow> write_result" where
  [defs]: "writeInt16BE buf val offset0 noAssert =
     (let offset = to_uint32 offset0 in
      rbind (assert_int noAssert (checkInt buf val offset 2 0x7fff (-0x8000))) (\<lambda>_.
        Inr (set_byte (set_byte buf offset (drop_bit 8 (to_uint32 val))) (offset + 1) (val AND 0xff),
             offset + 2)))"

definition writeInt32LE :: "buffer \<Rightarrow> int \<Rightarrow> int \<Rightarrow> bool \<Rightarrow> write_result" where
  [defs]: "writeInt32LE buf val offset0 noAssert =
     (let offset = to_uint32 offset0 in
      rbind (assert_int noAssert (checkInt buf val offset 4 0x7fffffff (-0x80000000))) (\<lambda>_.
        Inr (set_le32 buf offset val, offset + 4)))"

definition writeInt32BE :: "buffer \<Rightarrow> int \<Rightarrow> int \<Rightarrow> bool \<Rightarrow> write_result" where
  [defs]: "writeInt32BE buf val offset0 noAssert =
     (let offset = to_uint32 offset0 in
      rbind (assert_int noAssert (checkInt buf val offset 4 0x7fffffff (-0x80000000))) (\<lambda>_.
        let v = (if val < 0 then 0xffffffff + val + 1 else val) in
        Inr (set_be32 buf offset v, offset + 4)))"

section \<open>Lemmas on slices and copies\<close>

abbreviation small :: "buffer \<Rightarrow> bool" where
  "small buf \<equiv> int (length buf) < 2 ^ 31"

lemma Buffer_slice_nat:
  assumes "s \<le> e" "e \<le> length buf" "small buf"
  shows "Buffer_slice buf (int s) (Some (int e)) = take (e - s) (drop s buf)"
  using assms by (simp add: Buffer_slice_def clamp_index_def Let_def)

lemma Buffer_slice_from:
  assumes "s \<le> length buf" "small buf"
  shows "Buffer_slice buf (int s) None = drop s buf"
  using assms by (simp add: Buffer_slice_def clamp_index_def Let_def)

lemma Buffer_copy_all:
  assumes "p + length src \<le> length target"
  shows "Buffer_copy src target (int p) 0 None =
    Inr (take p target @ src @ drop (p + length src) target, int (length src))"
proof (cases "src = []")
  case True
  then show ?thesis by (simp add: Buffer_copy_def Let_def)
next
  case False
  then have "0 < length src" by simp
  with assms have "p < length target" by linarith
  with \<open>0 < length src\<close> assms show ?thesis
    by (auto simp: Buffer_copy_def Let_def nat_add_distrib)
qed

lemma concat_copy_fill:
  assumes "length buffer = p + length (concat list)"
  shows "concat_copy buffer (int p) list = Inr (take p buffer @ concat list)"
  using assms
proof (induction list arbitrary: buffer p)
  case Nil
  then show ?case by simp
next
  case (Cons b list)
  let ?buffer = "take p buffer @ b @ drop (p + length b) buffer"
  have "Buffer_copy b buffer (int p) 0 None = Inr (?buffer, int (length b))"
    using Cons.prems by (intro Buffer_copy_all) simp
  moreover have "concat_copy ?buffer (int (p + length b)) list = Inr (take (p + length b) ?buffer @ concat list)"
    using Cons.prems by (intro Cons.IH) simp
  moreover have "take (p + length b) ?buffer = take p buffer @ b"
    using Cons.prems by simp
  ultimately show ?case by simp
qed

lemma sum_list_int_lengths: "sum_list (map (int \<circ> length) list) = int (length (concat list))"
  by (induction list) simp_all

lemma allocUnsafe_nat: "int n < K_MAX_LENGTH \<Longrightarrow> allocUnsafe (JNum (int n)) = Inr (replicate n 0)"
  by (simp add: allocUnsafe_def checked_def createBuffer_def K_MAX_LENGTH_def)

lemma Buffer_concat_eq:
  assumes "int (length (concat list)) < K_MAX_LENGTH"
    and "len = None \<or> len = Some (int (length (concat list)))"
  shows "Buffer_concat list len = Inr (concat list)"
proof (cases "list = []")
  case True
  then show ?thesis by (simp add: Buffer_concat_def createBuffer_def K_MAX_LENGTH_def)
next
  case False
  have n: "(case len of None \<Rightarrow> sum_list (map (int \<circ> length) list) | Some n \<Rightarrow> n) = int (length (concat list))"
    using assms(2) by (auto simp: sum_list_int_lengths)
  have "concat_copy (replicate (length (concat list)) 0) (int 0) list = Inr (concat list)"
    by (subst concat_copy_fill) simp_all
  with False show ?thesis
    unfolding Buffer_concat_def n Let_def by (simp add: allocUnsafe_nat [OF assms(1)])
qed

section \<open>Lemmas on comparison\<close>

lemma compare_loop_None: "compare_loop a b = None \<Longrightarrow> length a = length b \<Longrightarrow> a = b"
  by (induction a b rule: compare_loop.induct) (auto split: if_splits)

lemma compare_loop_Some: "compare_loop a b = Some (x, y) \<Longrightarrow> x \<noteq> y"
  by (induction a b rule: compare_loop.induct) (auto split: if_splits)

lemma compare_loop_refl: "compare_loop a a = None"
  by (induction a) auto

lemma compare_loop_swap: "compare_loop b a = map_option (\<lambda>(x, y). (y, x)) (compare_loop a b)"
  by (induction a b rule: compare_loop.induct) auto

lemma Buffer_compare_0: "Buffer_compare a b = 0 \<longleftrightarrow> a = b"
proof
  assume "Buffer_compare a b = 0"
  then show "a = b"
    by (auto simp: Buffer_compare_def word_unat_eq_iff [symmetric] split: option.splits if_splits
        dest: compare_loop_None compare_loop_Some)
next
  assume "a = b"
  then show "Buffer_compare a b = 0"
    by (simp add: Buffer_compare_def compare_loop_refl)
qed

lemma Buffer_compare_swap: "Buffer_compare b a = - Buffer_compare a b"
  by (auto simp: Buffer_compare_def compare_loop_swap [of b a] split: option.splits)

section \<open>Lemmas on integer access\<close>

lemma int_or_add: "0 \<le> b \<Longrightarrow> b < 256 \<Longrightarrow> push_bit 8 a OR b = a * 256 + (b::int)"
proof -
  assume b: "0 \<le> b" "b < 256"
  have "b = take_bit 8 b" using b by (simp add: take_bit_eq_mod)
  then have small: "bit b n \<Longrightarrow> n < 8" for n by (metis bit_take_bit_iff)
  have "\<not> bit (push_bit 8 a) n \<or> \<not> bit b n" for n using small [of n] by (auto simp: bit_simps)
  then have "push_bit 8 a + b = push_bit 8 a OR b" by (rule disjunctive_add)
  then show ?thesis by (simp add: push_bit_eq_mult)
qed

lemma byte_at_range: "0 \<le> byte_at buf i \<and> byte_at buf i < 256"
  by (simp add: byte_at_def)

lemma readUInt8_nat:
  "i < length buf \<Longrightarrow> small buf \<Longrightarrow> readUInt8 buf (int i) = Inr (uint (buf ! i))"
  by (simp add: readUInt8_def checkOffset_def byte_at_def Let_def)

lemma readUInt8_beyond:
  "length buf \<le> i \<Longrightarrow> int i < 2 ^ 32 \<Longrightarrow>
     readUInt8 buf (int i) = Inl (RangeError ''Trying to access beyond buffer length'')"
  by (simp add: readUInt8_def checkOffset_def Let_def)

lemma readUInt16BE_nat:
  "i + 1 < length buf \<Longrightarrow> small buf \<Longrightarrow>
     readUInt16BE buf (int i) = Inr (uint (buf ! i) * 256 + uint (buf ! (i + 1)))"
  by (simp add: readUInt16BE_def checkOffset_def byte_at_def Let_def int_or_add nat_add_distrib)

section \<open>Integers of any width: what is written is what is read\<close>

lemma word_of_int_and_FF: "(word_of_int (x AND 0xFF) :: byte) = word_of_int x"
proof -
  have "x AND 0xFF = take_bit 8 x"
    by (simp add: take_bit_eq_mask mask_eq_exp_minus_1)
  then show ?thesis by (simp add: of_int_eq_iff word_of_int_eq_iff)
qed

lemma uint_word_of_int_byte: "uint (word_of_int x :: byte) = x mod 256"
  by (simp add: uint_word_of_int)

lemma tdiv_floor:
  assumes "0 < m"
  shows "tdiv v m - (if v < 0 \<and> \<not> m dvd v then 1 else 0) = v div m"
proof (cases "v < 0")
  case True
  then have "tdiv v m = - ((- v) div m)" by (simp add: tdiv_def)
  moreover have "v div m = (if m dvd v then - ((- v) div m) else - ((- v) div m) - 1)"
  proof -
    have "m dvd v \<longleftrightarrow> (- v) mod m = 0" by (metis dvd_eq_mod_eq_0 dvd_minus_iff)
    then show ?thesis using zdiv_zminus1_eq_if [of m "- v"] assms by auto
  qed
  ultimately show ?thesis using True by simp
next
  case False
  then show ?thesis by (cases "v = 0") (simp_all add: tdiv_def)
qed

lemma pow_dvd_Suc:
  "(256::int) ^ Suc j dvd v \<longleftrightarrow> 256 ^ j dvd v \<and> v div 256 ^ j mod 256 = 0"
proof
  assume "256 ^ Suc j dvd v"
  then obtain k where "v = 256 ^ j * (256 * k)" by (auto elim!: dvdE simp: mult.assoc mult.left_commute)
  then show "256 ^ j dvd v \<and> v div 256 ^ j mod 256 = 0" by simp
next
  assume a: "256 ^ j dvd v \<and> v div 256 ^ j mod 256 = 0"
  then obtain k where "v div 256 ^ j = 256 * k" by auto
  with a have "v = 256 ^ j * (256 * k)" by (metis dvd_mult_div_cancel)
  then show "256 ^ Suc j dvd v" by (simp add: mult.assoc mult.left_commute)
qed

definition digit :: "int \<Rightarrow> nat \<Rightarrow> byte" where
  "digit v j = word_of_int (v div 256 ^ j)"

lemma set_byte_FF: "set_byte buf (int q) (x AND 0xFF) = buf[q := word_of_int x]"
  by (simp add: set_byte_def word_of_int_and_FF)

definition borrow :: "int \<Rightarrow> nat \<Rightarrow> int" where
  "borrow v j = (if v < 0 \<and> \<not> 256 ^ j dvd v then 1 else 0)"

lemma borrow_step:
  "(if v < 0 \<and> borrow v j = 0 \<and> v div 256 ^ j mod 256 \<noteq> 0 then 1 else borrow v j) = borrow v (Suc j)"
  using pow_dvd_Suc [of j v] by (auto simp: borrow_def)

lemma borrow_digit: "tdiv v (256 ^ j) - borrow v j = v div 256 ^ j"
  unfolding borrow_def by (rule tdiv_floor) simp

lemma write_int_le_loop_nth:
  assumes "0 < q" "q + k \<le> length buf" "buf ! (q - 1) = digit v j"
  shows "length (write_int_le_loop buf v (int q) (256 ^ j) (borrow v j) k) = length buf \<and>
    (\<forall>p < length buf. write_int_le_loop buf v (int q) (256 ^ j) (borrow v j) k ! p =
       (if q \<le> p \<and> p < q + k then digit v (Suc j + (p - q)) else buf ! p))"
  using assms
proof (induction k arbitrary: buf q j)
  case 0
  then show ?case by auto
next
  case (Suc k)
  have "byte_at buf (int q - 1) = v div 256 ^ j mod 256"
    using Suc.prems by (simp add: byte_at_def digit_def uint_word_of_int_byte nat_diff_distrib)
  then have sub: "(if v < 0 \<and> borrow v j = 0 \<and> byte_at buf (int q - 1) \<noteq> 0 then 1 else borrow v j) =
    borrow v (Suc j)" by (simp add: borrow_step)
  let ?buf = "buf[q := digit v (Suc j)]"
  have step: "write_int_le_loop buf v (int q) (256 ^ j) (borrow v j) (Suc k) =
    write_int_le_loop ?buf v (int (Suc q)) (256 ^ Suc j) (borrow v (Suc j)) k"
    unfolding write_int_le_loop.simps sub Let_def set_byte_FF digit_def
    using borrow_digit [of v "Suc j"] by (simp add: mult.commute add.commute)
  have "length (write_int_le_loop ?buf v (int (Suc q)) (256 ^ Suc j) (borrow v (Suc j)) k) = length ?buf \<and>
    (\<forall>p < length ?buf. write_int_le_loop ?buf v (int (Suc q)) (256 ^ Suc j) (borrow v (Suc j)) k ! p =
       (if Suc q \<le> p \<and> p < Suc q + k then digit v (Suc (Suc j) + (p - Suc q)) else ?buf ! p))"
    using Suc.prems by (intro Suc.IH) simp_all
  then show ?case unfolding step
    by (auto simp: nth_list_update intro!: arg_cong [of _ _ "digit v"])
qed

lemma write_int_be_loop_nth:
  assumes "o1 + k < length buf" "buf ! (o1 + k) = digit v j"
  shows "length (write_int_be_loop buf v (int o1) (256 ^ j) (borrow v j) k) = length buf \<and>
    (\<forall>p < length buf. write_int_be_loop buf v (int o1) (256 ^ j) (borrow v j) k ! p =
       (if o1 \<le> p \<and> p < o1 + k then digit v (j + (o1 + k - p)) else buf ! p))"
  using assms
proof (induction k arbitrary: buf j)
  case 0
  then show ?case by auto
next
  case (Suc k)
  have "byte_at buf (int o1 + int k + 1) = v div 256 ^ j mod 256"
    using Suc.prems by (simp add: byte_at_def digit_def uint_word_of_int_byte nat_add_distrib)
  then have sub: "(if v < 0 \<and> borrow v j = 0 \<and> byte_at buf (int o1 + int k + 1) \<noteq> 0 then 1 else borrow v j) =
    borrow v (Suc j)" by (simp add: borrow_step)
  let ?buf = "buf[o1 + k := digit v (Suc j)]"
  have step: "write_int_be_loop buf v (int o1) (256 ^ j) (borrow v j) (Suc k) =
    write_int_be_loop ?buf v (int o1) (256 ^ Suc j) (borrow v (Suc j)) k"
    unfolding write_int_be_loop.simps sub Let_def digit_def
    using borrow_digit [of v "Suc j"] set_byte_FF [of buf "o1 + k"] by (simp add: mult.commute)
  have "length (write_int_be_loop ?buf v (int o1) (256 ^ Suc j) (borrow v (Suc j)) k) = length ?buf \<and>
    (\<forall>p < length ?buf. write_int_be_loop ?buf v (int o1) (256 ^ Suc j) (borrow v (Suc j)) k ! p =
       (if o1 \<le> p \<and> p < o1 + k then digit v (Suc j + (o1 + k - p)) else ?buf ! p))"
    using Suc.prems by (intro Suc.IH) simp_all
  then show ?case unfolding step
    by (auto simp: nth_list_update intro!: arg_cong [of _ _ "digit v"])
qed

lemma mod_pow_Suc: "(v::int) mod 256 ^ Suc n = v mod 256 ^ n + (v div 256 ^ n mod 256) * 256 ^ n"
  using zmod_zmult2_eq [of 256 v "256 ^ n"] by (simp add: mult.commute add.commute)

lemma byte_at_digit: "buf ! q = digit v n \<Longrightarrow> byte_at buf (int q) = v div 256 ^ n mod 256"
  by (simp add: byte_at_def digit_def uint_word_of_int_byte)

lemma read_le_loop_digits:
  assumes "\<forall>t < k. buf ! (q + t) = digit v (Suc j + t)"
  shows "read_le_loop buf (int q) (v mod 256 ^ Suc j) (256 ^ j) k = (v mod 256 ^ (Suc j + k), 256 ^ (j + k))"
  using assms
proof (induction k arbitrary: q j)
  case 0
  then show ?case by simp
next
  case (Suc k)
  have "buf ! q = digit v (Suc j)" using Suc.prems by auto
  then have val: "v mod 256 ^ Suc j + byte_at buf (int q) * (256 ^ j * 0x100) = v mod 256 ^ Suc (Suc j)"
    using mod_pow_Suc [of v "Suc j"] by (simp add: byte_at_digit mult.commute)
  have step: "read_le_loop buf (int q) (v mod 256 ^ Suc j) (256 ^ j) (Suc k) =
    read_le_loop buf (int (Suc q)) (v mod 256 ^ Suc (Suc j)) (256 ^ Suc j) k"
    unfolding read_le_loop.simps val by (simp add: mult.commute add.commute)
  have "read_le_loop buf (int (Suc q)) (v mod 256 ^ Suc (Suc j)) (256 ^ Suc j) k =
    (v mod 256 ^ (Suc (Suc j) + k), 256 ^ (Suc j + k))"
    using Suc.prems by (intro Suc.IH) (metis Suc_less_eq add_Suc add_Suc_right)
  then show ?case unfolding step by simp
qed

lemma read_be_loop_digits:
  assumes "\<forall>t < k. buf ! (o1 + t) = digit v (j + (k - t))"
  shows "read_be_loop buf (int o1) (v mod 256 ^ Suc j) (256 ^ j) k = (v mod 256 ^ (Suc j + k), 256 ^ (j + k))"
  using assms
proof (induction k arbitrary: j)
  case 0
  then show ?case by simp
next
  case (Suc k)
  have "buf ! (o1 + k) = digit v (Suc j)" using Suc.prems by auto
  then have val: "v mod 256 ^ Suc j + byte_at buf (int o1 + int k) * (256 ^ j * 0x100) = v mod 256 ^ Suc (Suc j)"
    using mod_pow_Suc [of v "Suc j"] byte_at_digit [of buf "o1 + k" v "Suc j"]
    by (simp add: mult.commute)
  have step: "read_be_loop buf (int o1) (v mod 256 ^ Suc j) (256 ^ j) (Suc k) =
    read_be_loop buf (int o1) (v mod 256 ^ Suc (Suc j)) (256 ^ Suc j) k"
    unfolding read_be_loop.simps val by (simp add: mult.commute)
  have "read_be_loop buf (int o1) (v mod 256 ^ Suc (Suc j)) (256 ^ Suc j) k =
    (v mod 256 ^ (Suc (Suc j) + k), 256 ^ (Suc j + k))"
    using Suc.prems by (intro Suc.IH) (auto simp: Suc_diff_le)
  then show ?case unfolding step by simp
qed

lemma sign_fold_mod:
  assumes "- (2 ^ (8 * Suc n - 1)) \<le> v" "v < 2 ^ (8 * Suc n - 1)"
  shows "sign_fold (Suc n) (v mod 256 ^ Suc n, 256 ^ n) = v"
proof -
  have h: "(2::int) ^ (8 * Suc n - 1) = 256 ^ n * 0x80" "(2::int) ^ (8 * Suc n) = 256 ^ Suc n"
  proof -
    have p: "(2::int) ^ (8 * n) = 256 ^ n" using power_mult [of "2::int" 8 n] by simp
    have "8 * Suc n - 1 = 8 * n + 7" "8 * Suc n = 8 * n + 8" by simp_all
    then show "(2::int) ^ (8 * Suc n - 1) = 256 ^ n * 0x80" "(2::int) ^ (8 * Suc n) = 256 ^ Suc n"
      by (simp_all only: power_add p) simp_all
  qed
  have "(0::int) < 256 ^ n" by simp
  show ?thesis
  proof (cases "v < 0")
    case True
    have "0 \<le> v + 256 ^ Suc n" "v + 256 ^ Suc n < 256 ^ Suc n"
      using assms True \<open>0 < 256 ^ n\<close> unfolding h by auto
    then have "v mod 256 ^ Suc n = v + 256 ^ Suc n"
      by (metis mod_add_self2 mod_pos_pos_trivial)
    then show ?thesis
      using assms(1) \<open>0 < 256 ^ n\<close> unfolding sign_fold_def Let_def h by auto
  next
    case False
    then have "v mod 256 ^ Suc n = v"
      using assms(2) \<open>0 < 256 ^ n\<close> unfolding h by (intro mod_pos_pos_trivial) auto
    then show ?thesis using assms(2) unfolding sign_fold_def Let_def h by auto
  qed
qed



end
