(* ===== verification/Js_Text.thy ===== *)
theory Js_Text
  imports Js_Buffer
begin

text \<open>
  Text in Buffers: the encodings known to the bundled \<^verbatim>\<open>buffer\<close> module, conversion of a string to a
  Buffer (\<^verbatim>\<open>fromString\<close>, \<^verbatim>\<open>write\<close> and its per-encoding writers) and of a Buffer to a string
  (\<^verbatim>\<open>slowToString\<close> and its per-encoding slices) and \<^verbatim>\<open>byteLength\<close>.
\<close>

section \<open>Encodings\<close>

datatype encoding = Hex | Utf8 | Ascii | Latin1 | Base64 | Ucs2

text \<open>The \<^verbatim>\<open>switch\<close> over the spellings of the encodings; \<^verbatim>\<open>toLowerCase\<close> is the ASCII one.\<close>

definition encoding_of :: "jsstr \<Rightarrow> encoding option" where
  "encoding_of e =
     (if e = js ''hex'' then Some Hex
      else if e = js ''utf8'' \<or> e = js ''utf-8'' then Some Utf8
      else if e = js ''ascii'' then Some Ascii
      else if e = js ''latin1'' \<or> e = js ''binary'' then Some Latin1
      else if e = js ''base64'' then Some Base64
      else if e = js ''ucs2'' \<or> e = js ''ucs-2'' \<or> e = js ''utf16le'' \<or> e = js ''utf-16le'' then Some Ucs2
      else None)"

definition toLowerCase :: "jsstr \<Rightarrow> jsstr" where
  "toLowerCase s = map (\<lambda>c. if 65 \<le> c \<and> c \<le> 90 then c + 32 else c) s"

definition resolve_encoding :: "jsstr \<Rightarrow> encoding option" where
  \<comment> \<open>the loop that tries the spelling as given and then in lower case\<close>
  "resolve_encoding e =
     (case encoding_of e of Some k \<Rightarrow> Some k | None \<Rightarrow> encoding_of (toLowerCase e))"

definition isEncoding :: "jsstr \<Rightarrow> bool" where
  "isEncoding e = (encoding_of (toLowerCase e) \<noteq> None)"

section \<open>Strings to bytes\<close>

definition asciiToBytes :: "jsstr \<Rightarrow> buffer" where
  "asciiToBytes str = map (\<lambda>c. of_nat (unat c AND 0xFF)) str"

fun utf16leToBytes :: "jsstr \<Rightarrow> int \<Rightarrow> buffer" where
  "utf16leToBytes [] units = []"
| "utf16leToBytes (c # str) units =
     (if units - 2 < 0 then []
      else of_nat (unat c mod 256) # of_nat (drop_bit 8 (unat c)) # utf16leToBytes str (units - 2))"

definition byteLength :: "jsstr \<Rightarrow> jsstr option \<Rightarrow> nat result" where
  "byteLength string enc =
     (let len = length string in
      if len = 0 then Inr 0
      else
        (case (case enc of None \<Rightarrow> Some Utf8 | Some e \<Rightarrow> resolve_encoding e) of
           Some Ascii \<Rightarrow> Inr len
         | Some Latin1 \<Rightarrow> Inr len
         | Some Utf8 \<Rightarrow> Inr (length (utf8ToBytes string None))
         | Some Ucs2 \<Rightarrow> Inr (len * 2)
         | Some Hex \<Rightarrow> Inr (drop_bit 1 len)
         | Some Base64 \<Rightarrow> rbind (base64ToBytes string) (\<lambda>b. Inr (length b))
         | None \<Rightarrow> Inr (length (utf8ToBytes string None))))"

text \<open>\<^verbatim>\<open>blitBuffer\<close> copies until the count, the end of the target or the end of the source is reached.\<close>

definition blitBuffer :: "buffer \<Rightarrow> buffer \<Rightarrow> nat \<Rightarrow> nat \<Rightarrow> buffer \<times> nat" where
  "blitBuffer src dst offset len =
     (let n = min len (min (length dst - offset) (length src)) in
      (take offset dst @ take n src @ drop (offset + n) dst, n))"

definition hex_digit :: "code_unit \<Rightarrow> int option" where
  "hex_digit c =
     (if 48 \<le> c \<and> c \<le> 57 then Some (uint c - 48)
      else if 97 \<le> c \<and> c \<le> 102 then Some (uint c - 87)
      else if 65 \<le> c \<and> c \<le> 70 then Some (uint c - 55)
      else None)"

definition white_space :: "code_unit \<Rightarrow> bool" where
  "white_space c \<longleftrightarrow>
     (9 \<le> c \<and> c \<le> 13) \<or> c = 32 \<or> c = 0xA0 \<or> c = 0x1680 \<or> (0x2000 \<le> c \<and> c \<le> 0x200A)
     \<or> c = 0x2028 \<or> c = 0x2029 \<or> c = 0x202F \<or> c = 0x205F \<or> c = 0x3000 \<or> c = 0xFEFF"

text \<open>\<^verbatim>\<open>parseInt(s, 16)\<close> on two characters: leading white space or a sign is skipped, an invalid tail ignored.\<close>

definition parseInt_hex2 :: "code_unit \<Rightarrow> code_unit \<Rightarrow> int option" where
  "parseInt_hex2 a b =
     (if a = 48 \<and> (b = 120 \<or> b = 88) then None
      else case hex_digit a of
        Some x \<Rightarrow> (case hex_digit b of Some y \<Rightarrow> Some (16 * x + y) | None \<Rightarrow> Some x)
      | None \<Rightarrow> if white_space a \<or> a = 43 then hex_digit b
                else if a = 45 then map_option uminus (hex_digit b)
                else None)"

fun hexWrite_loop :: "buffer \<Rightarrow> jsstr \<Rightarrow> nat \<Rightarrow> nat \<Rightarrow> buffer \<times> nat" where
  "hexWrite_loop buf (a # b # string) pos (Suc n) =
     (case parseInt_hex2 a b of
        None \<Rightarrow> (buf, 0)
      | Some v \<Rightarrow> (let (buf', k) = hexWrite_loop (buf[pos := word_of_int v]) string (Suc pos) n in (buf', Suc k)))"
| "hexWrite_loop buf _ pos _ = (buf, 0)"

definition hexWrite :: "buffer \<Rightarrow> jsstr \<Rightarrow> nat \<Rightarrow> nat \<Rightarrow> (buffer \<times> nat) result" where
  "hexWrite buf string offset len =
     (let remaining = length buf - offset;
          len1 = (if len = 0 then remaining else if len > remaining then remaining else len);
          strLen = length string
      in if strLen mod 2 \<noteq> 0 then Inl (TypeError ''Invalid hex string'')
         else Inr (hexWrite_loop buf string offset (if len1 > strLen div 2 then strLen div 2 else len1)))"

definition utf8Write :: "buffer \<Rightarrow> jsstr \<Rightarrow> nat \<Rightarrow> nat \<Rightarrow> buffer \<times> nat" where
  "utf8Write buf string offset len =
     blitBuffer (utf8ToBytes string (Some (int (length buf) - int offset))) buf offset len"

definition asciiWrite :: "buffer \<Rightarrow> jsstr \<Rightarrow> nat \<Rightarrow> nat \<Rightarrow> buffer \<times> nat" where
  "asciiWrite buf string offset len = blitBuffer (asciiToBytes string) buf offset len"

definition latin1Write :: "buffer \<Rightarrow> jsstr \<Rightarrow> nat \<Rightarrow> nat \<Rightarrow> buffer \<times> nat" where
  "latin1Write buf string offset len = asciiWrite buf string offset len"

definition base64Write :: "buffer \<Rightarrow> jsstr \<Rightarrow> nat \<Rightarrow> nat \<Rightarrow> (buffer \<times> nat) result" where
  "base64Write buf string offset len =
     rbind (base64ToBytes string) (\<lambda>b. Inr (blitBuffer b buf offset len))"

definition ucs2Write :: "buffer \<Rightarrow> jsstr \<Rightarrow> nat \<Rightarrow> nat \<Rightarrow> buffer \<times> nat" where
  "ucs2Write buf string offset len =
     blitBuffer (utf16leToBytes string (int (length buf) - int offset)) buf offset len"

text \<open>The optional arguments of \<^verbatim>\<open>Buffer#write\<close>: absent, an encoding name, or a number.\<close>

datatype write_arg = WUndef | WStr jsstr | WNum int

definition write_args ::
  "nat \<Rightarrow> write_arg \<Rightarrow> write_arg \<Rightarrow> jsstr option \<Rightarrow> (nat \<times> nat option \<times> jsstr option) result" where
  \<comment> \<open>offset, length and encoding from the overloaded argument list\<close>
  "write_args n offset len enc =
     (case offset of
        WUndef \<Rightarrow> Inr (0, Some n, Some (js ''utf8''))
      | WStr e \<Rightarrow>
          (if len = WUndef then Inr (0, Some n, Some e)
           else Inl (JsError ''Buffer.write(string, encoding, offset[, length]) is no longer supported''))
      | WNum o1 \<Rightarrow>
          (case len of
             WNum l \<Rightarrow> Inr (nat (to_uint32 o1), Some (nat (to_uint32 l)),
                           (case enc of None \<Rightarrow> Some (js ''utf8'') | Some e \<Rightarrow> Some e))
           | WStr e \<Rightarrow> Inr (nat (to_uint32 o1), None, Some e)
           | WUndef \<Rightarrow> Inr (nat (to_uint32 o1), None, None)))"

definition Buffer_write ::
  "buffer \<Rightarrow> jsstr \<Rightarrow> write_arg \<Rightarrow> write_arg \<Rightarrow> jsstr option \<Rightarrow> (buffer \<times> nat) result" where
  "Buffer_write buf string offset0 len0 enc0 =
     rbind (write_args (length buf) offset0 len0 enc0) (\<lambda>(offset, len1, enc1).
       let remaining = int (length buf) - int offset;
           len = (case len1 of None \<Rightarrow> remaining | Some l \<Rightarrow> if int l > remaining then remaining else int l);
           enc = (case enc1 of None \<Rightarrow> js ''utf8'' | Some e \<Rightarrow> if e = [] then js ''utf8'' else e);
           n = nat len
       in if (string \<noteq> [] \<and> len < 0) \<or> offset > length buf
          then Inl (RangeError ''Attempt to write outside buffer bounds'')
          else
            (case resolve_encoding enc of
               Some Hex \<Rightarrow> hexWrite buf string offset n
             | Some Utf8 \<Rightarrow> Inr (utf8Write buf string offset n)
             | Some Ascii \<Rightarrow> Inr (asciiWrite buf string offset n)
             | Some Latin1 \<Rightarrow> Inr (latin1Write buf string offset n)
             | Some Base64 \<Rightarrow> base64Write buf string offset n
             | Some Ucs2 \<Rightarrow> Inr (ucs2Write buf string offset n)
             | None \<Rightarrow> Inl (TypeError ''Unknown encoding'')))"

definition fromString :: "jsstr \<Rightarrow> jsstr option \<Rightarrow> buffer result" where
  "fromString string enc0 =
     (let enc = (case enc0 of None \<Rightarrow> js ''utf8'' | Some e \<Rightarrow> if e = [] then js ''utf8'' else e) in
      if \<not> isEncoding enc then Inl (TypeError ''\"encoding\" must be a valid string encoding'')
      else
        rbind (byteLength string (Some enc)) (\<lambda>len.
        rbind (createBuffer (to_int32 (int len))) (\<lambda>buf.
        rbind (Buffer_write buf string (WStr enc) WUndef None) (\<lambda>(buf', actual).
          Inr (if actual \<noteq> len then Buffer_slice buf' 0 (Some (int actual)) else buf')))))"

section \<open>Bytes to strings\<close>

definition asciiSlice :: "buffer \<Rightarrow> nat \<Rightarrow> nat \<Rightarrow> jsstr" where
  "asciiSlice buf start end =
     map (\<lambda>b. of_nat (unat b AND 0x7F)) (drop start (take (min (length buf) end) buf))"

definition latin1Slice :: "buffer \<Rightarrow> nat \<Rightarrow> nat \<Rightarrow> jsstr" where
  "latin1Slice buf start end =
     map (\<lambda>b. of_nat (unat b)) (drop start (take (min (length buf) end) buf))"

definition hex_char :: "nat \<Rightarrow> code_unit" where
  "hex_char d = of_nat (if d < 10 then 48 + d else 87 + d)"

definition toHex :: "byte \<Rightarrow> jsstr" where
  \<comment> \<open>\<^verbatim>\<open>n.toString(16)\<close> has one digit below 16; a zero is put in front of it\<close>
  "toHex b =
     (let n = unat b in
      if n < 16 then [48, hex_char n] else [hex_char (n div 16), hex_char (n mod 16)])"

definition hexSlice :: "buffer \<Rightarrow> nat \<Rightarrow> nat \<Rightarrow> jsstr" where
  "hexSlice buf start end0 =
     (let len = length buf; end = (if end0 = 0 \<or> end0 > len then len else end0) in
      concat (map toHex (drop start (take end buf))))"

fun utf16_pairs :: "buffer \<Rightarrow> jsstr" where
  "utf16_pairs (a # b # rest) = of_nat (unat a + unat b * 256) # utf16_pairs rest"
| "utf16_pairs [a] = [0]"  \<comment> \<open>the missing byte makes the sum NaN, which converts to code unit 0\<close>
| "utf16_pairs [] = []"

definition utf16leSlice :: "buffer \<Rightarrow> nat \<Rightarrow> nat \<Rightarrow> jsstr" where
  "utf16leSlice buf start end = utf16_pairs (Buffer_slice buf (int start) (Some (int end)))"

definition base64Slice :: "buffer \<Rightarrow> nat \<Rightarrow> nat \<Rightarrow> jsstr" where
  "base64Slice buf start end =
     (if start = 0 \<and> end = length buf then fromByteArray buf
      else fromByteArray (Buffer_slice buf (int start) (Some (int end))))"

definition slowToString :: "buffer \<Rightarrow> jsstr option \<Rightarrow> int option \<Rightarrow> int option \<Rightarrow> jsstr result" where
  "slowToString buf enc0 start0 end0 =
     (let n = int (length buf);
          start = (case start0 of None \<Rightarrow> 0 | Some s \<Rightarrow> if s < 0 then 0 else s)
      in if start > n then Inr []
         else
           (let end = (case end0 of None \<Rightarrow> n | Some e \<Rightarrow> if e > n then n else e) in
            if end \<le> 0 then Inr []
            else if to_uint32 end \<le> to_uint32 start then Inr []
            else
              (let e = nat (to_uint32 end); s = nat (to_uint32 start);
                   enc = (case enc0 of None \<Rightarrow> js ''utf8'' | Some x \<Rightarrow> if x = [] then js ''utf8'' else x)
               in case resolve_encoding enc of
                    Some Hex \<Rightarrow> Inr (hexSlice buf s e)
                  | Some Utf8 \<Rightarrow> Inr (utf8Slice buf s e)
                  | Some Ascii \<Rightarrow> Inr (asciiSlice buf s e)
                  | Some Latin1 \<Rightarrow> Inr (latin1Slice buf s e)
                  | Some Base64 \<Rightarrow> Inr (base64Slice buf s e)
                  | Some Ucs2 \<Rightarrow> Inr (utf16leSlice buf s e)
                  | None \<Rightarrow> Inl (TypeError ''Unknown encoding''))))"

definition Buffer_toString :: "buffer \<Rightarrow> (jsstr option \<times> int option \<times> int option) option \<Rightarrow> jsstr result" where
  \<comment> \<open>\<open>None\<close>: called without arguments\<close>
  "Buffer_toString buf args =
     (if length buf = 0 then Inr []
      else case args of
        None \<Rightarrow> Inr (utf8Slice buf 0 (length buf))
      | Some (enc, start, end) \<Rightarrow> slowToString buf enc start end)"

section \<open>The byte budget of the UTF-8 encoder\<close>

lemma exhausted_Some [simp]: "exhausted (Some x) \<longleftrightarrow> x < 0"
  by (simp add: exhausted_def)

lemma sub_units_Some [simp]: "sub_units (Some x) k = Some (x - k)"
  by (simp add: sub_units_def)

lemma replacement_unlimited [simp]: "replacement None = [0xEF, 0xBF, 0xBD]"
  by (simp add: replacement_def)

lemma utf8ToBytes_budget:
  "int (length (utf8ToBytes_loop None lead s)) \<le> u \<Longrightarrow>
     utf8ToBytes_loop (Some u) lead s = utf8ToBytes_loop None lead s"
proof (induction s arbitrary: u lead)
  case Nil
  then show ?case by simp
next
  case (Cons c s)
  then show ?case
    by (auto simp: Let_def replacement_def split: option.splits if_splits)
qed

lemma utf8ToBytes_exact: "utf8ToBytes s (Some (int (length (utf8 s)))) = utf8 s"
proof (cases "utf8 s = []")
  case False
  then show ?thesis
    using utf8ToBytes_budget [of None s "int (length (utf8 s))"] by (simp add: utf8ToBytes_def)
qed (simp add: utf8ToBytes_def)

section \<open>From a string to a Buffer and back\<close>

lemma blitBuffer_whole: "blitBuffer src (replicate (length src) x) 0 (length src) = (src, length src)"
  by (simp add: blitBuffer_def)

lemma resolve_utf8 [simp]: "resolve_encoding (js ''utf8'') = Some Utf8"
  by (simp add: resolve_encoding_def encoding_of_def js_def)

lemma isEncoding_utf8 [simp]: "isEncoding (js ''utf8'')"
  by (simp add: isEncoding_def encoding_of_def toLowerCase_def js_def)

lemma js_eq_Nil [simp]: "js s = [] \<longleftrightarrow> s = []"
  by (simp add: js_def)

lemma utf8_Nil_iff: "byteLength s (Some (js ''utf8'')) = Inr (length (utf8 s))"
  by (cases s) (simp_all add: byteLength_def Let_def)

lemma fromString_utf8:
  assumes "int (length (utf8 s)) < 2 ^ 31"
  shows "fromString s None = Inr (utf8 s)"
proof -
  let ?n = "length (utf8 s)"
  have c: "createBuffer (to_int32 (int ?n)) = Inr (replicate ?n 0)"
    using assms by (simp add: createBuffer_def K_MAX_LENGTH_def)
  have "Buffer_write (replicate ?n 0) s (WStr (js ''utf8'')) WUndef None = Inr (utf8 s, ?n)"
    by (simp add: Buffer_write_def write_args_def utf8Write_def utf8ToBytes_exact blitBuffer_whole Let_def)
  then show ?thesis by (simp add: fromString_def utf8_Nil_iff c)
qed

lemma toString_utf8:
  assumes "wf_utf16 s"
  shows "Buffer_toString (utf8 s) None = Inr s"
proof (cases "utf8 s = []")
  case True
  then have "s = []" using utf8_decode_encode [OF assms] by simp
  then show ?thesis by (simp add: Buffer_toString_def)
next
  case False
  then show ?thesis using utf8_decode_encode [OF assms] by (simp add: Buffer_toString_def utf8Slice_all)
qed

text \<open>
  \<^verbatim>\<open>Buffer.from(s)\<close> of a well-formed string whose encoding is shorter than \<open>2^31\<close> bytes succeeds,
  has the length that \<^verbatim>\<open>Buffer.byteLength(s)\<close> reports, and its \<^verbatim>\<open>toString()\<close> is the string.
\<close>

theorem string_buffer_roundtrip:
  assumes "wf_utf16 s" "int (length (utf8ToBytes s None)) < 2 ^ 31"
  shows "\<exists>buf. fromString s None = Inr buf \<and> byteLength s None = Inr (length buf)
    \<and> Buffer_toString buf None = Inr s"
proof -
  have "byteLength s None = Inr (length (utf8 s))"
    by (cases s) (simp_all add: byteLength_def Let_def)
  then show ?thesis using fromString_utf8 [OF assms(2)] toString_utf8 [OF assms(1)] by simp
qed

theorem string_buffer_roundtrip_witness:
  "\<exists>buf. fromString [0x68, 0xE9, 0xD83D, 0xDE00] None = Inr buf
    \<and> byteLength [0x68, 0xE9, 0xD83D, 0xDE00] None = Inr (length buf)
    \<and> Buffer_toString buf None = Inr [0x68, 0xE9, 0xD83D, 0xDE00]"
proof (rule string_buffer_roundtrip)
  show "wf_utf16 [0x68, 0xE9, 0xD83D, 0xDE00]"
    by (simp add: surrogate_def lead_surrogate_def trail_surrogate_def)
  show "int (length (utf8ToBytes [0x68, 0xE9, 0xD83D, 0xDE00] None)) < 2 ^ 31"
    by (simp add: utf8ToBytes_def Let_def length_encode_code_point)
qed

section \<open>Hexadecimal\<close>

lemma hex_digit_char: "d < 16 \<Longrightarrow> hex_digit (hex_char d) = Some (int d)"
proof -
  assume d: "d < 16"
  have u: "unat (hex_char d) = (if d < 10 then 48 + d else 87 + d)"
    using d by (simp add: hex_char_def del: of_nat_add)
  have i: "uint (hex_char d) = int (unat (hex_char d))" by simp
  show ?thesis
    using d unfolding hex_digit_def word_le_nat_alt i u by (auto simp del: of_nat_unat)
qed

lemma parseInt_toHex:
  "toHex b = [x, y] \<Longrightarrow> parseInt_hex2 x y = Some (uint b)"
proof -
  assume xy: "toHex b = [x, y]"
  have n: "unat b div 16 < 16" "unat b mod 16 < 16"
    using unat_byte_less [of b] by (auto simp: less_mult_imp_div_less simp del: unat_byte_less)
  have xy': "x = hex_char (unat b div 16)" "y = hex_char (unat b mod 16)"
    using xy by (auto simp: toHex_def Let_def hex_char_def split: if_splits)
  have "hex_digit 120 = None" "hex_digit 88 = None" by (simp_all add: hex_digit_def)
  then have "y \<noteq> 120" "y \<noteq> 88" using hex_digit_char [OF n(2)] xy' by auto
  then have "parseInt_hex2 x y = Some (16 * int (unat b div 16) + int (unat b mod 16))"
    unfolding parseInt_hex2_def using hex_digit_char [OF n(1)] hex_digit_char [OF n(2)] xy' by simp
  also have "16 * int (unat b div 16) + int (unat b mod 16) = int (unat b)"
    by (metis div_mult_mod_eq mult.commute of_nat_add of_nat_mult of_nat_numeral)
  finally show ?thesis by simp
qed

lemma hexWrite_loop_toHex:
  "hexWrite_loop buf (concat (map toHex bs)) pos (length bs) =
     (fold (\<lambda>(i, b) acc. acc[i := b]) (zip [pos..<pos + length bs] bs) buf, length bs)"
proof (induction bs arbitrary: buf pos)
  case Nil
  then show ?case by simp
next
  case (Cons b bs)
  obtain x y where xy: "toHex b = [x, y]"
    by (cases "unat b < 16") (auto simp: toHex_def Let_def)
  then show ?case
    using parseInt_toHex [OF xy] Cons.IH [of "buf[pos := b]" "Suc pos"] by (simp add: upt_conv_Cons del: upt_Suc)
qed

lemma fold_update_prefix:
  "fold (\<lambda>(i, b) acc. acc[i := b]) (zip [length p..<length p + length bs] bs) (p @ replicate (length bs) z) = p @ bs"
proof (induction bs arbitrary: p)
  case Nil
  then show ?case by simp
next
  case (Cons b bs)
  then show ?case using Cons.IH [of "p @ [b]"] by (simp add: upt_conv_Cons list_update_append del: upt_Suc)
qed

lemma length_toHex [simp]: "length (toHex b) = 2"
  by (simp add: toHex_def Let_def)

lemma length_concat_toHex: "length (concat (map toHex bs)) = 2 * length bs"
  by (induction bs) simp_all

text \<open>
  Hexadecimal text: writing with \<^verbatim>\<open>hexWrite\<close> the digits that \<^verbatim>\<open>hexSlice\<close> prints of a Buffer into a
  Buffer of the same length restores its bytes and reports all of them written.
\<close>

lemma hex_roundtrip:
  "hexWrite (replicate (length bs) 0) (hexSlice bs 0 (length bs)) 0 (length bs) = Inr (bs, length bs)"
  using fold_update_prefix [of "[]" bs 0] hexWrite_loop_toHex [of "replicate (length bs) 0" bs 0]
  by (simp add: hexWrite_def hexSlice_def length_concat_toHex Let_def)

end
