(* ===== verification/Buffer_List.thy ===== *)
theory Buffer_List
  imports Js_Text
begin

text \<open>
  The bundled \<^verbatim>\<open>bl\<close> module: a \<^verbatim>\<open>BufferList\<close> keeps the chunks received from the network and presents
  them as one Buffer, copying only when a read crosses a chunk border. The state is the list of
  chunks and the cached total length; the abstraction \<open>bl_bytes\<close> is their concatenation. Every
  operation is shown to act on the concatenation, and these laws are the interface
  \<open>byte_queue\<close> through which the packet parser uses the list. (The stream half of the class,
  \<^verbatim>\<open>pipe\<close> and its error callback, is not modelled.)
\<close>

record buffer_list =
  bufs :: "buffer list"
  bl_length :: int

definition bl_new :: buffer_list where
  [defs]: "bl_new = \<lparr>bufs = [], bl_length = 0\<rparr>"

section \<open>Operations\<close>

fun offset_loop :: "buffer list \<Rightarrow> nat \<Rightarrow> int \<Rightarrow> int \<Rightarrow> (nat \<times> int) option" where
  "offset_loop [] i tot offset = None"
| "offset_loop (b # bs) i tot offset =
     (let t = tot + int (length b) in
      if offset < t \<or> bs = [] then Some (i, offset - tot) else offset_loop bs (Suc i) t offset)"

definition bl_offset :: "buffer_list \<Rightarrow> int \<Rightarrow> (nat \<times> int) option" where
  "bl_offset l offset = (if offset = 0 then Some (0, 0) else offset_loop (bufs l) 0 0 offset)"

definition appendBuffer :: "buffer_list \<Rightarrow> buffer \<Rightarrow> buffer_list" where
  [defs]: "appendBuffer l buf = l\<lparr>bufs := bufs l @ [buf], bl_length := bl_length l + int (length buf)\<rparr>"

text \<open>What can be appended; a number is converted to its decimal string first (here already done).\<close>

datatype append_arg =
    ABuf buffer
  | AArr "append_arg list"
  | AList buffer_list
  | AStr jsstr
  | ANull

fun bl_append :: "buffer_list \<Rightarrow> append_arg \<Rightarrow> buffer_list result"
  and bl_append_all :: "buffer_list \<Rightarrow> append_arg list \<Rightarrow> buffer_list result" where
  "bl_append l (ABuf buf) = Inr (appendBuffer l buf)"
| "bl_append l (AArr args) = bl_append_all l args"
| "bl_append l (AList m) = Inr (fold (\<lambda>b acc. appendBuffer acc b) (bufs m) l)"
| "bl_append l (AStr s) = rbind (fromString s None) (\<lambda>buf. Inr (appendBuffer l buf))"
| "bl_append l ANull = Inr l"
| "bl_append_all l [] = Inr l"
| "bl_append_all l (a # args) = rbind (bl_append l a) (\<lambda>l'. bl_append_all l' args)"

text \<open>
  The copying loop of \<^verbatim>\<open>copy\<close>: \<open>start\<close> is the offset into the current chunk, \<open>n\<close> the number of bytes
  still wanted.
\<close>

fun copy_loop :: "buffer list \<Rightarrow> buffer \<Rightarrow> int \<Rightarrow> int \<Rightarrow> int \<Rightarrow> buffer result" where
  "copy_loop [] dst bufoff start n = Inr dst"
| "copy_loop (b # bs) dst bufoff start n =
     (let l = int (length b) - start in
      if n > l then
        rbind (Buffer_copy b dst bufoff start None) (\<lambda>(dst', _).
          copy_loop bs dst' (bufoff + l) 0 (n - l))
      else
        rbind (Buffer_copy b dst bufoff start (Some (start + n))) (\<lambda>(dst', _). Inr dst'))"

fun copy_chunks :: "buffer list \<Rightarrow> buffer \<Rightarrow> int \<Rightarrow> buffer result" where
  "copy_chunks [] dst bufoff = Inr dst"
| "copy_chunks (b # bs) dst bufoff =
     rbind (Buffer_copy b dst bufoff 0 None) (\<lambda>(dst', _).
       copy_chunks bs dst' (bufoff + int (length b)))"

text \<open>
  \<^verbatim>\<open>copy(dst, dstStart, srcStart, srcEnd)\<close>: without \<open>dst\<close> the Buffer that is returned, with it the new
  contents of \<open>dst\<close>. Positions inside a chunk exist whenever the bounds test has passed.
\<close>

definition bl_copy ::
  "buffer_list \<Rightarrow> buffer option \<Rightarrow> int \<Rightarrow> int option \<Rightarrow> int option \<Rightarrow> buffer result" where
  "bl_copy l dst dstStart srcStart0 srcEnd0 =
     (let srcStart = (case srcStart0 of None \<Rightarrow> 0 | Some s \<Rightarrow> if s < 0 then 0 else s);
          srcEnd = (case srcEnd0 of None \<Rightarrow> bl_length l | Some e \<Rightarrow> if e > bl_length l then bl_length l else e);
          none = (case dst of None \<Rightarrow> [] | Some d \<Rightarrow> d)
      in if srcStart \<ge> bl_length l then Inr none
         else if srcEnd \<le> 0 then Inr none
         else case bl_offset l srcStart of
           None \<Rightarrow> Inl (TypeError ''off is undefined'')
         | Some (i, start) \<Rightarrow>
             (let n = srcEnd - srcStart in
              if srcStart = 0 \<and> srcEnd = bl_length l then
                (case dst of
                   None \<Rightarrow> if length (bufs l) = 1 then Inr (bufs l ! 0)
                           else Buffer_concat (bufs l) (Some (bl_length l))
                 | Some d \<Rightarrow> copy_chunks (bufs l) d dstStart)
              else if n \<le> int (length (bufs l ! i)) - start then
                (case dst of
                   None \<Rightarrow> Inr (Buffer_slice (bufs l ! i) start (Some (start + n)))
                 | Some d \<Rightarrow> rbind (Buffer_copy (bufs l ! i) d dstStart start (Some (start + n)))
                               (\<lambda>(d', _). Inr d'))
              else
                (case dst of
                   None \<Rightarrow> rbind (allocUnsafe (JNum n)) (\<lambda>d. copy_loop (drop i (bufs l)) d 0 start n)
                 | Some d \<Rightarrow> copy_loop (drop i (bufs l)) d dstStart start n)))"

definition bl_slice :: "buffer_list \<Rightarrow> int option \<Rightarrow> int option \<Rightarrow> buffer result" where
  "bl_slice l start end =
     (let wrap = map_option (\<lambda>i. if i < 0 then i + bl_length l else i) in
      bl_copy l None 0 (wrap start) (wrap end))"

definition bl_get :: "buffer_list \<Rightarrow> int \<Rightarrow> byte option result" where
  \<comment> \<open>\<open>None\<close>: \<^verbatim>\<open>undefined\<close>\<close>
  "bl_get l index =
     rbind (bl_slice l (Some index) (Some (index + 1))) (\<lambda>b.
       Inr (case b of [] \<Rightarrow> None | x # _ \<Rightarrow> Some x))"

definition bl_toString :: "buffer_list \<Rightarrow> jsstr \<Rightarrow> int \<Rightarrow> int \<Rightarrow> jsstr result" where
  "bl_toString l enc start end =
     rbind (bl_slice l (Some start) (Some end)) (\<lambda>b. Buffer_toString b (Some (Some enc, None, None)))"

fun consume_loop :: "buffer list \<Rightarrow> int \<Rightarrow> int \<Rightarrow> buffer list \<times> int" where
  "consume_loop [] n len = ([], len)"
| "consume_loop (b # bs) n len =
     (if n \<ge> int (length b) then consume_loop bs (n - int (length b)) (len - int (length b))
      else (Buffer_slice b n None # bs, len - n))"

definition bl_consume :: "buffer_list \<Rightarrow> int \<Rightarrow> buffer_list" where
  "bl_consume l n =
     (let (bs, len) = consume_loop (bufs l) n (bl_length l) in l\<lparr>bufs := bs, bl_length := len\<rparr>)"

definition bl_duplicate :: "buffer_list \<Rightarrow> buffer_list" where
  "bl_duplicate l = fold (\<lambda>b acc. appendBuffer acc b) (bufs l) bl_new"

definition bl_destroy :: "buffer_list \<Rightarrow> buffer_list" where
  "bl_destroy l = l\<lparr>bufs := [], bl_length := 0\<rparr>"

definition bl_shallowSlice :: "buffer_list \<Rightarrow> int \<Rightarrow> int \<Rightarrow> buffer_list result" where
  "bl_shallowSlice l start0 end0 =
     (let start = (if start0 < 0 then start0 + bl_length l else start0);
          end1 = (if end0 = 0 then bl_length l else end0);
          end = (if end1 < 0 then end1 + bl_length l else end1)
      in case (bl_offset l start, bl_offset l end) of
           (Some (i, s), Some (j, e)) \<Rightarrow>
             (let bs = take (Suc j - i) (drop i (bufs l));
                  bs1 = (if s \<noteq> 0 then (case bs of [] \<Rightarrow> [] | b # r \<Rightarrow> Buffer_slice b s None # r) else bs);
                  bs2 = (if e = 0 then butlast bs1
                         else butlast bs1 @ [Buffer_slice (last bs1) 0 (Some e)])
              in Inr (fold (\<lambda>b acc. appendBuffer acc b) bs2 bl_new))
         | _ \<Rightarrow> Inl (TypeError ''offset is undefined''))"

text \<open>The reading methods: slice out as many bytes as the method needs, then read at offset 0.\<close>

definition bl_read :: "nat \<Rightarrow> (buffer \<Rightarrow> int \<Rightarrow> int result) \<Rightarrow> buffer_list \<Rightarrow> int \<Rightarrow> int result" where
  [defs]: "bl_read n rd l offset =
     rbind (bl_slice l (Some offset) (Some (offset + int n))) (\<lambda>b. rd b 0)"

definition bl_readUInt8 :: "buffer_list \<Rightarrow> int \<Rightarrow> int result" where
  "bl_readUInt8 = bl_read 1 readUInt8"

definition bl_readUInt16BE :: "buffer_list \<Rightarrow> int \<Rightarrow> int result" where
  "bl_readUInt16BE = bl_read 2 readUInt16BE"

section \<open>Abstraction and invariant\<close>

definition bl_bytes :: "buffer_list \<Rightarrow> buffer" where
  "bl_bytes l = concat (bufs l)"

definition bl_inv :: "buffer_list \<Rightarrow> bool" where
  "bl_inv l \<longleftrightarrow> bl_length l = int (length (bl_bytes l)) \<and> bl_length l < K_MAX_LENGTH"

lemma bl_bytes_new [simp]: "bl_bytes bl_new = []"
  by (simp add: bl_bytes_def bl_new_def)

lemma bl_inv_new [simp]: "bl_inv bl_new"
  by (simp add: bl_inv_def bl_new_def bl_bytes_def K_MAX_LENGTH_def)

lemma bl_bytes_appendBuffer [simp]: "bl_bytes (appendBuffer l buf) = bl_bytes l @ buf"
  by (simp add: bl_bytes_def appendBuffer_def)

lemma bl_inv_appendBuffer:
  "bl_inv l \<Longrightarrow> bl_length l + int (length buf) < K_MAX_LENGTH \<Longrightarrow> bl_inv (appendBuffer l buf)"
  by (simp add: bl_inv_def bl_bytes_def appendBuffer_def)

lemma bl_inv_length: "bl_inv l \<Longrightarrow> bl_length l = int (length (bl_bytes l))"
  by (simp add: bl_inv_def)

lemma bl_inv_chunk_small: "bl_inv l \<Longrightarrow> b \<in> set (bufs l) \<Longrightarrow> small b"
proof -
  assume "bl_inv l" and b: "b \<in> set (bufs l)"
  then have "int (length (concat (bufs l))) < K_MAX_LENGTH"
    by (simp add: bl_inv_def bl_bytes_def)
  moreover have "length b \<le> length (concat (bufs l))"
    using b by (simp add: length_concat member_le_sum_list)
  ultimately show "small b" by (simp add: K_MAX_LENGTH_def)
qed

section \<open>Every operation acts on the concatenation\<close>

lemma offset_loop_spec:
  assumes "tot \<le> off" "off < tot + int (length (concat bs))"
  shows "\<exists>k s. offset_loop bs i tot off = Some (i + k, int s) \<and> k < length bs \<and> s < length (bs ! k)
    \<and> off = tot + int (length (concat (take k bs))) + int s"
  using assms
proof (induction bs arbitrary: i tot)
  case Nil
  then show ?case by simp
next
  case (Cons b bs)
  show ?case
  proof (cases "off < tot + int (length b)")
    case True
    obtain d where d: "off = tot + int d"
      using Cons.prems(1) zle_iff_zadd by blast
    with True show ?thesis
      by (intro exI [of _ 0] exI [of _ d]) (simp add: Let_def)
  next
    case False
    have ne: "bs \<noteq> []" using False Cons.prems by auto
    from False Cons.prems have "\<exists>k s. offset_loop bs (Suc i) (tot + int (length b)) off = Some (Suc i + k, int s)
      \<and> k < length bs \<and> s < length (bs ! k)
      \<and> off = tot + int (length b) + int (length (concat (take k bs))) + int s"
      by (intro Cons.IH) auto
    then obtain k s where "offset_loop bs (Suc i) (tot + int (length b)) off = Some (Suc i + k, int s)"
      "k < length bs" "s < length (bs ! k)"
      "off = tot + int (length b) + int (length (concat (take k bs))) + int s" by blast
    with False ne show ?thesis
      by (intro exI [of _ "Suc k"] exI [of _ s]) (simp add: Let_def)
  qed
qed

lemma Buffer_copy_range:
  assumes "s \<le> e" "e \<le> length src" "p + (e - s) \<le> length target"
  shows "Buffer_copy src target (int p) (int s) (Some (int e)) =
    Inr (take p target @ take (e - s) (drop s src) @ drop (p + (e - s)) target, int (e - s))"
proof (cases "s = e")
  case True
  then show ?thesis by (simp add: Buffer_copy_def Let_def)
next
  case False
  with assms have "s < e" "0 < length src" "p < length target" by linarith+
  with assms show ?thesis
    by (auto simp: Buffer_copy_def Let_def nat_diff_distrib of_nat_diff)
qed

lemma Buffer_copy_from:
  assumes "s \<le> length src" "p + (length src - s) \<le> length target"
  shows "Buffer_copy src target (int p) (int s) None =
    Inr (take p target @ drop s src @ drop (p + (length src - s)) target, int (length src - s))"
  using Buffer_copy_range [of s "length src" src p target] assms
  by (simp add: Buffer_copy_def)

lemma copy_loop_spec:
  assumes "n \<le> length (concat bs) - start" "0 < n" "start \<le> length (hd bs)" "bs \<noteq> []"
    "p + n \<le> length dst"
  shows "copy_loop bs dst (int p) (int start) (int n) =
    Inr (take p dst @ take n (drop start (concat bs)) @ drop (p + n) dst)"
  using assms
proof (induction bs arbitrary: dst p start n)
  case Nil
  then show ?case by simp
next
  case (Cons b bs)
  define l where "l = length b - start"
  have l: "int (length b) - int start = int l" using Cons.prems by (simp add: l_def of_nat_diff)
  show ?case
  proof (cases "n > l")
    case True
    then have ne: "bs \<noteq> []" using Cons.prems by (auto simp: l_def)
    let ?dst = "take p dst @ drop start b @ drop (p + l) dst"
    have c: "Buffer_copy b dst (int p) (int start) None = Inr (?dst, int l)"
      using Buffer_copy_from [of start b p dst] Cons.prems True by (simp add: l_def)
    have "copy_loop bs ?dst (int (p + l)) (int 0) (int (n - l)) =
      Inr (take (p + l) ?dst @ take (n - l) (drop 0 (concat bs)) @ drop (p + l + (n - l)) ?dst)"
      using Cons.prems True ne by (intro Cons.IH) (auto simp: l_def)
    moreover have "take (p + l) ?dst = take p dst @ drop start b"
      "drop (p + l + (n - l)) ?dst = drop (p + n) dst"
      using Cons.prems True by (simp_all add: l_def add.commute)
    moreover have "take n (drop start (concat (b # bs))) = drop start b @ take (n - l) (concat bs)"
      using Cons.prems True by (simp add: l_def)
    ultimately show ?thesis
      using True Cons.prems by (simp add: Let_def l c of_nat_diff)
  next
    case False
    then have "Buffer_copy b dst (int p) (int start) (Some (int start + int n)) =
      Inr (take p dst @ take n (drop start b) @ drop (p + n) dst, int n)"
      using Buffer_copy_range [of start "start + n" b p dst] Cons.prems by (simp add: l_def)
    moreover have "take n (drop start (concat (b # bs))) = take n (drop start b)"
      using False Cons.prems by (simp add: l_def)
    ultimately show ?thesis using False by (simp add: Let_def l)
  qed
qed

lemma take_drop_concat_chunk:
  assumes "k < length bs" "s + n \<le> length (bs ! k)"
  shows "take n (drop (length (concat (take k bs)) + s) (concat bs)) = take n (drop s (bs ! k))"
proof -
  have "concat bs = concat (take k bs) @ bs ! k @ concat (drop (Suc k) bs)"
    using assms(1) by (metis append_take_drop_id concat.simps(2) concat_append drop_Cons_nth)
  then have "drop (length (concat (take k bs)) + s) (concat bs) = drop s (bs ! k) @ drop (s - length (bs ! k)) (concat (drop (Suc k) bs))"
    by simp
  with assms(2) show ?thesis by simp
qed

lemma bl_offset_spec:
  assumes "off < length (concat (bufs l))" "off \<noteq> 0"
  shows "\<exists>k s. bl_offset l (int off) = Some (k, int s) \<and> k < length (bufs l) \<and> s < length (bufs l ! k)
    \<and> off = length (concat (take k (bufs l))) + s"
proof -
  obtain k s where "offset_loop (bufs l) 0 0 (int off) = Some (0 + k, int s)" "k < length (bufs l)"
    "s < length (bufs l ! k)" "int off = 0 + int (length (concat (take k (bufs l)))) + int s"
    using offset_loop_spec [of 0 "int off" "bufs l" 0] assms(1) by force
  then show ?thesis using assms(2) by (auto simp: bl_offset_def)
qed

lemma bl_slice_inner:
  assumes inv: "bl_inv l" and se: "s \<le> e" "0 < e" "s < length (bl_bytes l)" "e \<le> length (bl_bytes l)"
  shows "bl_copy l None 0 (Some (int s)) (Some (int e)) = Inr (take (e - s) (drop s (bl_bytes l)))"
proof (cases "s = 0 \<and> e = length (bl_bytes l)")
  case True
  have "bl_offset l 0 = Some (0, 0)" by (simp add: bl_offset_def)
  moreover have "length (bufs l) = 1 \<Longrightarrow> bufs l ! 0 = concat (bufs l)"
    by (cases "bufs l") auto
  moreover have "Buffer_concat (bufs l) (Some (bl_length l)) = Inr (concat (bufs l))"
    using inv by (intro Buffer_concat_eq) (auto simp: bl_inv_def bl_bytes_def)
  ultimately show ?thesis
    using True se inv by (auto simp: bl_copy_def bl_inv_length [OF inv] bl_bytes_def Let_def)
next
  case whole: False
  have "\<exists>k t. bl_offset l (int s) = Some (k, int t) \<and> k < length (bufs l) \<and> t \<le> length (bufs l ! k)
    \<and> s = length (concat (take k (bufs l))) + t"
  proof (cases "s = 0")
    case True
    moreover have "bufs l \<noteq> []" using se by (auto simp: bl_bytes_def)
    ultimately show ?thesis by (intro exI [of _ 0]) (simp add: bl_offset_def)
  next
    case False
    then show ?thesis using bl_offset_spec [of s l] se by (force simp: bl_bytes_def)
  qed
  then obtain k t where off: "bl_offset l (int s) = Some (k, int t)" "k < length (bufs l)"
    "t \<le> length (bufs l ! k)" "s = length (concat (take k (bufs l))) + t" by blast
  have n: "int e - int s = int (e - s)" using se by simp
  have cond: "\<not> (int s = 0 \<and> int e = bl_length l)" "\<not> int s \<ge> bl_length l" "\<not> int e \<le> 0" "\<not> int e > bl_length l"
    using whole se inv by (auto simp: bl_inv_length)
  show ?thesis
  proof (cases "e - s \<le> length (bufs l ! k) - t")
    case True
    then have "int (e - s) \<le> int (length (bufs l ! k)) - int t" using off(3) by linarith
    moreover have "Buffer_slice (bufs l ! k) (int t) (Some (int t + int (e - s))) = take (e - s) (drop t (bufs l ! k))"
      using Buffer_slice_nat [of t "t + (e - s)" "bufs l ! k"] True off(2,3) bl_inv_chunk_small [OF inv]
      by simp
    moreover have "take (e - s) (drop s (bl_bytes l)) = take (e - s) (drop t (bufs l ! k))"
      using take_drop_concat_chunk [of k "bufs l" t "e - s"] True off(2,3)
      unfolding bl_bytes_def off(4) [symmetric] by simp
    ultimately show ?thesis
      using cond off(1) n by (auto simp: bl_copy_def Let_def simp del: of_nat_diff)
  next
    case False
    then have "\<not> int (e - s) \<le> int (length (bufs l ! k)) - int t" using off(3) by linarith
    moreover have "allocUnsafe (JNum (int (e - s))) = Inr (replicate (e - s) 0)"
      using inv se by (intro allocUnsafe_nat) (simp add: bl_inv_def)
    moreover have d: "concat (bufs l) = concat (take k (bufs l)) @ concat (drop k (bufs l))"
      by (metis append_take_drop_id concat_append)
    moreover have "copy_loop (drop k (bufs l)) (replicate (e - s) 0) (int 0) (int t) (int (e - s)) =
      Inr (take 0 (replicate (e - s) 0) @ take (e - s) (drop t (concat (drop k (bufs l))))
        @ drop (0 + (e - s)) (replicate (e - s) 0))"
      using se off d False by (intro copy_loop_spec) (auto simp: hd_drop_conv_nth bl_bytes_def)
    ultimately show ?thesis
      using cond off(1,4) n by (auto simp: bl_copy_def Let_def bl_bytes_def simp del: of_nat_diff)
  qed
qed

lemma bl_slice_eq:
  assumes "bl_inv l" "s \<le> e"
  shows "bl_slice l (Some (int s)) (Some (int e)) = Inr (take (e - s) (drop s (bl_bytes l)))"
proof -
  let ?n = "length (bl_bytes l)"
  have len: "bl_length l = int ?n" using assms(1) by (rule bl_inv_length)
  consider "?n \<le> s" | "e = 0" | "s < ?n" "0 < e" "e \<le> ?n" | "s < ?n" "?n < e"
    using assms(2) by linarith
  then show ?thesis
  proof cases
    case 3
    then show ?thesis using bl_slice_inner [OF assms] by (simp add: bl_slice_def)
  next
    case 4
    then have "bl_copy l None 0 (Some (int s)) (Some (int e)) = bl_copy l None 0 (Some (int s)) (Some (int ?n))"
      unfolding bl_copy_def len by simp
    also have "\<dots> = Inr (take (?n - s) (drop s (bl_bytes l)))"
      using 4 by (intro bl_slice_inner [OF assms(1)]) auto
    finally show ?thesis using 4 by (simp add: bl_slice_def)
  qed (use assms(2) in \<open>auto simp: bl_slice_def bl_copy_def len\<close>)
qed

lemma consume_loop_spec:
  assumes "\<forall>b \<in> set bs. small b"
  shows "concat (fst (consume_loop bs (int n) len)) = drop n (concat bs) \<and>
    snd (consume_loop bs (int n) len) =
      len - int (length (concat bs)) + int (length (drop n (concat bs)))"
  using assms
proof (induction bs arbitrary: n len)
  case Nil
  then show ?case by simp
next
  case (Cons b bs)
  show ?case
  proof (cases "length b \<le> n")
    case True
    then have "int n - int (length b) = int (n - length b)" by simp
    moreover have "concat (fst (consume_loop bs (int (n - length b)) (len - int (length b)))) = drop (n - length b) (concat bs) \<and>
      snd (consume_loop bs (int (n - length b)) (len - int (length b))) =
        len - int (length b) - int (length (concat bs)) + int (length (drop (n - length b) (concat bs)))"
      using Cons.prems by (intro Cons.IH) simp
    ultimately show ?thesis using True by simp
  next
    case False
    then show ?thesis using Buffer_slice_from [of n b] Cons.prems by simp
  qed
qed

lemma bl_consume_facts:
  assumes "bl_inv l"
  shows "bl_bytes (bl_consume l (int n)) = drop n (bl_bytes l)" "bl_inv (bl_consume l (int n))"
proof -
  have "\<forall>b \<in> set (bufs l). small b" using bl_inv_chunk_small [OF assms] by blast
  note c = consume_loop_spec [OF this, of n "bl_length l"]
  show b: "bl_bytes (bl_consume l (int n)) = drop n (bl_bytes l)"
    using c by (simp add: bl_consume_def bl_bytes_def split_beta)
  have "bl_length (bl_consume l (int n)) =
    bl_length l - int (length (bl_bytes l)) + int (length (drop n (bl_bytes l)))"
    using c by (simp add: bl_consume_def bl_bytes_def split_beta)
  then show "bl_inv (bl_consume l (int n))"
    using assms unfolding bl_inv_def b by auto
qed

lemma bl_readUInt8_eq:
  assumes "bl_inv l"
  shows "bl_readUInt8 l (int i) =
    (if i < length (bl_bytes l) then Inr (uint (bl_bytes l ! i))
     else Inl (RangeError ''Trying to access beyond buffer length''))"
proof -
  have "bl_slice l (Some (int i)) (Some (int i + 1)) = Inr (take 1 (drop i (bl_bytes l)))"
    using bl_slice_eq [OF assms, of i "i + 1"] by (simp add: add.commute)
  then show ?thesis
    using readUInt8_nat [of 0 "take 1 (drop i (bl_bytes l))"] readUInt8_beyond [of "take 1 (drop i (bl_bytes l))" 0]
    by (auto simp: bl_readUInt8_def bl_read_def)
qed

lemma bl_readUInt16BE_eq:
  assumes "bl_inv l" "i + 1 < length (bl_bytes l)"
  shows "bl_readUInt16BE l (int i) = Inr (uint (bl_bytes l ! i) * 256 + uint (bl_bytes l ! (i + 1)))"
proof -
  have "bl_slice l (Some (int i)) (Some (int i + 2)) = Inr (take 2 (drop i (bl_bytes l)))"
    using bl_slice_eq [OF assms(1), of i "i + 2"] by (simp add: add.commute)
  then show ?thesis
    using readUInt16BE_nat [of 0 "take 2 (drop i (bl_bytes l))"] assms(2)
    by (simp add: bl_readUInt16BE_def bl_read_def)
qed

lemma Buffer_toString_utf8:
  assumes "int (length b) < 2 ^ 31"
  shows "Buffer_toString b (Some (Some (js ''utf8''), None, None)) = Inr (utf8Slice_loop b)"
  using assms by (auto simp: Buffer_toString_def slowToString_def Let_def utf8Slice_all)

lemma bl_toString_eq:
  assumes "bl_inv l" "s \<le> e"
  shows "bl_toString l (js ''utf8'') (int s) (int e) = Inr (utf8Slice_loop (take (e - s) (drop s (bl_bytes l))))"
proof -
  have "int (length (take (e - s) (drop s (bl_bytes l)))) < 2 ^ 31"
    using assms(1) by (auto simp: bl_inv_def K_MAX_LENGTH_def)
  then show ?thesis
    using bl_slice_eq [OF assms] by (simp add: bl_toString_def Buffer_toString_utf8)
qed

lemma fold_appendBuffer:
  "bl_bytes (fold (\<lambda>b acc. appendBuffer acc b) bs l) = bl_bytes l @ concat bs"
  "bl_length (fold (\<lambda>b acc. appendBuffer acc b) bs l) = bl_length l + int (length (concat bs))"
  by (induction bs arbitrary: l) (simp_all add: appendBuffer_def bl_bytes_def)

lemma bl_duplicate_eq: "bl_inv l \<Longrightarrow> bl_bytes (bl_duplicate l) = bl_bytes l \<and> bl_inv (bl_duplicate l)"
  by (simp add: bl_duplicate_def bl_inv_def fold_appendBuffer) (simp add: bl_new_def bl_bytes_def)

section \<open>The interface of the parser\<close>

locale byte_queue =
  fixes contents :: "'q \<Rightarrow> buffer"
    and valid :: "'q \<Rightarrow> bool"
    and put :: "'q \<Rightarrow> buffer \<Rightarrow> 'q"
    and drop_front :: "'q \<Rightarrow> int \<Rightarrow> 'q"
    and cut :: "'q \<Rightarrow> int option \<Rightarrow> int option \<Rightarrow> buffer result"
    and size_of :: "'q \<Rightarrow> int"
  assumes contents_put: "contents (put q b) = contents q @ b"
    and valid_put: "valid q \<Longrightarrow> size_of q + int (length b) < K_MAX_LENGTH \<Longrightarrow> valid (put q b)"
    and contents_drop: "valid q \<Longrightarrow> contents (drop_front q (int n)) = drop n (contents q)"
    and valid_drop: "valid q \<Longrightarrow> valid (drop_front q (int n))"
    and cut_eq: "valid q \<Longrightarrow> s \<le> e \<Longrightarrow> cut q (Some (int s)) (Some (int e)) = Inr (take (e - s) (drop s (contents q)))"
    and size_of_eq: "valid q \<Longrightarrow> size_of q = int (length (contents q))"
begin

lemma put_all_contents: "contents (foldl put q bs) = contents q @ concat bs"
  by (induction bs arbitrary: q) (simp_all add: contents_put)

lemma put_all_valid:
  "valid q \<Longrightarrow> size_of q + int (length (concat bs)) < K_MAX_LENGTH \<Longrightarrow> valid (foldl put q bs)"
proof (induction bs arbitrary: q)
  case (Cons b bs)
  have v: "valid (put q b)" using Cons.prems by (intro valid_put) auto
  then have "size_of (put q b) = size_of q + int (length b)"
    using Cons.prems(1) by (simp add: size_of_eq contents_put)
  then show ?case using Cons.IH [OF v] Cons.prems(2) by simp
qed simp

text \<open>However a byte sequence is cut into chunks, the queue answers every read alike.\<close>

lemma chunking_irrelevant:
  assumes "valid q" "concat bs = concat cs" "size_of q + int (length (concat bs)) < K_MAX_LENGTH" "s \<le> e"
  shows "cut (foldl put q bs) (Some (int s)) (Some (int e)) = cut (foldl put q cs) (Some (int s)) (Some (int e))"
  using assms by (simp add: cut_eq put_all_valid put_all_contents)

text \<open>Draining what was read leaves the rest, and the rest is what later reads see.\<close>

lemma drain_then_cut:
  assumes "valid q" "s \<le> e"
  shows "cut (drop_front q (int n)) (Some (int s)) (Some (int e)) = cut q (Some (int (n + s))) (Some (int (n + e)))"
  using assms cut_eq [OF assms(1), of "n + s" "n + e"] cut_eq [OF valid_drop [OF assms(1)] assms(2), of n]
  by (simp add: contents_drop add.commute)

end

interpretation bl: byte_queue bl_bytes bl_inv appendBuffer bl_consume bl_slice bl_length
  by unfold_locales (simp_all add: bl_inv_appendBuffer bl_consume_facts bl_slice_eq bl_inv_length)

text \<open>
  \<^bold>\<open>C13.\<close> A BufferList is its concatenation: whatever the cut of a byte sequence into chunks, after
  appending the chunks one by one to a list every slice is the corresponding part of the list's old
  contents followed by the sequence, and consuming \<open>n\<close> bytes shifts every later slice by \<open>n\<close>.
\<close>

theorem buffer_list_refines_bytes:
  assumes "bl_inv l" "bl_length l + int (length (concat chunks)) < K_MAX_LENGTH" "s \<le> e"
  shows "bl_slice (foldl appendBuffer l chunks) (Some (int s)) (Some (int e)) =
      Inr (take (e - s) (drop s (bl_bytes l @ concat chunks)))
    \<and> bl_slice (bl_consume (foldl appendBuffer l chunks) (int n)) (Some (int s)) (Some (int e)) =
      Inr (take (e - s) (drop (n + s) (bl_bytes l @ concat chunks)))"
proof -
  note v = bl.put_all_valid [OF assms(1,2)]
  have "n + s \<le> n + e" using assms(3) by simp
  then show ?thesis
    unfolding bl.drain_then_cut [OF v assms(3)] bl.cut_eq [OF v assms(3)] bl.cut_eq [OF v \<open>n + s \<le> n + e\<close>]
      bl.put_all_contents by simp
qed

theorem buffer_list_refines_bytes_witness:
  "bl_slice (foldl appendBuffer bl_new [[1, 2], [], [3]]) (Some (int 1)) (Some (int 3)) =
     Inr (take (3 - 1) (drop 1 (bl_bytes bl_new @ concat [[1, 2], [], [3 :: byte]])))
   \<and> bl_slice (bl_consume (foldl appendBuffer bl_new [[1, 2], [], [3]]) (int 2)) (Some (int 1)) (Some (int 3)) =
     Inr (take (3 - 1) (drop (2 + 1) (bl_bytes bl_new @ concat [[1, 2], [], [3 :: byte]])))"
  by (rule buffer_list_refines_bytes) (simp_all add: bl_new_def bl_inv_def bl_bytes_def K_MAX_LENGTH_def)

end
