(* ===== verification/Packet_Types.thy ===== *)
theory Packet_Types
  imports Buffer_List
begin

text \<open>
  Constants and data of the bundled \<^verbatim>\<open>mqtt-packet\<close> module: command codes, the precomputed header
  bytes, the table of two-byte numbers, and the packet object. A packet is one JavaScript object
  for the generator and for the parser; a property that is absent is \<open>JUndef\<close> (\<open>None\<close> for an array).
\<close>

section \<open>Commands\<close>

datatype cmd =
    NoCmd | Reserved | Connect | Connack | Publish | Puback | Pubrec | Pubrel | Pubcomp
  | Subscribe | Suback | Unsubscribe | Unsuback | Pingreq | Pingresp | Disconnect
  | OtherCmd jsstr

text \<open>\<^verbatim>\<open>protocol.types\<close>: command code to mnemonic. The argument is a four-bit number.\<close>

definition types :: "nat \<Rightarrow> cmd" where
  "types k =
     (if k < 16 then
        [Reserved, Connect, Connack, Publish, Puback, Pubrec, Pubrel, Pubcomp, Subscribe, Suback,
         Unsubscribe, Unsuback, Pingreq, Pingresp, Disconnect, Reserved] ! k
      else NoCmd)"

text \<open>\<^verbatim>\<open>protocol.codes\<close>: mnemonic to code; of the two codes of \<^verbatim>\<open>reserved\<close> the later one stays.\<close>

fun codes :: "cmd \<Rightarrow> nat" where
  "codes Connect = 1"
| "codes Connack = 2"
| "codes Publish = 3"
| "codes Puback = 4"
| "codes Pubrec = 5"
| "codes Pubrel = 6"
| "codes Pubcomp = 7"
| "codes Subscribe = 8"
| "codes Suback = 9"
| "codes Unsubscribe = 10"
| "codes Unsuback = 11"
| "codes Pingreq = 12"
| "codes Pingresp = 13"
| "codes Disconnect = 14"
| "codes Reserved = 15"
| "codes _ = 0"

definition CMD_SHIFT :: nat where [defs]: "CMD_SHIFT = 4"
definition DUP_MASK :: nat where [defs]: "DUP_MASK = 0x08"
definition QOS_MASK :: nat where [defs]: "QOS_MASK = 0x03"
definition QOS_SHIFT :: nat where [defs]: "QOS_SHIFT = 1"
definition RETAIN_MASK :: nat where [defs]: "RETAIN_MASK = 0x01"
definition LENGTH_MASK :: nat where [defs]: "LENGTH_MASK = 0x7F"
definition LENGTH_FIN_MASK :: nat where [defs]: "LENGTH_FIN_MASK = 0x80"
definition SESSIONPRESENT_MASK :: nat where [defs]: "SESSIONPRESENT_MASK = 0x01"
definition USERNAME_MASK :: nat where [defs]: "USERNAME_MASK = 0x80"
definition PASSWORD_MASK :: nat where [defs]: "PASSWORD_MASK = 0x40"
definition WILL_RETAIN_MASK :: nat where [defs]: "WILL_RETAIN_MASK = 0x20"
definition WILL_QOS_MASK :: nat where [defs]: "WILL_QOS_MASK = 0x18"
definition WILL_QOS_SHIFT :: nat where [defs]: "WILL_QOS_SHIFT = 3"
definition WILL_FLAG_MASK :: nat where [defs]: "WILL_FLAG_MASK = 0x04"
definition CLEAN_SESSION_MASK :: nat where [defs]: "CLEAN_SESSION_MASK = 0x02"

section \<open>Precomputed bytes\<close>

definition header_byte :: "cmd \<Rightarrow> nat \<Rightarrow> nat \<Rightarrow> nat \<Rightarrow> byte" where
  "header_byte type qos dup retain =
     of_nat (push_bit CMD_SHIFT (codes type) OR (if dup \<noteq> 0 then DUP_MASK else 0)
             OR push_bit QOS_SHIFT qos OR retain)"

definition genHeader :: "cmd \<Rightarrow> buffer list list list" where
  "genHeader type =
     map (\<lambda>qos. map (\<lambda>dup. map (\<lambda>retain. [header_byte type qos dup retain]) [0, 1]) [0, 1]) [0, 1, 2]"

text \<open>Indexing a table: out of range reads \<^verbatim>\<open>undefined\<close>, and indexing that throws.\<close>

definition index_table :: "'a list \<Rightarrow> int \<Rightarrow> 'a result" where
  "index_table t i =
     (if 0 \<le> i \<and> i < int (length t) then Inr (t ! nat i)
      else Inl (TypeError ''Cannot read property of undefined''))"

definition PUBLISH_HEADER :: "buffer list list list" where "PUBLISH_HEADER = genHeader Publish"
definition SUBSCRIBE_HEADER :: "buffer list list list" where "SUBSCRIBE_HEADER = genHeader Subscribe"
definition UNSUBSCRIBE_HEADER :: "buffer list list list" where "UNSUBSCRIBE_HEADER = genHeader Unsubscribe"

definition ACKS :: "cmd \<Rightarrow> buffer list list list result" where
  "ACKS type =
     (if type \<in> {Unsuback, Puback, Pubcomp, Pubrel, Pubrec} then Inr (genHeader type)
      else Inl (TypeError ''Cannot read property of undefined''))"

definition single_header :: "cmd \<Rightarrow> buffer" where
  "single_header type = [of_nat (push_bit CMD_SHIFT (codes type))]"

definition CONNECT_HEADER :: buffer where "CONNECT_HEADER = single_header Connect"
definition CONNACK_HEADER :: buffer where "CONNACK_HEADER = single_header Connack"
definition SUBACK_HEADER :: buffer where "SUBACK_HEADER = single_header Suback"
definition SESSIONPRESENT_HEADER :: buffer where "SESSIONPRESENT_HEADER = [of_nat SESSIONPRESENT_MASK]"
definition VERSION3 :: buffer where "VERSION3 = [3]"
definition VERSION4 :: buffer where "VERSION4 = [4]"

definition QOS :: "int \<Rightarrow> buffer option" where
  "QOS i = (if 0 \<le> i \<and> i < 3 then Some [word_of_int i] else None)"

definition EMPTY :: "cmd \<Rightarrow> buffer option" where
  "EMPTY type =
     (if type \<in> {Pingreq, Pingresp, Disconnect} then Some [of_nat (push_bit 4 (codes type)), 0] else None)"

text \<open>The cache of two-byte numbers (\<^verbatim>\<open>numbers\<close>): defined for 0 to 65535.\<close>

definition num_bytes :: "int \<Rightarrow> buffer" where
  "num_bytes i = [word_of_int (drop_bit 8 i), word_of_int (i AND 0x00FF)]"

definition numCache :: "int \<Rightarrow> buffer option" where
  "numCache i = (if 0 \<le> i \<and> i < 65536 then Some (num_bytes i) else None)"

section \<open>Packets\<close>

record will_rec =
  w_retain :: jsval
  w_qos :: jsval
  w_topic :: jsval
  w_payload :: jsval

datatype will_val =
    NoWill           \<comment> \<open>a falsy value\<close>
  | WillOther        \<comment> \<open>a truthy value that is not an object\<close>
  | WillObj will_rec

record sub =
  sub_topic :: jsval
  sub_qos :: jsval

record packet =
  p_cmd :: cmd
  p_retain :: jsval
  p_qos :: jsval
  p_dup :: jsval
  p_length :: int
  p_topic :: jsval
  p_payload :: jsval
  p_messageId :: jsval
  p_protocolId :: jsval
  p_protocolVersion :: jsval
  p_will :: will_val
  p_clean :: jsval
  p_keepalive :: jsval
  p_clientId :: jsval
  p_username :: jsval
  p_password :: jsval
  p_sessionPresent :: jsval
  p_returnCode :: jsval
  p_subscriptions :: "sub list option"
  p_granted :: "jsval list option"
  p_unsubscriptions :: "jsval list option"

text \<open>The properties a packet object does not have yet.\<close>

definition bare_packet :: "cmd \<Rightarrow> packet" where
  [defs]: "bare_packet c =
     \<lparr>p_cmd = c, p_retain = JUndef, p_qos = JUndef, p_dup = JUndef, p_length = 0, p_topic = JUndef,
      p_payload = JUndef, p_messageId = JUndef, p_protocolId = JUndef, p_protocolVersion = JUndef,
      p_will = NoWill, p_clean = JUndef, p_keepalive = JUndef, p_clientId = JUndef,
      p_username = JUndef, p_password = JUndef, p_sessionPresent = JUndef, p_returnCode = JUndef,
      p_subscriptions = None, p_granted = None, p_unsubscriptions = None\<rparr>"

definition new_Packet :: packet where
  [defs]: "new_Packet =
     (bare_packet NoCmd)\<lparr>p_retain := JBool False, p_qos := JNum 0, p_dup := JBool False,
       p_length := -1, p_topic := JNull, p_payload := JNull\<rparr>"

section \<open>Facts on the tables\<close>

lemma types_codes:
  "c \<in> {Connect, Connack, Publish, Puback, Pubrec, Pubrel, Pubcomp, Subscribe, Suback, Unsubscribe,
        Unsuback, Pingreq, Pingresp, Disconnect} \<Longrightarrow> types (codes c) = c"
  by (auto simp: types_def)

lemma codes_less: "codes c < 16"
  by (cases c) simp_all

lemma header_byte_value:
  assumes "qos < 3" "dup < 2" "retain < 2"
  shows "unat (header_byte type qos dup retain) = 16 * codes type + 8 * dup + 2 * qos + retain"
proof -
  have r: "push_bit QOS_SHIFT qos OR retain = 2 * qos + retain"
    using nat_or_add [of retain 1 qos] assms by (simp add: QOS_SHIFT_def push_bit_eq_mult mult.commute)
  have d: "(if dup \<noteq> 0 then DUP_MASK else 0) OR (2 * qos + retain) = 8 * dup + (2 * qos + retain)"
    using nat_or_add [of "2 * qos + retain" 3 dup] assms
    by (cases "dup = 0") (auto simp: DUP_MASK_def less_2_cases_iff)
  have "push_bit CMD_SHIFT (codes type) OR (8 * dup + (2 * qos + retain)) =
    16 * codes type + (8 * dup + (2 * qos + retain))"
    using nat_or_add [of "8 * dup + (2 * qos + retain)" 4 "codes type"] assms
    by (simp add: CMD_SHIFT_def push_bit_eq_mult mult.commute)
  then have "header_byte type qos dup retain = of_nat (16 * codes type + (8 * dup + (2 * qos + retain)))"
    unfolding header_byte_def r d by simp
  then show ?thesis
    using codes_less [of type] assms by (simp del: of_nat_add)
qed

lemma genHeader_nth:
  assumes "qos < 3" "dup < 2" "retain < 2"
  shows "genHeader type ! qos ! dup ! retain = [header_byte type qos dup retain]"
  using assms by (auto simp: genHeader_def less_Suc_eq numeral_3_eq_3 numeral_2_eq_2)

lemma genHeader_index:
  assumes "0 \<le> qos" "qos < 3"
  shows "index_table (genHeader type) qos = Inr (genHeader type ! nat qos)"
  using assms by (simp add: index_table_def genHeader_def)

lemma numCache_bytes:
  assumes "0 \<le> i" "i < 65536"
  shows "numCache i = Some [word_of_int (i div 256), word_of_int (i mod 256)]"
  using assms by (simp add: numCache_def num_bytes_def drop_bit_eq_div int_and_FF)

end
