(* ===== verification/Packet_Write.thy ===== *)
theory Packet_Write
  imports Packet_Types
begin

text \<open>
  The generator of the bundled \<^verbatim>\<open>mqtt-packet\<close> module (\<^verbatim>\<open>writeToStream\<close> and \<^verbatim>\<open>generate\<close>). A stream records
  the chunks written to it and the errors emitted on it; \<open>sw_ok\<close> is what its \<^verbatim>\<open>write\<close> returns (false:
  the consumer should wait for \<^verbatim>\<open>drain\<close>). Every function returns the value the code returns and the
  stream after it; an \<open>Inl\<close> result is an exception that leaves the function.
\<close>

section \<open>Streams\<close>

record wstream =
  sw_out :: "jsval list"
  sw_errs :: "string list"
  sw_ok :: bool
  has_cork :: bool
  corks :: nat

type_synonym gen_result = "(bool \<times> wstream) result"

definition swrite :: "wstream \<Rightarrow> jsval \<Rightarrow> wstream" where
  [defs]: "swrite s v = s\<lparr>sw_out := sw_out s @ [v]\<rparr>"

definition semit_error :: "wstream \<Rightarrow> string \<Rightarrow> wstream" where
  [defs]: "semit_error s e = s\<lparr>sw_errs := sw_errs s @ [e]\<rparr>"

definition fail_with :: "wstream \<Rightarrow> string \<Rightarrow> gen_result" where
  \<comment> \<open>\<^verbatim>\<open>stream.emit('error', \<dots>); return false\<close>\<close>
  [defs]: "fail_with s e = Inr (False, semit_error s e)"

definition of_buffer :: "buffer option \<Rightarrow> jsval" where
  [defs]: "of_buffer b = (case b of None \<Rightarrow> JUndef | Some x \<Rightarrow> JBuf x)"

fun to_str :: "jsval \<Rightarrow> jsstr" where
  "to_str JUndef = js ''undefined''"
| "to_str JNull = js ''null''"
| "to_str (JBool b) = (if b then js ''true'' else js ''false'')"
| "to_str (JNum n) = int_text n"
| "to_str (JFrac t s) = s"
| "to_str (JStr s) = s"
| "to_str (JBuf b) = utf8Slice b 0 (length b)"
| "to_str JObj = js ''[object Object]''"

fun js_length :: "jsval \<Rightarrow> int option" where
  \<comment> \<open>the property \<^verbatim>\<open>length\<close>\<close>
  "js_length (JStr s) = Some (int (length s))"
| "js_length (JBuf b) = Some (int (length b))"
| "js_length _ = None"

fun Buffer_byteLength :: "jsval \<Rightarrow> int" where
  "Buffer_byteLength (JBuf b) = int (length b)"
| "Buffer_byteLength v = int (length (utf8 (to_str v)))"

fun js_number :: "jsval \<Rightarrow> int" where
  \<comment> \<open>the operand of a shift\<close>
  "js_number (JNum n) = n"
| "js_number (JFrac t s) = t"
| "js_number (JBool b) = (if b then 1 else 0)"
| "js_number _ = 0"

section \<open>The remaining-length field\<close>

definition calcLengthLength :: "nat \<Rightarrow> nat" where
  "calcLengthLength len =
     (if len < 128 then 1
      else if len \<ge> 128 \<and> len < 16384 then 2
      else if len \<ge> 16384 \<and> len < 2097152 then 3
      else if len \<ge> 2097152 \<and> len < 268435456 then 4
      else 0)"

lemma to_int32_le: "0 \<le> x \<Longrightarrow> to_int32 x \<le> x"
proof -
  assume "0 \<le> x"
  then have "(x + 2 ^ 31) mod 2 ^ 32 \<le> x + 2 ^ 31" by (intro zmod_le_nonneg_dividend) simp
  then show ?thesis by (simp add: to_int32_def)
qed

function genBuf_loop :: "nat \<Rightarrow> nat \<Rightarrow> buffer \<Rightarrow> buffer" where
  "genBuf_loop len pos buf =
     (let digit = to_int32 (int len mod 128);
          len' = to_int32 (int len div 128);
          digit' = (if len' > 0 then digit OR 0x80 else digit);
          buf' = buf[pos := word_of_int (digit' AND 0xff)]
      in if len' > 0 then genBuf_loop (nat len') (pos + 1) buf' else buf')"
  by pat_completeness auto
termination
proof (relation "measure (\<lambda>(len, pos, buf). len)", simp, goal_cases)
  case (1 len pos buf)
  have "to_int32 (int len div 128) \<le> int len div 128" by (rule to_int32_le) simp
  moreover have "0 < to_int32 (int len div 128)" using 1 by simp
  ultimately have "to_int32 (int len div 128) < int len" by linarith
  then show ?case using \<open>0 < to_int32 (int len div 128)\<close> 1 by simp
qed

declare genBuf_loop.simps [simp del]

definition genBufLength :: "nat \<Rightarrow> buffer" where
  "genBufLength len = genBuf_loop len 0 (replicate (calcLengthLength len) 0)"

definition writeLength :: "wstream \<Rightarrow> int \<Rightarrow> wstream" where
  "writeLength s len = swrite s (JBuf (genBufLength (nat len)))"

text \<open>The same with the cache the module keeps between calls; \<open>cache\<close> is \<^verbatim>\<open>lengthCache\<close>.\<close>

definition writeLength_cached :: "(nat \<rightharpoonup> buffer) \<Rightarrow> wstream \<Rightarrow> nat \<Rightarrow> (nat \<rightharpoonup> buffer) \<times> wstream" where
  "writeLength_cached cache s len =
     (case cache len of
        Some buf \<Rightarrow> (cache, swrite s (JBuf buf))
      | None \<Rightarrow>
          (let buf = genBufLength len in
           (if len < 16384 then cache(len \<mapsto> buf) else cache, swrite s (JBuf buf))))"

section \<open>Numbers and strings\<close>

definition writeNumber :: "wstream \<Rightarrow> int option \<Rightarrow> wstream" where
  \<comment> \<open>\<open>None\<close>: a value that is no key of the cache\<close>
  [defs]: "writeNumber s n = swrite s (of_buffer (Option.bind n numCache))"

text \<open>The table key of a value: a number (numeric strings, which would index as well, do not occur).\<close>

fun number_key :: "jsval \<Rightarrow> int option" where
  "number_key (JNum n) = Some n"
| "number_key _ = None"

definition writeString :: "wstream \<Rightarrow> jsstr \<Rightarrow> wstream" where
  [defs]: "writeString s str =
     swrite (writeNumber s (Some (int (length (utf8 str))))) (JStr str)"

definition writeStringOrBuffer :: "wstream \<Rightarrow> jsval \<Rightarrow> wstream" where
  [defs]: "writeStringOrBuffer s v =
     (case v of
        JStr str \<Rightarrow> if str \<noteq> [] then writeString s str else writeNumber s (Some 0)
      | _ \<Rightarrow> if truthy v then swrite (writeNumber s (js_length v)) v else writeNumber s (Some 0))"

definition byteLength_v :: "jsval \<Rightarrow> int" where
  \<comment> \<open>the module's own \<^verbatim>\<open>byteLength\<close>\<close>
  [defs]: "byteLength_v v = (if \<not> truthy v then 0 else Buffer_byteLength v)"

section \<open>CONNECT\<close>

definition clean_zero :: "jsval \<Rightarrow> bool" where
  \<comment> \<open>\<^verbatim>\<open>(clean * 1) === 0\<close>\<close>
  "clean_zero v = (v = JBool False \<or> v = JNull \<or> v = JNum 0 \<or> v = JStr [])"

text \<open>The checks of \<^verbatim>\<open>connect\<close>, in the order of the code; the result is the remaining length.\<close>

definition connect_id_length :: "jsval \<Rightarrow> jsval \<Rightarrow> jsval \<Rightarrow> string + int" where
  "connect_id_length clientId protocolVersion clean =
     (if (is_string clientId \<or> is_buffer clientId) \<and> (truthy clientId \<or> protocolVersion = JNum 4)
         \<and> (truthy clientId \<or> truthy clean)
      then Inr (the (js_length clientId) + 2)
      else if protocolVersion = JNum 3 then Inl ''clientId must be supplied before 3.1.1''
      else if clean_zero clean then Inl ''clientId must be given if cleanSession set to 0''
      else Inr 0)"

definition keepalive_ok :: "jsval \<Rightarrow> bool" where
  "keepalive_ok k = (case k of JNum n \<Rightarrow> 0 \<le> n \<and> n \<le> 65535 \<and> n mod 1 = 0 | _ \<Rightarrow> False)"

definition will_length :: "will_val \<Rightarrow> string + int" where
  "will_length will =
     (case will of
        NoWill \<Rightarrow> Inr 0
      | WillOther \<Rightarrow> Inl ''Invalid will''
      | WillObj w \<Rightarrow>
          (case w_topic w of
             JStr t \<Rightarrow>
               if t = [] then Inl ''Invalid will topic''
               else
                 (let tlen = int (length (utf8 t)) + 2; p = w_payload w in
                  if truthy p then
                    (case p of
                       JStr s \<Rightarrow> Inr (tlen + int (length (utf8 s)) + 2)
                     | JBuf b \<Rightarrow> Inr (tlen + int (length b) + 2)
                     | _ \<Rightarrow> Inl ''Invalid will payload'')
                  else Inr (tlen + 2))
           | _ \<Rightarrow> Inl ''Invalid will topic''))"

definition credential_length :: "string \<Rightarrow> jsval \<Rightarrow> string + int" where
  \<comment> \<open>username or password: absent, or a string or Buffer that is not empty\<close>
  "credential_length err v =
     (if \<not> truthy v then Inr 0
      else case js_length v of
        None \<Rightarrow> Inl err
      | Some n \<Rightarrow> if n = 0 then Inl err else Inr (Buffer_byteLength v + 2))"

definition connect_flags :: "jsval \<Rightarrow> jsval \<Rightarrow> will_val \<Rightarrow> jsval \<Rightarrow> int" where
  "connect_flags username password will clean =
     (if truthy username then int USERNAME_MASK else 0)
     OR (if truthy password then int PASSWORD_MASK else 0)
     OR (case will of WillObj w \<Rightarrow> if truthy (w_retain w) then int WILL_RETAIN_MASK else 0 | _ \<Rightarrow> 0)
     OR (case will of WillObj w \<Rightarrow> if truthy (w_qos w) then push_bit WILL_QOS_SHIFT (js_number (w_qos w)) else 0
         | _ \<Rightarrow> 0)
     OR (case will of NoWill \<Rightarrow> 0 | _ \<Rightarrow> int WILL_FLAG_MASK)
     OR (if truthy clean then int CLEAN_SESSION_MASK else 0)"

definition connect_length ::
  "jsval \<Rightarrow> jsval \<Rightarrow> jsval \<Rightarrow> jsval \<Rightarrow> jsval \<Rightarrow> will_val \<Rightarrow> jsval \<Rightarrow> jsval \<Rightarrow> string + int" where
  "connect_length protocolId protocolVersion clientId clean keepalive will username password =
     (if \<not> (is_string protocolId \<or> is_buffer protocolId) then Inl ''Invalid protocolId''
      else if protocolVersion \<noteq> JNum 3 \<and> protocolVersion \<noteq> JNum 4 then Inl ''Invalid protocol version''
      else
        rbind (connect_id_length clientId protocolVersion clean) (\<lambda>idl.
          if \<not> keepalive_ok keepalive then Inl ''Invalid keepalive''
          else
            rbind (will_length will) (\<lambda>wl.
            rbind (credential_length ''Invalid username'' username) (\<lambda>ul.
            rbind (credential_length ''Invalid password'' password) (\<lambda>pl.
              Inr (the (js_length protocolId) + 2 + 1 + idl + 2 + 1 + wl + ul + pl))))))"

definition write_will :: "wstream \<Rightarrow> will_val \<Rightarrow> wstream" where
  "write_will s will =
     (case will of
        WillObj w \<Rightarrow>
          writeStringOrBuffer (writeString s (case w_topic w of JStr t \<Rightarrow> t | _ \<Rightarrow> [])) (w_payload w)
      | _ \<Rightarrow> s)"

definition connect :: "packet \<Rightarrow> wstream \<Rightarrow> gen_result" where
  "connect opts s =
     (let protocolId = js_or (p_protocolId opts) (JStr (js ''MQTT''));
          protocolVersion = js_or (p_protocolVersion opts) (JNum 4);
          will = p_will opts;
          clean = (if p_clean opts = JUndef then JBool True else p_clean opts);
          keepalive = js_or (p_keepalive opts) (JNum 0);
          clientId = js_or (p_clientId opts) (JStr []);
          username = p_username opts;
          password = p_password opts
      in case connect_length protocolId protocolVersion clientId clean keepalive will username password of
           Inl e \<Rightarrow> fail_with s e
         | Inr len \<Rightarrow>
             (let s1 = writeLength (swrite s (JBuf CONNECT_HEADER)) len;
                  s2 = swrite (writeStringOrBuffer s1 protocolId)
                         (JBuf (if protocolVersion = JNum 4 then VERSION4 else VERSION3));
                  s3 = swrite s2 (JBuf [word_of_int (connect_flags username password will clean AND 255)]);
                  s4 = writeStringOrBuffer (writeNumber s3 (number_key keepalive)) clientId;
                  s5 = write_will s4 will;
                  s6 = (if truthy username then writeStringOrBuffer s5 username else s5);
                  s7 = (if truthy password then writeStringOrBuffer s6 password else s6)
              in Inr (True, s7)))"

definition connack :: "packet \<Rightarrow> wstream \<Rightarrow> gen_result" where
  "connack opts s =
     (if \<not> is_number (p_returnCode opts) then fail_with s ''Invalid return code''
      else
        (let s1 = writeLength (swrite s (JBuf CONNACK_HEADER)) 2;
             s2 = swrite s1 (JBuf (if truthy (p_sessionPresent opts) then SESSIONPRESENT_HEADER else [0]));
             s3 = swrite s2 (JBuf [word_of_int (js_number (p_returnCode opts) AND 255)])
         in Inr (sw_ok s3, s3)))"

section \<open>PUBLISH and the acknowledgements\<close>

definition topic_length :: "jsval \<Rightarrow> string + int" where
  "topic_length topic =
     (case topic of
        JStr t \<Rightarrow> Inr (int (length (utf8 t)) + 2)
      | JBuf b \<Rightarrow> Inr (int (length b) + 2)
      | _ \<Rightarrow> Inl ''Invalid topic'')"

definition publish_header :: "jsval \<Rightarrow> bool \<Rightarrow> bool \<Rightarrow> jsval result" where
  \<comment> \<open>\<^verbatim>\<open>PUBLISH_HEADER[qos][dup ? 1 : 0][retain ? 1 : 0]\<close>\<close>
  "publish_header qos dup retain =
     (case number_key qos of
        None \<Rightarrow> Inl (TypeError ''Cannot read property of undefined'')
      | Some q \<Rightarrow>
          rbind (index_table PUBLISH_HEADER q) (\<lambda>row.
            Inr (JBuf (row ! (if dup then 1 else 0) ! (if retain then 1 else 0)))))"

definition positive :: "jsval \<Rightarrow> bool" where
  \<comment> \<open>\<^verbatim>\<open>qos > 0\<close>\<close>
  "positive v = (case v of JNum n \<Rightarrow> n > 0 | JFrac t s \<Rightarrow> t \<ge> 0 | JBool b \<Rightarrow> b | _ \<Rightarrow> False)"

definition publish :: "packet \<Rightarrow> wstream \<Rightarrow> gen_result" where
  "publish opts s =
     (let qos = js_or (p_qos opts) (JNum 0);
          topic = p_topic opts;
          payload = js_or (p_payload opts) (JBuf []);
          mid = p_messageId opts
      in case topic_length topic of
           Inl e \<Rightarrow> fail_with s e
         | Inr tlen \<Rightarrow>
             (let len = tlen + Buffer_byteLength payload in
              if truthy qos \<and> \<not> is_number mid then fail_with s ''Invalid messageId''
              else
                rbind (publish_header qos (truthy (p_dup opts)) (truthy (p_retain opts))) (\<lambda>hdr.
                  let s1 = writeLength (swrite s hdr) (if truthy qos then len + 2 else len);
                      s2 = swrite (writeNumber s1 (Some (byteLength_v topic))) topic;
                      s3 = (if positive qos then writeNumber s2 (number_key mid) else s2);
                      s4 = swrite s3 payload
                  in Inr (sw_ok s4, s4))))"

text \<open>PUBACK, PUBREC, PUBREL, PUBCOMP and UNSUBACK.\<close>

definition confirmation :: "packet \<Rightarrow> wstream \<Rightarrow> gen_result" where
  "confirmation opts s =
     (let type = (if p_cmd opts = NoCmd then Puback else p_cmd opts);
          mid = p_messageId opts;
          dup = (if truthy (p_dup opts) \<and> type = Pubrel then int DUP_MASK else 0);
          qos = (if type = Pubrel then 1 else 0)
      in if \<not> is_number mid then fail_with s ''Invalid messageId''
         else
           rbind (ACKS type) (\<lambda>tbl.
           rbind (index_table tbl qos) (\<lambda>row.
           rbind (index_table row dup) (\<lambda>cell.
             let s1 = writeLength (swrite s (JBuf (cell ! 0))) 2;
                 s2 = writeNumber s1 (number_key mid)
             in Inr (sw_ok s2, s2)))))"

section \<open>SUBSCRIBE, SUBACK, UNSUBSCRIBE\<close>

fun subs_length :: "sub list \<Rightarrow> string + int" where
  "subs_length [] = Inr 0"
| "subs_length (x # xs) =
     (case sub_topic x of
        JStr t \<Rightarrow>
          if \<not> is_number (sub_qos x) then Inl ''Invalid subscriptions - invalid qos''
          else rbind (subs_length xs) (\<lambda>n. Inr (int (length (utf8 t)) + 2 + 1 + n))
      | _ \<Rightarrow> Inl ''Invalid subscriptions - invalid topic'')"

definition write_sub :: "wstream \<Rightarrow> sub \<Rightarrow> wstream" where
  "write_sub s x =
     swrite (writeString s (case sub_topic x of JStr t \<Rightarrow> t | _ \<Rightarrow> []))
            (of_buffer (Option.bind (number_key (sub_qos x)) QOS))"

definition subscribe :: "packet \<Rightarrow> wstream \<Rightarrow> gen_result" where
  "subscribe opts s =
     (let dup = truthy (p_dup opts); mid = p_messageId opts in
      if \<not> is_number mid then fail_with s ''Invalid messageId''
      else case p_subscriptions opts of
        None \<Rightarrow> fail_with s ''Invalid subscriptions''
      | Some subs \<Rightarrow>
          if subs = [] then fail_with s ''Invalid subscriptions''
          else case subs_length subs of
            Inl e \<Rightarrow> fail_with s e
          | Inr n \<Rightarrow>
              (let s1 = swrite s (JBuf (SUBSCRIBE_HEADER ! 1 ! (if dup then 1 else 0) ! 0));
                   s2 = writeNumber (writeLength s1 (2 + n)) (number_key mid);
                   s3 = foldl write_sub s2 subs
               in Inr (sw_ok s3, s3)))"

definition suback :: "packet \<Rightarrow> wstream \<Rightarrow> gen_result" where
  "suback opts s =
     (let mid = p_messageId opts in
      if \<not> is_number mid then fail_with s ''Invalid messageId''
      else case p_granted opts of
        None \<Rightarrow> fail_with s ''Invalid qos vector''
      | Some granted \<Rightarrow>
          if granted = [] then fail_with s ''Invalid qos vector''
          else if \<not> list_all is_number granted then fail_with s ''Invalid qos vector''
          else
            (let s1 = writeLength (swrite s (JBuf SUBACK_HEADER)) (2 + int (length granted));
                 s2 = writeNumber s1 (number_key mid);
                 s3 = swrite s2 (JBuf (map (\<lambda>v. word_of_int (js_number v AND 255)) granted))
             in Inr (sw_ok s3, s3)))"

fun unsubs_length :: "jsval list \<Rightarrow> string + int" where
  "unsubs_length [] = Inr 0"
| "unsubs_length (x # xs) =
     (case x of
        JStr t \<Rightarrow> rbind (unsubs_length xs) (\<lambda>n. Inr (int (length (utf8 t)) + 2 + n))
      | _ \<Rightarrow> Inl ''Invalid unsubscriptions'')"

definition unsubscribe :: "packet \<Rightarrow> wstream \<Rightarrow> gen_result" where
  \<comment> \<open>\<^verbatim>\<open>writeString\<close> returns nothing, so the value returned is \<^verbatim>\<open>undefined\<close>, a falsy one\<close>
  "unsubscribe opts s =
     (let mid = p_messageId opts; dup = truthy (p_dup opts) in
      if \<not> is_number mid then fail_with s ''Invalid messageId''
      else case p_unsubscriptions opts of
        None \<Rightarrow> fail_with s ''Invalid unsubscriptions''
      | Some unsubs \<Rightarrow>
          if unsubs = [] then fail_with s ''Invalid unsubscriptions''
          else case unsubs_length unsubs of
            Inl e \<Rightarrow> fail_with s e
          | Inr n \<Rightarrow>
              (let s1 = swrite s (JBuf (UNSUBSCRIBE_HEADER ! 1 ! (if dup then 1 else 0) ! 0));
                   s2 = writeNumber (writeLength s1 (2 + n)) (number_key mid);
                   s3 = foldl (\<lambda>st x. writeString st (case x of JStr t \<Rightarrow> t | _ \<Rightarrow> [])) s2 unsubs
               in Inr (False, s3)))"

definition emptyPacket :: "packet \<Rightarrow> wstream \<Rightarrow> gen_result" where
  "emptyPacket opts s = (let s1 = swrite s (of_buffer (EMPTY (p_cmd opts))) in Inr (sw_ok s1, s1))"

section \<open>Dispatch\<close>

definition writeToStream :: "packet \<Rightarrow> wstream \<Rightarrow> gen_result" where
  "writeToStream packet s0 =
     (let s = (if has_cork s0 then s0\<lparr>corks := corks s0 + 1\<rparr> else s0) in
      case p_cmd packet of
        Connect \<Rightarrow> connect packet s
      | Connack \<Rightarrow> connack packet s
      | Publish \<Rightarrow> publish packet s
      | Puback \<Rightarrow> confirmation packet s
      | Pubrec \<Rightarrow> confirmation packet s
      | Pubrel \<Rightarrow> confirmation packet s
      | Pubcomp \<Rightarrow> confirmation packet s
      | Unsuback \<Rightarrow> confirmation packet s
      | Subscribe \<Rightarrow> subscribe packet s
      | Suback \<Rightarrow> suback packet s
      | Unsubscribe \<Rightarrow> unsubscribe packet s
      | Pingreq \<Rightarrow> emptyPacket packet s
      | Pingresp \<Rightarrow> emptyPacket packet s
      | Disconnect \<Rightarrow> emptyPacket packet s
      | _ \<Rightarrow> fail_with s ''Unknown command'')"

definition uncork :: "wstream \<Rightarrow> wstream" where
  \<comment> \<open>run by the tick that the dispatch queued\<close>
  "uncork s = s\<lparr>corks := corks s - 1\<rparr>"

section \<open>The accumulator\<close>

text \<open>
  \<^verbatim>\<open>generate\<close> writes to an \<^verbatim>\<open>Accumulator\<close>, which has no \<^verbatim>\<open>cork\<close>, always returns true from \<^verbatim>\<open>write\<close>, and has
  no error listener: an emitted error is thrown. Its \<^verbatim>\<open>concat\<close> stops at the first falsy chunk.
\<close>

definition new_Accumulator :: wstream where
  [defs]: "new_Accumulator = \<lparr>sw_out = [], sw_errs = [], sw_ok = True, has_cork = False, corks = 0\<rparr>"

fun chunk_bytes :: "jsval \<Rightarrow> buffer result" where
  "chunk_bytes (JStr s) = Inr (utf8 s)"
| "chunk_bytes (JBuf b) = Inr b"
| "chunk_bytes _ = Inl (TypeError ''list[i].copy is not a function'')"

fun Accumulator_concat :: "jsval list \<Rightarrow> buffer result" where
  "Accumulator_concat [] = Inr []"
| "Accumulator_concat (c # cs) =
     (if \<not> truthy c then Inr []
      else rbind (chunk_bytes c) (\<lambda>b. rbind (Accumulator_concat cs) (\<lambda>r. Inr (b @ r))))"

definition generate :: "packet \<Rightarrow> buffer result" where
  "generate packet =
     rbind (writeToStream packet new_Accumulator) (\<lambda>(_, s).
       case sw_errs s of
         e # _ \<Rightarrow> Inl (JsError e)
       | [] \<Rightarrow> Accumulator_concat (sw_out s))"

end
