(* ===== verification/Packet_Parser.thy ===== *)
theory Packet_Parser
  imports Packet_Types
begin

text \<open>
  The incremental parser of the bundled \<^verbatim>\<open>mqtt-packet\<close> module. The state holds the packet under
  construction, the error, the BufferList of bytes not yet consumed, the index of the current of the
  four states, the position inside the packet, and the log of the events emitted. A method that
  reads outside the list throws a RangeError, which leaves \<^verbatim>\<open>parse\<close>: an \<open>Inl\<close> value here.
\<close>

section \<open>State\<close>

datatype parser_event = EvPacket packet | EvError string

record parser =
  ps_packet :: packet
  ps_error :: "string option"
  ps_list :: buffer_list
  ps_counter :: nat
  ps_pos :: int
  ps_events :: "parser_event list"

definition resetState :: "parser \<Rightarrow> parser" where
  "resetState p = p\<lparr>ps_packet := new_Packet, ps_error := None, ps_list := bl_new, ps_counter := 0\<rparr>"

definition new_Parser :: parser where
  "new_Parser = resetState \<lparr>ps_packet = new_Packet, ps_error = None, ps_list = bl_new, ps_counter = 0,
     ps_pos = 0, ps_events = []\<rparr>"

definition emitError :: "parser \<Rightarrow> string \<Rightarrow> parser" where
  "emitError p e = p\<lparr>ps_error := Some e, ps_events := ps_events p @ [EvError e]\<rparr>"

abbreviation upd_packet :: "(packet \<Rightarrow> packet) \<Rightarrow> parser \<Rightarrow> parser" where
  "upd_packet f p \<equiv> p\<lparr>ps_packet := f (ps_packet p)\<rparr>"

section \<open>Fixed header\<close>

definition parseHeader :: "parser \<Rightarrow> (bool \<times> parser) result" where
  "parseHeader p =
     rbind (bl_readUInt8 (ps_list p) 0) (\<lambda>z.
       let zero = nat z;
           q = upd_packet (\<lambda>k. k\<lparr>
                 p_cmd := types (drop_bit CMD_SHIFT zero),
                 p_retain := JBool (zero AND RETAIN_MASK \<noteq> 0),
                 p_qos := JNum (int (drop_bit QOS_SHIFT zero AND QOS_MASK)),
                 p_dup := JBool (zero AND DUP_MASK \<noteq> 0)\<rparr>) p
       in Inr (True, q\<lparr>ps_list := bl_consume (ps_list q) 1\<rparr>))"

function parseLength_loop :: "buffer_list \<Rightarrow> nat \<Rightarrow> int \<Rightarrow> int \<Rightarrow> (bool \<times> int \<times> nat) result" where
  "parseLength_loop l bytes mul len =
     (if bytes < 5 then
        rbind (bl_readUInt8 l (int bytes)) (\<lambda>current.
          let bytes' = bytes + 1;
              len' = len + mul * (current AND int LENGTH_MASK);
              mul' = mul * 0x80
          in if current AND int LENGTH_FIN_MASK = 0 then Inr (True, len', bytes')
             else if bl_length l \<le> int bytes' then Inr (False, len', bytes')
             else parseLength_loop l bytes' mul' len')
      else Inr (True, len, bytes))"
  by pat_completeness auto
termination
  by (relation "measure (\<lambda>(l, bytes, mul, len). 5 - bytes)") auto

declare parseLength_loop.simps [simp del]

definition parseLength :: "parser \<Rightarrow> (bool \<times> parser) result" where
  "parseLength p =
     rbind (parseLength_loop (ps_list p) 0 1 0) (\<lambda>(result, len, bytes).
       Inr (result,
            if result then
              (upd_packet (\<lambda>k. k\<lparr>p_length := len\<rparr>) p)\<lparr>ps_list := bl_consume (ps_list p) (int bytes)\<rparr>
            else p))"

section \<open>Numbers, strings, buffers\<close>

definition parseNum :: "parser \<Rightarrow> (int \<times> parser) result" where
  "parseNum p =
     (if bl_length (ps_list p) - ps_pos p < 2 then Inr (-1, p)
      else rbind (bl_readUInt16BE (ps_list p) (ps_pos p)) (\<lambda>n. Inr (n, p\<lparr>ps_pos := ps_pos p + 2\<rparr>)))"

definition field_bounds :: "parser \<Rightarrow> (int option \<times> parser) result" where
  \<comment> \<open>the length prefix and the bounds test shared by strings and buffers; \<open>None\<close>: return \<^verbatim>\<open>null\<close>\<close>
  "field_bounds p =
     rbind (parseNum p) (\<lambda>(len, q).
       let end = len + ps_pos q in
       if len = -1 \<or> end > bl_length (ps_list q) \<or> end > p_length (ps_packet q) then Inr (None, q)
       else Inr (Some end, q))"

definition parseString :: "parser \<Rightarrow> (jsstr option \<times> parser) result" where
  "parseString p =
     rbind (field_bounds p) (\<lambda>(b, q).
       case b of
         None \<Rightarrow> Inr (None, q)
       | Some end \<Rightarrow>
           rbind (bl_toString (ps_list q) (js ''utf8'') (ps_pos q) end) (\<lambda>s.
             Inr (Some s, q\<lparr>ps_pos := end\<rparr>)))"

definition parseBuffer :: "parser \<Rightarrow> (buffer option \<times> parser) result" where
  "parseBuffer p =
     rbind (field_bounds p) (\<lambda>(b, q).
       case b of
         None \<Rightarrow> Inr (None, q)
       | Some end \<Rightarrow>
           rbind (bl_slice (ps_list q) (Some (ps_pos q)) (Some end)) (\<lambda>s.
             Inr (Some s, q\<lparr>ps_pos := end\<rparr>)))"

text \<open>
  \<^verbatim>\<open>_parseMessageId\<close> compares with \<^verbatim>\<open>null\<close>, but \<^verbatim>\<open>_parseNum\<close> reports a missing number as -1: the branch
  that would emit an error is never taken and the method returns true.
\<close>

definition parseMessageId :: "parser \<Rightarrow> (bool \<times> parser) result" where
  "parseMessageId p =
     rbind (parseNum p) (\<lambda>(n, q). Inr (True, upd_packet (\<lambda>k. k\<lparr>p_messageId := JNum n\<rparr>) q))"

section \<open>Variable headers and payloads\<close>

definition require :: "'a option \<Rightarrow> string \<Rightarrow> parser \<Rightarrow> ('a \<Rightarrow> parser result) \<Rightarrow> parser result" where
  \<comment> \<open>\<^verbatim>\<open>if (x === null) return this._emitError(\<dots>)\<close>\<close>
  "require x e p k = (case x of None \<Rightarrow> Inr (emitError p e) | Some v \<Rightarrow> k v)"

definition byte_here :: "parser \<Rightarrow> nat result" where
  "byte_here p = rbind (bl_readUInt8 (ps_list p) (ps_pos p)) (\<lambda>b. Inr (nat b))"

definition connect_credentials :: "nat \<Rightarrow> parser \<Rightarrow> parser result" where
  "connect_credentials flags p =
     rbind (if flags AND USERNAME_MASK \<noteq> 0 then
              rbind (parseString p) (\<lambda>(u, q).
                Inr (case u of None \<Rightarrow> (True, emitError q ''Cannot parse username'')
                             | Some v \<Rightarrow> (False, upd_packet (\<lambda>k. k\<lparr>p_username := JStr v\<rparr>) q)))
            else Inr (False, p)) (\<lambda>(stop, q).
       if stop then Inr q
       else if flags AND PASSWORD_MASK \<noteq> 0 then
         rbind (parseBuffer q) (\<lambda>(u, r).
           require u ''Cannot parse password'' r (\<lambda>v.
             Inr (upd_packet (\<lambda>k. k\<lparr>p_password := JBuf v\<rparr>) r)))
       else Inr q)"

definition set_will :: "(will_rec \<Rightarrow> will_rec) \<Rightarrow> packet \<Rightarrow> packet" where
  \<comment> \<open>assign to a property of \<^verbatim>\<open>packet.will\<close>\<close>
  "set_will f k = k\<lparr>p_will := (case p_will k of WillObj w \<Rightarrow> WillObj (f w) | v \<Rightarrow> v)\<rparr>"

definition start_will :: "nat \<Rightarrow> parser \<Rightarrow> parser" where
  "start_will flags p =
     (if flags AND WILL_FLAG_MASK \<noteq> 0 then
        upd_packet (\<lambda>k. k\<lparr>p_will := WillObj \<lparr>
          w_retain = JBool (flags AND WILL_RETAIN_MASK \<noteq> 0),
          w_qos = JNum (int (drop_bit WILL_QOS_SHIFT (flags AND WILL_QOS_MASK))),
          w_topic = JUndef, w_payload = JUndef\<rparr>\<rparr>) p
      else p)"

definition connect_will :: "nat \<Rightarrow> parser \<Rightarrow> parser result" where
  "connect_will flags p =
     (if flags AND WILL_FLAG_MASK \<noteq> 0 then
        rbind (parseString p) (\<lambda>(t, q).
          require t ''Cannot parse will topic'' q (\<lambda>topic.
          rbind (parseBuffer (upd_packet (set_will (w_topic_update (\<lambda>_. JStr topic))) q)) (\<lambda>(b, r).
            require b ''Cannot parse will payload'' r (\<lambda>payload.
              connect_credentials flags
                (upd_packet (set_will (w_payload_update (\<lambda>_. JBuf payload))) r)))))
      else connect_credentials flags p)"

definition parseConnect :: "parser \<Rightarrow> parser result" where
  "parseConnect p0 =
     rbind (parseString p0) (\<lambda>(i, p1).
     require i ''Cannot parse protocolId'' p1 (\<lambda>protocolId.
       if protocolId \<noteq> js ''MQTT'' \<and> protocolId \<noteq> js ''MQIsdp'' then Inr (emitError p1 ''Invalid protocolId'')
       else
         let p2 = upd_packet (\<lambda>k. k\<lparr>p_protocolId := JStr protocolId\<rparr>) p1 in
         if ps_pos p2 \<ge> bl_length (ps_list p2) then Inr (emitError p2 ''Packet too short'')
         else
           rbind (byte_here p2) (\<lambda>version.
             let p3 = upd_packet (\<lambda>k. k\<lparr>p_protocolVersion := JNum (int version)\<rparr>) p2 in
             if version \<noteq> 3 \<and> version \<noteq> 4 then Inr (emitError p3 ''Invalid protocol version'')
             else
               let p4 = p3\<lparr>ps_pos := ps_pos p3 + 1\<rparr> in
               if ps_pos p4 \<ge> bl_length (ps_list p4) then Inr (emitError p4 ''Packet too short'')
               else
                 rbind (byte_here p4) (\<lambda>flags.
                   let p5 = (upd_packet (\<lambda>k. k\<lparr>p_clean := JBool (flags AND CLEAN_SESSION_MASK \<noteq> 0)\<rparr>)
                              (start_will flags p4))
                              \<lparr>ps_pos := ps_pos p4 + 1\<rparr> in
                   rbind (parseNum p5) (\<lambda>(keepalive, p6).
                     let p7 = upd_packet (\<lambda>k. k\<lparr>p_keepalive := JNum keepalive\<rparr>) p6 in
                     if keepalive = -1 then Inr (emitError p7 ''Packet too short'')
                     else
                       rbind (parseString p7) (\<lambda>(c, p8).
                         require c ''Packet too short'' p8 (\<lambda>clientId.
                           connect_will flags
                             (upd_packet (\<lambda>k. k\<lparr>p_clientId := JStr clientId\<rparr>) p8))))))))"

definition parseConnack :: "parser \<Rightarrow> parser result" where
  "parseConnack p =
     (if bl_length (ps_list p) < 2 then Inr p
      else
        rbind (byte_here p) (\<lambda>b.
          let q = (upd_packet (\<lambda>k. k\<lparr>p_sessionPresent := JBool (b AND SESSIONPRESENT_MASK \<noteq> 0)\<rparr>) p)
                    \<lparr>ps_pos := ps_pos p + 1\<rparr> in
          rbind (byte_here q) (\<lambda>rc.
            Inr (upd_packet (\<lambda>k. k\<lparr>p_returnCode := JNum (int rc)\<rparr>) q))))"

definition qos_of :: "packet \<Rightarrow> int" where
  "qos_of k = (case p_qos k of JNum n \<Rightarrow> n | _ \<Rightarrow> 0)"

definition parsePublish :: "parser \<Rightarrow> parser result" where
  "parsePublish p0 =
     rbind (parseString p0) (\<lambda>(t, p1).
       case t of
         None \<Rightarrow> Inr (emitError (upd_packet (\<lambda>k. k\<lparr>p_topic := JNull\<rparr>) p1) ''Cannot parse topic'')
       | Some topic \<Rightarrow>
           let p2 = upd_packet (\<lambda>k. k\<lparr>p_topic := JStr topic\<rparr>) p1 in
           rbind (if qos_of (ps_packet p2) > 0 then parseMessageId p2 else Inr (True, p2)) (\<lambda>(ok, p3).
             if \<not> ok then Inr p3
             else
               rbind (bl_slice (ps_list p3) (Some (ps_pos p3)) (Some (p_length (ps_packet p3)))) (\<lambda>b.
                 Inr (upd_packet (\<lambda>k. k\<lparr>p_payload := JBuf b\<rparr>) p3))))"

lemma bl_readUInt16BE_nonneg: "bl_readUInt16BE l i = Inr n \<Longrightarrow> 0 \<le> n"
proof -
  assume "bl_readUInt16BE l i = Inr n"
  then obtain b where "readUInt16BE b 0 = Inr n"
    by (auto simp: bl_readUInt16BE_def bl_read_def result_simps)
  then show ?thesis
    using byte_at_range by (auto simp: readUInt16BE_def result_simps Let_def push_bit_nonnegative_int_iff)
qed

lemma parseNum_pos: "parseNum p = Inr (n, q) \<Longrightarrow> n \<noteq> -1 \<Longrightarrow> ps_pos q = ps_pos p + 2 \<and> 0 \<le> n"
  by (auto simp: parseNum_def result_simps dest: bl_readUInt16BE_nonneg split: if_splits)

lemma parseNum_packet: "parseNum p = Inr (n, q) \<Longrightarrow> ps_packet q = ps_packet p \<and> ps_list q = ps_list p"
  by (auto simp: parseNum_def result_simps split: if_splits)

lemma parseString_progress:
  "parseString p = Inr (Some s, q) \<Longrightarrow>
     ps_pos p < ps_pos q \<and> ps_packet q = ps_packet p \<and> ps_list q = ps_list p"
  by (auto simp: parseString_def field_bounds_def result_simps Let_def split: option.splits if_splits
      dest: parseNum_pos parseNum_packet)

function parseSubscribe_loop :: "parser \<Rightarrow> parser result" where
  "parseSubscribe_loop p =
     (if ps_pos p < p_length (ps_packet p) then
        (case parseString p of
           Inl e \<Rightarrow> Inl e
         | Inr (None, q) \<Rightarrow> Inr (emitError q ''Cannot parse topic'')
         | Inr (Some topic, q) \<Rightarrow>
             rbind (byte_here q) (\<lambda>qos.
               parseSubscribe_loop
                 ((upd_packet (\<lambda>k. k\<lparr>p_subscriptions :=
                     map_option (\<lambda>xs. xs @ [\<lparr>sub_topic = JStr topic, sub_qos = JNum (int qos)\<rparr>])
                       (p_subscriptions k)\<rparr>) q)\<lparr>ps_pos := ps_pos q + 1\<rparr>)))
      else Inr p)"
  by pat_completeness auto
termination
proof (relation "measure (\<lambda>p. nat (p_length (ps_packet p) - ps_pos p))", simp, goal_cases)
  case (1 p r t q topic qos)
  then show ?case using parseString_progress [of p topic q] by auto
qed

declare parseSubscribe_loop.simps [simp del]

definition parseSubscribe :: "parser \<Rightarrow> parser result" where
  "parseSubscribe p =
     (if qos_of (ps_packet p) \<noteq> 1 then Inr (emitError p ''Wrong subscribe header'')
      else
        rbind (parseMessageId (upd_packet (\<lambda>k. k\<lparr>p_subscriptions := Some []\<rparr>) p)) (\<lambda>(ok, q).
          if \<not> ok then Inr q else parseSubscribe_loop q))"

function parseSuback_loop :: "parser \<Rightarrow> parser result" where
  "parseSuback_loop p =
     (if ps_pos p < p_length (ps_packet p) then
        rbind (byte_here p) (\<lambda>g.
          parseSuback_loop
            ((upd_packet (\<lambda>k. k\<lparr>p_granted := map_option (\<lambda>xs. xs @ [JNum (int g)]) (p_granted k)\<rparr>) p)
              \<lparr>ps_pos := ps_pos p + 1\<rparr>))
      else Inr p)"
  by pat_completeness auto
termination
  by (relation "measure (\<lambda>p. nat (p_length (ps_packet p) - ps_pos p))") auto

declare parseSuback_loop.simps [simp del]

definition parseSuback :: "parser \<Rightarrow> parser result" where
  "parseSuback p =
     rbind (parseMessageId (upd_packet (\<lambda>k. k\<lparr>p_granted := Some []\<rparr>) p)) (\<lambda>(ok, q).
       if \<not> ok then Inr q else parseSuback_loop q)"

function parseUnsubscribe_loop :: "parser \<Rightarrow> parser result" where
  "parseUnsubscribe_loop p =
     (if ps_pos p < p_length (ps_packet p) then
        (case parseString p of
           Inl e \<Rightarrow> Inl e
         | Inr (None, q) \<Rightarrow> Inr (emitError q ''Cannot parse topic'')
         | Inr (Some topic, q) \<Rightarrow>
             parseUnsubscribe_loop
               (upd_packet (\<lambda>k. k\<lparr>p_unsubscriptions :=
                  map_option (\<lambda>xs. xs @ [JStr topic]) (p_unsubscriptions k)\<rparr>) q))
      else Inr p)"
  by pat_completeness auto
termination
proof (relation "measure (\<lambda>p. nat (p_length (ps_packet p) - ps_pos p))", simp, goal_cases)
  case (1 p r t q topic)
  then show ?case using parseString_progress [of p topic q] by auto
qed

declare parseUnsubscribe_loop.simps [simp del]

definition parseUnsubscribe :: "parser \<Rightarrow> parser result" where
  "parseUnsubscribe p =
     rbind (parseMessageId (upd_packet (\<lambda>k. k\<lparr>p_unsubscriptions := Some []\<rparr>) p)) (\<lambda>(ok, q).
       if \<not> ok then Inr q else parseUnsubscribe_loop q)"

definition parseUnsuback :: "parser \<Rightarrow> parser result" where
  "parseUnsuback p =
     rbind (parseMessageId p) (\<lambda>(ok, q).
       if \<not> ok then Inr (emitError q ''Cannot parse messageId'') else Inr q)"

section \<open>The four states and the loop\<close>

definition dispatch_payload :: "parser \<Rightarrow> parser result" where
  "dispatch_payload p =
     (case p_cmd (ps_packet p) of
        Connect \<Rightarrow> parseConnect p
      | Connack \<Rightarrow> parseConnack p
      | Publish \<Rightarrow> parsePublish p
      | Puback \<Rightarrow> rbind (parseMessageId p) (\<lambda>(_, q). Inr q)
      | Pubrec \<Rightarrow> rbind (parseMessageId p) (\<lambda>(_, q). Inr q)
      | Pubrel \<Rightarrow> rbind (parseMessageId p) (\<lambda>(_, q). Inr q)
      | Pubcomp \<Rightarrow> rbind (parseMessageId p) (\<lambda>(_, q). Inr q)
      | Subscribe \<Rightarrow> parseSubscribe p
      | Suback \<Rightarrow> parseSuback p
      | Unsubscribe \<Rightarrow> parseUnsubscribe p
      | Unsuback \<Rightarrow> parseUnsuback p
      | Pingreq \<Rightarrow> Inr p
      | Pingresp \<Rightarrow> Inr p
      | Disconnect \<Rightarrow> Inr p
      | _ \<Rightarrow> Inr (emitError p ''Not supported''))"

definition parsePayload :: "parser \<Rightarrow> (bool \<times> parser) result" where
  "parsePayload p =
     (if p_length (ps_packet p) = 0 \<or> bl_length (ps_list p) \<ge> p_length (ps_packet p) then
        rbind (dispatch_payload (p\<lparr>ps_pos := 0\<rparr>)) (\<lambda>q. Inr (True, q))
      else Inr (False, p))"

definition newPacket :: "parser \<Rightarrow> (bool \<times> parser) result" where
  "newPacket p =
     Inr (True, p\<lparr>ps_list := bl_consume (ps_list p) (p_length (ps_packet p)),
                  ps_events := ps_events p @ [EvPacket (ps_packet p)],
                  ps_packet := new_Packet\<rparr>)"

definition run_state :: "parser \<Rightarrow> (bool \<times> parser) result" where
  "run_state p =
     (if ps_counter p = 0 then parseHeader p
      else if ps_counter p = 1 then parseLength p
      else if ps_counter p = 2 then parsePayload p
      else newPacket p)"

text \<open>The loop of \<^verbatim>\<open>parse\<close>; \<open>None\<close> means that the fuel did not suffice (it always does, see below).\<close>

fun parse_loop :: "nat \<Rightarrow> parser \<Rightarrow> parser result option" where
  "parse_loop 0 p = None"
| "parse_loop (Suc fuel) p =
     (if p_length (ps_packet p) \<noteq> -1 \<or> bl_length (ps_list p) > 0 then
        (case run_state p of
           Inl e \<Rightarrow> Some (Inl e)
         | Inr (result, q) \<Rightarrow>
             if result \<and> ps_error q = None then
               parse_loop fuel (q\<lparr>ps_counter := if ps_counter q + 1 \<ge> 4 then 0 else ps_counter q + 1\<rparr>)
             else Some (Inr q))
      else Some (Inr p))"

definition parse_fuel :: "parser \<Rightarrow> nat" where
  "parse_fuel p = 4 * nat (bl_length (ps_list p)) + 4"

definition parse :: "parser \<Rightarrow> buffer \<Rightarrow> parser result option" where
  "parse p0 buf =
     (let p1 = (if ps_error p0 \<noteq> None then resetState p0 else p0);
          p2 = p1\<lparr>ps_list := appendBuffer (ps_list p1) buf\<rparr>
      in parse_loop (parse_fuel p2) p2)"

end
