(* ===== verification/Packet_Length.thy ===== *)
theory Packet_Length
  imports Packet_Write Packet_Parser
begin

text \<open>
  The remaining-length field: \<^verbatim>\<open>genBufLength\<close> of the generator against \<^verbatim>\<open>_parseLength\<close> of the parser. The
  reference encoding \<open>varint\<close> is the one of the MQTT specification (base 128, least significant digit
  first, the high bit of a byte announces another one).
\<close>

section \<open>Reference encoding\<close>

fun varint :: "nat \<Rightarrow> buffer" where
  "varint n = (if n < 128 then [of_nat n] else of_nat (n mod 128 + 128) # varint (n div 128))"

declare varint.simps [simp del]

lemma varint_small: "n < 128 \<Longrightarrow> varint n = [of_nat n]"
  by (simp add: varint.simps)

lemma varint_big: "128 \<le> n \<Longrightarrow> varint n = of_nat (n mod 128 + 128) # varint (n div 128)"
  by (simp add: varint.simps [of n])

lemma varint_ne [simp]: "varint n \<noteq> []"
  by (simp add: varint.simps)

lemma length_varint: "n < 268435456 \<Longrightarrow> length (varint n) = calcLengthLength n"
proof -
  have a: "length (varint n) = 1" if "n < 128" for n
    using that by (simp add: varint_small)
  have b: "length (varint n) = 2" if "128 \<le> n" "n < 16384" for n
    using that a [of "n div 128"] by (simp add: varint_big)
  have c: "length (varint n) = 3" if "16384 \<le> n" "n < 2097152" for n
    using that b [of "n div 128"] by (simp add: varint_big)
  have d: "length (varint n) = 4" if "2097152 \<le> n" "n < 268435456" for n
    using that c [of "n div 128"] by (simp add: varint_big)
  assume "n < 268435456"
  then show ?thesis
    using a [of n] b [of n] c [of n] d [of n] by (simp add: calcLengthLength_def)
qed

lemma calcLengthLength_le: "calcLengthLength n \<le> 4"
  by (simp add: calcLengthLength_def)

section \<open>The generator\<close>

lemma int_or_80: "x < 128 \<Longrightarrow> int x OR 128 = int (x + 128)"
proof -
  assume "x < 128"
  then have "x OR 128 = x + 128" using nat_or_add [of x 7 1] by (simp add: or.commute)
  then show ?thesis by (metis of_nat_numeral of_nat_or_eq)
qed

lemma genBuf_loop_step:
  assumes "n < 268435456"
  shows "genBuf_loop n pos buf =
    (if n < 128 then buf[pos := of_nat n]
     else genBuf_loop (n div 128) (pos + 1) (buf[pos := of_nat (n mod 128 + 128)]))"
proof -
  have d: "to_int32 (int n mod 128) = int (n mod 128)"
    by (simp add: of_nat_mod to_int32_id)
  have q: "to_int32 (int n div 128) = int (n div 128)"
    using assms by (subst to_int32_id) (simp_all add: zdiv_int)
  have z: "0 < n div 128 \<longleftrightarrow> \<not> n < 128" by (simp add: div_greater_zero_iff not_less)
  have s: "int (n mod 128) AND 255 = int (n mod 128)" "int (n mod 128 + 128) AND 255 = int (n mod 128 + 128)"
    by (simp_all only: int_and_FF) (simp_all add: of_nat_mod)
  have w: "word_of_int (int (n mod 128)) = (of_nat (n mod 128) :: byte)"
    "word_of_int (int (n mod 128 + 128)) = (of_nat (n mod 128 + 128) :: byte)"
    by (simp_all only: of_int_of_nat_eq)
  have o: "int (n mod 128) OR 128 = int (n mod 128 + 128)" by (rule int_or_80) simp
  show ?thesis
  proof (cases "n < 128")
    case True
    then have "n mod 128 = n" by simp
    then show ?thesis
      using True s(1) w(1)
      by (subst genBuf_loop.simps) (simp only: d q Let_def of_nat_0_less_iff z if_True if_False not_True_eq_False)
  next
    case False
    then show ?thesis
      by (subst genBuf_loop.simps) (simp only: d q Let_def of_nat_0_less_iff z s w o if_True if_False not_False_eq_True nat_int)
  qed
qed

lemma genBuf_loop_varint:
  assumes "n < 268435456" "pos + length (varint n) \<le> length buf"
  shows "genBuf_loop n pos buf = take pos buf @ varint n @ drop (pos + length (varint n)) buf"
  using assms
proof (induction n arbitrary: pos buf rule: varint.induct)
  case (1 n)
  show ?case
  proof (cases "n < 128")
    case True
    then show ?thesis using "1.prems"
      by (simp add: genBuf_loop_step varint_small upd_conv_take_nth_drop)
  next
    case False
    then have v: "varint n = of_nat (n mod 128 + 128) # varint (n div 128)" by (simp add: varint_big)
    let ?b = "buf[pos := of_nat (n mod 128 + 128)]"
    have "genBuf_loop n pos buf = genBuf_loop (n div 128) (pos + 1) ?b"
      using False "1.prems"(1) by (simp add: genBuf_loop_step)
    also have "\<dots> = take (pos + 1) ?b @ varint (n div 128) @ drop (pos + 1 + length (varint (n div 128))) ?b"
      using "1.prems" by (intro "1.IH" [OF False]) (auto simp: v)
    finally show ?thesis
      using "1.prems"(2) by (simp add: v take_Suc_conv_app_nth)
  qed
qed

lemma genBufLength_varint: "n < 268435456 \<Longrightarrow> genBufLength n = varint n"
  using genBuf_loop_varint [of n 0 "replicate (calcLengthLength n) 0"]
  by (simp add: genBufLength_def length_varint)

section \<open>The parser\<close>

lemma int_and_7F: "(x::int) AND int LENGTH_MASK = x mod 128"
  using int_and_mask [of x 7] by (simp add: mask_eq_exp_minus_1 LENGTH_MASK_def)

lemma int_and_80: "0 \<le> x \<Longrightarrow> x < 256 \<Longrightarrow> x AND int LENGTH_FIN_MASK = 0 \<longleftrightarrow> x < 128"
proof -
  assume "0 \<le> x" "x < 256"
  have e: "x AND int LENGTH_FIN_MASK = 0 \<longleftrightarrow> \<not> bit x 7"
    using and_exp_eq_0_iff_not_bit [of x 7] by (simp add: LENGTH_FIN_MASK_def)
  have "x div 128 = (if x < 128 then 0 else 1)"
    using \<open>0 \<le> x\<close> \<open>x < 256\<close> by auto
  then show ?thesis unfolding e by (simp add: bit_iff_odd)
qed

lemma parseLength_loop_byte:
  assumes "bl_inv l" "drop i (bl_bytes l) = b # rest" "i < 5"
  shows "parseLength_loop l i mul len =
    (if uint b < 128 then Inr (True, len + mul * uint b, i + 1)
     else if rest = [] then Inr (False, len + mul * (uint b mod 128), i + 1)
     else parseLength_loop l (i + 1) (mul * 128) (len + mul * (uint b mod 128)))"
proof -
  have i: "i < length (bl_bytes l)" "bl_bytes l ! i = b" "length (bl_bytes l) = i + 1 + length rest"
    using assms(2) by (auto simp: nth_via_drop) (metis drop_eq_Nil list.distinct(1) not_le,
        metis length_drop length_Cons add_Suc_right add.commute diff_add_inverse2 le_add_diff_inverse
          drop_eq_Nil list.distinct(1) nat_le_linear plus_1_eq_Suc)
  have "bl_readUInt8 l (int i) = Inr (uint b)"
    using bl_readUInt8_eq [OF assms(1), of i] i by simp
  moreover have "bl_length l \<le> int (i + 1) \<longleftrightarrow> rest = []"
    using bl_inv_length [OF assms(1)] i(3) by simp
  ultimately show ?thesis
    unfolding parseLength_loop.simps [of l i]
    using assms(3) by (auto simp: Let_def int_and_7F int_and_80)
qed

lemma uint_of_nat_byte: "n < 256 \<Longrightarrow> uint (of_nat n :: byte) = int n"
  by (simp add: uint_nat)

lemma parseLength_loop_full:
  assumes "bl_inv l" "drop i (bl_bytes l) = varint n @ rest" "i + length (varint n) \<le> 5"
  shows "parseLength_loop l i mul len = Inr (True, len + mul * int n, i + length (varint n))"
  using assms(2,3)
proof (induction n arbitrary: i mul len rule: varint.induct)
  case (1 n)
  have i: "i < 5" using "1.prems"(2) by (cases "varint n") auto
  show ?case
  proof (cases "n < 128")
    case True
    then show ?thesis
      using parseLength_loop_byte [OF assms(1), of i "of_nat n" rest] "1.prems" i
      by (simp add: varint_small uint_of_nat_byte)
  next
    case False
    then have v: "varint n = of_nat (n mod 128 + 128) # varint (n div 128)" by (simp add: varint_big)
    have d: "drop (i + 1) (bl_bytes l) = varint (n div 128) @ rest"
      using "1.prems"(1) by (simp add: v drop_Suc drop_tl)
    have u: "uint (of_nat (n mod 128 + 128) :: byte) = int (n mod 128) + 128"
      by (subst uint_of_nat_byte) auto
    have "parseLength_loop l i mul len = parseLength_loop l (i + 1) (mul * 128) (len + mul * int (n mod 128))"
      using parseLength_loop_byte [OF assms(1), of i "of_nat (n mod 128 + 128)" "varint (n div 128) @ rest"]
        "1.prems"(1) i unfolding u v by simp
    also have "\<dots> = Inr (True, len + mul * int (n mod 128) + mul * 128 * int (n div 128),
        i + 1 + length (varint (n div 128)))"
      using "1.prems"(2) by (intro "1.IH" [OF False d]) (simp add: v)
    also have "len + mul * int (n mod 128) + mul * 128 * int (n div 128) = len + mul * int n"
    proof -
      have "int n = int (n mod 128) + 128 * int (n div 128)"
        by (simp add: of_nat_mod zdiv_int)
      then show ?thesis by (simp add: algebra_simps)
    qed
    finally show ?thesis by (simp add: v)
  qed
qed

lemma parseLength_loop_partial:
  assumes "bl_inv l" "varint n = drop i (bl_bytes l) @ post" "post \<noteq> []" "drop i (bl_bytes l) \<noteq> []"
    "i + length (varint n) \<le> 5"
  shows "\<exists>len' k. parseLength_loop l i mul len = Inr (False, len', k)"
  using assms(2,4,5)
proof (induction n arbitrary: i mul len rule: varint.induct)
  case (1 n)
  have nb: "\<not> n < 128"
    using "1.prems"(1,2) assms(3) by (cases "drop i (bl_bytes l)") (auto simp: varint_small)
  then have v: "varint n = of_nat (n mod 128 + 128) # varint (n div 128)" by (simp add: varint_big)
  obtain pre where p: "drop i (bl_bytes l) = of_nat (n mod 128 + 128) # pre" "varint (n div 128) = pre @ post"
    using "1.prems"(1,2) v by (cases "drop i (bl_bytes l)") auto
  have i: "i < 5" using "1.prems"(3) by (cases "varint n") auto
  have u: "\<not> uint (of_nat (n mod 128 + 128) :: byte) < 128"
    by (subst uint_of_nat_byte) auto
  have d: "drop (i + 1) (bl_bytes l) = pre"
    using p(1) by (simp add: drop_Suc drop_tl)
  show ?case
  proof (cases "pre = []")
    case True
    then show ?thesis
      using parseLength_loop_byte [OF assms(1) p(1) i, of mul len] u by auto
  next
    case False
    have "\<exists>len' k. parseLength_loop l (i + 1) (mul * 128) len1 = Inr (False, len', k)" for len1
      using "1.prems"(3) False p(2) d by (intro "1.IH" [OF nb]) (simp_all add: v)
    then show ?thesis
      using parseLength_loop_byte [OF assms(1) p(1) i, of mul len] u False by simp
  qed
qed

section \<open>The cache of the generator\<close>

definition cache_ok :: "(nat \<rightharpoonup> buffer) \<Rightarrow> bool" where
  "cache_ok cache \<longleftrightarrow> (\<forall>k b. cache k = Some b \<longrightarrow> b = genBufLength k)"

lemma writeLength_cached_eq:
  assumes "cache_ok cache" "writeLength_cached cache s len = (cache', s')"
  shows "s' = writeLength s (int len) \<and> cache_ok cache'"
  using assms by (auto simp: cache_ok_def writeLength_cached_def writeLength_def Let_def split: option.splits if_splits)

text \<open>
  \<^bold>\<open>C10.\<close> The remaining-length field. For every length below \<open>2 ^ 28\<close> (the bound of the protocol) the
  generator writes \<^verbatim>\<open>calcLengthLength\<close> bytes, at most four; the parser, on a list that begins with these
  bytes, reads the same length, consumes exactly them and leaves the rest; and on every proper
  non-empty prefix of the field it reports that it needs more data and consumes nothing.
\<close>

theorem length_field_roundtrip:
  assumes "n < 2 ^ 28" "bl_inv (ps_list p)"
  shows "length (genBufLength n) = calcLengthLength n \<and> calcLengthLength n \<le> 4
    \<and> (bl_bytes (ps_list p) = genBufLength n @ rest \<longrightarrow>
        (\<exists>q. parseLength p = Inr (True, q) \<and> p_length (ps_packet q) = int n
           \<and> bl_bytes (ps_list q) = rest \<and> bl_inv (ps_list q)))
    \<and> (genBufLength n = bl_bytes (ps_list p) @ post \<and> post \<noteq> [] \<and> bl_bytes (ps_list p) \<noteq> [] \<longrightarrow>
        parseLength p = Inr (False, p))"
proof -
  have n: "n < 268435456" using assms(1) by simp
  note g = genBufLength_varint [OF n] and l = length_varint [OF n]
  have five: "0 + length (varint n) \<le> 5" using l calcLengthLength_le [of n] by simp
  have "parseLength p = Inr (False, p)"
    if "varint n = bl_bytes (ps_list p) @ post" "post \<noteq> []" "bl_bytes (ps_list p) \<noteq> []"
  proof -
    have "\<exists>len' k. parseLength_loop (ps_list p) 0 1 0 = Inr (False, len', k)"
      by (rule parseLength_loop_partial [OF assms(2) _ that(2) _ five]) (use that in auto)
    then show ?thesis by (auto simp: parseLength_def)
  qed
  moreover have "\<exists>q. parseLength p = Inr (True, q) \<and> p_length (ps_packet q) = int n
      \<and> bl_bytes (ps_list q) = rest \<and> bl_inv (ps_list q)"
    if "bl_bytes (ps_list p) = varint n @ rest"
    using parseLength_loop_full [OF assms(2) _ five, of rest 1 0] that
      bl_consume_facts [OF assms(2), of "length (varint n)"]
    by (auto simp: parseLength_def)
  ultimately show ?thesis
    using l calcLengthLength_le [of n] unfolding g by simp
qed

theorem length_field_roundtrip_witness:
  "\<exists>p q. bl_bytes (ps_list p) = genBufLength 321 @ [7] \<and> parseLength p = Inr (True, q)
     \<and> p_length (ps_packet q) = int 321 \<and> bl_bytes (ps_list q) = [7]"
proof -
  let ?p = "new_Parser\<lparr>ps_list := appendBuffer bl_new (genBufLength 321 @ [7])\<rparr>"
  have len: "length (genBufLength 321 @ [7]) = 3"
    by (simp add: genBufLength_varint length_varint calcLengthLength_def)
  have "bl_inv (ps_list ?p)"
    using bl_inv_appendBuffer [of bl_new "genBufLength 321 @ [7]"] len
    by (simp add: bl_new_def K_MAX_LENGTH_def bl_inv_def bl_bytes_def)
  moreover have "bl_bytes (ps_list ?p) = genBufLength 321 @ [7]" by simp
  moreover have "(321::nat) < 2 ^ 28" by simp
  ultimately show ?thesis
    using length_field_roundtrip [of 321 ?p "[7]"] by blast
qed

fun write_lengths :: "(nat \<rightharpoonup> buffer) \<Rightarrow> wstream \<Rightarrow> nat list \<Rightarrow> wstream" where
  "write_lengths cache s [] = s"
| "write_lengths cache s (n # ns) =
     (let (cache', s') = writeLength_cached cache s n in write_lengths cache' s' ns)"

lemma write_lengths_cache_ok:
  "cache_ok cache \<Longrightarrow> write_lengths cache s ns = foldl (\<lambda>st n. writeLength st (int n)) s ns"
  by (induction ns arbitrary: cache s)
     (auto split: prod.splits dest: writeLength_cached_eq)

text \<open>
  \<^bold>\<open>C22.\<close> The length cache is transparent: starting from the empty cache and for every sequence of
  lengths, the stream after the cached writes is the stream after the same writes without a cache.
\<close>

theorem length_cache_transparent:
  "write_lengths Map.empty s ns = foldl (\<lambda>st n. writeLength st (int n)) s ns"
  by (rule write_lengths_cache_ok) (simp add: cache_ok_def)

end
