(* ===== verification/Packet_Loop.thy ===== *)
theory Packet_Loop
  imports Packet_Length
begin

text \<open>
  The loop of \<^verbatim>\<open>Parser.prototype.parse\<close>: an invariant of the parser state, what the payload parsers leave
  alone, termination within the fuel of the model, and what a call has done when it returns.
\<close>

section \<open>What the payload parsers leave alone\<close>

definition frame_of :: "parser \<Rightarrow> buffer_list \<times> int \<times> nat" where
  "frame_of p = (ps_list p, p_length (ps_packet p), ps_counter p)"

lemma frame_of_updates [simp]:
  "frame_of (q\<lparr>ps_pos := n\<rparr>) = frame_of q"
  "frame_of (emitError q e) = frame_of q"
  "p_length k = p_length (ps_packet q) \<Longrightarrow> frame_of (q\<lparr>ps_packet := k\<rparr>) = frame_of q"
  by (simp_all add: frame_of_def emitError_def)

lemma parseNum_frame: "parseNum p = Inr (n, q) \<Longrightarrow> frame_of q = frame_of p"
  by (auto simp: parseNum_def result_simps split: if_splits)

lemma field_bounds_frame: "field_bounds p = Inr (b, q) \<Longrightarrow> frame_of q = frame_of p"
  by (auto simp: field_bounds_def result_simps Let_def split: if_splits dest: parseNum_frame)

lemma parseString_frame: "parseString p = Inr (s, q) \<Longrightarrow> frame_of q = frame_of p"
  by (auto simp: parseString_def result_simps split: option.splits dest!: field_bounds_frame)

lemma parseBuffer_frame: "parseBuffer p = Inr (s, q) \<Longrightarrow> frame_of q = frame_of p"
  by (auto simp: parseBuffer_def result_simps split: option.splits dest!: field_bounds_frame)

lemma parseMessageId_frame: "parseMessageId p = Inr (b, q) \<Longrightarrow> frame_of q = frame_of p"
  by (auto simp: parseMessageId_def result_simps dest: parseNum_frame)

lemmas field_frames = parseNum_frame parseString_frame parseBuffer_frame parseMessageId_frame

lemma require_Inr:
  "require x e p k = Inr q \<longleftrightarrow> (x = None \<and> q = emitError p e) \<or> (\<exists>v. x = Some v \<and> k v = Inr q)"
  by (auto simp: require_def split: option.splits)

lemma set_will_length [simp]: "p_length (set_will f k) = p_length k"
  by (simp add: set_will_def)

lemma start_will_frame [simp]: "frame_of (start_will flags q) = frame_of q"
  by (simp add: start_will_def)

definition keeps :: "buffer_list \<times> int \<times> nat \<Rightarrow> parser result \<Rightarrow> bool" where
  "keeps \<phi> m \<longleftrightarrow> (\<forall>q. m = Inr q \<longrightarrow> frame_of q = \<phi>)"

lemma keeps_rules:
  "frame_of q = \<phi> \<Longrightarrow> keeps \<phi> (Inr q)"
  "frame_of p = \<phi> \<Longrightarrow> (\<And>x q. frame_of q = \<phi> \<Longrightarrow> keeps \<phi> (f (x, q))) \<Longrightarrow> keeps \<phi> (rbind (parseString p) f)"
  "frame_of p = \<phi> \<Longrightarrow> (\<And>x q. frame_of q = \<phi> \<Longrightarrow> keeps \<phi> (g (x, q))) \<Longrightarrow> keeps \<phi> (rbind (parseBuffer p) g)"
  "frame_of p = \<phi> \<Longrightarrow> (\<And>x q. frame_of q = \<phi> \<Longrightarrow> keeps \<phi> (h (x, q))) \<Longrightarrow> keeps \<phi> (rbind (parseNum p) h)"
  "(\<And>x. keeps \<phi> (k x)) \<Longrightarrow> keeps \<phi> (rbind (byte_here p) k)"
  "frame_of p = \<phi> \<Longrightarrow> (\<And>v. keeps \<phi> (c v)) \<Longrightarrow> keeps \<phi> (require x e p c)"
  by (auto simp: keeps_def result_simps require_Inr dest!: field_frames)

lemma connect_credentials_keeps: "frame_of p = \<phi> \<Longrightarrow> keeps \<phi> (connect_credentials flags p)"
  unfolding connect_credentials_def rbind_assoc
  by (auto simp: rbind_assoc intro!: keeps_rules split: option.split)

lemma connect_will_keeps: "frame_of p = \<phi> \<Longrightarrow> keeps \<phi> (connect_will flags p)"
  unfolding connect_will_def
  by (auto intro!: keeps_rules connect_credentials_keeps)

lemma parseConnect_keeps: "frame_of p = \<phi> \<Longrightarrow> keeps \<phi> (parseConnect p)"
  unfolding parseConnect_def Let_def
  by (auto intro!: keeps_rules connect_will_keeps)

lemma parseConnect_frame: "parseConnect p = Inr q \<Longrightarrow> frame_of q = frame_of p"
  using parseConnect_keeps [of p] by (simp add: keeps_def)

lemma parseConnack_frame: "parseConnack p = Inr q \<Longrightarrow> frame_of q = frame_of p"
  by (auto simp: parseConnack_def result_simps Let_def split: if_splits)

lemma parsePublish_frame: "parsePublish p = Inr q \<Longrightarrow> frame_of q = frame_of p"
  unfolding parsePublish_def
  by (auto simp: result_simps Let_def split: if_splits option.splits
      dest!: field_frames)

lemma parseSubscribe_loop_frame: "parseSubscribe_loop p = Inr q \<Longrightarrow> frame_of q = frame_of p"
proof (induction p rule: parseSubscribe_loop.induct)
  case (1 p)
  show ?case
  proof (cases "ps_pos p < p_length (ps_packet p)")
    case True
    from "1.prems" True obtain t r where r: "parseString p = Inr (t, r)"
      by (subst (asm) parseSubscribe_loop.simps) (auto split: sum.splits)
    note f = parseString_frame [OF r]
    show ?thesis
    proof (cases t)
      case None
      with "1.prems" True r f show ?thesis by (subst (asm) parseSubscribe_loop.simps) auto
    next
      case (Some topic)
      with "1.prems" True r obtain qos where "byte_here r = Inr qos"
        and l: "parseSubscribe_loop ((upd_packet (\<lambda>k. k\<lparr>p_subscriptions :=
             map_option (\<lambda>xs. xs @ [\<lparr>sub_topic = JStr topic, sub_qos = JNum (int qos)\<rparr>])
               (p_subscriptions k)\<rparr>) r)\<lparr>ps_pos := ps_pos r + 1\<rparr>) = Inr q"
        by (subst (asm) parseSubscribe_loop.simps) (auto simp: result_simps)
      have "frame_of q = frame_of r"
        using "1.IH" [OF True r _ Some l] by simp
      with f show ?thesis by simp
    qed
  next
    case False
    with "1.prems" show ?thesis by (subst (asm) parseSubscribe_loop.simps) auto
  qed
qed

lemma parseSuback_loop_frame: "parseSuback_loop p = Inr q \<Longrightarrow> frame_of q = frame_of p"
proof (induction p rule: parseSuback_loop.induct)
  case (1 p)
  from "1.prems" show ?case
    by (subst (asm) parseSuback_loop.simps) (auto simp: result_simps split: if_splits dest: "1.IH")
qed

lemma parseUnsubscribe_loop_frame: "parseUnsubscribe_loop p = Inr q \<Longrightarrow> frame_of q = frame_of p"
proof (induction p rule: parseUnsubscribe_loop.induct)
  case (1 p)
  show ?case
  proof (cases "ps_pos p < p_length (ps_packet p)")
    case True
    from "1.prems" True obtain t r where r: "parseString p = Inr (t, r)"
      by (subst (asm) parseUnsubscribe_loop.simps) (auto split: sum.splits)
    note f = parseString_frame [OF r]
    show ?thesis
    proof (cases t)
      case None
      with "1.prems" True r f show ?thesis by (subst (asm) parseUnsubscribe_loop.simps) auto
    next
      case (Some topic)
      with "1.prems" True r have l: "parseUnsubscribe_loop (upd_packet (\<lambda>k. k\<lparr>p_unsubscriptions :=
             map_option (\<lambda>xs. xs @ [JStr topic]) (p_unsubscriptions k)\<rparr>) r) = Inr q"
        by (subst (asm) parseUnsubscribe_loop.simps) (auto simp: result_simps)
      have "frame_of q = frame_of r"
        using "1.IH" [OF True r _ Some l] by simp
      with f show ?thesis by simp
    qed
  next
    case False
    with "1.prems" show ?thesis by (subst (asm) parseUnsubscribe_loop.simps) auto
  qed
qed

lemmas loop_frames = parseSubscribe_loop_frame parseSuback_loop_frame parseUnsubscribe_loop_frame

lemma parse_lists_frame:
  "parseSubscribe p = Inr q \<Longrightarrow> frame_of q = frame_of p"
  "parseSuback p = Inr q \<Longrightarrow> frame_of q = frame_of p"
  "parseUnsubscribe p = Inr q \<Longrightarrow> frame_of q = frame_of p"
  "parseUnsuback p = Inr q \<Longrightarrow> frame_of q = frame_of p"
  unfolding parseSubscribe_def parseSuback_def parseUnsubscribe_def parseUnsuback_def
  by (auto simp: result_simps split: if_splits
      dest!: field_frames loop_frames)

lemma dispatch_payload_frame: "dispatch_payload p = Inr q \<Longrightarrow> frame_of q = frame_of p"
  by (auto simp: dispatch_payload_def result_simps split: cmd.splits
      dest: parseConnect_frame parseConnack_frame parsePublish_frame parse_lists_frame parseMessageId_frame)

section \<open>The invariant and the measure\<close>

definition ps_inv :: "parser \<Rightarrow> bool" where
  "ps_inv p \<longleftrightarrow> (ps_error p = None \<longrightarrow>
     bl_inv (ps_list p) \<and> ps_counter p < 4
     \<and> (if ps_counter p < 2 then p_length (ps_packet p) = -1 else 0 \<le> p_length (ps_packet p)))"

definition advance :: "parser \<Rightarrow> parser" where
  "advance q = q\<lparr>ps_counter := if ps_counter q + 1 \<ge> 4 then 0 else ps_counter q + 1\<rparr>"

definition weight :: "parser \<Rightarrow> nat" where
  \<comment> \<open>strictly decreasing along the loop: four per byte, and a rank of the state\<close>
  "weight p = 4 * length (bl_bytes (ps_list p)) +
     (if ps_counter p = 2 then 2 else if ps_counter p = 3 then 1 else 0)"

definition busy :: "parser \<Rightarrow> bool" where
  "busy p \<longleftrightarrow> p_length (ps_packet p) \<noteq> -1 \<or> bl_length (ps_list p) > 0"

lemma new_Packet_length [simp]: "p_length new_Packet = -1"
  by (simp add: new_Packet_def)

lemma new_Parser_inv: "ps_inv new_Parser" "ps_error new_Parser = None"
  by (simp_all add: ps_inv_def new_Parser_def resetState_def)

lemma busy_bytes: "ps_inv p \<Longrightarrow> ps_error p = None \<Longrightarrow> ps_counter p < 2 \<Longrightarrow> busy p \<Longrightarrow> bl_bytes (ps_list p) \<noteq> []"
  by (auto simp: ps_inv_def busy_def bl_inv_length)

lemma parseHeader_step:
  assumes "bl_inv (ps_list p)" "bl_bytes (ps_list p) = b # rest"
  shows "\<exists>q. parseHeader p = Inr (True, q) \<and> bl_inv (ps_list q) \<and> bl_bytes (ps_list q) = rest
    \<and> ps_counter q = ps_counter p \<and> ps_error q = ps_error p \<and> ps_events q = ps_events p
    \<and> p_length (ps_packet q) = p_length (ps_packet p)"
  using bl_readUInt8_eq [OF assms(1), of 0] bl_consume_facts [OF assms(1), of 1] assms(2)
  by (simp add: parseHeader_def Let_def)

lemma parseLength_loop_result:
  assumes "bl_inv l" "i < length (bl_bytes l)" "i < 5" "0 \<le> len" "0 \<le> mul"
  shows "\<exists>res len' k. parseLength_loop l i mul len = Inr (res, len', k) \<and> i < k \<and> 0 \<le> len'
    \<and> k \<le> length (bl_bytes l)
    \<and> (\<not> res \<longrightarrow> length (bl_bytes l) \<le> 5 \<and> (\<forall>j. i \<le> j \<and> j < length (bl_bytes l) \<longrightarrow> 128 \<le> uint (bl_bytes l ! j)))"
  using assms(2-5)
proof (induction "5 - i" arbitrary: i mul len)
  case 0
  then show ?case by simp
next
  case (Suc d)
  define b rest where "b = bl_bytes l ! i" and "rest = drop (i + 1) (bl_bytes l)"
  have e: "drop i (bl_bytes l) = b # rest"
    using Suc.prems(1) by (simp add: b_def rest_def drop_Cons_nth)
  note step = parseLength_loop_byte [OF assms(1) e Suc.prems(2), of mul len]
  have pos: "0 \<le> len + mul * uint b" "0 \<le> len + mul * (uint b mod 128)"
    using Suc.prems(3,4) by simp_all
  have ne: "rest = [] \<longleftrightarrow> length (bl_bytes l) = i + 1"
    using Suc.prems(1) by (auto simp: rest_def)
  consider "uint b < 128" | "128 \<le> uint b" "rest = []" | "128 \<le> uint b" "rest \<noteq> []" "i = 4"
    | "128 \<le> uint b" "rest \<noteq> []" "i + 1 < 5"
    using Suc.prems(2) by linarith
  then show ?case
  proof cases
    case 1
    with step have "parseLength_loop l i mul len = Inr (True, len + mul * uint b, i + 1)" by simp
    then show ?thesis using pos(1) Suc.prems(1)
      by (intro exI [of _ True] exI [of _ "len + mul * uint b"] exI [of _ "i + 1"]) simp
  next
    case 2
    have "\<forall>j. i \<le> j \<and> j < length (bl_bytes l) \<longrightarrow> j = i" using 2(2) ne by auto
    then have "\<forall>j. i \<le> j \<and> j < length (bl_bytes l) \<longrightarrow> 128 \<le> uint (bl_bytes l ! j)"
      using 2(1) b_def by metis
    moreover have "parseLength_loop l i mul len = Inr (False, len + mul * (uint b mod 128), i + 1)"
      using step 2 by simp
    moreover have "length (bl_bytes l) = i + 1" using 2(2) ne by blast
    ultimately show ?thesis using pos(2) Suc.prems(2)
      by (intro exI [of _ False] exI [of _ "len + mul * (uint b mod 128)"] exI [of _ "i + 1"]) simp
  next
    case 3
    have "parseLength_loop l 5 m n = Inr (True, n, 5)" for m n
      by (subst parseLength_loop.simps) simp
    then have "parseLength_loop l i mul len = Inr (True, len + mul * (uint b mod 128), 5)"
      using step 3 by simp
    moreover have "5 \<le> length (bl_bytes l)" using 3 ne Suc.prems(1) by linarith
    ultimately show ?thesis using pos(2) 3(3)
      by (intro exI [of _ True] exI [of _ "len + mul * (uint b mod 128)"] exI [of _ 5]) simp
  next
    case 4
    have "length (bl_bytes l) > i + 1" using 4(2) Suc.prems(1) ne by linarith
    moreover have "d = 5 - (i + 1)" using Suc.hyps(2) by linarith
    ultimately obtain res len' k where
      r: "parseLength_loop l (i + 1) (mul * 128) (len + mul * (uint b mod 128)) = Inr (res, len', k)"
      "i + 1 < k" "0 \<le> len'" "k \<le> length (bl_bytes l)"
      and f: "\<not> res \<longrightarrow> length (bl_bytes l) \<le> 5
        \<and> (\<forall>j. i + 1 \<le> j \<and> j < length (bl_bytes l) \<longrightarrow> 128 \<le> uint (bl_bytes l ! j))"
      using Suc.hyps(1) [of "i + 1" "len + mul * (uint b mod 128)" "mul * 128"] 4(3) pos(2) Suc.prems(4)
      by auto
    have "\<forall>j. i \<le> j \<and> j < length (bl_bytes l) \<longrightarrow> 128 \<le> uint (bl_bytes l ! j)" if "\<not> res"
    proof (intro allI impI)
      fix j assume "i \<le> j \<and> j < length (bl_bytes l)"
      then show "128 \<le> uint (bl_bytes l ! j)"
        using f that 4(1) by (cases "j = i") (auto simp: b_def)
    qed
    moreover have "parseLength_loop l i mul len = Inr (res, len', k)" using step r(1) 4 by simp
    ultimately show ?thesis using r(2-4) f by (intro exI [of _ res] exI [of _ len'] exI [of _ k]) simp
  qed
qed

lemma parseLength_step:
  assumes "bl_inv (ps_list p)" "bl_bytes (ps_list p) \<noteq> []"
  shows "(parseLength p = Inr (False, p) \<and> length (bl_bytes (ps_list p)) \<le> 5
       \<and> (\<forall>c \<in> set (bl_bytes (ps_list p)). 128 \<le> uint c))
    \<or> (\<exists>q. parseLength p = Inr (True, q) \<and> bl_inv (ps_list q)
       \<and> length (bl_bytes (ps_list q)) < length (bl_bytes (ps_list p))
       \<and> ps_counter q = ps_counter p \<and> ps_error q = ps_error p \<and> ps_events q = ps_events p
       \<and> 0 \<le> p_length (ps_packet q))"
proof -
  obtain res len' k where r: "parseLength_loop (ps_list p) 0 1 0 = Inr (res, len', k)" "0 < k" "0 \<le> len'"
    "k \<le> length (bl_bytes (ps_list p))"
    and f: "\<not> res \<longrightarrow> length (bl_bytes (ps_list p)) \<le> 5
      \<and> (\<forall>j. 0 \<le> j \<and> j < length (bl_bytes (ps_list p)) \<longrightarrow> 128 \<le> uint (bl_bytes (ps_list p) ! j))"
    using parseLength_loop_result [OF assms(1), of 0 0 1] assms(2) by auto
  note c = bl_consume_facts [OF assms(1), of k]
  show ?thesis
  proof (cases res)
    case True
    then show ?thesis using r c by (auto simp: parseLength_def)
  next
    case False
    with f have "length (bl_bytes (ps_list p)) \<le> 5" "\<forall>c \<in> set (bl_bytes (ps_list p)). 128 \<le> uint c"
      by (auto simp: in_set_conv_nth)
    then show ?thesis using r False by (simp add: parseLength_def)
  qed
qed

section \<open>The loop returns\<close>

definition idle :: "parser \<Rightarrow> bool" where
  \<comment> \<open>nothing more can be done with the bytes at hand\<close>
  "idle p \<longleftrightarrow> ps_error p = None \<and>
     (bl_bytes (ps_list p) = [] \<and> ps_counter p < 2
      \<or> ps_counter p = 1 \<and> length (bl_bytes (ps_list p)) \<le> 5 \<and> (\<forall>c \<in> set (bl_bytes (ps_list p)). 128 \<le> uint c)
      \<or> ps_counter p = 2 \<and> int (length (bl_bytes (ps_list p))) < p_length (ps_packet p))"

lemma parsePayload_cases:
  assumes "bl_inv (ps_list p)"
  shows "parsePayload p = Inr (False, p) \<and> int (length (bl_bytes (ps_list p))) < p_length (ps_packet p)
    \<or> (\<exists>e. parsePayload p = Inl e)
    \<or> (\<exists>q. parsePayload p = Inr (True, q) \<and> frame_of q = frame_of p)"
proof (cases "p_length (ps_packet p) = 0 \<or> bl_length (ps_list p) \<ge> p_length (ps_packet p)")
  case True
  then show ?thesis
    by (cases "dispatch_payload (p\<lparr>ps_pos := 0\<rparr>)")
       (auto simp: parsePayload_def dest: dispatch_payload_frame)
next
  case False
  then show ?thesis using bl_inv_length [OF assms] by (auto simp: parsePayload_def)
qed

lemma run_state_step:
  assumes "ps_inv p" "ps_error p = None" "busy p"
  shows "(\<exists>e. run_state p = Inl e \<and> ps_counter p = 2)
    \<or> (run_state p = Inr (False, p) \<and> idle p)
    \<or> (\<exists>q. run_state p = Inr (True, q) \<and> ps_inv (advance q) \<and> weight (advance q) < weight p
        \<and> ps_error (advance q) = ps_error q)"
proof -
  have inv: "bl_inv (ps_list p)" "ps_counter p < 4" using assms by (auto simp: ps_inv_def)
  consider "ps_counter p = 0" | "ps_counter p = 1" | "ps_counter p = 2" | "ps_counter p = 3"
    using inv(2) by linarith
  then show ?thesis
  proof cases
    case 1
    obtain b rest where b: "bl_bytes (ps_list p) = b # rest"
      using busy_bytes [OF assms(1,2) _ assms(3)] 1 by (cases "bl_bytes (ps_list p)") auto
    show ?thesis
      using parseHeader_step [OF inv(1) b] 1 assms(1,2) b
      by (auto simp: run_state_def ps_inv_def advance_def weight_def)
  next
    case 2
    have "bl_bytes (ps_list p) \<noteq> []" using busy_bytes [OF assms(1,2) _ assms(3)] 2 by simp
    from parseLength_step [OF inv(1) this] show ?thesis
      using 2 assms(1,2) by (auto simp: run_state_def ps_inv_def advance_def weight_def idle_def)
  next
    case 3
    from parsePayload_cases [OF inv(1)] show ?thesis
      using 3 assms(1,2) by (auto simp: run_state_def ps_inv_def advance_def weight_def idle_def frame_of_def)
  next
    case 4
    then obtain n where n: "p_length (ps_packet p) = int n"
      using assms(1,2) by (auto simp: ps_inv_def dest: nonneg_int_cases)
    show ?thesis
      using 4 assms(1,2) bl_consume_facts [OF inv(1), of n]
      by (auto simp: run_state_def newPacket_def ps_inv_def advance_def weight_def n)
  qed
qed

lemma parse_loop_returns:
  assumes "ps_inv p" "ps_error p = None" "weight p < fuel"
  shows "\<exists>r. parse_loop fuel p = Some r
    \<and> (\<forall>q. r = Inr q \<longrightarrow> ps_inv q \<and> (ps_error q \<noteq> None \<or> idle q))"
  using assms
proof (induction fuel arbitrary: p)
  case 0
  then show ?case by simp
next
  case (Suc fuel)
  show ?case
  proof (cases "busy p")
    case False
    then have "idle p"
      using Suc.prems by (auto simp: idle_def ps_inv_def busy_def bl_inv_length split: if_splits)
    then show ?thesis using False Suc.prems by (auto simp: busy_def)
  next
    case True
    from run_state_step [OF Suc.prems(1,2) True] show ?thesis
    proof (elim disjE exE conjE)
      fix q assume q: "run_state p = Inr (True, q)" "ps_inv (advance q)" "weight (advance q) < weight p"
        "ps_error (advance q) = ps_error q"
      show ?thesis
      proof (cases "ps_error q = None")
        case True
        with q Suc.prems(3) have "\<exists>r. parse_loop fuel (advance q) = Some r
          \<and> (\<forall>q. r = Inr q \<longrightarrow> ps_inv q \<and> (ps_error q \<noteq> None \<or> idle q))"
          by (intro Suc.IH) auto
        then show ?thesis using q True \<open>busy p\<close> by (simp add: busy_def advance_def)
      next
        case False
        then show ?thesis using q \<open>busy p\<close> by (auto simp: busy_def ps_inv_def)
      qed
    qed (use True Suc.prems in \<open>auto simp: busy_def\<close>)
  qed
qed

text \<open>
  \<^bold>\<open>C7.\<close> The parser returns on every input: for every state the parser can be in between two calls
  (the invariant; after an error the state is reset) and every chunk, \<^verbatim>\<open>parse\<close> ends, the invariant
  holds again, and unless it reported an error or threw, the bytes left are not enough for another
  step: none, a length field that is still open, or a payload shorter than its announced length.
\<close>

theorem parse_returns:
  assumes "ps_inv p" "(if ps_error p = None then bl_length (ps_list p) else 0) + int (length buf) < K_MAX_LENGTH"
  shows "\<exists>r. parse p buf = Some r \<and> (\<forall>q. r = Inr q \<longrightarrow> ps_inv q \<and> (ps_error q \<noteq> None \<or> idle q))"
proof -
  define p1 where "p1 = (if ps_error p \<noteq> None then resetState p else p)"
  define p2 where "p2 = p1\<lparr>ps_list := appendBuffer (ps_list p1) buf\<rparr>"
  have e: "ps_error p2 = None" by (auto simp: p2_def p1_def resetState_def)
  have "ps_inv p1" using assms(1) by (auto simp: p1_def ps_inv_def resetState_def)
  moreover have "bl_length (ps_list p1) + int (length buf) < K_MAX_LENGTH"
    using assms(2) by (auto simp: p1_def resetState_def bl_new_def)
  ultimately have i: "ps_inv p2"
    using e by (auto simp: p2_def ps_inv_def bl_inv_appendBuffer)
  then have "weight p2 < parse_fuel p2"
    using e by (simp add: weight_def parse_fuel_def ps_inv_def bl_inv_length)
  from parse_loop_returns [OF i e this] show ?thesis
    by (simp add: parse_def Let_def p1_def p2_def)
qed

theorem parse_returns_witness:
  "\<exists>r. parse new_Parser [0xC0] = Some r \<and> (\<forall>q. r = Inr q \<longrightarrow> ps_inv q \<and> (ps_error q \<noteq> None \<or> idle q))"
  by (rule parse_returns)
     (simp_all add: new_Parser_inv, simp add: new_Parser_def resetState_def bl_new_def K_MAX_LENGTH_def)

end
