(* ===== verification/Packet_Stream.thy ===== *)
theory Packet_Stream
  imports Packet_Loop
begin

text \<open>
  Framing: a stream of packets, cut into chunks at arbitrary places and fed to the parser chunk by
  chunk, comes out packet by packet. The argument is independent of the packet types: a \<open>frame\<close> is a
  header byte and a body of which one knows what the payload parser makes of it.
\<close>

section \<open>Frames\<close>

record frame =
  f_head :: byte
  f_body :: buffer
  f_packet :: packet

definition frame_bytes :: "frame \<Rightarrow> buffer" where
  "frame_bytes f = f_head f # genBufLength (length (f_body f)) @ f_body f"

definition header_packet :: "byte \<Rightarrow> packet" where
  "header_packet h =
     (let zero = unat h in new_Packet\<lparr>
        p_cmd := types (drop_bit CMD_SHIFT zero),
        p_retain := JBool (zero AND RETAIN_MASK \<noteq> 0),
        p_qos := JNum (int (drop_bit QOS_SHIFT zero AND QOS_MASK)),
        p_dup := JBool (zero AND DUP_MASK \<noteq> 0)\<rparr>)"

definition body_packet :: "frame \<Rightarrow> packet" where
  \<comment> \<open>the packet under construction when the payload parser starts\<close>
  "body_packet f = (header_packet (f_head f))\<lparr>p_length := int (length (f_body f))\<rparr>"

definition frame_ok :: "frame \<Rightarrow> bool" where
  "frame_ok f \<longleftrightarrow> length (f_body f) < 2 ^ 28 \<and> p_length (f_packet f) = int (length (f_body f))
     \<and> (\<forall>p suffix. bl_inv (ps_list p) \<and> bl_bytes (ps_list p) = f_body f @ suffix \<and> ps_pos p = 0
          \<and> ps_packet p = body_packet f
        \<longrightarrow> (\<exists>pos. dispatch_payload p = Inr (p\<lparr>ps_packet := f_packet f, ps_pos := pos\<rparr>)))"

lemma frame_ok_payload:
  assumes "frame_ok f" "bl_inv (ps_list p)" "bl_bytes (ps_list p) = f_body f @ suffix" "ps_pos p = 0"
    "ps_packet p = body_packet f"
  shows "\<exists>pos. dispatch_payload p = Inr (p\<lparr>ps_packet := f_packet f, ps_pos := pos\<rparr>)"
  using assms unfolding frame_ok_def by blast

section \<open>Where the parser is in the stream\<close>

inductive pending :: "parser \<Rightarrow> frame list \<Rightarrow> buffer \<Rightarrow> bool" where
  at_header: "ps_counter p = 0 \<Longrightarrow> ps_packet p = new_Packet
    \<Longrightarrow> bl_bytes (ps_list p) @ future = concat (map frame_bytes fs) \<Longrightarrow> pending p fs future"
| at_length: "ps_counter p = 1 \<Longrightarrow> ps_packet p = header_packet (f_head f)
    \<Longrightarrow> bl_bytes (ps_list p) @ future = genBufLength (length (f_body f)) @ f_body f @ concat (map frame_bytes fs)
    \<Longrightarrow> pending p (f # fs) future"
| at_payload: "ps_counter p = 2 \<Longrightarrow> ps_packet p = body_packet f
    \<Longrightarrow> bl_bytes (ps_list p) @ future = f_body f @ concat (map frame_bytes fs)
    \<Longrightarrow> pending p (f # fs) future"
| at_packet: "ps_counter p = 3 \<Longrightarrow> ps_packet p = f_packet f
    \<Longrightarrow> bl_bytes (ps_list p) = f_body f @ b \<Longrightarrow> b @ future = concat (map frame_bytes fs)
    \<Longrightarrow> pending p (f # fs) future"

definition delivers :: "parser \<Rightarrow> frame list \<Rightarrow> parser_event list" where
  \<comment> \<open>the events emitted so far and those the rest of the stream stands for\<close>
  "delivers p fs = ps_events p @ map (\<lambda>f. EvPacket (f_packet f)) fs"

lemma header_packet_length [simp]: "p_length (header_packet h) = -1"
  by (simp add: header_packet_def Let_def)

lemma body_packet_length [simp]: "p_length (body_packet f) = int (length (f_body f))"
  by (simp add: body_packet_def)

lemma parseHeader_eq:
  assumes "bl_inv (ps_list p)" "bl_bytes (ps_list p) = b # rest" "ps_packet p = new_Packet"
  shows "parseHeader p = Inr (True, p\<lparr>ps_packet := header_packet b, ps_list := bl_consume (ps_list p) 1\<rparr>)"
  using bl_readUInt8_eq [OF assms(1), of 0] assms(2,3)
  by (simp add: parseHeader_def Let_def header_packet_def)

lemma parseLength_eq:
  assumes "bl_inv (ps_list p)" "n < 2 ^ 28" "bl_bytes (ps_list p) = genBufLength n @ rest"
  shows "parseLength p = Inr (True, p\<lparr>ps_packet := (ps_packet p)\<lparr>p_length := int n\<rparr>,
    ps_list := bl_consume (ps_list p) (int (length (genBufLength n)))\<rparr>)"
proof -
  have n: "n < 268435456" using assms(2) by simp
  have "0 + length (varint n) \<le> 5" using length_varint [OF n] calcLengthLength_le [of n] by simp
  from parseLength_loop_full [OF assms(1) _ this, of rest 1 0] show ?thesis
    using assms(3) by (simp add: parseLength_def genBufLength_varint [OF n])
qed

lemma parseLength_needs_more:
  assumes "bl_inv (ps_list p)" "n < 2 ^ 28" "genBufLength n = bl_bytes (ps_list p) @ post" "post \<noteq> []"
    "bl_bytes (ps_list p) \<noteq> []"
  shows "parseLength p = Inr (False, p)"
proof -
  have n: "n < 268435456" using assms(2) by simp
  have "0 + length (varint n) \<le> 5" using length_varint [OF n] calcLengthLength_le [of n] by simp
  from parseLength_loop_partial [OF assms(1) _ assms(4) _ this, of 1 0] show ?thesis
    using assms(3,5) by (auto simp: parseLength_def genBufLength_varint [OF n])
qed

lemma genBufLength_ne: "n < 2 ^ 28 \<Longrightarrow> genBufLength n \<noteq> []"
  by (simp add: genBufLength_varint)

lemma append_eq_cases:
  assumes "x @ y = a @ b"
  obtains r where "x = a @ r" "r @ y = b" | post where "a = x @ post" "post \<noteq> []" "y = post @ b"
  using assms by (metis append_Nil2 append_eq_append_conv2)

text \<open>One state of the machine, on a stream of good frames.\<close>

lemma pending_step:
  assumes p: "pending p fs future" and inv: "bl_inv (ps_list p)" and e: "ps_error p = None"
    and ok: "\<forall>f \<in> set fs. frame_ok f" and b: "busy p"
  shows "run_state p = Inr (False, p) \<and> future \<noteq> []
    \<or> (\<exists>q fs'. run_state p = Inr (True, q) \<and> ps_error q = None \<and> bl_inv (ps_list q)
        \<and> pending (advance q) fs' future \<and> set fs' \<subseteq> set fs \<and> delivers q fs' = delivers p fs
        \<and> weight (advance q) < weight p)"
  using p
proof cases
  case at_header
  have ne: "bl_bytes (ps_list p) \<noteq> []"
    using b at_header(2) bl_inv_length [OF inv] by (auto simp: busy_def)
  then obtain f fs1 where fs: "fs = f # fs1"
    using at_header(3) by (cases fs) auto
  obtain r where r: "bl_bytes (ps_list p) = f_head f # r"
    using at_header(3) ne unfolding fs by (cases "bl_bytes (ps_list p)") (auto simp: frame_bytes_def)
  let ?q = "p\<lparr>ps_packet := header_packet (f_head f), ps_list := bl_consume (ps_list p) 1\<rparr>"
  have "run_state p = Inr (True, ?q)"
    using at_header(1) parseHeader_eq [OF inv r at_header(2)] by (simp add: run_state_def)
  moreover have "pending (advance ?q) fs future"
    unfolding fs using at_header r bl_consume_facts [OF inv, of 1]
    by (intro pending.at_length) (auto simp: advance_def fs frame_bytes_def)
  ultimately show ?thesis
    using bl_consume_facts [OF inv, of 1] e at_header(1) r
    by (auto simp: delivers_def weight_def advance_def)
next
  case (at_length f fs1)
  let ?n = "length (f_body f)"
  have n: "?n < 2 ^ 28" using ok at_length(1) by (simp add: frame_ok_def)
  have ne: "bl_bytes (ps_list p) \<noteq> []"
    using b at_length(3) bl_inv_length [OF inv] by (auto simp: busy_def)
  consider r where "bl_bytes (ps_list p) = genBufLength ?n @ r" "r @ future = f_body f @ concat (map frame_bytes fs1)"
    | post where "genBufLength ?n = bl_bytes (ps_list p) @ post" "post \<noteq> []"
    by (rule append_eq_cases [OF at_length(4)]) auto
  then show ?thesis
  proof cases
    case (1 r)
    let ?q = "p\<lparr>ps_packet := (ps_packet p)\<lparr>p_length := int ?n\<rparr>,
      ps_list := bl_consume (ps_list p) (int (length (genBufLength ?n)))\<rparr>"
    note c = bl_consume_facts [OF inv, of "length (genBufLength ?n)"]
    have "run_state p = Inr (True, ?q)"
      using at_length(2) parseLength_eq [OF inv n 1(1)] by (simp add: run_state_def)
    moreover have "pending (advance ?q) fs future"
      unfolding at_length(1) using at_length 1 c
      by (intro pending.at_payload) (auto simp: advance_def body_packet_def)
    moreover have "weight (advance ?q) < weight p"
      using c 1(1) genBufLength_ne [OF n] at_length(2)
      by (cases "genBufLength ?n") (auto simp: weight_def advance_def)
    ultimately show ?thesis using c e by (auto simp: delivers_def)
  next
    case (2 post)
    moreover have "future \<noteq> []"
    proof
      assume "future = []"
      then have "length (bl_bytes (ps_list p)) \<ge> length (genBufLength ?n)"
        using at_length(4) by simp
      then show False using 2 by simp
    qed
    ultimately show ?thesis
      using parseLength_needs_more [OF inv n 2 ne] at_length(2) by (simp add: run_state_def)
  qed
next
  case (at_payload f fs1)
  let ?n = "length (f_body f)"
  have fok: "frame_ok f" using ok at_payload(1) by simp
  show ?thesis
  proof (cases "?n \<le> length (bl_bytes (ps_list p))")
    case True
    obtain r where r: "bl_bytes (ps_list p) = f_body f @ r" "r @ future = concat (map frame_bytes fs1)"
      by (rule append_eq_cases [OF at_payload(4)]) (use True in auto)
    then obtain pos where "dispatch_payload (p\<lparr>ps_pos := 0\<rparr>) =
        Inr ((p\<lparr>ps_pos := 0\<rparr>)\<lparr>ps_packet := f_packet f, ps_pos := pos\<rparr>)"
      using frame_ok_payload [OF fok, of "p\<lparr>ps_pos := 0\<rparr>" r] inv at_payload(3) by auto
    then have "run_state p = Inr (True, p\<lparr>ps_packet := f_packet f, ps_pos := pos\<rparr>)"
      using at_payload(2,3) True bl_inv_length [OF inv] by (simp add: run_state_def parsePayload_def)
    moreover have "pending (advance (p\<lparr>ps_packet := f_packet f, ps_pos := pos\<rparr>)) fs future"
      unfolding at_payload(1) using at_payload(2) r
      by (intro pending.at_packet [where b = r]) (auto simp: advance_def)
    ultimately show ?thesis
      using inv e at_payload(2) by (auto simp: delivers_def weight_def advance_def)
  next
    case False
    then have "run_state p = Inr (False, p)"
      using at_payload(2,3) bl_inv_length [OF inv] by (auto simp: run_state_def parsePayload_def)
    moreover have "future \<noteq> []"
    proof
      assume "future = []"
      then show False using at_payload(4) False by simp
    qed
    ultimately show ?thesis by simp
  qed
next
  case (at_packet f b1 fs1)
  have l: "p_length (f_packet f) = int (length (f_body f))" using ok at_packet(1) by (simp add: frame_ok_def)
  note c = bl_consume_facts [OF inv, of "length (f_body f)"]
  let ?q = "p\<lparr>ps_list := bl_consume (ps_list p) (int (length (f_body f))),
    ps_events := ps_events p @ [EvPacket (f_packet f)], ps_packet := new_Packet\<rparr>"
  have "run_state p = Inr (True, ?q)"
    using at_packet(2,3) l by (simp add: run_state_def newPacket_def)
  moreover have "pending (advance ?q) fs1 future"
    using at_packet c by (intro pending.at_header) (auto simp: advance_def)
  ultimately show ?thesis
    using c e at_packet(1,2,4)
    by (auto simp: delivers_def weight_def advance_def)
qed

section \<open>The loop and the chunks\<close>

lemma pending_not_busy:
  assumes "pending p fs []" "bl_inv (ps_list p)" "\<not> busy p" "\<forall>f \<in> set fs. frame_ok f"
  shows "fs = [] \<and> bl_bytes (ps_list p) = []"
proof -
  have nb: "p_length (ps_packet p) = -1" "bl_bytes (ps_list p) = []"
    using assms(2,3) by (auto simp: busy_def bl_inv_length)
  from assms(1) show ?thesis
  proof cases
    case at_header
    then show ?thesis using nb by (cases fs) (auto simp: frame_bytes_def)
  next
    case (at_length f fs1)
    then have "length (f_body f) < 2 ^ 28" using assms(4) by (simp add: frame_ok_def)
    from genBufLength_ne [OF this] show ?thesis using at_length nb by simp
  next
    case (at_payload f fs1)
    then show ?thesis using nb by simp
  next
    case (at_packet f b fs1)
    then show ?thesis using nb assms(4) by (simp add: frame_ok_def)
  qed
qed

lemma parse_loop_pending:
  assumes "pending p fs future" "bl_inv (ps_list p)" "ps_error p = None" "\<forall>f \<in> set fs. frame_ok f"
    "weight p < fuel"
  shows "\<exists>q fs'. parse_loop fuel p = Some (Inr q) \<and> pending q fs' future \<and> bl_inv (ps_list q)
    \<and> ps_error q = None \<and> set fs' \<subseteq> set fs \<and> delivers q fs' = delivers p fs
    \<and> length (bl_bytes (ps_list q)) \<le> length (bl_bytes (ps_list p))
    \<and> (future = [] \<longrightarrow> fs' = [] \<and> bl_bytes (ps_list q) = [])"
  using assms
proof (induction fuel arbitrary: p fs)
  case 0
  then show ?case by simp
next
  case (Suc fuel)
  show ?case
  proof (cases "busy p")
    case False
    have "future = [] \<longrightarrow> fs = [] \<and> bl_bytes (ps_list p) = []"
      using pending_not_busy [OF _ Suc.prems(2) False Suc.prems(4)] Suc.prems(1) by blast
    with False Suc.prems show ?thesis by (auto simp: busy_def)
  next
    case True
    have loop: "parse_loop (Suc fuel) p = (case run_state p of Inl e \<Rightarrow> Some (Inl e) | Inr (result, q) \<Rightarrow>
        if result \<and> ps_error q = None then parse_loop fuel (advance q) else Some (Inr q))"
      using True by (auto simp: busy_def advance_def split: sum.split)
    from pending_step [OF Suc.prems(1-4) True] show ?thesis
    proof (elim disjE exE conjE)
      assume "run_state p = Inr (False, p)" "future \<noteq> []"
      then show ?thesis using Suc.prems by (auto simp: loop)
    next
      fix q fs1
      assume q: "run_state p = Inr (True, q)" "ps_error q = None" "bl_inv (ps_list q)"
        "pending (advance q) fs1 future" "set fs1 \<subseteq> set fs" "delivers q fs1 = delivers p fs"
        "weight (advance q) < weight p"
      have a: "bl_inv (ps_list (advance q))" "ps_error (advance q) = None" "ps_list (advance q) = ps_list q"
        "delivers (advance q) fs1 = delivers q fs1"
        using q by (simp_all add: advance_def delivers_def)
      have le: "length (bl_bytes (ps_list q)) \<le> length (bl_bytes (ps_list p))"
        using q(7) by (auto simp: weight_def a(3) split: if_splits)
      have ok: "\<forall>f \<in> set fs1. frame_ok f" using q(5) Suc.prems(4) by blast
      have w: "weight (advance q) < fuel" using q(7) Suc.prems(5) by simp
      obtain r fs2 where "parse_loop fuel (advance q) = Some (Inr r)" "pending r fs2 future" "bl_inv (ps_list r)"
        "ps_error r = None" "set fs2 \<subseteq> set fs1" "delivers r fs2 = delivers q fs1"
        "length (bl_bytes (ps_list r)) \<le> length (bl_bytes (ps_list q))"
        "future = [] \<longrightarrow> fs2 = [] \<and> bl_bytes (ps_list r) = []"
        using Suc.IH [OF q(4) a(1,2) ok w] unfolding a(3,4) by blast
      moreover from this have "parse_loop (Suc fuel) p = Some (Inr r)" using q(1,2) by (simp add: loop del: parse_loop.simps)
      ultimately show ?thesis using le q(5,6)
        by (intro exI [of _ r] exI [of _ fs2] conjI) (blast | linarith | metis)+
    qed
  qed
qed

fun feed :: "parser \<Rightarrow> buffer list \<Rightarrow> parser result option" where
  \<comment> \<open>one call of \<^verbatim>\<open>parse\<close> per chunk, as the \<^verbatim>\<open>data\<close> events of a connection make them\<close>
  "feed p [] = Some (Inr p)"
| "feed p (c # cs) =
     (case parse p c of
        Some (Inr q) \<Rightarrow> feed q cs
      | r \<Rightarrow> r)"

lemma pending_more:
  "pending p fs (c @ future) \<Longrightarrow> pending (p\<lparr>ps_list := appendBuffer (ps_list p) c\<rparr>) fs future"
proof (induction p fs "c @ future" rule: pending.induct)
  case (at_packet p f b fs)
  then show ?case by (intro pending.at_packet [where b = "b @ c"]) auto
qed (auto intro: pending.intros)

lemma feed_pending:
  assumes "pending p fs (concat cs)" "bl_inv (ps_list p)" "ps_error p = None" "\<forall>f \<in> set fs. frame_ok f"
    "bl_length (ps_list p) + int (length (concat cs)) < K_MAX_LENGTH"
    "concat cs = [] \<longrightarrow> fs = [] \<and> bl_bytes (ps_list p) = []"
  shows "\<exists>q. feed p cs = Some (Inr q) \<and> ps_events q = delivers p fs \<and> bl_bytes (ps_list q) = []
    \<and> ps_error q = None \<and> pending q [] [] \<and> bl_inv (ps_list q)"
  using assms
proof (induction cs arbitrary: p fs)
  case Nil
  then show ?case by (auto simp: delivers_def)
next
  case (Cons c cs)
  let ?p = "p\<lparr>ps_list := appendBuffer (ps_list p) c\<rparr>"
  have inv: "bl_inv (ps_list ?p)" using Cons.prems(2,5) by (simp add: bl_inv_appendBuffer)
  have "weight ?p < parse_fuel ?p"
    using bl_inv_length [OF inv] unfolding weight_def parse_fuel_def by simp linarith
  moreover have "pending ?p fs (concat cs)" using Cons.prems(1) pending_more by simp
  ultimately obtain q fs1 where q: "parse_loop (parse_fuel ?p) ?p = Some (Inr q)" "pending q fs1 (concat cs)"
    "bl_inv (ps_list q)" "ps_error q = None" "set fs1 \<subseteq> set fs" "delivers q fs1 = delivers ?p fs"
    "length (bl_bytes (ps_list q)) \<le> length (bl_bytes (ps_list ?p))"
    "concat cs = [] \<longrightarrow> fs1 = [] \<and> bl_bytes (ps_list q) = []"
    using parse_loop_pending [of ?p fs "concat cs" "parse_fuel ?p"] inv Cons.prems(3,4) by auto
  have "parse p c = Some (Inr q)"
    using q(1) Cons.prems(3) by (simp add: parse_def Let_def)
  moreover have "bl_length (ps_list q) + int (length (concat cs)) < K_MAX_LENGTH"
    using q(7) Cons.prems(5) bl_inv_length [OF Cons.prems(2)] bl_inv_length [OF q(3)] by simp
  moreover have "\<forall>f \<in> set fs1. frame_ok f" using q(5) Cons.prems(4) by blast
  moreover have "delivers ?p fs = delivers p fs" by (simp add: delivers_def)
  ultimately show ?case
    using Cons.IH [OF q(2-4) _ _ q(8)] q(6) by simp
qed

text \<open>A parser between two packets, with nothing left over.\<close>

definition ready :: "parser \<Rightarrow> bool" where
  "ready p \<longleftrightarrow> ps_counter p = 0 \<and> ps_packet p = new_Packet \<and> ps_error p = None
     \<and> bl_bytes (ps_list p) = [] \<and> bl_length (ps_list p) = 0"

lemma ready_new: "ready new_Parser"
  by (simp add: ready_def new_Parser_def resetState_def) (simp add: bl_new_def)

lemma ready_inv: "ready p \<Longrightarrow> bl_inv (ps_list p)"
  by (simp add: ready_def bl_inv_def K_MAX_LENGTH_def)

lemma frames_chunked:
  assumes "ready p" "\<forall>f \<in> set fs. frame_ok f" "concat cs = concat (map frame_bytes fs)"
    "int (length (concat cs)) < K_MAX_LENGTH"
  shows "\<exists>q. feed p cs = Some (Inr q) \<and> ready q
    \<and> ps_events q = ps_events p @ map (\<lambda>f. EvPacket (f_packet f)) fs"
proof -
  have p: "pending p fs (concat cs)"
    using assms(1,3) by (intro pending.at_header) (auto simp: ready_def)
  have "concat cs = [] \<longrightarrow> fs = [] \<and> bl_bytes (ps_list p) = []"
    using assms(1,3) by (cases fs) (auto simp: frame_bytes_def ready_def)
  then obtain q where q: "feed p cs = Some (Inr q)" "ps_events q = delivers p fs" "bl_bytes (ps_list q) = []"
    "ps_error q = None" "pending q [] []" "bl_inv (ps_list q)"
    using feed_pending [OF p ready_inv [OF assms(1)] _ assms(2)] assms(1,4) by (auto simp: ready_def)
  have "ready q"
    using q(5)
  proof cases
    case at_header
    then show ?thesis using q bl_inv_length [OF q(6)] by (simp add: ready_def)
  qed
  with q show ?thesis by (auto simp: delivers_def)
qed

end
