(* ===== verification/Codec_Spec.thy ===== *)
theory Codec_Spec
  imports Packet_Stream
begin

text \<open>
  The wire format of MQTT 3.1.1 as a reference: for each packet the generator accepts, the header byte
  and the body on the wire, and the packet object the receiving side builds from them. \<open>wf_packet\<close> says
  which packet objects are in the domain of the round trip.
\<close>

section \<open>Fields\<close>

definition u16 :: "nat \<Rightarrow> buffer" where
  "u16 n = [of_nat (n div 256), of_nat (n mod 256)]"

definition field :: "buffer \<Rightarrow> buffer" where
  "field b = u16 (length b) @ b"

definition good_string :: "jsstr \<Rightarrow> bool" where
  "good_string s \<longleftrightarrow> wf_utf16 s \<and> length (utf8 s) < 65536"

fun content :: "jsval \<Rightarrow> buffer" where
  \<comment> \<open>the bytes of a string or Buffer; nothing for a falsy value\<close>
  "content (JStr s) = utf8 s"
| "content (JBuf b) = b"
| "content _ = []"

definition message_id :: "jsval \<Rightarrow> nat" where
  "message_id v = (case v of JNum n \<Rightarrow> nat n | _ \<Rightarrow> 0)"

definition is_u16 :: "jsval \<Rightarrow> bool" where
  "is_u16 v = (case v of JNum n \<Rightarrow> 0 \<le> n \<and> n < 65536 | _ \<Rightarrow> False)"

definition opt_field :: "jsval \<Rightarrow> buffer" where
  "opt_field v = (if truthy v then field (content v) else [])"

section \<open>CONNECT\<close>

definition eff_protocolId :: "packet \<Rightarrow> jsval" where
  [defs]: "eff_protocolId k = js_or (p_protocolId k) (JStr (js ''MQTT''))"

definition eff_version :: "packet \<Rightarrow> jsval" where
  [defs]: "eff_version k = js_or (p_protocolVersion k) (JNum 4)"

definition eff_clean :: "packet \<Rightarrow> bool" where
  [defs]: "eff_clean k = (if p_clean k = JUndef then True else truthy (p_clean k))"

definition eff_keepalive :: "packet \<Rightarrow> jsval" where
  [defs]: "eff_keepalive k = js_or (p_keepalive k) (JNum 0)"

definition eff_clientId :: "packet \<Rightarrow> jsval" where
  [defs]: "eff_clientId k = js_or (p_clientId k) (JStr [])"

definition will_ok :: "will_val \<Rightarrow> bool" where
  "will_ok v = (case v of
     NoWill \<Rightarrow> True
   | WillOther \<Rightarrow> False
   | WillObj w \<Rightarrow>
       (case w_topic w of JStr t \<Rightarrow> t \<noteq> [] \<and> good_string t | _ \<Rightarrow> False)
       \<and> (truthy (w_qos w) \<longrightarrow> (case w_qos w of JNum q \<Rightarrow> 0 \<le> q \<and> q < 4 | _ \<Rightarrow> False))
       \<and> (truthy (w_payload w) \<longrightarrow> is_string (w_payload w) \<or> is_buffer (w_payload w))
       \<and> length (content (w_payload w)) < 65536)"

definition will_qos :: "will_rec \<Rightarrow> nat" where
  "will_qos w = (if truthy (w_qos w) then message_id (w_qos w) else 0)"

definition flag :: "bool \<Rightarrow> nat \<Rightarrow> nat" where
  "flag b n = (if b then n else 0)"

definition flags_of :: "packet \<Rightarrow> nat" where
  "flags_of k =
     flag (truthy (p_username k)) 128 + flag (truthy (p_password k)) 64
     + (case p_will k of WillObj w \<Rightarrow> flag (truthy (w_retain w)) 32 + 8 * will_qos w + 4 | _ \<Rightarrow> 0)
     + flag (eff_clean k) 2"

definition connect_body :: "packet \<Rightarrow> buffer" where
  "connect_body k =
     field (content (eff_protocolId k)) @ [of_nat (message_id (eff_version k)), of_nat (flags_of k)]
     @ u16 (message_id (eff_keepalive k)) @ field (content (eff_clientId k))
     @ (case p_will k of WillObj w \<Rightarrow> field (content (w_topic w)) @ field (content (w_payload w)) | _ \<Rightarrow> [])
     @ opt_field (p_username k) @ opt_field (p_password k)"

definition connect_ok :: "packet \<Rightarrow> bool" where
  "connect_ok k \<longleftrightarrow>
     (eff_protocolId k = JStr (js ''MQTT'') \<or> eff_protocolId k = JStr (js ''MQIsdp''))
     \<and> (eff_version k = JNum 3 \<or> eff_version k = JNum 4)
     \<and> is_u16 (eff_keepalive k)
     \<and> (case eff_clientId k of
          JStr c \<Rightarrow> ascii c \<and> length c < 65536 \<and> (c \<noteq> [] \<or> eff_version k = JNum 4 \<and> eff_clean k)
        | _ \<Rightarrow> False)
     \<and> will_ok (p_will k)
     \<and> (truthy (p_username k) \<longrightarrow> (case p_username k of JStr u \<Rightarrow> good_string u | _ \<Rightarrow> False))
     \<and> (truthy (p_password k) \<longrightarrow> (case p_password k of
          JStr u \<Rightarrow> length (utf8 u) < 65536 | JBuf b \<Rightarrow> b \<noteq> [] \<and> length b < 65536 | _ \<Rightarrow> False))"

definition decoded_will :: "will_val \<Rightarrow> will_val" where
  "decoded_will v = (case v of
     WillObj w \<Rightarrow> WillObj \<lparr>w_retain = JBool (truthy (w_retain w)), w_qos = JNum (int (will_qos w)),
       w_topic = w_topic w, w_payload = JBuf (content (w_payload w))\<rparr>
   | _ \<Rightarrow> NoWill)"

section \<open>The other packets\<close>

definition eff_qos :: "packet \<Rightarrow> jsval" where
  [defs]: "eff_qos k = js_or (p_qos k) (JNum 0)"

definition topic_text :: "jsval \<Rightarrow> jsstr" where
  \<comment> \<open>what the receiver sees of a topic, which may be given as a Buffer\<close>
  "topic_text v = utf8Slice_loop (content v)"

definition publish_body :: "packet \<Rightarrow> buffer" where
  "publish_body k =
     field (content (p_topic k)) @ (if truthy (eff_qos k) then u16 (message_id (p_messageId k)) else [])
     @ content (p_payload k)"

definition publish_ok :: "packet \<Rightarrow> bool" where
  "publish_ok k \<longleftrightarrow>
     (case p_topic k of JStr t \<Rightarrow> t \<noteq> [] | JBuf b \<Rightarrow> True | _ \<Rightarrow> False)
     \<and> length (content (p_topic k)) < 65536
     \<and> (case eff_qos k of JNum q \<Rightarrow> 0 \<le> q \<and> q < 3 | _ \<Rightarrow> False)
     \<and> (truthy (eff_qos k) \<longrightarrow> is_u16 (p_messageId k))
     \<and> (truthy (p_payload k) \<longrightarrow> is_string (p_payload k) \<or> is_buffer (p_payload k))
     \<and> length (publish_body k) < 2 ^ 28"

definition sub_body :: "sub \<Rightarrow> buffer" where
  "sub_body x = field (content (sub_topic x)) @ [of_nat (message_id (sub_qos x))]"

definition sub_ok :: "sub \<Rightarrow> bool" where
  "sub_ok x \<longleftrightarrow> (case sub_topic x of JStr t \<Rightarrow> t \<noteq> [] \<and> good_string t | _ \<Rightarrow> False)
     \<and> (case sub_qos x of JNum q \<Rightarrow> 0 \<le> q \<and> q < 3 | _ \<Rightarrow> False)"

definition unsub_ok :: "jsval \<Rightarrow> bool" where
  "unsub_ok v \<longleftrightarrow> (case v of JStr t \<Rightarrow> t \<noteq> [] \<and> good_string t | _ \<Rightarrow> False)"

definition granted_ok :: "jsval \<Rightarrow> bool" where
  "granted_ok v \<longleftrightarrow> (case v of JNum q \<Rightarrow> 0 \<le> q \<and> q < 256 | _ \<Rightarrow> False)"

definition body_of :: "packet \<Rightarrow> buffer" where
  "body_of k = (case p_cmd k of
     Connect \<Rightarrow> connect_body k
   | Connack \<Rightarrow> [of_nat (flag (truthy (p_sessionPresent k)) 1), of_nat (message_id (p_returnCode k))]
   | Publish \<Rightarrow> publish_body k
   | Subscribe \<Rightarrow> u16 (message_id (p_messageId k)) @ concat (map sub_body (the (p_subscriptions k)))
   | Suback \<Rightarrow> u16 (message_id (p_messageId k)) @ map (\<lambda>v. of_nat (message_id v)) (the (p_granted k))
   | Unsubscribe \<Rightarrow> u16 (message_id (p_messageId k)) @ concat (map (\<lambda>v. field (content v)) (the (p_unsubscriptions k)))
   | Pingreq \<Rightarrow> [] | Pingresp \<Rightarrow> [] | Disconnect \<Rightarrow> []
   | _ \<Rightarrow> u16 (message_id (p_messageId k)))"

definition head_qos :: "packet \<Rightarrow> nat" where
  "head_qos k = (case p_cmd k of
     Publish \<Rightarrow> message_id (eff_qos k) | Pubrel \<Rightarrow> 1 | Subscribe \<Rightarrow> 1 | Unsubscribe \<Rightarrow> 1 | _ \<Rightarrow> 0)"

definition head_dup :: "packet \<Rightarrow> bool" where
  "head_dup k = (truthy (p_dup k) \<and> (p_cmd k = Publish \<or> p_cmd k = Subscribe \<or> p_cmd k = Unsubscribe))"

definition head_retain :: "packet \<Rightarrow> bool" where
  "head_retain k = (truthy (p_retain k) \<and> p_cmd k = Publish)"

definition head_of :: "packet \<Rightarrow> byte" where
  "head_of k = header_byte (p_cmd k) (head_qos k) (flag (head_dup k) 1) (flag (head_retain k) 1)"

definition wf_packet :: "packet \<Rightarrow> bool" where
  "wf_packet k = (case p_cmd k of
     Connect \<Rightarrow> connect_ok k
   | Connack \<Rightarrow> granted_ok (p_returnCode k)
   | Publish \<Rightarrow> publish_ok k
   | Puback \<Rightarrow> is_u16 (p_messageId k)
   | Pubrec \<Rightarrow> is_u16 (p_messageId k)
   | Pubrel \<Rightarrow> is_u16 (p_messageId k) \<and> \<not> truthy (p_dup k)
   | Pubcomp \<Rightarrow> is_u16 (p_messageId k)
   | Subscribe \<Rightarrow> is_u16 (p_messageId k) \<and> length (body_of k) < 2 ^ 28 \<and>
       (case p_subscriptions k of None \<Rightarrow> False | Some xs \<Rightarrow> xs \<noteq> [] \<and> list_all sub_ok xs)
   | Suback \<Rightarrow> is_u16 (p_messageId k) \<and> length (body_of k) < 2 ^ 28 \<and>
       (case p_granted k of None \<Rightarrow> False | Some xs \<Rightarrow> xs \<noteq> [] \<and> list_all granted_ok xs)
   | Unsubscribe \<Rightarrow> is_u16 (p_messageId k) \<and> length (body_of k) < 2 ^ 28 \<and>
       (case p_unsubscriptions k of None \<Rightarrow> False | Some xs \<Rightarrow> xs \<noteq> [] \<and> list_all unsub_ok xs)
   | Unsuback \<Rightarrow> is_u16 (p_messageId k)
   | Pingreq \<Rightarrow> True | Pingresp \<Rightarrow> True | Disconnect \<Rightarrow> True
   | _ \<Rightarrow> False)"

section \<open>What the receiver sees\<close>

definition decoded_base :: "packet \<Rightarrow> packet" where
  "decoded_base k = new_Packet\<lparr>
     p_cmd := p_cmd k, p_retain := JBool (head_retain k), p_qos := JNum (int (head_qos k)),
     p_dup := JBool (head_dup k), p_length := int (length (body_of k))\<rparr>"

definition decoded :: "packet \<Rightarrow> packet" where
  "decoded k = (let d = decoded_base k in case p_cmd k of
     Connect \<Rightarrow> d\<lparr>p_protocolId := eff_protocolId k, p_protocolVersion := eff_version k,
       p_will := decoded_will (p_will k), p_clean := JBool (eff_clean k), p_keepalive := eff_keepalive k,
       p_clientId := eff_clientId k,
       p_username := (if truthy (p_username k) then p_username k else JUndef),
       p_password := (if truthy (p_password k) then JBuf (content (p_password k)) else JUndef)\<rparr>
   | Connack \<Rightarrow> d\<lparr>p_sessionPresent := JBool (truthy (p_sessionPresent k)), p_returnCode := p_returnCode k\<rparr>
   | Publish \<Rightarrow> d\<lparr>p_topic := JStr (topic_text (p_topic k)),
       p_messageId := (if truthy (eff_qos k) then p_messageId k else JUndef),
       p_payload := JBuf (content (p_payload k))\<rparr>
   | Subscribe \<Rightarrow> d\<lparr>p_messageId := p_messageId k, p_subscriptions := p_subscriptions k\<rparr>
   | Suback \<Rightarrow> d\<lparr>p_messageId := p_messageId k, p_granted := p_granted k\<rparr>
   | Unsubscribe \<Rightarrow> d\<lparr>p_messageId := p_messageId k, p_unsubscriptions := p_unsubscriptions k\<rparr>
   | Pingreq \<Rightarrow> d | Pingresp \<Rightarrow> d | Disconnect \<Rightarrow> d
   | _ \<Rightarrow> d\<lparr>p_messageId := p_messageId k\<rparr>)"

definition wire_frame :: "packet \<Rightarrow> frame" where
  "wire_frame k = \<lparr>f_head = head_of k, f_body = body_of k, f_packet = decoded k\<rparr>"

section \<open>The header\<close>

lemma length_u16 [simp]: "length (u16 n) = 2"
  by (simp add: u16_def)

lemma length_field [simp]: "length (field b) = 2 + length b"
  by (simp add: field_def)

lemma wf_packet_known:
  "wf_packet k \<Longrightarrow> p_cmd k \<in> {Connect, Connack, Publish, Puback, Pubrec, Pubrel, Pubcomp, Subscribe, Suback,
     Unsubscribe, Unsuback, Pingreq, Pingresp, Disconnect}"
  by (cases "p_cmd k") (simp_all add: wf_packet_def)

lemma head_qos_less: "wf_packet k \<Longrightarrow> head_qos k < 3"
  by (auto simp: head_qos_def wf_packet_def publish_ok_def message_id_def split: cmd.splits jsval.splits)

lemma flag_less: "flag b 1 < 2"
  by (simp add: flag_def)

lemma nat_and_one_bit: "(x::nat) AND 2 ^ n \<noteq> 0 \<longleftrightarrow> odd (x div 2 ^ n)"
  using and_exp_eq_0_iff_not_bit [of x n] by (simp add: bit_iff_odd)

lemma nat_and_flags:
  "(x::nat) AND 1 \<noteq> 0 \<longleftrightarrow> odd x"
  "x AND 2 \<noteq> 0 \<longleftrightarrow> odd (x div 2)"
  "x AND 4 \<noteq> 0 \<longleftrightarrow> odd (x div 4)"
  "x AND 8 \<noteq> 0 \<longleftrightarrow> odd (x div 8)"
  "x AND 32 \<noteq> 0 \<longleftrightarrow> odd (x div 32)"
  "x AND 64 \<noteq> 0 \<longleftrightarrow> odd (x div 64)"
  "x AND 128 \<noteq> 0 \<longleftrightarrow> odd (x div 128)"
  using nat_and_one_bit [of x 0] nat_and_one_bit [of x 1] nat_and_one_bit [of x 2] nat_and_one_bit [of x 3]
    nat_and_one_bit [of x 5] nat_and_one_bit [of x 6] nat_and_one_bit [of x 7]
  by (simp_all only: power_0 power_one_right div_by_1) simp_all

lemma header_fields:
  assumes "q < 3" "d < 2" "r < 2"
  shows "(16 * c + 8 * d + 2 * q + r) div 16 = (c::nat)"
    "odd (16 * c + 8 * d + 2 * q + r) \<longleftrightarrow> r = 1"
    "odd ((16 * c + 8 * d + 2 * q + r) div 8) \<longleftrightarrow> d = 1"
    "(16 * c + 8 * d + 2 * q + r) div 2 mod 4 = q"
proof -
  have c: "q = 0 \<or> q = 1 \<or> q = 2" "d = 0 \<or> d = 1" "r = 0 \<or> r = 1" using assms by auto
  show "(16 * c + 8 * d + 2 * q + r) div 16 = (c::nat)" using assms by simp
  show "odd (16 * c + 8 * d + 2 * q + r) \<longleftrightarrow> r = 1" using c(3) by auto
  have "(16 * c + 8 * d + 2 * q + r) div 8 = 2 * c + d" using assms by simp
  then show "odd ((16 * c + 8 * d + 2 * q + r) div 8) \<longleftrightarrow> d = 1" using c(2) by auto
  have "(16 * c + 8 * d + 2 * q + r) div 2 = 4 * (2 * c + d) + q" using assms by simp
  then have "(16 * c + 8 * d + 2 * q + r) div 2 mod 4 = (4 * (2 * c + d) + q) mod 4" by (rule arg_cong)
  also have "\<dots> = q" using assms(1) by (subst mod_mult_self4) simp
  finally show "(16 * c + 8 * d + 2 * q + r) div 2 mod 4 = q" .
qed

lemma header_packet_head:
  assumes "wf_packet k"
  shows "header_packet (head_of k) = new_Packet\<lparr>p_cmd := p_cmd k, p_retain := JBool (head_retain k),
     p_qos := JNum (int (head_qos k)), p_dup := JBool (head_dup k)\<rparr>"
proof -
  let ?q = "head_qos k" let ?d = "flag (head_dup k) 1" let ?r = "flag (head_retain k) 1"
  have u: "unat (head_of k) = 16 * codes (p_cmd k) + 8 * ?d + 2 * ?q + ?r"
    unfolding head_of_def by (rule header_byte_value [OF head_qos_less [OF assms] flag_less flag_less])
  note f = header_fields [OF head_qos_less [OF assms] flag_less flag_less, of "codes (p_cmd k)" "head_dup k" "head_retain k"]
  have "types (drop_bit CMD_SHIFT (unat (head_of k))) = p_cmd k"
    using types_codes [OF wf_packet_known [OF assms]] f(1)
    by (simp only: u drop_bit_eq_div CMD_SHIFT_def) simp
  moreover have "unat (head_of k) AND RETAIN_MASK \<noteq> 0 \<longleftrightarrow> head_retain k"
    using f(2) unfolding u RETAIN_MASK_def nat_and_flags by (simp add: flag_def)
  moreover have "drop_bit QOS_SHIFT (unat (head_of k)) AND QOS_MASK = ?q"
    using f(4) by (simp add: u drop_bit_eq_div QOS_SHIFT_def QOS_MASK_def byte_simps)
  moreover have "unat (head_of k) AND DUP_MASK \<noteq> 0 \<longleftrightarrow> head_dup k"
    using f(3) unfolding u DUP_MASK_def nat_and_flags by (simp add: flag_def)
  ultimately show ?thesis by (simp only: header_packet_def Let_def)
qed

lemma body_packet_wire: "wf_packet k \<Longrightarrow> body_packet (wire_frame k) = decoded_base k"
  by (simp add: body_packet_def wire_frame_def header_packet_head decoded_base_def)

end
