(* ===== verification/Codec_Read.thy ===== *)
theory Codec_Read
  imports Codec_Spec
begin

text \<open>
  The payload parsers on a well-formed body. A \<open>cursor\<close> names the part of the packet not read yet; the
  rules for the field readers advance it, and the proof of each packet type is their composition.
\<close>

section \<open>Cursors\<close>

definition cursor :: "parser \<Rightarrow> buffer \<Rightarrow> buffer \<Rightarrow> bool" where
  "cursor p rest suffix \<longleftrightarrow> bl_inv (ps_list p) \<and>
     (\<exists>i. ps_pos p = int i \<and> i \<le> length (bl_bytes (ps_list p)) \<and> drop i (bl_bytes (ps_list p)) = rest @ suffix
        \<and> p_length (ps_packet p) = int (i + length rest))"

definition erase :: "parser \<Rightarrow> string option \<times> buffer_list \<times> nat \<times> parser_event list" where
  "erase p = (ps_error p, ps_list p, ps_counter p, ps_events p)"

definition yields :: "packet \<Rightarrow> (string option \<times> buffer_list \<times> nat \<times> parser_event list) \<Rightarrow> parser result \<Rightarrow> bool" where
  "yields k \<phi> m \<longleftrightarrow> (\<exists>q. m = Inr q \<and> ps_packet q = k \<and> erase q = \<phi>)"

lemma erase_updates [simp]:
  "erase (p\<lparr>ps_pos := n\<rparr>) = erase p"
  "erase (p\<lparr>ps_packet := k\<rparr>) = erase p"
  by (simp_all add: erase_def)

lemma packet_pos_swap [simp]: "p\<lparr>ps_packet := k, ps_pos := n\<rparr> = p\<lparr>ps_pos := n, ps_packet := k\<rparr>"
  by simp

lemma cursor_packet [simp]:
  "p_length k = p_length (ps_packet p) \<Longrightarrow> cursor (p\<lparr>ps_packet := k\<rparr>) r s = cursor p r s"
  by (simp add: cursor_def)

lemma cursor_advance:
  assumes "cursor p (b @ r) suf" "n = int (length b)"
  shows "cursor (p\<lparr>ps_pos := ps_pos p + n\<rparr>) r suf"
proof -
  obtain i where i: "bl_inv (ps_list p)" "ps_pos p = int i" "i \<le> length (bl_bytes (ps_list p))"
    "drop i (bl_bytes (ps_list p)) = b @ r @ suf" "p_length (ps_packet p) = int (i + length (b @ r))"
    using assms(1) by (auto simp: cursor_def)
  have "length (drop i (bl_bytes (ps_list p))) = length b + length r + length suf" using i(4) by simp
  then have "i + length b \<le> length (bl_bytes (ps_list p))" using i(3) by simp
  moreover have "drop (i + length b) (bl_bytes (ps_list p)) = r @ suf"
    using arg_cong [OF i(4), of "drop (length b)"] by (simp add: add.commute)
  ultimately show ?thesis
    using i assms(2) unfolding cursor_def by (intro conjI exI [of _ "i + length b"]) auto
qed

lemma cursor_bytes:
  assumes "cursor p rest suf"
  obtains i where "ps_pos p = int i" "bl_inv (ps_list p)" "drop i (bl_bytes (ps_list p)) = rest @ suf"
    "length (bl_bytes (ps_list p)) = i + length rest + length suf" "p_length (ps_packet p) = int (i + length rest)"
proof -
  obtain i where i: "bl_inv (ps_list p)" "ps_pos p = int i" "i \<le> length (bl_bytes (ps_list p))"
    "drop i (bl_bytes (ps_list p)) = rest @ suf" "p_length (ps_packet p) = int (i + length rest)"
    using assms by (auto simp: cursor_def)
  have "length (drop i (bl_bytes (ps_list p))) = length rest + length suf" using i(4) by simp
  then have "length (bl_bytes (ps_list p)) = i + length rest + length suf" using i(3) by simp
  with i show thesis by (intro that [of i])
qed

lemma drop_nth: "drop i xs = y # ys \<Longrightarrow> i < length xs \<and> xs ! i = y"
  by (metis drop_all list.distinct(1) not_le nth_via_drop)

lemma cursor_byte:
  assumes "cursor p (b # r) suf"
  shows "byte_here p = Inr (unat b)" "cursor (p\<lparr>ps_pos := ps_pos p + 1\<rparr>) r suf"
    "\<not> bl_length (ps_list p) \<le> ps_pos p"
proof -
  obtain i where i: "ps_pos p = int i" "bl_inv (ps_list p)" "drop i (bl_bytes (ps_list p)) = b # r @ suf"
    using assms by (auto elim: cursor_bytes)
  show "byte_here p = Inr (unat b)"
    using bl_readUInt8_eq [OF i(2), of i] drop_nth [OF i(3)] i(1) by (simp add: byte_here_def)
  show "cursor (p\<lparr>ps_pos := ps_pos p + 1\<rparr>) r suf"
    using cursor_advance [of p "[b]" r suf 1] assms by simp
  show "\<not> bl_length (ps_list p) \<le> ps_pos p"
    using drop_nth [OF i(3)] i(1) bl_inv_length [OF i(2)] by simp
qed

lemma cursor_num:
  assumes "cursor p (u16 n @ r) suf" "n < 65536"
  shows "parseNum p = Inr (int n, p\<lparr>ps_pos := ps_pos p + 2\<rparr>)" "cursor (p\<lparr>ps_pos := ps_pos p + 2\<rparr>) r suf"
proof -
  obtain i where i: "ps_pos p = int i" "bl_inv (ps_list p)" "drop i (bl_bytes (ps_list p)) = u16 n @ r @ suf"
    using assms by (auto elim: cursor_bytes)
  have d: "drop i (bl_bytes (ps_list p)) = of_nat (n div 256) # of_nat (n mod 256) # r @ suf"
    using i(3) by (simp add: u16_def)
  then have "drop (Suc i) (bl_bytes (ps_list p)) = of_nat (n mod 256) # r @ suf"
    by (metis drop_Suc drop_tl list.sel(3))
  note d = drop_nth [OF d] drop_nth [OF this]
  have "uint (of_nat (n div 256) :: byte) * 256 + uint (of_nat (n mod 256) :: byte) = int n"
    using assms(2) by (simp add: uint_of_nat_byte zdiv_int zmod_int)
  then have "bl_readUInt16BE (ps_list p) (ps_pos p) = Inr (int n)"
    using bl_readUInt16BE_eq [OF i(2), of i] d i(1) by simp
  then show "parseNum p = Inr (int n, p\<lparr>ps_pos := ps_pos p + 2\<rparr>)"
    using d i(1) bl_inv_length [OF i(2)] by (simp add: parseNum_def)
  show "cursor (p\<lparr>ps_pos := ps_pos p + 2\<rparr>) r suf"
    using cursor_advance [of p "u16 n" r suf 2] assms by simp
qed

lemma cursor_bounds:
  assumes "cursor p (field b @ r) suf" "length b < 65536"
  shows "field_bounds p = Inr (Some (ps_pos p + 2 + int (length b)), p\<lparr>ps_pos := ps_pos p + 2\<rparr>)"
    "cursor (p\<lparr>ps_pos := ps_pos p + 2\<rparr>) (b @ r) suf"
proof -
  have f: "cursor p (u16 (length b) @ b @ r) suf" using assms(1) by (simp add: field_def)
  note n = cursor_num [OF f assms(2)]
  show "cursor (p\<lparr>ps_pos := ps_pos p + 2\<rparr>) (b @ r) suf" by (rule n(2))
  then obtain i where i: "ps_pos p + 2 = int i" "bl_inv (ps_list p)"
    "length (bl_bytes (ps_list p)) = i + length (b @ r) + length suf"
    "p_length (ps_packet p) = int (i + length (b @ r))"
    by (auto elim: cursor_bytes)
  then show "field_bounds p = Inr (Some (ps_pos p + 2 + int (length b)), p\<lparr>ps_pos := ps_pos p + 2\<rparr>)"
    using bl_inv_length [OF i(2)] by (simp add: field_bounds_def n(1) Let_def)
qed

lemma cursor_slice:
  assumes "cursor p (b @ r) suf"
  shows "bl_slice (ps_list p) (Some (ps_pos p)) (Some (ps_pos p + int (length b))) = Inr b"
    "bl_toString (ps_list p) (js ''utf8'') (ps_pos p) (ps_pos p + int (length b)) = Inr (utf8Slice_loop b)"
proof -
  obtain i where i: "ps_pos p = int i" "bl_inv (ps_list p)" "drop i (bl_bytes (ps_list p)) = b @ r @ suf"
    using assms by (auto elim: cursor_bytes)
  have e: "int i + int (length b) = int (i + length b)" by simp
  show "bl_slice (ps_list p) (Some (ps_pos p)) (Some (ps_pos p + int (length b))) = Inr b"
    unfolding i(1) e using bl_slice_eq [OF i(2), of i "i + length b"] i(3) by simp
  show "bl_toString (ps_list p) (js ''utf8'') (ps_pos p) (ps_pos p + int (length b)) = Inr (utf8Slice_loop b)"
    unfolding i(1) e using bl_toString_eq [OF i(2), of i "i + length b"] i(3) by simp
qed

lemma cursor_string:
  assumes "cursor p (field b @ r) suf" "length b < 65536"
  shows "parseString p = Inr (Some (utf8Slice_loop b), p\<lparr>ps_pos := ps_pos p + 2 + int (length b)\<rparr>)"
    "cursor (p\<lparr>ps_pos := ps_pos p + 2 + int (length b)\<rparr>) r suf"
  using cursor_bounds [OF assms] cursor_slice(2) [OF cursor_bounds(2) [OF assms]]
    cursor_advance [OF cursor_bounds(2) [OF assms] refl]
  by (simp_all add: parseString_def add.assoc)

lemma cursor_buffer:
  assumes "cursor p (field b @ r) suf" "length b < 65536"
  shows "parseBuffer p = Inr (Some b, p\<lparr>ps_pos := ps_pos p + 2 + int (length b)\<rparr>)"
    "cursor (p\<lparr>ps_pos := ps_pos p + 2 + int (length b)\<rparr>) r suf"
  using cursor_bounds [OF assms] cursor_slice(1) [OF cursor_bounds(2) [OF assms]]
    cursor_advance [OF cursor_bounds(2) [OF assms] refl]
  by (simp_all add: parseBuffer_def add.assoc)

section \<open>Rules\<close>

lemma yields_Inr: "ps_packet q = k \<Longrightarrow> erase q = \<phi> \<Longrightarrow> yields k \<phi> (Inr q)"
  by (simp add: yields_def)

lemma yields_string:
  assumes "cursor p (field b @ r) suf" "length b < 65536"
    "\<And>q. cursor q r suf \<Longrightarrow> ps_packet q = ps_packet p \<Longrightarrow> erase q = erase p \<Longrightarrow>
      yields k \<phi> (f (Some (utf8Slice_loop b), q))"
  shows "yields k \<phi> (rbind (parseString p) f)"
  using cursor_string [OF assms(1,2)] assms(3) by simp

lemma yields_buffer:
  assumes "cursor p (field b @ r) suf" "length b < 65536"
    "\<And>q. cursor q r suf \<Longrightarrow> ps_packet q = ps_packet p \<Longrightarrow> erase q = erase p \<Longrightarrow> yields k \<phi> (f (Some b, q))"
  shows "yields k \<phi> (rbind (parseBuffer p) f)"
  using cursor_buffer [OF assms(1,2)] assms(3) by simp

lemma yields_num:
  assumes "cursor p (u16 n @ r) suf" "n < 65536"
    "\<And>q. cursor q r suf \<Longrightarrow> ps_packet q = ps_packet p \<Longrightarrow> erase q = erase p \<Longrightarrow> yields k \<phi> (f (int n, q))"
  shows "yields k \<phi> (rbind (parseNum p) f)"
  using cursor_num [OF assms(1,2)] assms(3) by simp

lemma yields_messageId:
  assumes "cursor p (u16 n @ r) suf" "n < 65536"
    "\<And>q. cursor q r suf \<Longrightarrow> ps_packet q = (ps_packet p)\<lparr>p_messageId := JNum (int n)\<rparr> \<Longrightarrow> erase q = erase p
      \<Longrightarrow> yields k \<phi> (f (True, q))"
  shows "yields k \<phi> (rbind (parseMessageId p) f)"
  unfolding parseMessageId_def rbind_assoc
  using assms by (intro yields_num [OF assms(1,2)]) simp

lemma yields_byte:
  assumes "cursor p (b # r) suf" "yields k \<phi> (f (unat b))"
  shows "yields k \<phi> (rbind (byte_here p) f)"
  using cursor_byte(1) [OF assms(1)] assms(2) by simp

lemma require_Some [simp]: "require (Some v) e p f = f v"
  by (simp add: require_def)

section \<open>CONNACK, acknowledgements, SUBACK\<close>

lemma is_u16_value: "is_u16 v \<Longrightarrow> message_id v < 65536 \<and> JNum (int (message_id v)) = v"
  by (cases v) (auto simp: is_u16_def message_id_def)

lemma granted_ok_value: "granted_ok v \<Longrightarrow> message_id v < 256 \<and> JNum (int (message_id v)) = v"
  by (cases v) (auto simp: granted_ok_def message_id_def)

lemma decoded_base_simps [simp]:
  "p_length (decoded_base k) = int (length (body_of k))"
  "p_cmd (decoded_base k) = p_cmd k"
  "p_qos (decoded_base k) = JNum (int (head_qos k))"
  by (simp_all add: decoded_base_def)

lemma decoded_base_absent:
  "(decoded_base k)\<lparr>p_topic := t, p_messageId := JUndef, p_payload := l\<rparr> = (decoded_base k)\<lparr>p_topic := t, p_payload := l\<rparr>"
  by (simp add: decoded_base_def new_Packet_def bare_packet_def)

lemma read_connack:
  assumes "p_cmd k = Connack" "granted_ok (p_returnCode k)" "cursor p (body_of k) suf" "ps_packet p = decoded_base k"
  shows "yields (decoded k) (erase p) (parseConnack p)"
proof -
  let ?s = "of_nat (flag (truthy (p_sessionPresent k)) 1) :: byte" let ?r = "of_nat (message_id (p_returnCode k)) :: byte"
  have c: "cursor p [?s, ?r] suf" using assms(1,3) by (simp add: body_of_def)
  then have "\<not> bl_length (ps_list p) < 2"
    by (rule cursor_bytes) (use bl_inv_length in auto)
  moreover have "unat ?s AND SESSIONPRESENT_MASK \<noteq> 0 \<longleftrightarrow> truthy (p_sessionPresent k)"
    by (simp add: flag_def SESSIONPRESENT_MASK_def)
  moreover have "JNum (int (unat ?r)) = p_returnCode k"
    using granted_ok_value [OF assms(2)] by simp
  moreover have "cursor (p\<lparr>ps_pos := ps_pos p + 1\<rparr>) [?r] suf" using cursor_byte(2) [OF c] by simp
  ultimately show ?thesis
    unfolding parseConnack_def Let_def
    using assms(1,4) c
    by (auto intro!: yields_byte [OF c] yields_byte [where b = ?r and r = "[]" and suf = suf] yields_Inr
        simp: decoded_def Let_def)
qed

lemma read_ack:
  assumes "p_cmd k \<in> {Puback, Pubrec, Pubrel, Pubcomp, Unsuback}" "is_u16 (p_messageId k)"
    "cursor p (body_of k) suf" "ps_packet p = decoded_base k"
  shows "yields (decoded k) (erase p) (dispatch_payload p)"
proof -
  have c: "cursor p (u16 (message_id (p_messageId k)) @ []) suf" using assms(1,3) by (auto simp: body_of_def)
  note m = is_u16_value [OF assms(2)]
  show ?thesis
    using assms(1,4) m
    by (auto simp: dispatch_payload_def parseUnsuback_def decoded_def Let_def
        intro!: yields_messageId [OF c] yields_Inr)
qed

lemma read_granted:
  assumes "list_all granted_ok vs" "cursor p (map (\<lambda>v. of_nat (message_id v)) vs) suf"
    "p_granted (ps_packet p) = Some gs"
  shows "yields ((ps_packet p)\<lparr>p_granted := Some (gs @ vs)\<rparr>) (erase p) (parseSuback_loop p)"
  using assms
proof (induction vs arbitrary: p gs)
  case Nil
  obtain i where "ps_pos p = int i" "p_length (ps_packet p) = int i"
    using Nil.prems(2) by (auto elim: cursor_bytes)
  then show ?case using Nil.prems by (subst parseSuback_loop.simps) (auto intro!: yields_Inr)
next
  case (Cons v vs)
  let ?b = "of_nat (message_id v) :: byte"
  have c: "cursor p (?b # map (\<lambda>v. of_nat (message_id v)) vs) suf" using Cons.prems(2) by simp
  then obtain i where "ps_pos p = int i" "p_length (ps_packet p) = int (i + (1 + length vs))"
    by (auto elim: cursor_bytes)
  then have l: "ps_pos p < p_length (ps_packet p)" by simp
  have v: "JNum (int (unat ?b)) = v" using Cons.prems(1) granted_ok_value [of v] by simp
  let ?k = "(ps_packet p)\<lparr>p_granted := Some (gs @ [v])\<rparr>"
  let ?q = "p\<lparr>ps_pos := ps_pos p + 1, ps_packet := ?k\<rparr>"
  have "cursor ?q (map (\<lambda>v. of_nat (message_id v)) vs) suf" using cursor_byte(2) [OF c] by simp
  then have "yields ((ps_packet ?q)\<lparr>p_granted := Some ((gs @ [v]) @ vs)\<rparr>) (erase ?q) (parseSuback_loop ?q)"
    using Cons.prems(1) by (intro Cons.IH) auto
  then show ?case
    using l cursor_byte(1) [OF c] v Cons.prems(3) by (subst parseSuback_loop.simps) simp
qed

lemma read_suback:
  assumes "p_cmd k = Suback" "wf_packet k" "cursor p (body_of k) suf" "ps_packet p = decoded_base k"
  shows "yields (decoded k) (erase p) (parseSuback p)"
proof -
  obtain vs where vs: "p_granted k = Some vs" "list_all granted_ok vs" "is_u16 (p_messageId k)"
    using assms(1,2) by (auto simp: wf_packet_def split: option.splits)
  let ?p = "upd_packet (\<lambda>k. k\<lparr>p_granted := Some []\<rparr>) p"
  have c: "cursor ?p (u16 (message_id (p_messageId k)) @ map (\<lambda>v. of_nat (message_id v)) vs) suf"
    using assms(1,3) vs(1) by (simp add: body_of_def)
  note m = is_u16_value [OF vs(3)]
  show ?thesis
    unfolding parseSuback_def
  proof (rule yields_messageId [OF c])
    show "message_id (p_messageId k) < 65536" using m by simp
    fix q assume q: "cursor q (map (\<lambda>v. of_nat (message_id v)) vs) suf"
      "ps_packet q = (ps_packet ?p)\<lparr>p_messageId := JNum (int (message_id (p_messageId k)))\<rparr>" "erase q = erase ?p"
    have "yields ((ps_packet q)\<lparr>p_granted := Some ([] @ vs)\<rparr>) (erase q) (parseSuback_loop q)"
      by (rule read_granted [OF vs(2) q(1)]) (simp add: q(2))
    then show "yields (decoded k) (erase p) (case (True, q) of (ok, q) \<Rightarrow> if \<not> ok then Inr q else parseSuback_loop q)"
      using q(2,3) assms(1,4) m vs(1) by (simp add: decoded_def Let_def)
  qed
qed

section \<open>PUBLISH, SUBSCRIBE, UNSUBSCRIBE\<close>

lemma read_publish:
  assumes "p_cmd k = Publish" "publish_ok k" "cursor p (body_of k) suf" "ps_packet p = decoded_base k"
  shows "yields (decoded k) (erase p) (parsePublish p)"
proof -
  let ?id = "if truthy (eff_qos k) then u16 (message_id (p_messageId k)) else []"
  have c: "cursor p (field (content (p_topic k)) @ ?id @ content (p_payload k)) suf"
    using assms(1,3) by (simp add: body_of_def publish_body_def)
  have l: "length (content (p_topic k)) < 65536" using assms(2) by (simp add: publish_ok_def)
  have q: "0 < qos_of (decoded_base k) \<longleftrightarrow> truthy (eff_qos k)"
    using assms(1,2) by (auto simp: qos_of_def head_qos_def message_id_def publish_ok_def split: jsval.splits)
  have slice: "bl_slice (ps_list r) (Some (ps_pos r)) (Some (int (length (body_of k)))) = Inr (content (p_payload k))"
    if "cursor r (content (p_payload k)) suf" "p_length (ps_packet r) = int (length (body_of k))" for r
  proof -
    have "int (length (body_of k)) = ps_pos r + int (length (content (p_payload k)))"
      using that by (auto elim: cursor_bytes)
    then show ?thesis using cursor_slice(1) [of r _ "[]" suf] that(1) by simp
  qed
  show ?thesis
    unfolding parsePublish_def
  proof (rule yields_string [OF c l], goal_cases)
    case (1 r)
    let ?r = "r\<lparr>ps_packet := (decoded_base k)\<lparr>p_topic := JStr (topic_text (p_topic k))\<rparr>\<rparr>"
    have cr: "cursor ?r (?id @ content (p_payload k)) suf" using 1 assms(4) by simp
    have qr: "qos_of (ps_packet ?r) = qos_of (decoded_base k)" by (simp add: qos_of_def)
    have pk: "ps_packet r = decoded_base k" using 1 assms(4) by simp
    show ?case
    proof (cases "truthy (eff_qos k)")
      case True
      then have m: "message_id (p_messageId k) < 65536 \<and> JNum (int (message_id (p_messageId k))) = p_messageId k"
        using assms(2) by (intro is_u16_value) (simp add: publish_ok_def)
      have cr': "cursor ?r (u16 (message_id (p_messageId k)) @ content (p_payload k)) suf" using cr True by simp
      have "yields (decoded k) (erase p) (rbind (parseMessageId ?r) (\<lambda>(ok, p3). if \<not> ok then Inr p3
          else rbind (bl_slice (ps_list p3) (Some (ps_pos p3)) (Some (p_length (ps_packet p3))))
            (\<lambda>b. Inr (upd_packet (\<lambda>k. k\<lparr>p_payload := JBuf b\<rparr>) p3))))"
        by (rule yields_messageId [OF cr']) (use m slice True assms(1) 1(3) in
            \<open>auto intro!: yields_Inr simp: decoded_def Let_def\<close>)
      then show ?thesis using True q qr pk by (simp add: topic_text_def Let_def)
    next
      case False
      then show ?thesis
        using q qr pk slice [of ?r] cr assms(1) 1(3)
        by (auto intro!: yields_Inr simp: topic_text_def Let_def decoded_def decoded_base_absent)
    qed
  qed
qed

lemma good_topic: "good_string t \<Longrightarrow> utf8Slice_loop (utf8 t) = t \<and> length (utf8 t) < 65536"
  by (simp add: good_string_def utf8_decode_encode)

lemma read_subs:
  assumes "list_all sub_ok xs" "cursor p (concat (map sub_body xs)) suf" "p_subscriptions (ps_packet p) = Some ys"
  shows "yields ((ps_packet p)\<lparr>p_subscriptions := Some (ys @ xs)\<rparr>) (erase p) (parseSubscribe_loop p)"
  using assms
proof (induction xs arbitrary: p ys)
  case Nil
  obtain i where "ps_pos p = int i" "p_length (ps_packet p) = int i"
    using Nil.prems(2) by (auto elim: cursor_bytes)
  then show ?case using Nil.prems by (subst parseSubscribe_loop.simps) (auto intro!: yields_Inr)
next
  case (Cons x xs)
  obtain t n where x: "sub_topic x = JStr t" "good_string t" "sub_qos x = JNum (int n)" "n < 3"
    using Cons.prems(1) by (auto simp: sub_ok_def split: jsval.splits) (metis nat_eq_iff2 zless_nat_eq_int_zless of_nat_numeral)
  note t = good_topic [OF x(2)]
  have c: "cursor p (field (utf8 t) @ of_nat n # concat (map sub_body xs)) suf"
    using Cons.prems(2) x by (simp add: sub_body_def [of x] message_id_def)
  then have l: "ps_pos p < p_length (ps_packet p)"
    by (rule cursor_bytes) auto
  note s = cursor_string [OF c conjunct2 [OF t]]
  let ?q = "p\<lparr>ps_pos := ps_pos p + 2 + int (length (utf8 t))\<rparr>"
  let ?k = "(ps_packet p)\<lparr>p_subscriptions := Some (ys @ [x])\<rparr>"
  let ?r = "p\<lparr>ps_pos := ps_pos p + 2 + int (length (utf8 t)) + 1, ps_packet := ?k\<rparr>"
  note b = cursor_byte [OF s(2)]
  have n: "unat (of_nat n :: byte) = n" using x(4) by simp
  have xe: "\<lparr>sub_topic = JStr t, sub_qos = JNum (int n)\<rparr> = x" using x by (cases x) simp
  have "yields ((ps_packet ?r)\<lparr>p_subscriptions := Some ((ys @ [x]) @ xs)\<rparr>) (erase ?r) (parseSubscribe_loop ?r)"
    using Cons.prems(1) b(2) by (intro Cons.IH) auto
  then show ?case
    using l s(1) t b(1) xe Cons.prems(3) unfolding n
    by (subst parseSubscribe_loop.simps) simp
qed

lemma read_unsubs:
  assumes "list_all unsub_ok xs" "cursor p (concat (map (\<lambda>v. field (content v)) xs)) suf"
    "p_unsubscriptions (ps_packet p) = Some ys"
  shows "yields ((ps_packet p)\<lparr>p_unsubscriptions := Some (ys @ xs)\<rparr>) (erase p) (parseUnsubscribe_loop p)"
  using assms
proof (induction xs arbitrary: p ys)
  case Nil
  obtain i where "ps_pos p = int i" "p_length (ps_packet p) = int i"
    using Nil.prems(2) by (auto elim: cursor_bytes)
  then show ?case using Nil.prems by (subst parseUnsubscribe_loop.simps) (auto intro!: yields_Inr)
next
  case (Cons x xs)
  obtain t where x: "x = JStr t" "good_string t"
    using Cons.prems(1) by (auto simp: unsub_ok_def split: jsval.splits)
  note t = good_topic [OF x(2)]
  have c: "cursor p (field (utf8 t) @ concat (map (\<lambda>v. field (content v)) xs)) suf"
    using Cons.prems(2) x by simp
  then have l: "ps_pos p < p_length (ps_packet p)"
    by (rule cursor_bytes) auto
  note s = cursor_string [OF c conjunct2 [OF t]]
  let ?k = "(ps_packet p)\<lparr>p_unsubscriptions := Some (ys @ [x])\<rparr>"
  let ?r = "p\<lparr>ps_pos := ps_pos p + 2 + int (length (utf8 t)), ps_packet := ?k\<rparr>"
  have "yields ((ps_packet ?r)\<lparr>p_unsubscriptions := Some ((ys @ [x]) @ xs)\<rparr>) (erase ?r) (parseUnsubscribe_loop ?r)"
    using Cons.prems(1) s(2) by (intro Cons.IH) auto
  then show ?case
    using l s(1) t x Cons.prems(3) by (subst parseUnsubscribe_loop.simps) simp
qed

lemma read_subscribe:
  assumes "p_cmd k = Subscribe" "wf_packet k" "cursor p (body_of k) suf" "ps_packet p = decoded_base k"
  shows "yields (decoded k) (erase p) (parseSubscribe p)"
proof -
  obtain vs where vs: "p_subscriptions k = Some vs" "list_all sub_ok vs" "is_u16 (p_messageId k)"
    using assms(1,2) by (auto simp: wf_packet_def split: option.splits)
  let ?p = "upd_packet (\<lambda>k. k\<lparr>p_subscriptions := Some []\<rparr>) p"
  have c: "cursor ?p (u16 (message_id (p_messageId k)) @ concat (map sub_body vs)) suf"
    using assms(1,3) vs(1) by (simp add: body_of_def)
  note m = is_u16_value [OF vs(3)]
  have "qos_of (ps_packet p) = 1" using assms(1,4) by (simp add: qos_of_def head_qos_def)
  moreover have "yields (decoded k) (erase p)
      (rbind (parseMessageId ?p) (\<lambda>(ok, q). if \<not> ok then Inr q else parseSubscribe_loop q))"
  proof (rule yields_messageId [OF c])
    show "message_id (p_messageId k) < 65536" using m by simp
    fix q assume q: "cursor q (concat (map sub_body vs)) suf"
      "ps_packet q = (ps_packet ?p)\<lparr>p_messageId := JNum (int (message_id (p_messageId k)))\<rparr>" "erase q = erase ?p"
    have "yields ((ps_packet q)\<lparr>p_subscriptions := Some ([] @ vs)\<rparr>) (erase q) (parseSubscribe_loop q)"
      by (rule read_subs [OF vs(2) q(1)]) (simp add: q(2))
    then show "yields (decoded k) (erase p) (case (True, q) of (ok, q) \<Rightarrow> if \<not> ok then Inr q else parseSubscribe_loop q)"
      using q(2,3) assms(1,4) m vs(1) by (simp add: decoded_def Let_def)
  qed
  ultimately show ?thesis by (simp add: parseSubscribe_def)
qed

lemma read_unsubscribe:
  assumes "p_cmd k = Unsubscribe" "wf_packet k" "cursor p (body_of k) suf" "ps_packet p = decoded_base k"
  shows "yields (decoded k) (erase p) (parseUnsubscribe p)"
proof -
  obtain vs where vs: "p_unsubscriptions k = Some vs" "list_all unsub_ok vs" "is_u16 (p_messageId k)"
    using assms(1,2) by (auto simp: wf_packet_def split: option.splits)
  let ?p = "upd_packet (\<lambda>k. k\<lparr>p_unsubscriptions := Some []\<rparr>) p"
  have c: "cursor ?p (u16 (message_id (p_messageId k)) @ concat (map (\<lambda>v. field (content v)) vs)) suf"
    using assms(1,3) vs(1) by (simp add: body_of_def)
  note m = is_u16_value [OF vs(3)]
  show ?thesis
    unfolding parseUnsubscribe_def
  proof (rule yields_messageId [OF c])
    show "message_id (p_messageId k) < 65536" using m by simp
    fix q assume q: "cursor q (concat (map (\<lambda>v. field (content v)) vs)) suf"
      "ps_packet q = (ps_packet ?p)\<lparr>p_messageId := JNum (int (message_id (p_messageId k)))\<rparr>" "erase q = erase ?p"
    have "yields ((ps_packet q)\<lparr>p_unsubscriptions := Some ([] @ vs)\<rparr>) (erase q) (parseUnsubscribe_loop q)"
      by (rule read_unsubs [OF vs(2) q(1)]) (simp add: q(2))
    then show "yields (decoded k) (erase p) (case (True, q) of (ok, q) \<Rightarrow> if \<not> ok then Inr q else parseUnsubscribe_loop q)"
      using q(2,3) assms(1,4) m vs(1) by (simp add: decoded_def Let_def)
  qed
qed

section \<open>CONNECT\<close>

lemma connect_flag_fields:
  assumes "q < 4" "a < 2" "b < 2" "r < 2" "w < 2" "c < 2" "x = 128 * a + 64 * b + (32 * r + 8 * q + 4 * w) + 2 * (c::nat)"
  shows "x < 256" "odd (x div 128) \<longleftrightarrow> a = 1" "odd (x div 64) \<longleftrightarrow> b = 1" "odd (x div 32) \<longleftrightarrow> r = 1"
    "x div 8 mod 4 = q" "odd (x div 4) \<longleftrightarrow> w = 1" "odd (x div 2) \<longleftrightarrow> c = 1"
proof -
  have z: "a = 0 \<or> a = 1" "b = 0 \<or> b = 1" "r = 0 \<or> r = 1" "w = 0 \<or> w = 1" "c = 0 \<or> c = 1" using assms by auto
  show "x < 256" using assms by linarith
  have "x div 128 = a" "x div 64 = 2 * a + b" "x div 32 = 2 * (2 * a + b) + r"
    "x div 8 = 4 * (4 * a + 2 * b + r) + q" "x div 4 = 2 * (4 * (4 * a + 2 * b + r) + q) + w"
    "x div 2 = 2 * (2 * (4 * (4 * a + 2 * b + r) + q) + w) + c"
    using assms by simp_all
  note d = this
  show "odd (x div 128) \<longleftrightarrow> a = 1" "odd (x div 64) \<longleftrightarrow> b = 1" "odd (x div 32) \<longleftrightarrow> r = 1"
    "odd (x div 4) \<longleftrightarrow> w = 1" "odd (x div 2) \<longleftrightarrow> c = 1"
    unfolding d using z by auto
  show "x div 8 mod 4 = q" unfolding d using assms(1) by (simp only: mod_mult_self4 mod_less)
qed

lemma will_qos_less: "will_ok (WillObj w) \<Longrightarrow> will_qos w < 4"
  by (auto simp: will_ok_def will_qos_def message_id_def split: jsval.splits if_splits)

definition has_will :: "packet \<Rightarrow> bool" where
  "has_will k = (case p_will k of WillObj w \<Rightarrow> True | _ \<Rightarrow> False)"

lemma connect_flag_bits:
  assumes "connect_ok k"
  shows "flags_of k < 256"
    "flags_of k AND USERNAME_MASK \<noteq> 0 \<longleftrightarrow> truthy (p_username k)"
    "flags_of k AND PASSWORD_MASK \<noteq> 0 \<longleftrightarrow> truthy (p_password k)"
    "flags_of k AND WILL_FLAG_MASK \<noteq> 0 \<longleftrightarrow> has_will k"
    "flags_of k AND CLEAN_SESSION_MASK \<noteq> 0 \<longleftrightarrow> eff_clean k"
    "p_will k = WillObj w \<Longrightarrow> flags_of k AND WILL_RETAIN_MASK \<noteq> 0 \<longleftrightarrow> truthy (w_retain w)"
    "p_will k = WillObj w \<Longrightarrow> drop_bit WILL_QOS_SHIFT (flags_of k AND WILL_QOS_MASK) = will_qos w"
proof -
  have w: "will_ok (p_will k)" using assms by (simp add: connect_ok_def)
  define q where "q = (case p_will k of WillObj w \<Rightarrow> will_qos w | _ \<Rightarrow> 0)"
  define r where "r = (case p_will k of WillObj w \<Rightarrow> flag (truthy (w_retain w)) 1 | _ \<Rightarrow> 0)"
  have q4: "q < 4" using w will_qos_less by (auto simp: q_def split: will_val.split)
  have r2: "r < 2" by (auto simp: r_def flag_def split: will_val.split)
  have x: "flags_of k = 128 * flag (truthy (p_username k)) 1 + 64 * flag (truthy (p_password k)) 1
      + (32 * r + 8 * q + 4 * flag (has_will k) 1) + 2 * flag (eff_clean k) 1"
    using w by (auto simp: flags_of_def q_def r_def has_will_def flag_def split: will_val.split)
  note f = connect_flag_fields [OF q4 flag_less flag_less r2 flag_less flag_less x]
  have dq: "drop_bit WILL_QOS_SHIFT (flags_of k AND WILL_QOS_MASK) = q"
  proof -
    have "drop_bit 3 (flags_of k AND 0x18) = drop_bit 3 (flags_of k) AND drop_bit 3 0x18" by (rule drop_bit_and)
    also have "drop_bit 3 (0x18::nat) = 3" by (simp add: drop_bit_eq_div)
    finally show ?thesis using f(5) by (simp add: WILL_QOS_SHIFT_def WILL_QOS_MASK_def byte_simps)
  qed
  show "flags_of k < 256" by (rule f(1))
  show "flags_of k AND USERNAME_MASK \<noteq> 0 \<longleftrightarrow> truthy (p_username k)"
    using f(2) unfolding USERNAME_MASK_def nat_and_flags by (simp add: flag_def)
  show "flags_of k AND PASSWORD_MASK \<noteq> 0 \<longleftrightarrow> truthy (p_password k)"
    using f(3) unfolding PASSWORD_MASK_def nat_and_flags by (simp add: flag_def)
  show "flags_of k AND WILL_FLAG_MASK \<noteq> 0 \<longleftrightarrow> has_will k"
    using f(6) unfolding WILL_FLAG_MASK_def nat_and_flags by (simp add: flag_def)
  show "flags_of k AND CLEAN_SESSION_MASK \<noteq> 0 \<longleftrightarrow> eff_clean k"
    using f(7) unfolding CLEAN_SESSION_MASK_def nat_and_flags by (simp add: flag_def)
  show "p_will k = WillObj w \<Longrightarrow> flags_of k AND WILL_RETAIN_MASK \<noteq> 0 \<longleftrightarrow> truthy (w_retain w)"
    using f(4) unfolding WILL_RETAIN_MASK_def nat_and_flags by (simp add: flag_def r_def)
  show "p_will k = WillObj w \<Longrightarrow> drop_bit WILL_QOS_SHIFT (flags_of k AND WILL_QOS_MASK) = will_qos w"
    using dq by (simp add: q_def)
qed

lemma connect_ok_dest:
  assumes "connect_ok k"
  obtains pid c n where
    "eff_protocolId k = JStr pid" "pid = js ''MQTT'' \<or> pid = js ''MQIsdp''"
    "eff_version k = JNum 3 \<or> eff_version k = JNum 4"
    "eff_keepalive k = JNum (int n)" "n < 65536"
    "eff_clientId k = JStr c" "ascii c" "length c < 65536"
proof -
  from assms obtain c where "eff_clientId k = JStr c" "ascii c" "length c < 65536"
    by (auto simp: connect_ok_def split: jsval.splits)
  moreover from assms have "is_u16 (eff_keepalive k)" by (simp add: connect_ok_def)
  then have "eff_keepalive k = JNum (int (message_id (eff_keepalive k)))" "message_id (eff_keepalive k) < 65536"
    using is_u16_value by auto
  moreover from assms have v: "eff_version k = JNum 3 \<or> eff_version k = JNum 4" by (simp add: connect_ok_def)
  moreover from assms obtain pid where "eff_protocolId k = JStr pid" "pid = js ''MQTT'' \<or> pid = js ''MQIsdp''"
    by (auto simp: connect_ok_def)
  ultimately show thesis
    by (intro that [of pid "message_id (eff_keepalive k)" c])
qed

definition with_credentials :: "packet \<Rightarrow> packet \<Rightarrow> packet" where
  "with_credentials k d = d\<lparr>
      p_username := (if truthy (p_username k) then p_username k else p_username d),
      p_password := (if truthy (p_password k) then JBuf (content (p_password k)) else p_password d)\<rparr>"

lemma read_credentials:
  assumes "connect_ok k" "cursor p (opt_field (p_username k) @ opt_field (p_password k)) suf"
  shows "yields (with_credentials k (ps_packet p)) (erase p) (connect_credentials (flags_of k) p)"
proof -
  have pw: "yields ((ps_packet q)\<lparr>p_password := (if truthy (p_password k) then JBuf (content (p_password k))
        else p_password (ps_packet q))\<rparr>) (erase q)
      (if flags_of k AND PASSWORD_MASK \<noteq> 0 then
         rbind (parseBuffer q) (\<lambda>(u, r). require u ''Cannot parse password'' r (\<lambda>v.
             Inr (upd_packet (\<lambda>k. k\<lparr>p_password := JBuf v\<rparr>) r)))
       else Inr q)"
    if c: "cursor q (opt_field (p_password k)) suf" for q
  proof (cases "truthy (p_password k)")
    case True
    then have "length (content (p_password k)) < 65536"
      using assms(1) by (auto simp: connect_ok_def split: jsval.splits)
    moreover have "cursor q (field (content (p_password k)) @ []) suf" using c True by (simp add: opt_field_def)
    ultimately show ?thesis
      unfolding connect_flag_bits(3) [OF assms(1)]
      using True by (auto intro!: yields_buffer [where r = "[]" and suf = suf] yields_Inr)
  next
    case False
    then show ?thesis unfolding connect_flag_bits(3) [OF assms(1)] by (auto intro: yields_Inr)
  qed
  show ?thesis
  proof (cases "truthy (p_username k)")
    case True
    then obtain u where u: "p_username k = JStr u" "good_string u"
      using assms(1) by (auto simp: connect_ok_def split: jsval.splits)
    note g = good_topic [OF u(2)]
    have c: "cursor p (field (utf8 u) @ opt_field (p_password k)) suf"
      using assms(2) True u by (simp add: opt_field_def [of "JStr u"])
    show ?thesis
      unfolding connect_credentials_def
      unfolding connect_flag_bits(2) [OF assms(1)]
      using True cursor_string [OF c conjunct2 [OF g]] g u
        pw [of "p\<lparr>ps_pos := ps_pos p + 2 + int (length (utf8 u)), ps_packet := (ps_packet p)\<lparr>p_username := JStr u\<rparr>\<rparr>"]
      by (auto simp: with_credentials_def split: if_splits)
  next
    case False
    then show ?thesis
      using assms(2) pw [of p] unfolding connect_credentials_def connect_flag_bits(2) [OF assms(1)]
      by (simp add: opt_field_def [of "p_username k"] with_credentials_def)
  qed
qed

lemma read_connect_will:
  assumes "connect_ok k"
    "cursor p ((case p_will k of WillObj w \<Rightarrow> field (content (w_topic w)) @ field (content (w_payload w)) | _ \<Rightarrow> [])
       @ opt_field (p_username k) @ opt_field (p_password k)) suf"
    "p_will (ps_packet p) = (case p_will k of WillObj w \<Rightarrow> WillObj \<lparr>w_retain = JBool (truthy (w_retain w)),
       w_qos = JNum (int (will_qos w)), w_topic = JUndef, w_payload = JUndef\<rparr> | _ \<Rightarrow> NoWill)"
  shows "yields (with_credentials k ((ps_packet p)\<lparr>p_will := decoded_will (p_will k)\<rparr>))
    (erase p) (connect_will (flags_of k) p)"
proof (cases "p_will k")
  case (WillObj w)
  have ok: "will_ok (WillObj w)" using assms(1) WillObj by (simp add: connect_ok_def)
  then obtain t where t: "w_topic w = JStr t" "good_string t"
    by (auto simp: will_ok_def split: jsval.splits)
  note g = good_topic [OF t(2)]
  have pl: "length (content (w_payload w)) < 65536" using ok by (simp add: will_ok_def)
  have c: "cursor p (field (utf8 t) @ field (content (w_payload w)) @ opt_field (p_username k) @ opt_field (p_password k)) suf"
    using assms(2) WillObj t by simp
  have "flags_of k AND WILL_FLAG_MASK \<noteq> 0"
    using connect_flag_bits(4) [OF assms(1)] WillObj by (simp add: has_will_def)
  moreover have "yields (with_credentials k ((ps_packet p)\<lparr>p_will := decoded_will (p_will k)\<rparr>))
     (erase p) (rbind (parseString p) (\<lambda>(t, q).
          require t ''Cannot parse will topic'' q (\<lambda>topic.
          rbind (parseBuffer (upd_packet (set_will (w_topic_update (\<lambda>_. JStr topic))) q)) (\<lambda>(b, r).
            require b ''Cannot parse will payload'' r (\<lambda>payload.
              connect_credentials (flags_of k)
                (upd_packet (set_will (w_payload_update (\<lambda>_. JBuf payload))) r))))))"
  proof (rule yields_string [OF c conjunct2 [OF g]], unfold prod.case require_Some)
    fix q
    assume q: "cursor q (field (content (w_payload w)) @ opt_field (p_username k) @ opt_field (p_password k)) suf"
      "ps_packet q = ps_packet p" "erase q = erase p"
    let ?q = "upd_packet (set_will (w_topic_update (\<lambda>_. JStr (utf8Slice_loop (utf8 t))))) q"
    have cq: "cursor ?q (field (content (w_payload w)) @ opt_field (p_username k) @ opt_field (p_password k)) suf"
      using q(1) by simp
    show "yields (with_credentials k ((ps_packet p)\<lparr>p_will := decoded_will (p_will k)\<rparr>))
     (erase p) (rbind (parseBuffer ?q) (\<lambda>(b, r).
            require b ''Cannot parse will payload'' r (\<lambda>payload.
              connect_credentials (flags_of k)
                (upd_packet (set_will (w_payload_update (\<lambda>_. JBuf payload))) r))))"
    proof (rule yields_buffer [OF cq pl], unfold prod.case require_Some)
      fix r
      assume r: "cursor r (opt_field (p_username k) @ opt_field (p_password k)) suf" "ps_packet r = ps_packet ?q"
        "erase r = erase ?q"
      let ?r = "r\<lparr>ps_packet := set_will (w_payload_update (\<lambda>_. JBuf (content (w_payload w)))) (ps_packet r)\<rparr>"
      have "yields (with_credentials k (ps_packet ?r))
        (erase ?r) (connect_credentials (flags_of k) ?r)"
        using r(1) by (intro read_credentials [OF assms(1)]) simp
      moreover have "ps_packet ?r = (ps_packet p)\<lparr>p_will := decoded_will (p_will k)\<rparr>"
        using r(2) q(2) WillObj assms(3) g t by (simp add: set_will_def decoded_will_def)
      ultimately show "yields (with_credentials k ((ps_packet p)\<lparr>p_will := decoded_will (p_will k)\<rparr>))
         (erase p) (connect_credentials (flags_of k) ?r)"
        using r(3) q(3) by simp
    qed
  qed
  ultimately show ?thesis by (simp add: connect_will_def)
next
  case NoWill
  then have "\<not> has_will k" "(ps_packet p)\<lparr>p_will := NoWill\<rparr> = ps_packet p" using assms(3) by (simp_all add: has_will_def)
  then show ?thesis
    using connect_flag_bits(4) [OF assms(1)] read_credentials [OF assms(1), of p suf] assms(2) NoWill
    by (simp add: connect_will_def decoded_will_def)
next
  case WillOther
  then show ?thesis using assms(1) by (simp add: connect_ok_def will_ok_def)
qed

lemma read_connect_fields:
  assumes ok: "connect_ok k" and c: "cursor p (u16 (message_id (eff_keepalive k)) @ field (content (eff_clientId k))
      @ (case p_will k of WillObj w \<Rightarrow> field (content (w_topic w)) @ field (content (w_payload w)) | _ \<Rightarrow> [])
      @ opt_field (p_username k) @ opt_field (p_password k)) suf"
    and w: "p_will (ps_packet p) = (case p_will k of WillObj w \<Rightarrow> WillObj \<lparr>w_retain = JBool (truthy (w_retain w)),
       w_qos = JNum (int (will_qos w)), w_topic = JUndef, w_payload = JUndef\<rparr> | _ \<Rightarrow> NoWill)"
  shows "yields (with_credentials k ((ps_packet p)\<lparr>p_keepalive := eff_keepalive k, p_clientId := eff_clientId k,
      p_will := decoded_will (p_will k)\<rparr>)) (erase p)
    (rbind (parseNum p) (\<lambda>(keepalive, p6).
       let p7 = upd_packet (\<lambda>k. k\<lparr>p_keepalive := JNum keepalive\<rparr>) p6 in
       if keepalive = -1 then Inr (emitError p7 ''Packet too short'')
       else rbind (parseString p7) (\<lambda>(c, p8).
              require c ''Packet too short'' p8 (\<lambda>clientId.
                connect_will (flags_of k) (upd_packet (\<lambda>k. k\<lparr>p_clientId := JStr clientId\<rparr>) p8)))))"
  using ok
proof (rule connect_ok_dest)
  fix pid cl n
  assume f: "eff_keepalive k = JNum (int n)" "n < 65536" "eff_clientId k = JStr cl" "ascii cl" "length cl < 65536"
  let ?tail = "(case p_will k of WillObj w \<Rightarrow> field (content (w_topic w)) @ field (content (w_payload w)) | _ \<Rightarrow> [])
      @ opt_field (p_username k) @ opt_field (p_password k)"
  have g: "utf8Slice_loop (utf8 cl) = cl" "length (utf8 cl) < 65536"
    using f by (simp_all add: utf8_decode_encode wf_utf16_ascii length_utf8_ascii)
  have cn: "cursor p (u16 n @ field (utf8 cl) @ ?tail) suf" using c f by (simp add: message_id_def)
  let ?d = "(ps_packet p)\<lparr>p_keepalive := eff_keepalive k, p_clientId := eff_clientId k, p_will := decoded_will (p_will k)\<rparr>"
  show ?thesis
  proof (rule yields_num [OF cn f(2)], unfold prod.case Let_def, subst if_not_P)
    fix q
    assume q: "cursor q (field (utf8 cl) @ ?tail) suf" "ps_packet q = ps_packet p" "erase q = erase p"
    let ?q = "upd_packet (\<lambda>k. k\<lparr>p_keepalive := JNum (int n)\<rparr>) q"
    have cq: "cursor ?q (field (utf8 cl) @ ?tail) suf" using q(1) by simp
    show "yields (with_credentials k ?d) (erase p) (rbind (parseString ?q) (\<lambda>(c, p8).
       require c ''Packet too short'' p8 (\<lambda>clientId.
         connect_will (flags_of k) (upd_packet (\<lambda>k. k\<lparr>p_clientId := JStr clientId\<rparr>) p8))))"
    proof (rule yields_string [OF cq g(2)], unfold prod.case require_Some g(1))
      fix r
      assume r: "cursor r ?tail suf" "ps_packet r = ps_packet ?q" "erase r = erase ?q"
      let ?r = "upd_packet (\<lambda>k. k\<lparr>p_clientId := JStr cl\<rparr>) r"
      have "yields (with_credentials k ((ps_packet ?r)\<lparr>p_will := decoded_will (p_will k)\<rparr>)) (erase ?r)
          (connect_will (flags_of k) ?r)"
        using r q(2) w by (intro read_connect_will [OF ok]) simp_all
      then show "yields (with_credentials k ?d) (erase p) (connect_will (flags_of k) ?r)"
        using r(2,3) q(2,3) f by simp
    qed
  qed simp
qed

lemma start_will_packet:
  assumes "connect_ok k"
  shows "start_will (flags_of k) p = p\<lparr>ps_packet := (ps_packet p)\<lparr>p_will := (case p_will k of
      WillObj w \<Rightarrow> WillObj \<lparr>w_retain = JBool (truthy (w_retain w)), w_qos = JNum (int (will_qos w)),
        w_topic = JUndef, w_payload = JUndef\<rparr> | _ \<Rightarrow> p_will (ps_packet p))\<rparr>\<rparr>"
proof (cases "p_will k")
  case (WillObj w)
  then show ?thesis
    unfolding start_will_def connect_flag_bits(4) [OF assms]
      connect_flag_bits(6) [OF assms WillObj] connect_flag_bits(7) [OF assms WillObj]
    by (simp add: has_will_def)
qed (unfold start_will_def connect_flag_bits(4) [OF assms], simp_all add: has_will_def)

lemma decoded_base_bare: "p_will (decoded_base k) = NoWill" "p_username (decoded_base k) = JUndef"
    "p_password (decoded_base k) = JUndef"
  by (simp_all add: decoded_base_def new_Packet_def bare_packet_def)

lemma read_connect:
  assumes "p_cmd k = Connect" and ok: "connect_ok k" and c: "cursor p (body_of k) suf" and pk: "ps_packet p = decoded_base k"
  shows "yields (decoded k) (erase p) (parseConnect p)"
  using ok
proof (rule connect_ok_dest)
  fix pid cl n
  assume f: "eff_protocolId k = JStr pid" "pid = js ''MQTT'' \<or> pid = js ''MQIsdp''"
    "eff_version k = JNum 3 \<or> eff_version k = JNum 4"
  define v where "v = message_id (eff_version k)"
  have v: "eff_version k = JNum (int v)" "v = 3 \<or> v = 4" using f(3) by (auto simp: v_def message_id_def)
  have pid: "ascii pid" "length pid < 65536" using f(2) by (auto simp: ascii_def js_def)
  have g: "utf8Slice_loop (utf8 pid) = pid" "length (utf8 pid) < 65536"
    using pid by (simp_all add: utf8_decode_encode wf_utf16_ascii length_utf8_ascii)
  let ?tail = "u16 (message_id (eff_keepalive k)) @ field (content (eff_clientId k))
      @ (case p_will k of WillObj w \<Rightarrow> field (content (w_topic w)) @ field (content (w_payload w)) | _ \<Rightarrow> [])
      @ opt_field (p_username k) @ opt_field (p_password k)"
  let ?v = "of_nat v :: byte" let ?fl = "of_nat (flags_of k) :: byte"
  have cp: "cursor p (field (utf8 pid) @ ?v # ?fl # ?tail) suf"
    using c assms(1) f v by (simp add: body_of_def connect_body_def message_id_def)
  have uv: "unat ?v = v" using v by auto
  have uf: "unat ?fl = flags_of k" using connect_flag_bits(1) [OF ok] by simp
  let ?p1 = "p\<lparr>ps_pos := ps_pos p + 2 + int (length (utf8 pid))\<rparr>"
  note s = cursor_string [OF cp g(2)]
  let ?p2 = "upd_packet (\<lambda>k. k\<lparr>p_protocolId := JStr pid\<rparr>) ?p1"
  have c2: "cursor ?p2 (?v # ?fl # ?tail) suf" using s(2) by simp
  note b2 = cursor_byte [OF c2]
  let ?p4 = "p\<lparr>ps_pos := ps_pos p + 2 + int (length (utf8 pid)) + 1,
    ps_packet := (decoded_base k)\<lparr>p_protocolId := JStr pid, p_protocolVersion := JNum (int v)\<rparr>\<rparr>"
  have c4: "cursor ?p4 (?fl # ?tail) suf" using b2(2) pk by simp
  note b4 = cursor_byte [OF c4]
  let ?w = "(case p_will k of WillObj w \<Rightarrow> WillObj \<lparr>w_retain = JBool (truthy (w_retain w)),
     w_qos = JNum (int (will_qos w)), w_topic = JUndef, w_payload = JUndef\<rparr> | _ \<Rightarrow> NoWill)"
  let ?p5 = "p\<lparr>ps_pos := ps_pos p + 2 + int (length (utf8 pid)) + 1 + 1,
    ps_packet := (decoded_base k)\<lparr>p_protocolId := JStr pid, p_protocolVersion := JNum (int v),
      p_will := ?w, p_clean := JBool (eff_clean k)\<rparr>\<rparr>"
  have c5: "cursor ?p5 ?tail suf" using b4(2) pk by simp
  have y: "yields (with_credentials k ((ps_packet ?p5)\<lparr>p_keepalive := eff_keepalive k, p_clientId := eff_clientId k,
      p_will := decoded_will (p_will k)\<rparr>)) (erase ?p5)
    (rbind (parseNum ?p5) (\<lambda>(keepalive, p6).
       let p7 = upd_packet (\<lambda>k. k\<lparr>p_keepalive := JNum keepalive\<rparr>) p6 in
       if keepalive = -1 then Inr (emitError p7 ''Packet too short'')
       else rbind (parseString p7) (\<lambda>(c, p8).
              require c ''Packet too short'' p8 (\<lambda>clientId.
                connect_will (flags_of k) (upd_packet (\<lambda>k. k\<lparr>p_clientId := JStr clientId\<rparr>) p8)))))"
    by (rule read_connect_fields [OF ok c5]) simp
  have d: "with_credentials k ((ps_packet ?p5)\<lparr>p_keepalive := eff_keepalive k, p_clientId := eff_clientId k,
      p_will := decoded_will (p_will k)\<rparr>) = decoded k"
    using assms(1) f v by (simp add: decoded_def Let_def with_credentials_def decoded_base_bare)
  have p5: "(upd_packet (\<lambda>ka. ka\<lparr>p_clean := JBool (flags_of k AND CLEAN_SESSION_MASK \<noteq> 0)\<rparr>)
      (start_will (flags_of k) ?p4))\<lparr>ps_pos := ps_pos ?p4 + 1\<rparr> = ?p5"
    unfolding start_will_packet [OF ok] connect_flag_bits(5) [OF ok]
    by (simp add: decoded_base_bare split: will_val.split)
  have four: "parseConnect p = rbind (byte_here ?p4) (\<lambda>flags.
      let p5 = (upd_packet (\<lambda>k. k\<lparr>p_clean := JBool (flags AND CLEAN_SESSION_MASK \<noteq> 0)\<rparr>)
                 (start_will flags ?p4))\<lparr>ps_pos := ps_pos ?p4 + 1\<rparr> in
      rbind (parseNum p5) (\<lambda>(keepalive, p6).
       let p7 = upd_packet (\<lambda>k. k\<lparr>p_keepalive := JNum keepalive\<rparr>) p6 in
       if keepalive = -1 then Inr (emitError p7 ''Packet too short'')
       else rbind (parseString p7) (\<lambda>(c, p8).
              require c ''Packet too short'' p8 (\<lambda>clientId.
                connect_will flags (upd_packet (\<lambda>k. k\<lparr>p_clientId := JStr clientId\<rparr>) p8)))))"
  proof -
    have t: "\<not> (pid \<noteq> js ''MQTT'' \<and> pid \<noteq> js ''MQIsdp'')" "\<not> (v \<noteq> 3 \<and> v \<noteq> 4)" using f(2) v(2) by auto
    have p4: "(upd_packet (\<lambda>k. k\<lparr>p_protocolVersion := JNum (int v)\<rparr>) ?p2)\<lparr>ps_pos := ps_pos ?p2 + 1\<rparr> = ?p4"
      using pk by simp
    show ?thesis
      unfolding parseConnect_def s(1) rbind_simps prod.case require_Some g(1) if_not_P [OF t(1)] Let_def
        if_not_P [OF b2(3)] b2(1) uv if_not_P [OF t(2)]
      using p4 b4(3) by simp
  qed
  show ?thesis
    unfolding four b4(1) uf rbind_simps Let_def p5 using y [unfolded d Let_def] by simp
qed

section \<open>Every well-formed packet\<close>

lemma dispatch_yields:
  assumes "wf_packet k" "cursor p (body_of k) suf" "ps_packet p = decoded_base k"
  shows "yields (decoded k) (erase p) (dispatch_payload p)"
proof -
  have cmd: "p_cmd (ps_packet p) = p_cmd k" using assms(3) by simp
  from wf_packet_known [OF assms(1)] consider
      "p_cmd k = Connect" | "p_cmd k = Connack" | "p_cmd k = Publish"
    | "p_cmd k \<in> {Puback, Pubrec, Pubrel, Pubcomp, Unsuback}"
    | "p_cmd k = Subscribe" | "p_cmd k = Suback" | "p_cmd k = Unsubscribe"
    | "p_cmd k \<in> {Pingreq, Pingresp, Disconnect}"
    by auto
  then show ?thesis
  proof cases
    case 1
    then show ?thesis using read_connect [OF 1 _ assms(2,3)] assms(1) cmd
      by (simp add: dispatch_payload_def wf_packet_def)
  next
    case 2
    then show ?thesis using read_connack [OF 2 _ assms(2,3)] assms(1) cmd
      by (simp add: dispatch_payload_def wf_packet_def)
  next
    case 3
    then show ?thesis using read_publish [OF 3 _ assms(2,3)] assms(1) cmd
      by (simp add: dispatch_payload_def wf_packet_def)
  next
    case 4
    moreover have "is_u16 (p_messageId k)" using 4 assms(1) by (auto simp: wf_packet_def)
    ultimately show ?thesis by (rule read_ack [OF _ _ assms(2,3)])
  next
    case 5
    then show ?thesis using read_subscribe [OF 5 assms] cmd by (simp add: dispatch_payload_def)
  next
    case 6
    then show ?thesis using read_suback [OF 6 assms] cmd by (simp add: dispatch_payload_def)
  next
    case 7
    then show ?thesis using read_unsubscribe [OF 7 assms] cmd by (simp add: dispatch_payload_def)
  next
    case 8
    then show ?thesis
      using cmd assms(3) by (auto simp: dispatch_payload_def decoded_def Let_def intro!: yields_Inr)
  qed
qed

lemma yields_state:
  assumes "yields k (erase p) m"
  shows "\<exists>pos. m = Inr (p\<lparr>ps_packet := k, ps_pos := pos\<rparr>)"
proof -
  obtain q where q: "m = Inr q" "ps_packet q = k" "erase q = erase p" using assms by (auto simp: yields_def)
  then have "q = p\<lparr>ps_packet := k, ps_pos := ps_pos q\<rparr>" by (cases p; cases q) (simp add: erase_def)
  with q(1) show ?thesis by blast
qed

lemma connect_body_length:
  assumes "connect_ok k"
  shows "length (connect_body k) < 2 ^ 28"
proof -
  have "length (opt_field (p_username k)) < 65538"
    using assms by (auto simp: connect_ok_def opt_field_def good_string_def split: jsval.splits)
  moreover have "length (opt_field (p_password k)) < 65538"
    using assms by (auto simp: connect_ok_def opt_field_def split: jsval.splits)
  moreover have "will_ok (p_will k)" using assms by (simp add: connect_ok_def)
  then have "length (case p_will k of WillObj w \<Rightarrow> field (content (w_topic w)) @ field (content (w_payload w)) | _ \<Rightarrow> []) < 131076"
    by (auto simp: will_ok_def good_string_def split: will_val.splits jsval.splits)
  moreover obtain cl where "eff_clientId k = JStr cl" "ascii cl" "length cl < 65536"
    using assms by (rule connect_ok_dest)
  then have "length (field (content (eff_clientId k))) < 65538" by (simp add: length_utf8_ascii)
  moreover have "length (field (content (eff_protocolId k))) < 100"
  proof -
    obtain pid where p: "eff_protocolId k = JStr pid" "pid = js ''MQTT'' \<or> pid = js ''MQIsdp''"
      using assms by (rule connect_ok_dest)
    then have "ascii pid \<and> length pid < 10" by (auto simp: ascii_def js_def)
    then show ?thesis using p by (simp add: length_utf8_ascii)
  qed
  ultimately show ?thesis unfolding connect_body_def by simp
qed

lemma body_length: "wf_packet k \<Longrightarrow> length (body_of k) < 2 ^ 28"
  using connect_body_length [of k]
  by (cases "p_cmd k") (auto simp: wf_packet_def body_of_def publish_ok_def)

lemma decoded_length: "p_length (decoded k) = int (length (body_of k))"
  by (simp add: decoded_def Let_def split: cmd.split)

lemma wire_frame_ok:
  assumes "wf_packet k"
  shows "frame_ok (wire_frame k)"
  unfolding frame_ok_def
proof (intro conjI allI impI)
  show "length (f_body (wire_frame k)) < 2 ^ 28" using body_length [OF assms] by (simp add: wire_frame_def)
  show "p_length (f_packet (wire_frame k)) = int (length (f_body (wire_frame k)))"
    by (simp add: wire_frame_def decoded_length)
  fix p :: parser and suffix
  assume a: "bl_inv (ps_list p) \<and> bl_bytes (ps_list p) = f_body (wire_frame k) @ suffix \<and> ps_pos p = 0
      \<and> ps_packet p = body_packet (wire_frame k)"
  then have "ps_packet p = decoded_base k" by (simp add: body_packet_wire [OF assms])
  moreover from this a have "cursor p (body_of k) suffix" by (simp add: cursor_def wire_frame_def)
  ultimately show "\<exists>pos. dispatch_payload p = Inr (p\<lparr>ps_packet := f_packet (wire_frame k), ps_pos := pos\<rparr>)"
    using yields_state [OF dispatch_yields [OF assms]] by (simp add: wire_frame_def)
qed

end
