(* ===== verification/Codec_Write.thy ===== *)
theory Codec_Write
  imports Codec_Read
begin

text \<open>
  The generator on well-formed packets: the chunks written to the accumulator concatenate to the header
  byte, the length field and the body of the reference format.
\<close>

section \<open>What a write adds\<close>

definition writes :: "jsval list \<Rightarrow> buffer \<Rightarrow> bool" where
  "writes cs b \<longleftrightarrow> (\<forall>ds. Accumulator_concat (cs @ ds) = rbind (Accumulator_concat ds) (\<lambda>r. Inr (b @ r)))"

definition adds :: "wstream \<Rightarrow> wstream \<Rightarrow> buffer \<Rightarrow> bool" where
  "adds s s' b \<longleftrightarrow> (\<exists>cs. s' = s\<lparr>sw_out := sw_out s @ cs\<rparr> \<and> writes cs b)"

lemma adds_refl: "adds s s []"
  unfolding adds_def by (rule exI [of _ "[]"]) (simp add: writes_def rbind_def split: sum.split)

lemma adds_trans:
  assumes "adds s s1 b" "adds s1 s2 c"
  shows "adds s s2 (b @ c)"
proof -
  obtain cs ds where c: "s1 = s\<lparr>sw_out := sw_out s @ cs\<rparr>" "writes cs b"
    "s2 = s1\<lparr>sw_out := sw_out s1 @ ds\<rparr>" "writes ds c"
    using assms by (auto simp: adds_def)
  have "writes (cs @ ds) (b @ c)" using c(2,4) by (simp add: writes_def rbind_assoc)
  then show ?thesis unfolding adds_def using c(1,3) by (intro exI [of _ "cs @ ds"]) simp
qed

lemma adds_then: "adds s s1 b \<Longrightarrow> adds s1 s2 c \<Longrightarrow> d = b @ c \<Longrightarrow> adds s s2 d"
  using adds_trans by blast

lemma adds_swrite:
  assumes "truthy v" "chunk_bytes v = Inr b"
  shows "adds s (swrite s v) b"
  using assms unfolding adds_def by (intro exI [of _ "[v]"]) (simp add: swrite_def writes_def)

lemma adds_buf: "adds s (swrite s (JBuf b)) b"
  by (rule adds_swrite) simp_all

lemma adds_str: "t \<noteq> [] \<Longrightarrow> adds s (swrite s (JStr t)) (utf8 t)"
  by (rule adds_swrite) simp_all

lemma u16_numCache: "n < 65536 \<Longrightarrow> numCache (int n) = Some (u16 n)"
  using of_int_of_nat_eq [of "n div 256", where 'a = byte] of_int_of_nat_eq [of "n mod 256", where 'a = byte]
  by (simp add: numCache_bytes u16_def zdiv_int zmod_int)

lemma adds_num: "n < 65536 \<Longrightarrow> adds s (writeNumber s (Some (int n))) (u16 n)"
  by (simp add: writeNumber_def u16_numCache of_buffer_def adds_buf)

lemma adds_length: "adds s (writeLength s (int n)) (genBufLength n)"
  by (simp add: writeLength_def adds_buf)

lemma adds_string: "t \<noteq> [] \<Longrightarrow> length (utf8 t) < 65536 \<Longrightarrow> adds s (writeString s t) (field (utf8 t))"
  unfolding writeString_def field_def by (rule adds_trans [OF adds_num adds_str])

lemma adds_stringOrBuffer:
  assumes "truthy v \<longrightarrow> is_string v \<or> is_buffer v" "length (content v) < 65536"
  shows "adds s (writeStringOrBuffer s v) (field (content v))"
proof -
  have z: "adds s (writeNumber s (Some 0)) (field [])"
    using adds_num [of 0 s] by (simp add: field_def)
  have b: "adds s (swrite (writeNumber s (Some (int (length b)))) (JBuf b)) (field b)" if "length b < 65536" for b
    unfolding field_def by (rule adds_trans [OF adds_num [OF that] adds_buf])
  show ?thesis
    using assms z b adds_string by (cases v) (auto simp: writeStringOrBuffer_def)
qed

lemma adds_foldl:
  "(\<And>s x. x \<in> set xs \<Longrightarrow> adds s (f s x) (g x)) \<Longrightarrow> adds s (foldl f s xs) (concat (map g xs))"
proof (induction xs arbitrary: s)
  case (Cons x xs)
  then show ?case by (auto intro!: adds_trans)
qed (simp add: adds_refl)

lemma generate_adds:
  assumes "writeToStream k new_Accumulator = Inr (r, s)" "adds new_Accumulator s b"
  shows "generate k = Inr b"
proof -
  obtain cs where c: "s = new_Accumulator\<lparr>sw_out := sw_out new_Accumulator @ cs\<rparr>" "writes cs b"
    using assms(2) by (auto simp: adds_def)
  then have "Accumulator_concat cs = Inr b" by (auto simp: writes_def dest: spec [of _ "[]"])
  then show ?thesis using assms(1) c(1) by (simp add: generate_def new_Accumulator_def)
qed

text \<open>Header and length field together.\<close>

lemma adds_header:
  assumes "adds s s1 [h]" "adds (writeLength s1 (int (length b))) s2 b"
  shows "adds s s2 (h # genBufLength (length b) @ b)"
  by (rule adds_then [OF adds_then [OF assms(1) adds_length] assms(2)]) simp_all

lemma new_Accumulator_no_cork [simp]: "has_cork new_Accumulator = False"
  by (simp add: new_Accumulator_def)

section \<open>The small packets\<close>

lemma write_empty:
  assumes "p_cmd k \<in> {Pingreq, Pingresp, Disconnect}"
  shows "generate k = Inr (frame_bytes (wire_frame k))"
proof -
  have g: "genBufLength 0 = [0]" by (simp add: genBufLength_varint varint_small)
  have "head_of k = of_nat (push_bit 4 (codes (p_cmd k)))"
    using assms by (auto simp: head_of_def header_byte_def head_qos_def head_dup_def head_retain_def flag_def CMD_SHIFT_def)
  then have "frame_bytes (wire_frame k) = [of_nat (push_bit 4 (codes (p_cmd k))), 0]"
    using assms by (auto simp: frame_bytes_def wire_frame_def body_of_def g)
  moreover have "EMPTY (p_cmd k) = Some [of_nat (push_bit 4 (codes (p_cmd k))), 0]"
    using assms by (simp add: EMPTY_def)
  moreover have "writeToStream k new_Accumulator = emptyPacket k new_Accumulator"
    using assms by (auto simp: writeToStream_def Let_def)
  ultimately show ?thesis
    by (intro generate_adds) (auto simp: emptyPacket_def Let_def of_buffer_def intro: adds_buf)
qed

lemma number_key_id: "is_u16 v \<Longrightarrow> number_key v = Some (int (message_id v)) \<and> message_id v < 65536 \<and> is_number v"
  by (cases v) (auto simp: is_u16_def message_id_def)

lemma single_header_head:
  assumes "head_qos k = 0" "\<not> head_dup k" "\<not> head_retain k"
  shows "single_header (p_cmd k) = [head_of k]"
  using assms by (simp add: single_header_def head_of_def header_byte_def flag_def)

lemma byte_255: "0 \<le> n \<Longrightarrow> n < 256 \<Longrightarrow> word_of_int (n AND 255) = (of_nat (nat n) :: byte)"
  by (simp add: int_and_FF)

lemma write_connack:
  assumes "p_cmd k = Connack" "granted_ok (p_returnCode k)"
  shows "generate k = Inr (frame_bytes (wire_frame k))"
proof -
  obtain n where n: "p_returnCode k = JNum n" "0 \<le> n" "n < 256"
    using assms(2) by (auto simp: granted_ok_def split: jsval.splits)
  let ?b = "body_of k"
  have b: "?b = (if truthy (p_sessionPresent k) then SESSIONPRESENT_HEADER else [0]) @ [word_of_int (n AND 255)]"
    using assms(1) n by (simp add: body_of_def flag_def SESSIONPRESENT_HEADER_def SESSIONPRESENT_MASK_def message_id_def byte_255)
  have h: "CONNACK_HEADER = [head_of k]"
    using single_header_head [of k] assms(1) by (simp add: CONNACK_HEADER_def head_qos_def head_dup_def head_retain_def)
  have l: "length ?b = 2" using assms(1) by (simp add: body_of_def)
  let ?s1 = "swrite new_Accumulator (JBuf CONNACK_HEADER)"
  let ?s3 = "swrite (swrite (writeLength ?s1 2) (JBuf (if truthy (p_sessionPresent k) then SESSIONPRESENT_HEADER else [0])))
    (JBuf [word_of_int (n AND 255)])"
  have "writeToStream k new_Accumulator = Inr (sw_ok ?s3, ?s3)"
    using assms(1) n by (simp add: writeToStream_def connack_def Let_def)
  moreover have "adds new_Accumulator ?s3 (head_of k # genBufLength (length ?b) @ ?b)"
  proof (rule adds_header)
    show "adds new_Accumulator ?s1 [head_of k]" unfolding h by (rule adds_buf)
    show "adds (writeLength ?s1 (int (length ?b))) ?s3 ?b"
      unfolding l of_nat_numeral by (rule adds_then [OF adds_buf adds_buf b])
  qed
  ultimately show ?thesis
    by (intro generate_adds) (auto simp: frame_bytes_def wire_frame_def)
qed

lemma write_confirmation:
  assumes "p_cmd k \<in> {Puback, Pubrec, Pubrel, Pubcomp, Unsuback}" "wf_packet k"
  shows "generate k = Inr (frame_bytes (wire_frame k))"
proof -
  have m: "is_u16 (p_messageId k)" using assms by (auto simp: wf_packet_def)
  note m = number_key_id [OF this]
  let ?q = "if p_cmd k = Pubrel then 1 else 0 :: nat"
  have b: "body_of k = u16 (message_id (p_messageId k))" using assms(1) by (auto simp: body_of_def)
  have hd: "genHeader (p_cmd k) ! ?q ! 0 ! 0 = [head_of k]"
    using assms by (subst genHeader_nth) (auto simp: head_of_def head_qos_def head_dup_def head_retain_def flag_def)
  let ?s1 = "swrite new_Accumulator (JBuf [head_of k])"
  let ?s2 = "writeNumber (writeLength ?s1 2) (Some (int (message_id (p_messageId k))))"
  have idx: "index_table (genHeader (p_cmd k)) (int ?q) = Inr (genHeader (p_cmd k) ! ?q)"
    "index_table (genHeader (p_cmd k) ! ?q) 0 = Inr (genHeader (p_cmd k) ! ?q ! 0)"
    by (simp_all add: index_table_def genHeader_def)
  have "writeToStream k new_Accumulator = confirmation k new_Accumulator"
    using assms(1) by (auto simp: writeToStream_def Let_def)
  also have "\<dots> = Inr (sw_ok ?s2, ?s2)"
    using assms m idx hd
    by (auto simp: confirmation_def Let_def ACKS_def wf_packet_def)
  finally have "writeToStream k new_Accumulator = Inr (sw_ok ?s2, ?s2)" .
  moreover have "adds new_Accumulator ?s2 (head_of k # genBufLength (length (body_of k)) @ body_of k)"
  proof (rule adds_header)
    show "adds new_Accumulator ?s1 [head_of k]" by (rule adds_buf)
    show "adds (writeLength ?s1 (int (length (body_of k)))) ?s2 (body_of k)"
      unfolding b length_u16 of_nat_numeral using m by (intro adds_num) simp
  qed
  ultimately show ?thesis
    by (intro generate_adds) (auto simp: frame_bytes_def wire_frame_def)
qed

section \<open>PUBLISH\<close>

lemma head_cell:
  assumes "q < 3"
  shows "genHeader c ! q ! (if d then 1 else 0) ! (if r then 1 else 0) = [header_byte c q (flag d 1) (flag r 1)]"
  using genHeader_nth [OF assms flag_less [of d] flag_less [of r], of c] by (auto simp: flag_def split: if_splits)

lemma publish_ok_dest:
  assumes "publish_ok k"
  obtains q where "eff_qos k = JNum (int q)" "q < 3" "q > 0 \<longrightarrow> is_u16 (p_messageId k)"
proof -
  obtain n where "eff_qos k = JNum n" "0 \<le> n" "n < 3" "n \<noteq> 0 \<longrightarrow> is_u16 (p_messageId k)"
    using assms by (auto simp: publish_ok_def split: jsval.splits)
  then show thesis by (intro that [of "nat n"]) auto
qed

lemma topic_chunk:
  assumes "publish_ok k"
  shows "topic_length (p_topic k) = Inr (int (length (content (p_topic k))) + 2)"
    "byteLength_v (p_topic k) = int (length (content (p_topic k)))"
    "adds s (swrite s (p_topic k)) (content (p_topic k))"
proof -
  have t: "(\<exists>t. p_topic k = JStr t \<and> t \<noteq> []) \<or> (\<exists>b. p_topic k = JBuf b)"
    using assms by (auto simp: publish_ok_def split: jsval.splits)
  then show "topic_length (p_topic k) = Inr (int (length (content (p_topic k))) + 2)"
    by (auto simp: topic_length_def)
  show "byteLength_v (p_topic k) = int (length (content (p_topic k)))"
    using t by (auto simp: byteLength_v_def)
  show "adds s (swrite s (p_topic k)) (content (p_topic k))"
    using t by (auto intro: adds_buf adds_str)
qed

lemma payload_chunk:
  assumes "publish_ok k"
  shows "Buffer_byteLength (js_or (p_payload k) (JBuf [])) = int (length (content (p_payload k)))"
    "adds s (swrite s (js_or (p_payload k) (JBuf []))) (content (p_payload k))"
proof -
  have "truthy (p_payload k) \<longrightarrow> is_string (p_payload k) \<or> is_buffer (p_payload k)"
    using assms by (simp add: publish_ok_def)
  then show "Buffer_byteLength (js_or (p_payload k) (JBuf [])) = int (length (content (p_payload k)))"
    "adds s (swrite s (js_or (p_payload k) (JBuf []))) (content (p_payload k))"
    by (cases "p_payload k"; auto simp: js_or_def intro: adds_buf adds_str)+
qed

lemma write_publish:
  assumes "p_cmd k = Publish" "publish_ok k"
  shows "generate k = Inr (frame_bytes (wire_frame k))"
  using assms(2)
proof (rule publish_ok_dest)
  fix q assume q: "eff_qos k = JNum (int q)" "q < 3" "q > 0 \<longrightarrow> is_u16 (p_messageId k)"
  let ?b = "body_of k" let ?id = "message_id (p_messageId k)" let ?t = "content (p_topic k)"
  have b: "?b = u16 (length ?t) @ ?t @ (if 0 < q then u16 ?id else []) @ content (p_payload k)"
    using assms(1) q(1) by (simp add: body_of_def publish_body_def field_def)
  have h: "publish_header (eff_qos k) (truthy (p_dup k)) (truthy (p_retain k)) = Inr (JBuf [head_of k])"
    using assms(1) q(1,2) head_cell [OF q(2), of Publish "truthy (p_dup k)" "truthy (p_retain k)"]
    by (simp add: publish_header_def PUBLISH_HEADER_def genHeader_index head_of_def head_qos_def head_dup_def
        head_retain_def message_id_def)
  have tl: "length ?t < 65536" using assms(2) by (simp add: publish_ok_def)
  let ?s0 = "swrite new_Accumulator (JBuf [head_of k])"
  let ?s1 = "writeLength ?s0 (int (length ?b))"
  let ?s2 = "swrite (writeNumber ?s1 (Some (int (length ?t)))) (p_topic k)"
  let ?s3 = "if 0 < q then writeNumber ?s2 (number_key (p_messageId k)) else ?s2"
  let ?s4 = "swrite ?s3 (js_or (p_payload k) (JBuf []))"
  have len: "int (length ?t) + 2 + int (length (content (p_payload k))) + (if 0 < q then 2 else 0) = int (length ?b)"
    unfolding b by simp
  have "publish k new_Accumulator = Inr (sw_ok ?s4, ?s4)"
  proof (cases "q = 0")
    case True
    then show ?thesis
      using h q len by (simp add: publish_def Let_def eff_qos_def topic_chunk [OF assms(2)] payload_chunk(1) [OF assms(2)] positive_def)
  next
    case False
    then show ?thesis
      using h q len number_key_id [of "p_messageId k"]
      by (simp add: publish_def Let_def eff_qos_def topic_chunk [OF assms(2)] payload_chunk(1) [OF assms(2)] positive_def
          algebra_simps)
  qed
  then have "writeToStream k new_Accumulator = Inr (sw_ok ?s4, ?s4)"
    using assms(1) by (simp add: writeToStream_def)
  moreover have "adds new_Accumulator ?s4 (head_of k # genBufLength (length ?b) @ ?b)"
  proof (rule adds_header [OF adds_buf])
    have "adds ?s2 ?s3 (if 0 < q then u16 ?id else [])"
      using q(3) number_key_id [of "p_messageId k"] adds_num [of ?id] by (auto intro: adds_refl)
    then show "adds ?s1 ?s4 ?b"
      unfolding b by (intro adds_then [OF adds_then [OF adds_then [OF adds_num [OF tl] topic_chunk(3) [OF assms(2)] refl]
            _ refl] payload_chunk(2) [OF assms(2)]]) simp_all
  qed
  ultimately show ?thesis
    by (intro generate_adds) (auto simp: frame_bytes_def wire_frame_def)
qed

section \<open>SUBSCRIBE, SUBACK, UNSUBSCRIBE\<close>

lemma sub_ok_dest:
  assumes "sub_ok x"
  obtains t n where "sub_topic x = JStr t" "t \<noteq> []" "length (utf8 t) < 65536" "sub_qos x = JNum (int n)" "n < 3"
proof -
  obtain t m where "sub_topic x = JStr t" "t \<noteq> []" "good_string t" "sub_qos x = JNum m" "0 \<le> m" "m < 3"
    using assms by (auto simp: sub_ok_def split: jsval.splits)
  then show thesis by (intro that [of t "nat m"]) (auto simp: good_string_def)
qed

lemma subs_length_eq:
  "list_all sub_ok xs \<Longrightarrow> subs_length xs = Inr (int (length (concat (map sub_body xs))))"
  by (induction xs) (auto simp: sub_body_def elim!: sub_ok_dest)

lemma adds_sub: "sub_ok x \<Longrightarrow> adds s (write_sub s x) (sub_body x)"
proof (elim sub_ok_dest)
  fix t n assume x: "sub_topic x = JStr t" "t \<noteq> []" "length (utf8 t) < 65536" "sub_qos x = JNum (int n)" "n < 3"
  have "of_buffer (Option.bind (number_key (sub_qos x)) QOS) = JBuf [of_nat n]"
    using x(4,5) by (simp add: QOS_def of_buffer_def)
  then show ?thesis
    using x adds_trans [OF adds_string [OF x(2,3)] adds_buf]
    by (simp add: write_sub_def sub_body_def message_id_def)
qed

lemma head_list:
  assumes "p_cmd k = Subscribe \<or> p_cmd k = Unsubscribe"
  shows "genHeader (p_cmd k) ! 1 ! (if truthy (p_dup k) then 1 else 0) ! 0 = [head_of k]"
  using head_cell [of 1 "p_cmd k" "truthy (p_dup k)" False] assms
  by (auto simp: head_of_def head_qos_def head_dup_def head_retain_def)

lemma write_subscribe:
  assumes "p_cmd k = Subscribe" "wf_packet k"
  shows "generate k = Inr (frame_bytes (wire_frame k))"
proof -
  obtain xs where xs: "p_subscriptions k = Some xs" "xs \<noteq> []" "list_all sub_ok xs" "is_u16 (p_messageId k)"
    using assms by (auto simp: wf_packet_def split: option.splits)
  note m = number_key_id [OF xs(4)]
  let ?b = "body_of k"
  have b: "?b = u16 (message_id (p_messageId k)) @ concat (map sub_body xs)"
    using assms(1) xs(1) by (simp add: body_of_def)
  have len: "2 + int (length (concat (map sub_body xs))) = int (length ?b)" unfolding b by simp
  let ?s1 = "writeLength (swrite new_Accumulator (JBuf [head_of k])) (int (length ?b))"
  let ?s3 = "foldl write_sub (writeNumber ?s1 (Some (int (message_id (p_messageId k))))) xs"
  have "writeToStream k new_Accumulator = Inr (sw_ok ?s3, ?s3)"
    using assms(1) xs m len head_list [of k] subs_length_eq [OF xs(3)]
    by (simp add: writeToStream_def subscribe_def Let_def SUBSCRIBE_HEADER_def)
  moreover have "adds new_Accumulator ?s3 (head_of k # genBufLength (length ?b) @ ?b)"
  proof (rule adds_header [OF adds_buf])
    have "adds s (foldl write_sub s xs) (concat (map sub_body xs))" for s
      using xs(3) by (intro adds_foldl adds_sub) (simp add: list_all_iff)
    then show "adds ?s1 ?s3 ?b" using m by (intro adds_then [OF adds_num _ b]) simp_all
  qed
  ultimately show ?thesis
    by (intro generate_adds) (auto simp: frame_bytes_def wire_frame_def)
qed

lemma unsub_ok_dest:
  assumes "unsub_ok v"
  obtains t where "v = JStr t" "t \<noteq> []" "length (utf8 t) < 65536"
  using assms by (auto simp: unsub_ok_def good_string_def split: jsval.splits)

lemma unsubs_length_eq:
  "list_all unsub_ok xs \<Longrightarrow> unsubs_length xs = Inr (int (length (concat (map (\<lambda>v. field (content v)) xs))))"
  by (induction xs) (auto elim!: unsub_ok_dest)

lemma write_unsubscribe:
  assumes "p_cmd k = Unsubscribe" "wf_packet k"
  shows "generate k = Inr (frame_bytes (wire_frame k))"
proof -
  obtain xs where xs: "p_unsubscriptions k = Some xs" "xs \<noteq> []" "list_all unsub_ok xs" "is_u16 (p_messageId k)"
    using assms by (auto simp: wf_packet_def split: option.splits)
  note m = number_key_id [OF xs(4)]
  let ?b = "body_of k" let ?w = "\<lambda>st x. writeString st (case x of JStr t \<Rightarrow> t | _ \<Rightarrow> [])"
  have b: "?b = u16 (message_id (p_messageId k)) @ concat (map (\<lambda>v. field (content v)) xs)"
    using assms(1) xs(1) by (simp add: body_of_def)
  have len: "2 + int (length (concat (map (\<lambda>v. field (content v)) xs))) = int (length ?b)" unfolding b by simp
  let ?s1 = "writeLength (swrite new_Accumulator (JBuf [head_of k])) (int (length ?b))"
  let ?s3 = "foldl ?w (writeNumber ?s1 (Some (int (message_id (p_messageId k))))) xs"
  have "writeToStream k new_Accumulator = Inr (False, ?s3)"
    using assms(1) xs m len head_list [of k] unsubs_length_eq [OF xs(3)]
    by (simp add: writeToStream_def unsubscribe_def Let_def UNSUBSCRIBE_HEADER_def)
  moreover have "adds new_Accumulator ?s3 (head_of k # genBufLength (length ?b) @ ?b)"
  proof (rule adds_header [OF adds_buf])
    have "adds s (?w s x) (field (content x))" if "unsub_ok x" for s x
      using that by (elim unsub_ok_dest) (simp add: adds_string)
    then have "adds s (foldl ?w s xs) (concat (map (\<lambda>v. field (content v)) xs))" for s
      using xs(3) by (intro adds_foldl) (simp add: list_all_iff)
    then show "adds ?s1 ?s3 ?b" using m by (intro adds_then [OF adds_num _ b]) simp_all
  qed
  ultimately show ?thesis
    by (intro generate_adds) (auto simp: frame_bytes_def wire_frame_def)
qed

lemma write_suback:
  assumes "p_cmd k = Suback" "wf_packet k"
  shows "generate k = Inr (frame_bytes (wire_frame k))"
proof -
  obtain xs where xs: "p_granted k = Some xs" "xs \<noteq> []" "list_all granted_ok xs" "is_u16 (p_messageId k)"
    using assms by (auto simp: wf_packet_def split: option.splits)
  note m = number_key_id [OF xs(4)]
  let ?b = "body_of k"
  have g1: "word_of_int (js_number v AND 255) = (of_nat (message_id v) :: byte) \<and> is_number v" if "granted_ok v" for v
    using that by (cases v) (auto simp: granted_ok_def message_id_def byte_255)
  have g: "map (\<lambda>v. word_of_int (js_number v AND 255)) xs = (map (\<lambda>v. of_nat (message_id v)) xs :: buffer)"
    "list_all is_number xs"
    using xs(3) g1 by (auto simp: list_all_iff)
  have b: "?b = u16 (message_id (p_messageId k)) @ map (\<lambda>v. of_nat (message_id v)) xs"
    using assms(1) xs(1) by (simp add: body_of_def)
  have len: "2 + int (length xs) = int (length ?b)" unfolding b by simp
  have h: "SUBACK_HEADER = [head_of k]"
    using single_header_head [of k] assms(1) by (simp add: SUBACK_HEADER_def head_qos_def head_dup_def head_retain_def)
  let ?s1 = "writeLength (swrite new_Accumulator (JBuf [head_of k])) (int (length ?b))"
  let ?s3 = "swrite (writeNumber ?s1 (Some (int (message_id (p_messageId k))))) (JBuf (map (\<lambda>v. of_nat (message_id v)) xs))"
  have "writeToStream k new_Accumulator = Inr (sw_ok ?s3, ?s3)"
    unfolding writeToStream_def suback_def Let_def
    using assms(1) xs m len h g(2) by (simp add: g(1) del: map_eq_conv)
  moreover have "adds new_Accumulator ?s3 (head_of k # genBufLength (length ?b) @ ?b)"
    by (rule adds_header [OF adds_buf adds_then [OF adds_num adds_buf b]]) (use m in simp)
  ultimately show ?thesis
    by (intro generate_adds) (auto simp: frame_bytes_def wire_frame_def)
qed

section \<open>CONNECT\<close>

lemma or_flags:
  assumes "q < 4"
  shows "(if a then 128 else 0) OR (if b then 64 else 0) OR (if r then 32 else 0)
      OR push_bit 3 (int q) OR 4 OR (if c then 2 else 0)
    = int (flag a 128 + flag b 64 + (flag r 32 + 8 * q + 4) + flag c 2)"
proof -
  have o: "b < 2 ^ n \<Longrightarrow> int (2 ^ n * a) OR int b = int (2 ^ n * a + b)" for n a b
    using nat_or_add [of b n a] by (metis of_nat_or_eq)
  have f32: "(if r then 32 else (0::int)) = int (2 ^ 5 * flag r 1)" and f64: "(if b then 64 else (0::int)) = int (2 ^ 6 * flag b 1)"
    and f128: "(if a then 128 else (0::int)) = int (2 ^ 7 * flag a 1)"
    by (simp_all add: flag_def)
  have c2: "(if c then 2 else (0::int)) = int (2 ^ 1 * flag c 1)" by (simp add: flag_def)
  have c4: "4 OR int (2 ^ 1 * flag c 1) = int (2 ^ 2 * 1 + 2 ^ 1 * flag c 1)"
    using o [of "2 ^ 1 * flag c 1" 2 1] by (simp add: flag_def)
  have c8: "push_bit 3 (int q) OR int (2 ^ 2 * 1 + 2 ^ 1 * flag c 1) = int (2 ^ 3 * q + (2 ^ 2 * 1 + 2 ^ 1 * flag c 1))"
    using o [of "2 ^ 2 * 1 + 2 ^ 1 * flag c 1" 3 q] by (simp add: flag_def push_bit_eq_mult mult.commute)
  let ?x = "2 ^ 3 * q + (2 ^ 2 * 1 + 2 ^ 1 * flag c 1)"
  have x: "?x < 2 ^ 5" using assms by (simp add: flag_def)
  have c32: "(if r then 32 else 0) OR int ?x = int (2 ^ 5 * flag r 1 + ?x)"
    unfolding f32 by (rule o [OF x])
  have y: "2 ^ 5 * flag r 1 + ?x < 2 ^ 6" using x by (simp add: flag_def)
  have c64: "(if b then 64 else 0) OR int (2 ^ 5 * flag r 1 + ?x) = int (2 ^ 6 * flag b 1 + (2 ^ 5 * flag r 1 + ?x))"
    unfolding f64 by (rule o [OF y])
  have z: "2 ^ 6 * flag b 1 + (2 ^ 5 * flag r 1 + ?x) < 2 ^ 7" using y by (simp add: flag_def)
  have c128: "(if a then 128 else 0) OR int (2 ^ 6 * flag b 1 + (2 ^ 5 * flag r 1 + ?x))
      = int (2 ^ 7 * flag a 1 + (2 ^ 6 * flag b 1 + (2 ^ 5 * flag r 1 + ?x)))"
    unfolding f128 by (rule o [OF z])
  show ?thesis
    unfolding c2 c4 c8 c32 c64 c128 by (simp add: flag_def)
qed

lemma or_flags_no_will:
  "(if a then 128 else 0) OR (if b then 64 else 0) OR 0 OR 0 OR 0 OR (if c then 2 else (0::int))
    = int (flag a 128 + flag b 64 + flag c 2)"
  by (cases a; cases b; cases c) (auto simp: flag_def)

lemma int_masks:
  "int USERNAME_MASK = 128" "int PASSWORD_MASK = 64" "int WILL_RETAIN_MASK = 32" "int WILL_FLAG_MASK = 4"
  "int CLEAN_SESSION_MASK = 2"
  by (simp_all add: USERNAME_MASK_def PASSWORD_MASK_def WILL_RETAIN_MASK_def WILL_FLAG_MASK_def CLEAN_SESSION_MASK_def)

lemma connect_flags_eq:
  assumes "connect_ok k"
  shows "connect_flags (p_username k) (p_password k) (p_will k) (if p_clean k = JUndef then JBool True else p_clean k)
    = int (flags_of k)"
proof -
  have w: "will_ok (p_will k)" using assms by (simp add: connect_ok_def)
  have c: "truthy (if p_clean k = JUndef then JBool True else p_clean k) = eff_clean k" by (simp add: eff_clean_def)
  show ?thesis
  proof (cases "p_will k")
    case (WillObj x)
    have q: "(if truthy (w_qos x) then push_bit WILL_QOS_SHIFT (js_number (w_qos x)) else 0) = push_bit 3 (int (will_qos x))"
      using w WillObj by (auto simp: will_ok_def will_qos_def message_id_def WILL_QOS_SHIFT_def split: jsval.splits)
    have "will_qos x < 4" using will_qos_less [of x] w WillObj by simp
    then show ?thesis
      unfolding connect_flags_def flags_of_def WillObj will_val.case c q int_masks by (rule or_flags)
  next
    case NoWill
    then show ?thesis
      using or_flags_no_will [of "truthy (p_username k)" "truthy (p_password k)" "eff_clean k"] c
      by (simp add: connect_flags_def flags_of_def int_masks flag_def)
  next
    case WillOther
    then show ?thesis using w by (simp add: will_ok_def)
  qed
qed

lemma will_length_eq:
  assumes "will_ok v"
  shows "will_length v = Inr (int (length (case v of
     WillObj w \<Rightarrow> field (content (w_topic w)) @ field (content (w_payload w)) | _ \<Rightarrow> [])))"
proof (cases v)
  case (WillObj w)
  then obtain t where "w_topic w = JStr t" "t \<noteq> []"
    using assms by (auto simp: will_ok_def split: jsval.splits)
  moreover have "truthy (w_payload w) \<longrightarrow> is_string (w_payload w) \<or> is_buffer (w_payload w)"
    using assms WillObj by (simp add: will_ok_def)
  ultimately show ?thesis
    using WillObj by (cases "w_payload w") (auto simp: will_length_def Let_def)
next
  case NoWill
  then show ?thesis by (simp add: will_length_def)
next
  case WillOther
  then show ?thesis using assms by (simp add: will_ok_def)
qed

lemma credential_ok:
  assumes "truthy v \<longrightarrow> (case v of JStr u \<Rightarrow> length (utf8 u) < 65536 | JBuf b \<Rightarrow> b \<noteq> [] \<and> length b < 65536 | _ \<Rightarrow> False)"
  shows "credential_length e v = Inr (int (length (opt_field v)))"
    "adds s (if truthy v then writeStringOrBuffer s v else s) (opt_field v)"
proof -
  show "credential_length e v = Inr (int (length (opt_field v)))"
    using assms by (cases v) (auto simp: credential_length_def opt_field_def)
  show "adds s (if truthy v then writeStringOrBuffer s v else s) (opt_field v)"
  proof (cases "truthy v")
    case True
    then have "adds s (writeStringOrBuffer s v) (field (content v))"
      using assms by (intro adds_stringOrBuffer) (auto split: jsval.splits)
    with True show ?thesis by (simp add: opt_field_def)
  next
    case False
    then show ?thesis by (simp add: opt_field_def adds_refl)
  qed
qed

lemma adds_will:
  assumes "will_ok v"
  shows "adds s (write_will s v) (case v of
     WillObj w \<Rightarrow> field (content (w_topic w)) @ field (content (w_payload w)) | _ \<Rightarrow> [])"
proof (cases v)
  case (WillObj w)
  then obtain t where t: "w_topic w = JStr t" "t \<noteq> []" "length (utf8 t) < 65536"
    using assms by (auto simp: will_ok_def good_string_def split: jsval.splits)
  have "truthy (w_payload w) \<longrightarrow> is_string (w_payload w) \<or> is_buffer (w_payload w)" "length (content (w_payload w)) < 65536"
    using assms WillObj by (simp_all add: will_ok_def)
  from adds_trans [OF adds_string [OF t(2,3)] adds_stringOrBuffer [OF this]] show ?thesis
    using WillObj t by (simp add: write_will_def)
qed (simp_all add: write_will_def adds_refl)

lemma connect_length_eq:
  assumes "connect_ok k"
  shows "connect_length (eff_protocolId k) (eff_version k) (eff_clientId k)
      (if p_clean k = JUndef then JBool True else p_clean k) (eff_keepalive k) (p_will k) (p_username k) (p_password k)
    = Inr (int (length (connect_body k)))"
  using assms
proof (rule connect_ok_dest)
  fix pid c n
  assume f: "eff_protocolId k = JStr pid" "pid = js ''MQTT'' \<or> pid = js ''MQIsdp''"
    "eff_version k = JNum 3 \<or> eff_version k = JNum 4" "eff_keepalive k = JNum (int n)" "n < 65536"
    "eff_clientId k = JStr c" "ascii c" "length c < 65536"
  have "ascii pid" using f(2) by (auto simp: ascii_def js_def)
  then have l: "length (utf8 pid) = length pid" "length (utf8 c) = length c" using f by (simp_all add: length_utf8_ascii)
  have cl: "c \<noteq> [] \<or> eff_version k = JNum 4 \<and> eff_clean k" using assms f(6) by (simp add: connect_ok_def)
  have idl: "connect_id_length (JStr c) (eff_version k) (if p_clean k = JUndef then JBool True else p_clean k)
      = Inr (int (length c) + 2)"
    using cl by (auto simp: connect_id_length_def eff_clean_def)
  have w: "will_ok (p_will k)" using assms by (simp add: connect_ok_def)
  have u: "credential_length e (p_username k) = Inr (int (length (opt_field (p_username k))))" for e
    using assms by (intro credential_ok) (auto simp: connect_ok_def good_string_def split: jsval.splits)
  have p: "credential_length e (p_password k) = Inr (int (length (opt_field (p_password k))))" for e
    using assms by (intro credential_ok) (auto simp: connect_ok_def)
  show ?thesis
    using f(3) unfolding connect_length_def f(1,4,6) idl will_length_eq [OF w] u p rbind_simps connect_body_def
    using f(5) l by (auto simp: keepalive_ok_def)
qed

lemma write_connect:
  assumes "p_cmd k = Connect" "connect_ok k"
  shows "generate k = Inr (frame_bytes (wire_frame k))"
  using assms(2)
proof (rule connect_ok_dest)
  fix pid c n
  assume f: "eff_protocolId k = JStr pid" "pid = js ''MQTT'' \<or> pid = js ''MQIsdp''"
    "eff_version k = JNum 3 \<or> eff_version k = JNum 4" "eff_keepalive k = JNum (int n)" "n < 65536"
    "eff_clientId k = JStr c" "ascii c" "length c < 65536"
  have "ascii pid" "length pid < 65536" using f(2) by (auto simp: ascii_def js_def)
  then have l: "length (utf8 pid) < 65536" "length (utf8 c) < 65536" using f by (simp_all add: length_utf8_ascii)
  let ?b = "body_of k"
  let ?wl = "case p_will k of WillObj w \<Rightarrow> field (content (w_topic w)) @ field (content (w_payload w)) | _ \<Rightarrow> []"
  let ?s1 = "writeLength (swrite new_Accumulator (JBuf [head_of k])) (int (length ?b))"
  let ?s2 = "swrite (writeStringOrBuffer ?s1 (JStr pid)) (JBuf [of_nat (message_id (eff_version k))])"
  let ?s3 = "swrite ?s2 (JBuf [of_nat (flags_of k)])"
  let ?s4 = "writeStringOrBuffer (writeNumber ?s3 (Some (int n))) (JStr c)"
  let ?s5 = "write_will ?s4 (p_will k)"
  let ?s6 = "if truthy (p_username k) then writeStringOrBuffer ?s5 (p_username k) else ?s5"
  let ?s7 = "if truthy (p_password k) then writeStringOrBuffer ?s6 (p_password k) else ?s6"
  have b: "?b = ((((((field (utf8 pid) @ [of_nat (message_id (eff_version k))]) @ [of_nat (flags_of k)])
      @ u16 n) @ field (utf8 c)) @ ?wl) @ opt_field (p_username k)) @ opt_field (p_password k)"
    using assms(1) f by (simp add: body_of_def connect_body_def message_id_def)
  have h: "CONNECT_HEADER = [head_of k]"
    using single_header_head [of k] assms(1) by (simp add: CONNECT_HEADER_def head_qos_def head_dup_def head_retain_def)
  have ver: "(if eff_version k = JNum 4 then VERSION4 else VERSION3) = [of_nat (message_id (eff_version k))]"
    using f(3) by (auto simp: VERSION4_def VERSION3_def message_id_def)
  have fl: "[word_of_int (connect_flags (p_username k) (p_password k) (p_will k)
      (if p_clean k = JUndef then JBool True else p_clean k) AND 255)] = [of_nat (flags_of k) :: byte]"
    unfolding connect_flags_eq [OF assms(2)] using connect_flag_bits(1) [OF assms(2)] by (subst byte_255) simp_all
  have cb: "connect_body k = ?b" using assms(1) by (simp add: body_of_def)
  have "connect k new_Accumulator = Inr (True, ?s7)"
    unfolding connect_def Let_def eff_protocolId_def [symmetric] eff_version_def [symmetric]
      eff_keepalive_def [symmetric] eff_clientId_def [symmetric] connect_length_eq [OF assms(2)] sum.case fl ver h cb
    unfolding f(1,4,6) number_key.simps ..
  then have "writeToStream k new_Accumulator = Inr (True, ?s7)"
    using assms(1) by (simp add: writeToStream_def)
  moreover have "adds new_Accumulator ?s7 (head_of k # genBufLength (length ?b) @ ?b)"
  proof (rule adds_header [OF adds_buf])
    have w: "will_ok (p_will k)" using assms(2) by (simp add: connect_ok_def)
    have u: "adds s (if truthy (p_username k) then writeStringOrBuffer s (p_username k) else s) (opt_field (p_username k))" for s
      using assms(2) by (intro credential_ok) (auto simp: connect_ok_def good_string_def split: jsval.splits)
    have p: "adds s (if truthy (p_password k) then writeStringOrBuffer s (p_password k) else s) (opt_field (p_password k))" for s
      using assms(2) by (intro credential_ok) (auto simp: connect_ok_def)
    have pd: "adds ?s1 (writeStringOrBuffer ?s1 (JStr pid)) (field (utf8 pid))"
      using adds_stringOrBuffer [of "JStr pid" ?s1] l by simp
    have cl: "adds s (writeStringOrBuffer s (JStr c)) (field (utf8 c))" for s
      using adds_stringOrBuffer [of "JStr c" s] l by simp
    show "adds ?s1 ?s7 ?b"
      by (rule adds_then [OF adds_trans [OF adds_trans [OF adds_trans [OF adds_trans [OF adds_trans [OF
         adds_trans [OF pd adds_buf] adds_buf] adds_num [OF f(5)]] cl] adds_will [OF w]] u] p b])
  qed
  ultimately show ?thesis
    by (intro generate_adds) (auto simp: frame_bytes_def wire_frame_def)
qed

section \<open>Every well-formed packet\<close>

lemma generate_wire:
  assumes "wf_packet k"
  shows "generate k = Inr (frame_bytes (wire_frame k))"
proof -
  from wf_packet_known [OF assms] consider
      "p_cmd k = Connect" | "p_cmd k = Connack" | "p_cmd k = Publish"
    | "p_cmd k \<in> {Puback, Pubrec, Pubrel, Pubcomp, Unsuback}"
    | "p_cmd k = Subscribe" | "p_cmd k = Suback" | "p_cmd k = Unsubscribe"
    | "p_cmd k \<in> {Pingreq, Pingresp, Disconnect}"
    by auto
  then show ?thesis
    using assms by cases (simp_all add: write_connect write_connack write_publish write_confirmation write_subscribe
        write_suback write_unsubscribe write_empty wf_packet_def)
qed

end
