(* ===== verification/Packet_Codec.thy ===== *)
theory Packet_Codec
  imports Codec_Write
begin

text \<open>
  The properties of the codec as a whole: generator and parser are inverse to each other over every
  stream of packets and every division of it into chunks; a packet the generator rejects leaves
  nothing on the wire; what the tables do to a retransmitted PUBREL.
\<close>

section \<open>Round trip over streams\<close>

text \<open>
  \<^bold>\<open>C1.\<close> Encode, cut, parse. For every list of well-formed packets the generator produces bytes for each
  of them, and whatever the chunks in which the concatenated bytes reach a new parser (empty chunks,
  a byte at a time, several packets in one chunk), the parser emits exactly one \<^verbatim>\<open>packet\<close> event per
  packet, in order, with the fields of the packet sent and the defaults of the protocol filled in, no
  error, and ends between two packets with no byte left.
\<close>

theorem stream_roundtrip:
  assumes "list_all wf_packet ks"
  shows "\<exists>bss. map generate ks = map Inr bss \<and>
    (\<forall>chunks. concat chunks = concat bss \<longrightarrow> int (length (concat bss)) < K_MAX_LENGTH \<longrightarrow>
      (\<exists>q. feed new_Parser chunks = Some (Inr q) \<and> ready q \<and> ps_events q = map (\<lambda>k. EvPacket (decoded k)) ks))"
proof (rule exI [of _ "map (\<lambda>k. frame_bytes (wire_frame k)) ks"], intro conjI allI impI)
  let ?bss = "map (\<lambda>k. frame_bytes (wire_frame k)) ks"
  show "map generate ks = map Inr ?bss"
    using assms by (simp add: generate_wire list_all_iff)
  fix chunks assume c: "concat chunks = concat ?bss" "int (length (concat ?bss)) < K_MAX_LENGTH"
  have "\<forall>f \<in> set (map wire_frame ks). frame_ok f"
    using assms by (auto simp: wire_frame_ok list_all_iff)
  moreover have "concat chunks = concat (map frame_bytes (map wire_frame ks))" using c(1) by (simp add: comp_def)
  ultimately obtain q where "feed new_Parser chunks = Some (Inr q)" "ready q"
    "ps_events q = ps_events new_Parser @ map (\<lambda>f. EvPacket (f_packet f)) (map wire_frame ks)"
    using frames_chunked [OF ready_new] c by metis
  then show "\<exists>q. feed new_Parser chunks = Some (Inr q) \<and> ready q \<and> ps_events q = map (\<lambda>k. EvPacket (decoded k)) ks"
    by (auto simp: new_Parser_def resetState_def wire_frame_def comp_def)
qed

definition sample_publish :: packet where
  "sample_publish = (bare_packet Publish)\<lparr>p_topic := JStr (js ''a/b''), p_payload := JStr (js ''hi''),
     p_qos := JNum 1, p_messageId := JNum 7\<rparr>"

definition sample_connect :: packet where
  "sample_connect = (bare_packet Connect)\<lparr>p_clientId := JStr (js ''me''), p_username := JStr (js ''u''),
     p_will := WillObj \<lparr>w_retain = JBool True, w_qos = JNum 1, w_topic = JStr (js ''w''), w_payload = JUndef\<rparr>\<rparr>"

lemma ascii_literals: "ascii (js ''a/b'')" "ascii (js ''hi'')" "ascii (js ''me'')" "ascii (js ''u'')" "ascii (js ''w'')"
  by (simp_all add: ascii_def js_def)

lemma good_ascii: "ascii s \<Longrightarrow> length s < 65536 \<Longrightarrow> good_string s"
  by (simp add: good_string_def wf_utf16_ascii length_utf8_ascii)

lemma samples_ok: "wf_packet sample_publish" "wf_packet sample_connect"
proof -
  have l: "length (utf8 (js ''a/b'')) = 3" "length (utf8 (js ''hi'')) = 2"
    using ascii_literals by (simp_all add: length_utf8_ascii js_def)
  show "wf_packet sample_publish"
    using l by (simp add: sample_publish_def wf_packet_def publish_ok_def publish_body_def eff_qos_def js_or_def is_u16_def bare_packet_def)
  have "good_string (js ''u'')" "good_string (js ''w'')"
    by (rule good_ascii; simp add: ascii_def js_def)+
  moreover have "js ''w'' \<noteq> []" "length (js ''me'') < 65536" "js ''me'' \<noteq> []" by (simp_all add: js_def)
  ultimately show "wf_packet sample_connect"
    using ascii_literals
    by (simp add: sample_connect_def wf_packet_def connect_ok_def eff_protocolId_def eff_version_def eff_keepalive_def
        eff_clientId_def js_or_def is_u16_def bare_packet_def will_ok_def)
qed

theorem stream_roundtrip_witness:
  "\<exists>bss. map generate [sample_connect, sample_publish] = map Inr bss \<and>
    (\<forall>chunks. concat chunks = concat bss \<longrightarrow> int (length (concat bss)) < K_MAX_LENGTH \<longrightarrow>
      (\<exists>q. feed new_Parser chunks = Some (Inr q) \<and> ready q
         \<and> ps_events q = map (\<lambda>k. EvPacket (decoded k)) [sample_connect, sample_publish]))"
  by (rule stream_roundtrip) (simp add: samples_ok)

section \<open>Rejected packets\<close>

definition clean_outcome :: "wstream \<Rightarrow> gen_result \<Rightarrow> bool" where
  "clean_outcome s m \<longleftrightarrow> (case m of
     Inl e \<Rightarrow> True
   | Inr (r, s') \<Rightarrow>
       (\<exists>e. sw_errs s' = sw_errs s @ [e] \<and> sw_out s' = sw_out s \<and> \<not> r)
       \<or> sw_errs s' = sw_errs s \<and> (\<exists>c cs. sw_out s' = sw_out s @ c # cs))"

lemma clean_fail: "clean_outcome s (fail_with s e)"
  by (simp add: clean_outcome_def fail_with_def semit_error_def)

definition grows :: "wstream \<Rightarrow> wstream \<Rightarrow> bool" where
  "grows s s' \<longleftrightarrow> sw_errs s' = sw_errs s \<and> (\<exists>c cs. sw_out s' = sw_out s @ c # cs)"

lemma grows_first: "grows s (swrite s v)"
  by (simp add: grows_def swrite_def)

lemma grows_swrite: "grows s s1 \<Longrightarrow> grows s (swrite s1 v)"
  by (auto simp: grows_def swrite_def)

lemma grows_writes:
  "grows s s1 \<Longrightarrow> grows s (writeNumber s1 n)"
  "grows s s1 \<Longrightarrow> grows s (writeLength s1 len)"
  "grows s s1 \<Longrightarrow> grows s (writeString s1 t)"
  "grows s s1 \<Longrightarrow> grows s (writeStringOrBuffer s1 v)"
  "grows s s1 \<Longrightarrow> grows s (write_sub s1 x)"
  "grows s s1 \<Longrightarrow> grows s (write_will s1 w)"
  by (auto simp: writeNumber_def writeLength_def writeString_def writeStringOrBuffer_def write_sub_def write_will_def
      intro!: grows_swrite split: jsval.split will_val.split)

lemma grows_foldl: "(\<And>s1 x. grows s s1 \<Longrightarrow> grows s (f s1 x)) \<Longrightarrow> grows s s1 \<Longrightarrow> grows s (foldl f s1 xs)"
  by (induction xs arbitrary: s1) auto

lemmas grows_rules = grows_first grows_swrite grows_writes grows_foldl

lemma clean_grows: "grows s s' \<Longrightarrow> clean_outcome s (Inr (r, s'))"
  by (auto simp: clean_outcome_def grows_def)

lemma clean_bind: "(\<And>x. clean_outcome s (f x)) \<Longrightarrow> clean_outcome s (rbind m f)"
  by (cases m) (auto simp: clean_outcome_def)

lemmas clean_rules = clean_fail clean_bind clean_grows grows_rules

lemma clean_connect: "clean_outcome s (connect k s)"
  unfolding connect_def Let_def by (auto intro!: clean_rules split: sum.split)

lemma clean_connack: "clean_outcome s (connack k s)"
  unfolding connack_def Let_def by (auto intro!: clean_rules)

lemma clean_publish: "clean_outcome s (publish k s)"
  unfolding publish_def Let_def by (auto intro!: clean_rules split: sum.split)

lemma clean_confirmation: "clean_outcome s (confirmation k s)"
  unfolding confirmation_def Let_def by (auto intro!: clean_rules)

lemma clean_lists: "clean_outcome s (subscribe k s)" "clean_outcome s (suback k s)" "clean_outcome s (unsubscribe k s)"
  unfolding subscribe_def suback_def unsubscribe_def Let_def
  by (auto intro!: clean_rules split: sum.split option.split)

lemma clean_empty: "clean_outcome s (emptyPacket k s)"
  unfolding emptyPacket_def Let_def by (auto intro!: clean_rules)

text \<open>
  \<^bold>\<open>C12.\<close> All or nothing. Whatever the packet object (any command, any field of any type), the generator
  either emits exactly one error, returns false and has written nothing to the stream, or emits no
  error and has written at least one chunk, or throws; it never reports an error after a partial write.
\<close>

theorem generator_all_or_nothing:
  assumes "writeToStream k s = Inr (r, s')"
  shows "(\<exists>e. sw_errs s' = sw_errs s @ [e] \<and> sw_out s' = sw_out s \<and> \<not> r)
    \<or> (sw_errs s' = sw_errs s \<and> (\<exists>c cs. sw_out s' = sw_out s @ c # cs))"
proof -
  let ?s = "if has_cork s then s\<lparr>corks := corks s + 1\<rparr> else s"
  have "clean_outcome ?s (writeToStream k s)"
    unfolding writeToStream_def Let_def
    by (cases "p_cmd k")
       (simp_all add: clean_connect clean_connack clean_publish clean_confirmation clean_lists clean_empty clean_fail)
  then show ?thesis using assms by (auto simp: clean_outcome_def split: if_splits)
qed

theorem generator_all_or_nothing_witness:
  "\<exists>r s'. writeToStream (bare_packet Puback) new_Accumulator = Inr (r, s')
    \<and> ((\<exists>e. sw_errs s' = sw_errs new_Accumulator @ [e] \<and> sw_out s' = sw_out new_Accumulator \<and> \<not> r)
      \<or> (sw_errs s' = sw_errs new_Accumulator \<and> (\<exists>c cs. sw_out s' = sw_out new_Accumulator @ c # cs)))"
proof -
  have "writeToStream (bare_packet Puback) new_Accumulator =
      Inr (False, semit_error new_Accumulator ''Invalid messageId'')"
    by (simp add: writeToStream_def confirmation_def Let_def fail_with_def bare_packet_def)
  from generator_all_or_nothing [OF this] this show ?thesis by blast
qed

section \<open>Where the code does less than it means to\<close>

text \<open>
  A PUBREL marked as a duplicate cannot be sent: the table is indexed with the mask of the flag
  (8) instead of 0 or 1, so the generator throws a TypeError for every such packet, before any write.
\<close>

theorem pubrel_dup_throws:
  assumes "p_cmd k = Pubrel" "truthy (p_dup k)" "is_number (p_messageId k)"
  shows "writeToStream k s = Inl (TypeError ''Cannot read property of undefined'')"
  using assms by (simp add: writeToStream_def confirmation_def Let_def ACKS_def index_table_def genHeader_def DUP_MASK_def)

theorem pubrel_dup_throws_witness:
  "writeToStream ((bare_packet Pubrel)\<lparr>p_dup := JBool True, p_messageId := JNum 5\<rparr>) new_Accumulator
     = Inl (TypeError ''Cannot read property of undefined'')"
  by (rule pubrel_dup_throws) (simp_all add: bare_packet_def)

end
