(* ===== verification/Mqtt_Store.thy ===== *)
theory Mqtt_Store
  imports Packet_Types
begin

text \<open>
  The in-memory message store of the client (\<^verbatim>\<open>lib/store\<close> of the bundle) and the contract by which the
  client uses it. The object \<^verbatim>\<open>_inflights\<close> is an association list in the order in which its properties
  were created, keyed by message id; a callback invocation is a value of type \<open>store_reply\<close>.
\<close>

section \<open>State and operations\<close>

record store =
  inflights :: "(jsval \<times> packet) list"
  store_closed :: bool   \<comment> \<open>\<^verbatim>\<open>_inflights\<close> is \<^verbatim>\<open>null\<close>\<close>

datatype store_reply = NoReply | ReplyOk packet | ReplyError string | ReplyDone

definition new_Store :: store where
  [defs]: "new_Store = \<lparr>inflights = [], store_closed = False\<rparr>"

fun set_prop :: "'k \<Rightarrow> 'v \<Rightarrow> ('k \<times> 'v) list \<Rightarrow> ('k \<times> 'v) list" where
  \<comment> \<open>\<^verbatim>\<open>o[k] = v\<close>: an existing property keeps its place\<close>
  "set_prop k v [] = [(k, v)]"
| "set_prop k v ((k', v') # o') = (if k' = k then (k, v) # o' else (k', v') # set_prop k v o')"

definition del_prop :: "'k \<Rightarrow> ('k \<times> 'v) list \<Rightarrow> ('k \<times> 'v) list" where
  \<comment> \<open>\<^verbatim>\<open>delete o[k]\<close>\<close>
  [defs]: "del_prop k o' = filter (\<lambda>(k', _). k' \<noteq> k) o'"

definition null_access :: js_error where
  "null_access = TypeError ''Cannot read property of null''"

definition store_put :: "store \<Rightarrow> packet \<Rightarrow> bool \<Rightarrow> (store \<times> store_reply) result" where
  "store_put st p has_cb =
     (if store_closed st then Inl null_access
      else Inr (st\<lparr>inflights := set_prop (p_messageId p) p (inflights st)\<rparr>,
                if has_cb then ReplyDone else NoReply))"

definition store_del :: "store \<Rightarrow> packet \<Rightarrow> bool \<Rightarrow> (store \<times> store_reply) result" where
  "store_del st p has_cb =
     (if store_closed st then Inl null_access
      else case map_of (inflights st) (p_messageId p) of
        Some q \<Rightarrow>
          if has_cb then Inr (st\<lparr>inflights := del_prop (p_messageId q) (inflights st)\<rparr>, ReplyOk q)
          else Inl (TypeError ''cb is not a function'')
      | None \<Rightarrow> Inr (st, if has_cb then ReplyError ''missing packet'' else NoReply))"

definition store_get :: "store \<Rightarrow> packet \<Rightarrow> bool \<Rightarrow> store_reply result" where
  "store_get st p has_cb =
     (if store_closed st then Inl null_access
      else case map_of (inflights st) (p_messageId p) of
        Some q \<Rightarrow> if has_cb then Inr (ReplyOk q) else Inl (TypeError ''cb is not a function'')
      | None \<Rightarrow> Inr (if has_cb then ReplyError ''missing packet'' else NoReply))"

definition store_close :: "store \<Rightarrow> bool \<Rightarrow> store \<times> store_reply" where
  "store_close st has_cb = (st\<lparr>store_closed := True\<rparr>, if has_cb then ReplyDone else NoReply)"

section \<open>The replay stream\<close>

text \<open>
  \<^verbatim>\<open>Object.keys\<close> lists the array indices in ascending order, then the other keys in the order of their
  creation. The stream keeps the keys of the moment it was created and looks the packets up as it is
  read; the \<open>Readable\<close> may read ahead into its buffer (\<open>stream_fill\<close>).
\<close>

definition is_index :: "jsval \<Rightarrow> bool" where
  "is_index k = (case k of JNum n \<Rightarrow> 0 \<le> n \<and> n < 2 ^ 32 - 1 | _ \<Rightarrow> False)"

definition index_of :: "jsval \<Rightarrow> int" where
  "index_of k = (case k of JNum n \<Rightarrow> n | _ \<Rightarrow> 0)"

definition Object_keys :: "(jsval \<times> 'v) list \<Rightarrow> jsval list" where
  "Object_keys o' =
     (let ks = map fst o' in sort_key index_of (filter is_index ks) @ filter (\<lambda>k. \<not> is_index k) ks)"

record store_stream =
  ss_ids :: "jsval list"
  ss_buffer :: "packet option list"  \<comment> \<open>read ahead; \<open>None\<close> is \<^verbatim>\<open>undefined\<close>\<close>
  ss_destroyed :: bool

definition createStream :: "store \<Rightarrow> store_stream result" where
  "createStream st =
     (if store_closed st then Inl (TypeError ''Cannot convert undefined or null to object'')
      else Inr \<lparr>ss_ids = Object_keys (inflights st), ss_buffer = [], ss_destroyed = False\<rparr>)"

definition stream_fill :: "store \<Rightarrow> store_stream \<Rightarrow> store_stream" where
  \<comment> \<open>one call of \<^verbatim>\<open>_read\<close>; pushing \<^verbatim>\<open>null\<close> ends the stream\<close>
  "stream_fill st ss =
     (case ss_ids ss of
        k # ks \<Rightarrow>
          if \<not> ss_destroyed ss then ss\<lparr>ss_ids := ks, ss_buffer := ss_buffer ss @ [map_of (inflights st) k]\<rparr>
          else ss\<lparr>ss_ids := []\<rparr>
      | [] \<Rightarrow> ss)"

definition stream_read :: "store \<Rightarrow> store_stream \<Rightarrow> packet option \<times> store_stream" where
  "stream_read st ss =
     (let ss' = (if ss_buffer ss = [] then stream_fill st ss else ss) in
      case ss_buffer ss' of
        [] \<Rightarrow> (None, ss')
      | v # vs \<Rightarrow> (v, ss'\<lparr>ss_buffer := vs\<rparr>))"

definition stream_destroy :: "store_stream \<Rightarrow> store_stream" where
  "stream_destroy ss = ss\<lparr>ss_destroyed := True\<rparr>"

section \<open>Invariant\<close>

definition store_inv :: "store \<Rightarrow> bool" where
  "store_inv st \<longleftrightarrow> distinct (map fst (inflights st)) \<and> list_all (\<lambda>(k, p). p_messageId p = k) (inflights st)"

lemma keys_set_prop: "fst ` set (set_prop k v o') = insert k (fst ` set o')"
  by (induction k v o' rule: set_prop.induct) auto

lemma distinct_set_prop: "distinct (map fst o') \<Longrightarrow> distinct (map fst (set_prop k v o'))"
  by (induction k v o' rule: set_prop.induct) (auto simp: keys_set_prop image_iff)

lemma map_of_set_prop: "map_of (set_prop k v o') = (map_of o')(k \<mapsto> v)"
  by (induction k v o' rule: set_prop.induct) auto

lemma map_of_del_prop: "map_of (del_prop k o') = (map_of o')(k := None)"
  by (induction o') (auto simp: del_prop_def)

lemma list_all_set_prop:
  "list_all (\<lambda>(k, p). P k p) o' \<Longrightarrow> P k v \<Longrightarrow> list_all (\<lambda>(k, p). P k p) (set_prop k v o')"
  by (induction k v o' rule: set_prop.induct) auto

lemma store_inv_new: "store_inv new_Store"
  by (simp add: store_inv_def new_Store_def)

lemma store_inv_put: "store_inv st \<Longrightarrow> store_put st p b = Inr (st', r) \<Longrightarrow> store_inv st'"
  by (auto simp: store_put_def store_inv_def distinct_set_prop intro: list_all_set_prop [where P = "\<lambda>k p. p_messageId p = k"] split: if_splits)

lemma store_inv_del: "store_inv st \<Longrightarrow> store_del st p b = Inr (st', r) \<Longrightarrow> store_inv st'"
  by (auto simp: store_del_def store_inv_def del_prop_def list_all_iff distinct_map_filter
      split: if_splits option.splits)

lemma store_inv_key: "store_inv st \<Longrightarrow> map_of (inflights st) k = Some q \<Longrightarrow> p_messageId q = k"
  by (auto simp: store_inv_def list_all_iff dest!: map_of_SomeD)

section \<open>The contract of a message store\<close>

text \<open>
  What the client relies on, whoever provides the store (\<^verbatim>\<open>options.outgoingStore\<close>): a put is found by get,
  a delete answers with the packet and removes it, other ids are not touched.
\<close>

locale message_store =
  fixes valid :: "'s \<Rightarrow> bool"
    and lookup :: "'s \<Rightarrow> jsval \<Rightarrow> packet option"
    and put :: "'s \<Rightarrow> packet \<Rightarrow> 's option"
    and del :: "'s \<Rightarrow> packet \<Rightarrow> ('s \<times> packet) option"
  assumes put_ok: "valid s \<Longrightarrow> \<exists>s'. put s p = Some s' \<and> valid s'"
    and lookup_put: "valid s \<Longrightarrow> put s p = Some s' \<Longrightarrow> lookup s' = (lookup s)(p_messageId p \<mapsto> p)"
    and del_found: "valid s \<Longrightarrow> lookup s (p_messageId p) = Some q \<Longrightarrow>
      \<exists>s'. del s p = Some (s', q) \<and> valid s' \<and> lookup s' = (lookup s)(p_messageId p := None)"
    and del_missing: "valid s \<Longrightarrow> lookup s (p_messageId p) = None \<Longrightarrow> del s p = None"
begin

text \<open>After any number of puts, exactly the packets put last under their id are there.\<close>

fun put_all :: "'s \<Rightarrow> packet list \<Rightarrow> 's option" where
  "put_all s [] = Some s"
| "put_all s (p # ps) = Option.bind (put s p) (\<lambda>s'. put_all s' ps)"

lemma put_all_lookup:
  "valid s \<Longrightarrow> \<exists>s'. put_all s ps = Some s' \<and> valid s' \<and>
     lookup s' = foldl (\<lambda>m p. m(p_messageId p \<mapsto> p)) (lookup s) ps"
proof (induction ps arbitrary: s)
  case (Cons p ps)
  obtain s1 where "put s p = Some s1" "valid s1" using put_ok [OF Cons.prems] by blast
  then show ?case using Cons.IH [of s1] lookup_put [OF Cons.prems] by auto
qed simp

text \<open>A packet put and then deleted leaves the store as it was for every id that was not in use.\<close>

lemma put_del:
  assumes "valid s" "lookup s (p_messageId p) = None" "put s p = Some s1"
  shows "\<exists>s2. del s1 p = Some (s2, p) \<and> valid s2 \<and> lookup s2 = lookup s"
proof -
  have v: "valid s1" using put_ok [OF assms(1), of p] assms(3) by auto
  have l: "lookup s1 = (lookup s)(p_messageId p \<mapsto> p)" by (rule lookup_put [OF assms(1,3)])
  then obtain s2 where "del s1 p = Some (s2, p)" "valid s2" "lookup s2 = (lookup s1)(p_messageId p := None)"
    using del_found [OF v, of p p] by auto
  then show ?thesis using l assms(2) by (auto intro!: exI [of _ s2])
qed

text \<open>A delete is not repeatable: the second one finds nothing.\<close>

lemma del_del:
  assumes "valid s" "del s p = Some (s1, q)"
  shows "del s1 p = None"
proof -
  obtain r where "lookup s (p_messageId p) = Some r"
    using del_missing [OF assms(1), of p] assms(2) by (cases "lookup s (p_messageId p)") auto
  from del_found [OF assms(1) this] assms(2) have "valid s1" "lookup s1 (p_messageId p) = None" by auto
  then show ?thesis by (rule del_missing)
qed

end

definition open_inv :: "store \<Rightarrow> bool" where
  "open_inv st \<longleftrightarrow> store_inv st \<and> \<not> store_closed st"

definition put_opt :: "store \<Rightarrow> packet \<Rightarrow> store option" where
  "put_opt st p = (case store_put st p True of Inr (st', _) \<Rightarrow> Some st' | Inl _ \<Rightarrow> None)"

definition del_opt :: "store \<Rightarrow> packet \<Rightarrow> (store \<times> packet) option" where
  "del_opt st p = (case store_del st p True of Inr (st', ReplyOk q) \<Rightarrow> Some (st', q) | _ \<Rightarrow> None)"

interpretation mem: message_store open_inv "\<lambda>st. map_of (inflights st)" put_opt del_opt
proof unfold_locales
  fix s :: store and p :: packet
  assume v: "open_inv s"
  then have "\<exists>s' r. store_put s p True = Inr (s', r) \<and> \<not> store_closed s'"
    by (simp add: open_inv_def store_put_def)
  then show "\<exists>s'. put_opt s p = Some s' \<and> open_inv s'"
    using v by (auto simp: put_opt_def open_inv_def dest: store_inv_put)
  fix s' assume "put_opt s p = Some s'"
  then show "map_of (inflights s') = (map_of (inflights s))(p_messageId p \<mapsto> p)"
    using v by (auto simp: put_opt_def open_inv_def store_put_def map_of_set_prop)
next
  fix s :: store and p q :: packet
  assume v: "open_inv s" and l: "map_of (inflights s) (p_messageId p) = Some q"
  have k: "p_messageId q = p_messageId p" using store_inv_key [of s] v l by (simp add: open_inv_def)
  let ?s = "s\<lparr>inflights := del_prop (p_messageId p) (inflights s)\<rparr>"
  have d: "store_del s p True = Inr (?s, ReplyOk q)" using v l k by (simp add: store_del_def open_inv_def)
  then show "\<exists>s'. del_opt s p = Some (s', q) \<and> open_inv s' \<and>
      map_of (inflights s') = (map_of (inflights s))(p_messageId p := None)"
    using v store_inv_del [OF _ d] by (auto simp: del_opt_def open_inv_def map_of_del_prop)
next
  fix s :: store and p :: packet
  assume "open_inv s" "map_of (inflights s) (p_messageId p) = None"
  then show "del_opt s p = None" by (simp add: del_opt_def store_del_def open_inv_def)
qed

text \<open>
  \<^bold>\<open>C17.\<close> The store keeps its promises to the client: on an open store, putting a packet under a free id
  and deleting by that id answers with the very packet, restores every lookup, and a second delete
  answers "missing packet" and changes nothing.
\<close>

theorem store_put_del:
  assumes "open_inv st" "map_of (inflights st) (p_messageId p) = None"
  shows "\<exists>st1 st2. store_put st p True = Inr (st1, ReplyDone) \<and> open_inv st1
    \<and> store_get st1 p True = Inr (ReplyOk p)
    \<and> store_del st1 p True = Inr (st2, ReplyOk p) \<and> open_inv st2
    \<and> map_of (inflights st2) = map_of (inflights st)
    \<and> store_del st2 p True = Inr (st2, ReplyError ''missing packet'')"
proof -
  obtain st1 where s1: "put_opt st p = Some st1" "open_inv st1" using mem.put_ok [OF assms(1)] by blast
  then have p: "store_put st p True = Inr (st1, ReplyDone)"
    using assms(1) by (auto simp: put_opt_def store_put_def open_inv_def)
  obtain st2 where s2: "del_opt st1 p = Some (st2, p)" "open_inv st2"
    "map_of (inflights st2) = map_of (inflights st)"
    using mem.put_del [OF assms s1(1)] by blast
  then have d: "store_del st1 p True = Inr (st2, ReplyOk p)"
    by (auto simp: del_opt_def split: sum.splits prod.splits store_reply.splits)
  have g: "store_get st1 p True = Inr (ReplyOk p)"
    using mem.lookup_put [OF assms(1) s1(1)] s1(2) by (simp add: store_get_def open_inv_def)
  have "store_del st2 p True = Inr (st2, ReplyError ''missing packet'')"
    using s2(2,3) assms(2) by (simp add: store_del_def open_inv_def)
  with p d g s1 s2 show ?thesis by blast
qed

theorem store_put_del_witness:
  "\<exists>st1 st2. store_put new_Store ((bare_packet Publish)\<lparr>p_messageId := JNum 1\<rparr>) True = Inr (st1, ReplyDone) \<and> open_inv st1
    \<and> store_get st1 ((bare_packet Publish)\<lparr>p_messageId := JNum 1\<rparr>) True = Inr (ReplyOk ((bare_packet Publish)\<lparr>p_messageId := JNum 1\<rparr>))
    \<and> store_del st1 ((bare_packet Publish)\<lparr>p_messageId := JNum 1\<rparr>) True = Inr (st2, ReplyOk ((bare_packet Publish)\<lparr>p_messageId := JNum 1\<rparr>)) \<and> open_inv st2
    \<and> map_of (inflights st2) = map_of (inflights new_Store)
    \<and> store_del st2 ((bare_packet Publish)\<lparr>p_messageId := JNum 1\<rparr>) True = Inr (st2, ReplyError ''missing packet'')"
  by (rule store_put_del) (simp_all add: open_inv_def store_inv_new, simp_all add: new_Store_def)

fun drain_stream :: "nat \<Rightarrow> store \<Rightarrow> store_stream \<Rightarrow> packet list" where
  "drain_stream 0 st ss = []"
| "drain_stream (Suc n) st ss =
     (case stream_read st ss of
        (None, ss') \<Rightarrow> []
      | (Some p, ss') \<Rightarrow> p # drain_stream n st ss')"

lemma drain_stream_ids:
  assumes "\<forall>k \<in> set ks. map_of (inflights st) k \<noteq> None"
  shows "drain_stream (length ks + m) st \<lparr>ss_ids = ks, ss_buffer = [], ss_destroyed = False\<rparr>
    = map (\<lambda>k. the (map_of (inflights st) k)) ks"
  using assms
proof (induction ks)
  case Nil
  then show ?case by (cases m) (simp_all add: stream_read_def stream_fill_def)
next
  case (Cons k ks)
  then obtain p where "map_of (inflights st) k = Some p" by auto
  then show ?case using Cons by (simp add: stream_read_def stream_fill_def)
qed

lemma Object_keys_set: "set (Object_keys o') = fst ` set o'"
  by (auto simp: Object_keys_def Let_def)

lemma distinct_Object_keys: "distinct (map fst o') \<Longrightarrow> distinct (Object_keys o')"
  by (auto simp: Object_keys_def Let_def distinct_sort)

text \<open>
  \<^bold>\<open>C18.\<close> Replay order. Reading the stream of a store to the end, with the store unchanged, gives every
  stored packet exactly once; packets with proper message ids come out in ascending order of the id.
\<close>

theorem replay_order:
  assumes "open_inv st"
  shows "\<exists>ss. createStream st = Inr ss \<and>
    (let ps = drain_stream (length (inflights st)) st ss in
     set ps = snd ` set (inflights st) \<and> length ps = length (inflights st) \<and> distinct (map p_messageId ps)
     \<and> sorted (map (index_of \<circ> p_messageId) (filter (is_index \<circ> p_messageId) ps)))"
proof -
  let ?ks = "Object_keys (inflights st)"
  let ?ps = "map (\<lambda>k. the (map_of (inflights st) k)) ?ks"
  have inv: "distinct (map fst (inflights st))" "store_inv st" using assms by (simp_all add: open_inv_def store_inv_def)
  have d: "distinct ?ks" by (rule distinct_Object_keys [OF inv(1)])
  have len: "length ?ks = length (inflights st)"
    using d inv(1) Object_keys_set [of "inflights st"] by (metis distinct_card length_map set_map)
  have some: "\<forall>k \<in> set ?ks. map_of (inflights st) k \<noteq> None"
    by (auto simp: Object_keys_set map_of_eq_None_iff)
  have dr: "drain_stream (length (inflights st)) st \<lparr>ss_ids = ?ks, ss_buffer = [], ss_destroyed = False\<rparr> = ?ps"
    using drain_stream_ids [OF some, of 0] len by simp
  have key: "p_messageId (the (map_of (inflights st) k)) = k" if "k \<in> set ?ks" for k
    using some that store_inv_key [OF inv(2)] by force
  then have keys: "map p_messageId ?ps = ?ks" by (auto simp: map_idI)
  have "set ?ps = snd ` set (inflights st)"
    using inv(1) by (force simp: Object_keys_set image_iff)
  moreover have "sorted (map (index_of \<circ> p_messageId) (filter (is_index \<circ> p_messageId) ?ps))"
  proof -
    have "map (index_of \<circ> p_messageId) (filter (is_index \<circ> p_messageId) ?ps)
        = map index_of (filter is_index (map p_messageId ?ps))"
      by (simp add: filter_map comp_def)
    also have "\<dots> = map index_of (sort_key index_of (filter is_index (map fst (inflights st))))"
      unfolding keys by (simp add: Object_keys_def Let_def filter_empty_conv filter_id_conv)
    finally show ?thesis by simp
  qed
  ultimately show ?thesis
    using assms dr d len keys by (simp add: createStream_def open_inv_def Let_def)
qed

definition sample_store :: store where
  "sample_store = \<lparr>inflights = map (\<lambda>n. (JNum n, (bare_packet Publish)\<lparr>p_messageId := JNum n\<rparr>)) [5, 2, 7],
     store_closed = False\<rparr>"

theorem replay_order_witness:
  "\<exists>ss. createStream sample_store = Inr ss \<and>
    (let ps = drain_stream (length (inflights sample_store)) sample_store ss in
     set ps = snd ` set (inflights sample_store) \<and> length ps = length (inflights sample_store)
     \<and> distinct (map p_messageId ps)
     \<and> sorted (map (index_of \<circ> p_messageId) (filter (is_index \<circ> p_messageId) ps)))"
  by (rule replay_order) (simp add: open_inv_def store_inv_def sample_store_def)

end
