(* ===== verification/Js_String.thy ===== *)
theory Js_String
  imports Js_Text "HOL-Library.Sublist" "HOL-Library.Multiset"
begin

text \<open>
  Methods of strings and objects that several modules use: \<^verbatim>\<open>split\<close>, \<^verbatim>\<open>join\<close>, \<^verbatim>\<open>indexOf\<close>, \<^verbatim>\<open>lastIndexOf\<close>,
  \<^verbatim>\<open>trim\<close>, \<^verbatim>\<open>replace\<close> with a global one-character pattern, the order of \<^verbatim>\<open>Object.keys\<close>, and
  \<^verbatim>\<open>encodeURIComponent\<close> with \<^verbatim>\<open>decodeURIComponent\<close>. Lemmas: splitting undoes joining, and decoding undoes
  encoding.
\<close>

section \<open>Searching and splitting\<close>

fun split_on :: "code_unit \<Rightarrow> jsstr \<Rightarrow> jsstr list" where
  \<comment> \<open>\<^verbatim>\<open>split\<close> with a separator of one code unit\<close>
  "split_on c [] = [[]]"
| "split_on c (x # xs) =
     (if x = c then [] # split_on c xs
      else case split_on c xs of p # ps \<Rightarrow> (x # p) # ps | [] \<Rightarrow> [[x]])"

fun indexOf :: "jsstr \<Rightarrow> code_unit \<Rightarrow> int" where
  "indexOf [] c = -1"
| "indexOf (x # xs) c = (if x = c then 0 else let i = indexOf xs c in if i = -1 then -1 else i + 1)"

fun lastIndexOf :: "jsstr \<Rightarrow> code_unit \<Rightarrow> nat option" where
  \<comment> \<open>\<open>None\<close> is -1\<close>
  "lastIndexOf [] c = None"
| "lastIndexOf (x # xs) c =
     (case lastIndexOf xs c of Some i \<Rightarrow> Some (Suc i) | None \<Rightarrow> if x = c then Some 0 else None)"

fun find_sub :: "jsstr \<Rightarrow> jsstr \<Rightarrow> nat option" where
  \<comment> \<open>\<^verbatim>\<open>s.indexOf(p)\<close> for a string \<^verbatim>\<open>p\<close>\<close>
  "find_sub p [] = (if p = [] then Some 0 else None)"
| "find_sub p (x # xs) = (if take (length p) (x # xs) = p then Some 0 else map_option Suc (find_sub p xs))"

fun split_rest :: "jsstr \<Rightarrow> nat \<Rightarrow> jsstr \<Rightarrow> jsstr list" where
  \<comment> \<open>the number is what is left to skip of a separator just found\<close>
  "split_rest p k [] = [[]]"
| "split_rest p (Suc k) (x # xs) = split_rest p k xs"
| "split_rest p 0 (x # xs) =
     (if take (length p) (x # xs) = p then [] # split_rest p (length p - 1) xs
      else case split_rest p 0 xs of q # qs \<Rightarrow> (x # q) # qs | [] \<Rightarrow> [[x]])"

definition split_str :: "jsstr \<Rightarrow> jsstr \<Rightarrow> jsstr list" where
  \<comment> \<open>\<^verbatim>\<open>s.split(p)\<close>; the empty separator gives the code units\<close>
  "split_str p s = (if p = [] then map (\<lambda>c. [c]) s else split_rest p 0 s)"

fun join :: "jsstr \<Rightarrow> jsstr list \<Rightarrow> jsstr" where
  "join p [] = []"
| "join p [x] = x"
| "join p (x # y # ys) = x @ p @ join p (y # ys)"

definition replace_all :: "code_unit \<Rightarrow> jsstr \<Rightarrow> jsstr \<Rightarrow> jsstr" where
  \<comment> \<open>\<^verbatim>\<open>s.replace(/c/g, r)\<close>\<close>
  "replace_all c r s = concat (map (\<lambda>x. if x = c then r else [x]) s)"

definition trim :: "jsstr \<Rightarrow> jsstr" where
  "trim s = rev (dropWhile white_space (rev (dropWhile white_space s)))"

definition is_digit :: "code_unit \<Rightarrow> bool" where
  "is_digit c \<longleftrightarrow> 48 \<le> c \<and> c \<le> 57"

definition is_letter :: "code_unit \<Rightarrow> bool" where
  "is_letter c \<longleftrightarrow> 65 \<le> c \<and> c \<le> 90 \<or> 97 \<le> c \<and> c \<le> 122"

text \<open>The number that a text of digits denotes.\<close>

definition digits_value :: "jsstr \<Rightarrow> nat" where
  "digits_value t = foldl (\<lambda>n u. 10 * n + (unat u - 48)) 0 t"

section \<open>Objects\<close>

text \<open>
  The entries of an object in the order of \<^verbatim>\<open>Object.keys\<close>: the array indices ascending, then the other names
  as they were added.
\<close>

definition array_index :: "jsstr \<Rightarrow> bool" where
  "array_index t =
     (t \<noteq> [] \<and> list_all is_digit t \<and> (hd t = 48 \<longrightarrow> length t = 1) \<and> digits_value t < 2 ^ 32 - 1)"

definition Object_entries :: "(jsstr \<times> 'v) list \<Rightarrow> (jsstr \<times> 'v) list" where
  "Object_entries ps =
     sort_key (\<lambda>(t, _). digits_value t) (filter (\<lambda>(t, _). array_index t) ps)
     @ filter (\<lambda>(t, _). \<not> array_index t) ps"

lemma set_Object_entries [simp]: "set (Object_entries ps) = set ps"
  by (auto simp: Object_entries_def)

lemma mset_Object_entries: "mset (Object_entries ps) = mset ps"
proof -
  have "(\<lambda>(t, _). \<not> array_index t) = (\<lambda>x. \<not> (case x of (t, _) \<Rightarrow> array_index t))" by auto
  then show ?thesis
    by (simp add: Object_entries_def multiset_partition [symmetric])
qed

lemma length_Object_entries [simp]: "length (Object_entries ps) = length ps"
  by (metis mset_Object_entries size_mset)

lemma distinct_Object_entries: "distinct (map fst (Object_entries ps)) \<longleftrightarrow> distinct (map fst ps)"
  by (metis mset_Object_entries mset_eq_imp_distinct_iff mset_map)

section \<open>Escaped components of a URI\<close>

abbreviation percent :: code_unit where "percent \<equiv> 0x25"

definition uri_unescaped :: "code_unit \<Rightarrow> bool" where
  "uri_unescaped c \<longleftrightarrow> is_letter c \<or> is_digit c \<or> c \<in> set (js ''-_.!~*'' @ [39] @ js ''()'')"

definition HEX_digit :: "nat \<Rightarrow> code_unit" where
  "HEX_digit d = of_nat (if d < 10 then 48 + d else 55 + d)"

definition escape_byte :: "byte \<Rightarrow> jsstr" where
  "escape_byte b = [percent, HEX_digit (unat b div 16), HEX_digit (unat b mod 16)]"

definition escape_code_point :: "nat \<Rightarrow> jsstr" where
  "escape_code_point cp = concat (map escape_byte (encode_code_point cp))"

definition uri_malformed :: js_error where
  "uri_malformed = URIError ''URI malformed''"

fun encodeURIComponent :: "jsstr \<Rightarrow> jsstr result" where
  "encodeURIComponent [] = Inr []"
| "encodeURIComponent (c # s) =
     (if uri_unescaped c then rbind (encodeURIComponent s) (\<lambda>t. Inr (c # t))
      else if trail_surrogate c then Inl uri_malformed
      else if lead_surrogate c then
        (case s of
           [] \<Rightarrow> Inl uri_malformed
         | d # s' \<Rightarrow>
             if trail_surrogate d
             then rbind (encodeURIComponent s') (\<lambda>t. Inr (escape_code_point (join_surrogates (unat c) (unat d)) @ t))
             else Inl uri_malformed)
      else rbind (encodeURIComponent s) (\<lambda>t. Inr (escape_code_point (unat c) @ t)))"

fun read_escape :: "jsstr \<Rightarrow> (byte \<times> jsstr) option" where
  "read_escape (p # a # b # s) =
     (if p = percent
      then (case (hex_digit a, hex_digit b) of
              (Some x, Some y) \<Rightarrow> Some (word_of_int (16 * x + y), s)
            | _ \<Rightarrow> None)
      else None)"
| "read_escape _ = None"

fun read_escapes :: "nat \<Rightarrow> jsstr \<Rightarrow> (byte list \<times> jsstr) option" where
  "read_escapes 0 s = Some ([], s)"
| "read_escapes (Suc n) s =
     (case read_escape s of
        None \<Rightarrow> None
      | Some (b, t) \<Rightarrow> (case read_escapes n t of None \<Rightarrow> None | Some (bs, u) \<Rightarrow> Some (b # bs, u)))"

lemma read_escape_shorter: "read_escape s = Some (b, t) \<Longrightarrow> length t < length s"
  by (cases s rule: read_escape.cases) (auto split: if_splits option.splits)

lemma read_escapes_shorter: "read_escapes n s = Some (bs, t) \<Longrightarrow> length t + n \<le> length s"
proof (induction n arbitrary: s bs)
  case (Suc n)
  then obtain b u cs where "read_escape s = Some (b, u)" "read_escapes n u = Some (cs, t)"
    by (auto split: option.splits)
  then show ?case using Suc.IH [of u cs] read_escape_shorter [of s b u] by auto
qed simp

text \<open>
  An escape starts a sequence of one to four bytes, all of them escaped, that has to be valid UTF-8.
\<close>

definition read_sequence :: "jsstr \<Rightarrow> (nat \<times> jsstr) option" where
  "read_sequence s =
     (case read_escape s of
        None \<Rightarrow> None
      | Some (b, t) \<Rightarrow>
          if b > 0xF7 then None
          else case read_escapes (bytesPerSequence b - 1) t of
            None \<Rightarrow> None
          | Some (bs, u) \<Rightarrow> map_option (\<lambda>cp. (cp, u)) (decode_sequence (b # bs)))"

lemma read_sequence_shorter: "read_sequence s = Some (cp, u) \<Longrightarrow> length u < length s"
  using read_escape_shorter read_escapes_shorter
  by (fastforce simp: read_sequence_def split: option.splits if_splits)

function decodeURIComponent :: "jsstr \<Rightarrow> jsstr result" where
  "decodeURIComponent [] = Inr []"
| "decodeURIComponent (c # s) =
     (if c = percent then
        (case read_sequence (c # s) of
           None \<Rightarrow> Inl uri_malformed
         | Some (cp, u) \<Rightarrow> rbind (decodeURIComponent u) (\<lambda>t. Inr (code_units cp @ t)))
      else rbind (decodeURIComponent s) (\<lambda>t. Inr (c # t)))"
  by pat_completeness auto
termination by (relation "measure length") (auto dest: read_sequence_shorter)

section \<open>Laws\<close>

lemma indexOf_ge: "indexOf s c \<ge> -1"
  by (induction s) (auto simp: Let_def)

lemma indexOf_none: "indexOf s c = -1 \<longleftrightarrow> c \<notin> set s"
proof (induction s)
  case (Cons x xs)
  then show ?case using indexOf_ge [of xs c] by (auto simp: Let_def)
qed simp

lemma split_on_ne: "split_on c s \<noteq> []"
  by (induction s) (auto split: list.split)

lemma split_on_join:
  "concat (map (\<lambda>p. c # p) (split_on c s)) = c # s"
  by (induction s) (auto split: list.splits dest: split_on_ne [THEN notE])

lemma split_on_clean: "p \<in> set (split_on c s) \<Longrightarrow> c \<notin> set p"
  by (induction s arbitrary: p) (auto split: list.splits if_splits)

lemma split_on_none: "c \<notin> set s \<Longrightarrow> split_on c s = [s]"
  by (induction s) auto

lemma split_on_Cons: "c \<notin> set p \<Longrightarrow> split_on c (p @ c # s) = p # split_on c s"
  by (induction p) auto

lemma split_join: "ps \<noteq> [] \<Longrightarrow> list_all (\<lambda>p. c \<notin> set p) ps \<Longrightarrow> split_on c (join [c] ps) = ps"
  by (induction "[c]" ps rule: join.induct) (auto simp: split_on_none split_on_Cons)

lemma join_split: "join [c] (split_on c s) = s"
proof -
  have "concat (map (\<lambda>p. c # p) ps) = c # join [c] ps" if "ps \<noteq> []" for ps :: "jsstr list"
    using that by (induction "[c]" ps rule: join.induct) auto
  from this [OF split_on_ne] show ?thesis using split_on_join [of c s] by simp
qed

lemma set_join_subset: "q \<in> set ps \<Longrightarrow> set q \<subseteq> set (join p ps)"
  by (induction p ps rule: join.induct) auto

lemma split_str_unit [simp]: "split_str [c] s = split_on c s"
proof -
  have "split_rest [c] 0 s = split_on c s" by (induction s) auto
  then show ?thesis by (simp add: split_str_def)
qed

lemma find_sub_unit: "find_sub [c] s = (if c \<in> set s then Some (length (takeWhile (\<lambda>x. x \<noteq> c) s)) else None)"
  by (induction s) auto

lemma find_sub_first: "c \<notin> set p \<Longrightarrow> find_sub [c] (p @ c # s) = Some (length p)"
  by (induction p) auto

lemma replace_all_none [simp]: "c \<notin> set s \<Longrightarrow> replace_all c r s = s"
  by (induction s) (auto simp: replace_all_def)

lemma HEX_digit_value: "d < 16 \<Longrightarrow> hex_digit (HEX_digit d) = Some (int d)"
proof -
  assume d: "d < 16"
  have u: "unat (HEX_digit d) = (if d < 10 then 48 + d else 55 + d)"
    using d by (simp add: HEX_digit_def del: of_nat_add)
  have i: "uint (HEX_digit d) = int (unat (HEX_digit d))" by simp
  show ?thesis using d u i
    by (auto simp: hex_digit_def word_le_nat_alt)
qed

lemma HEX_digit_unescaped: "d < 16 \<Longrightarrow> is_digit (HEX_digit d) \<or> is_letter (HEX_digit d)"
proof -
  assume d: "d < 16"
  have u: "unat (HEX_digit d) = (if d < 10 then 48 + d else 55 + d)"
    using d by (simp add: HEX_digit_def del: of_nat_add)
  show ?thesis using d u by (auto simp: is_digit_def is_letter_def word_le_nat_alt)
qed

lemma read_escape_byte: "read_escape (escape_byte b @ s) = Some (b, s)"
proof -
  have "16 * int (unat b div 16) + int (unat b mod 16) = uint b"
    by (metis mult_div_mod_eq of_nat_add of_nat_mult of_nat_numeral uint_nat)
  moreover have "unat b div 16 < 16" using unat_byte_less [of b] by linarith
  ultimately show ?thesis by (simp add: escape_byte_def HEX_digit_value)
qed

lemma read_escapes_bytes: "read_escapes (length bs) (concat (map escape_byte bs) @ s) = Some (bs, s)"
  by (induction bs) (simp_all add: read_escape_byte)

lemma lead_byte_bound: "cp < 0x110000 \<Longrightarrow> hd (encode_code_point cp) \<le> 0xF7"
proof -
  assume a: "cp < 0x110000"
  consider "cp < 0x80" | "0x80 \<le> cp" "cp < 0x800" | "0x800 \<le> cp" "cp < 0x10000" | "0x10000 \<le> cp"
    by linarith
  then show ?thesis
  proof cases
    case 1
    then show ?thesis by (simp add: encode_1 word_le_nat_alt)
  next
    case 2
    then have "cp div 64 < 32" by (simp add: less_mult_imp_div_less)
    with 2 show ?thesis by (simp add: encode_2 word_le_nat_alt del: of_nat_add)
  next
    case 3
    then have "cp div 4096 < 16" by (simp add: less_mult_imp_div_less)
    with 3 show ?thesis by (simp add: encode_3 word_le_nat_alt del: of_nat_add)
  next
    case 4
    with a have "cp div 262144 < 5" by (simp add: less_mult_imp_div_less)
    with 4 a show ?thesis by (simp add: encode_4 word_le_nat_alt del: of_nat_add)
  qed
qed

lemma read_sequence_escape:
  assumes "scalar_value cp"
  shows "read_sequence (escape_code_point cp @ s) = Some (cp, s)"
proof -
  obtain b bs where enc: "encode_code_point cp = b # bs"
    using encode_code_point_nonempty by (cases "encode_code_point cp") auto
  have lt: "cp < 0x110000" using assms by (auto simp: scalar_value_def)
  have "bytesPerSequence b = Suc (length bs)" using bytesPerSequence_encode [OF lt] enc by simp
  moreover have "\<not> b > 0xF7" using lead_byte_bound [OF lt] enc by simp
  moreover have "decode_sequence (b # bs) = Some cp" using decode_encode [OF assms, of "[]"] enc by simp
  ultimately show ?thesis
    by (simp add: read_sequence_def escape_code_point_def enc read_escape_byte read_escapes_bytes)
qed

lemma decode_escape:
  "scalar_value cp \<Longrightarrow> decodeURIComponent (escape_code_point cp @ s) = rbind (decodeURIComponent s) (\<lambda>t. Inr (code_units cp @ t))"
proof -
  assume a: "scalar_value cp"
  obtain b bs where enc: "encode_code_point cp = b # bs"
    using encode_code_point_nonempty by (cases "encode_code_point cp") auto
  obtain x where "escape_code_point cp @ s = percent # x"
    by (simp add: escape_code_point_def enc escape_byte_def)
  then show ?thesis using read_sequence_escape [OF a, of s] by simp
qed

definition uri_char :: "code_unit \<Rightarrow> bool" where
  "uri_char c \<longleftrightarrow> uri_unescaped c \<or> c = percent"

lemma escape_code_point_chars: "list_all uri_char (escape_code_point cp)"
proof -
  have "list_all uri_char (escape_byte b)" for b
  proof -
    have "unat b div 16 < 16" using unat_byte_less [of b] by linarith
    then show ?thesis using HEX_digit_unescaped [of "unat b div 16"] HEX_digit_unescaped [of "unat b mod 16"]
      by (auto simp: escape_byte_def uri_char_def uri_unescaped_def)
  qed
  then show ?thesis by (auto simp: escape_code_point_def list_all_iff)
qed

lemma uri_unescaped_plain: "uri_unescaped c \<Longrightarrow> \<not> surrogate c \<and> c \<noteq> percent"
  by (auto simp: uri_unescaped_def surrogate_def is_letter_def is_digit_def word_le_nat_alt js_def)

lemma surrogate_cases: "surrogate c \<longleftrightarrow> lead_surrogate c \<or> trail_surrogate c"
  by (auto simp: surrogate_def lead_surrogate_def trail_surrogate_def)

text \<open>Decoding undoes encoding, also in front of other text.\<close>

lemma uri_component_append:
  "wf_utf16 s \<Longrightarrow> \<exists>t. encodeURIComponent s = Inr t
     \<and> (\<forall>u. decodeURIComponent (t @ u) = rbind (decodeURIComponent u) (\<lambda>v. Inr (s @ v))) \<and> list_all uri_char t"
proof (induction s rule: length_induct)
  case (1 s)
  show ?case
  proof (cases s)
    case (Cons c r)
    show ?thesis
    proof (cases "surrogate c")
      case True
      then obtain d r' where r: "r = d # r'" using 1 Cons by (cases r) auto
      have ld: "lead_surrogate c" "trail_surrogate d" "wf_utf16 r'" using 1 Cons r True by auto
      then have n: "\<not> trail_surrogate c" by (auto simp: lead_surrogate_def trail_surrogate_def)
      obtain t where t: "encodeURIComponent r' = Inr t" "\<forall>u. decodeURIComponent (t @ u) = rbind (decodeURIComponent u) (\<lambda>v. Inr (r' @ v))" "list_all uri_char t"
        using 1(1) [rule_format, of r'] Cons r ld(3) by auto
      have "\<not> uri_unescaped c" using uri_unescaped_plain True by blast
      then show ?thesis
        using Cons r ld n t scalar_join [OF ld(1,2)] code_units_pair [OF ld(1,2)] escape_code_point_chars
        by (simp add: decode_escape rbind_assoc)
    next
      case False
      then have "wf_utf16 r" using 1 Cons by (cases r) auto
      then obtain t where t: "encodeURIComponent r = Inr t" "\<forall>u. decodeURIComponent (t @ u) = rbind (decodeURIComponent u) (\<lambda>v. Inr (r @ v))" "list_all uri_char t"
        using 1 Cons by auto
      show ?thesis
      proof (cases "uri_unescaped c")
        case True
        then have "uri_char c" by (simp add: uri_char_def)
        with True show ?thesis using Cons t uri_unescaped_plain [of c] by (simp add: rbind_assoc)
      next
        case u: False
        then show ?thesis
          using Cons t False scalar_bmp [OF False] code_units_bmp [of c] escape_code_point_chars surrogate_cases [of c]
          by (simp add: decode_escape rbind_assoc)
      qed
    qed
  qed (simp add: rbind_def split: sum.split)
qed

lemma uri_component:
  "wf_utf16 s \<Longrightarrow> \<exists>t. encodeURIComponent s = Inr t \<and> decodeURIComponent t = Inr s \<and> list_all uri_char t"
  using uri_component_append [of s] by (metis append_Nil2 decodeURIComponent.simps(1) rbind_simps(2))

lemma uri_char_not_separator:
  "\<not> uri_char 38" "\<not> uri_char 61" "\<not> uri_char 43" "\<not> uri_char 35" "\<not> uri_char 63" "\<not> uri_char 47" "\<not> uri_char 64"
  "\<not> uri_char 58" "\<not> uri_char 92" "\<not> uri_char 32"
  by (simp_all add: uri_char_def uri_unescaped_def is_letter_def is_digit_def js_def)

end
