(* ===== verification/Mqtt_Validations.thy ===== *)
theory Mqtt_Validations
  imports Js_String
begin

text \<open>
  Topic validation of the client (\<^verbatim>\<open>lib/validations\<close> of the bundle) against the rules its comment states.
\<close>

section \<open>The code\<close>

abbreviation slash :: code_unit where "slash \<equiv> 0x2F"
abbreviation plus_sign :: code_unit where "plus_sign \<equiv> 0x2B"
abbreviation hash_sign :: code_unit where "hash_sign \<equiv> 0x23"

fun validate_parts :: "nat \<Rightarrow> nat \<Rightarrow> jsstr list \<Rightarrow> bool" where
  \<comment> \<open>the loop; \<open>i\<close> is the index of the first part of the list, \<open>n\<close> the number of parts\<close>
  "validate_parts i n [] = True"
| "validate_parts i n (p # ps) =
     (if p = [plus_sign] then validate_parts (i + 1) n ps
      else if p = [hash_sign] then i = n - 1
      else if indexOf p plus_sign \<noteq> -1 \<or> indexOf p hash_sign \<noteq> -1 then False
      else validate_parts (i + 1) n ps)"

definition validateTopic :: "jsstr \<Rightarrow> bool" where
  "validateTopic topic = (let parts = split_on slash topic in validate_parts 0 (length parts) parts)"

fun validate_each :: "jsstr list \<Rightarrow> jsstr option" where
  "validate_each [] = None"
| "validate_each (t # ts) = (if \<not> validateTopic t then Some t else validate_each ts)"

definition validateTopics :: "jsstr list \<Rightarrow> jsstr option" where
  \<comment> \<open>\<open>None\<close> is \<^verbatim>\<open>null\<close>\<close>
  "validateTopics topics = (if length topics = 0 then Some (js ''empty_topic_list'') else validate_each topics)"

section \<open>The rules\<close>

text \<open>
  Rule 1: a part other than the two wildcards contains neither of their characters. Rule 2: the part
  \<^verbatim>\<open>#\<close> is the last one.
\<close>

definition rule1 :: "jsstr list \<Rightarrow> bool" where
  "rule1 parts \<longleftrightarrow> (\<forall>p \<in> set parts. p = [plus_sign] \<or> p = [hash_sign] \<or> plus_sign \<notin> set p \<and> hash_sign \<notin> set p)"

definition rule2 :: "jsstr list \<Rightarrow> bool" where
  "rule2 parts \<longleftrightarrow> [hash_sign] \<notin> set (butlast parts)"

lemma validate_parts_rules:
  "validate_parts i (i + length ps) ps \<longleftrightarrow> rule1 ps \<and> rule2 ps"
proof (induction ps arbitrary: i)
  case Nil
  then show ?case by (simp add: rule1_def rule2_def)
next
  case (Cons p ps)
  have IH: "validate_parts (i + 1) (i + length (p # ps)) ps \<longleftrightarrow> rule1 ps \<and> rule2 ps"
    using Cons.IH [of "i + 1"] by simp
  show ?case
  proof (cases "ps = []")
    case True
    then show ?thesis by (auto simp: rule1_def rule2_def indexOf_none)
  next
    case False
    then have "length ps \<noteq> 0" by simp
    then show ?thesis
      using IH False by (auto simp: rule1_def rule2_def indexOf_none)
  qed
qed

text \<open>
  \<^bold>\<open>C19.\<close> Topic validation decides its two rules: the parts are what lies between the slashes (they
  rejoin to the topic and contain no slash), and a topic is accepted exactly if every part is a
  wildcard or free of wildcard characters and \<^verbatim>\<open>#\<close> occurs as the last part only.
\<close>

theorem validateTopic_iff:
  "concat (map (\<lambda>p. slash # p) (split_on slash topic)) = slash # topic
   \<and> list_all (\<lambda>p. slash \<notin> set p) (split_on slash topic)
   \<and> (validateTopic topic \<longleftrightarrow> rule1 (split_on slash topic) \<and> rule2 (split_on slash topic))"
  using validate_parts_rules [of 0] split_on_clean
  by (auto simp: validateTopic_def Let_def split_on_join list_all_iff)

text \<open>
  Validation of a list reports the first topic that breaks a rule, the constant
  \<^verbatim>\<open>empty_topic_list\<close> for no topics at all, and \<^verbatim>\<open>null\<close> exactly for a non-empty list of valid topics.
\<close>

lemma validateTopics_first:
  "(validateTopics ts = None \<longleftrightarrow> ts \<noteq> [] \<and> list_all validateTopic ts)
   \<and> (ts \<noteq> [] \<and> validateTopics ts = Some t \<longleftrightarrow>
        (\<exists>us vs. ts = us @ t # vs \<and> list_all validateTopic us \<and> \<not> validateTopic t))
   \<and> validateTopics [] = Some (js ''empty_topic_list'')"
proof -
  have n: "validate_each ts = None \<longleftrightarrow> list_all validateTopic ts" for ts
    by (induction ts) auto
  have s: "validate_each ts = Some t \<longleftrightarrow>
      (\<exists>us vs. ts = us @ t # vs \<and> list_all validateTopic us \<and> \<not> validateTopic t)" for ts
  proof (induction ts)
    case (Cons a ts)
    show ?case
    proof (cases "validateTopic a")
      case True
      then show ?thesis using Cons by (auto simp: Cons_eq_append_conv) (metis list.pred_inject(2))
    next
      case False
      then show ?thesis by (auto simp: Cons_eq_append_conv)
    qed
  qed simp
  show ?thesis by (auto simp: validateTopics_def n s)
qed

end
