(* ===== verification/Mqtt_Client.thy ===== *)
theory Mqtt_Client
  imports Packet_Codec Mqtt_Store Mqtt_Validations
begin

text \<open>
  The state machine of \<^verbatim>\<open>MqttClient\<close> (\<^verbatim>\<open>lib/client\<close> of the bundle). Closures are defunctionalised: a callback is
  a value of type \<open>callback\<close>, and a callback the code invokes is put in front of the list \<open>todo\<close> of
  continuations still to run before control returns to the event loop. Timers are flags, \<^verbatim>\<open>setImmediate\<close>
  is a queue, everything the application can observe goes to the log. An operation that throws is \<open>Inl\<close>.
\<close>

section \<open>Callbacks and continuations\<close>

datatype callback =
    CbNop                                \<comment> \<open>\<^verbatim>\<open>nop\<close>\<close>
  | CbUser nat                           \<comment> \<open>a function of the application\<close>
  | CbSubscribed callback "sub list"     \<comment> \<open>the closure \<^verbatim>\<open>subscribe\<close> stores under the message id\<close>
  | CbReplayed "callback option" nat     \<comment> \<open>the closure \<^verbatim>\<open>storeDeliver\<close> puts around it, with its stream\<close>
  | CbDelivered "callback option"        \<comment> \<open>the closure of \<^verbatim>\<open>deliver\<close>, with the callback of the queue entry\<close>
  | CbProcess nat                        \<comment> \<open>\<^verbatim>\<open>process\<close> of a connection\<close>
  | CbEndStream nat                      \<comment> \<open>\<^verbatim>\<open>setImmediate(stream.end)\<close>\<close>

datatype cb_value = VNone | VPacket packet | VSubs "sub list"

datatype cont =
    Call callback "string option" cb_value
  | Deliver
  | Resubscribe
  | StoreDeliver nat
  | CheckEmpty
  | Process nat

datatype client_event =
    EvPacketSend packet
  | EvPacketReceive packet
  | EvMessage jsval jsval packet
  | EvConnect
  | EvClose
  | EvOffline
  | EvReconnect
  | EvClientError string
  | EvOutgoingEmpty
  | EvCallback nat "string option" cb_value

datatype task =
    TCall callback "string option"
  | TEndStream nat
  | TCloseStores "callback option"

section \<open>State\<close>

record conn =
  cn_stream :: wstream
  cn_parser :: parser
  cn_packets :: "packet list"           \<comment> \<open>parsed, not handled yet\<close>
  cn_busy :: bool                       \<comment> \<open>\<^verbatim>\<open>completeParse\<close> is set: \<^verbatim>\<open>_write\<close> has not called back\<close>
  cn_backlog :: "buffer list"           \<comment> \<open>chunks the \<^verbatim>\<open>Writable\<close> holds back meanwhile\<close>
  cn_drain :: "callback list"           \<comment> \<open>\<^verbatim>\<open>once('drain')\<close>\<close>
  cn_on_close :: "callback option list" \<comment> \<open>\<^verbatim>\<open>on('close')\<close>: the callbacks of \<^verbatim>\<open>end\<close>\<close>
  cn_destroyed :: bool
  cn_ended :: bool

record options =
  o_keepalive :: int
  o_reschedulePings :: bool
  o_reconnectPeriod :: int
  o_clean :: bool
  o_connect :: packet                   \<comment> \<open>the option object seen as a CONNECT packet\<close>

record client =
  c_opts :: options
  queueQoSZero :: bool
  connected :: bool
  disconnecting :: bool
  disconnected :: bool
  reconnecting :: bool
  queue :: "(packet \<times> callback option) list"
  outgoing :: "(jsval \<times> callback) list"
  outgoingStore :: store
  incomingStore :: store
  nextId :: int
  resubscribeTopics :: "(jsstr \<times> jsval) list"
  firstConnection :: bool
  pingTimer :: bool
  pingResp :: bool
  connackTimer :: bool
  reconnectTimer :: bool
  conns :: "conn list"                  \<comment> \<open>the last one is \<^verbatim>\<open>this.stream\<close>\<close>
  replays :: "store_stream list"
  immediates :: "task list"
  end_waiting :: "(bool \<times> callback option) list"  \<comment> \<open>\<^verbatim>\<open>once('outgoingEmpty')\<close>\<close>
  end_timers :: "(bool \<times> callback option) list"   \<comment> \<open>the 10 ms timers of \<^verbatim>\<open>end\<close>\<close>
  todo :: "cont list"
  elog :: "client_event list"

type_synonym outcome = "client result"

abbreviation emit :: "client_event \<Rightarrow> client \<Rightarrow> client" where
  "emit e c \<equiv> c\<lparr>elog := elog c @ [e]\<rparr>"

abbreviation push :: "cont list \<Rightarrow> client \<Rightarrow> client" where
  "push ks c \<equiv> c\<lparr>todo := ks @ todo c\<rparr>"

definition cur :: "client \<Rightarrow> nat" where
  [defs]: "cur c = length (conns c) - 1"

definition upd_conn :: "nat \<Rightarrow> (conn \<Rightarrow> conn) \<Rightarrow> client \<Rightarrow> client" where
  [defs]: "upd_conn n f c = (if n < length (conns c) then c\<lparr>conns := (conns c)[n := f (conns c ! n)]\<rparr> else c)"

definition call_opt :: "callback option \<Rightarrow> string option \<Rightarrow> cb_value \<Rightarrow> cont list" where
  [defs]: "call_opt cb err v = (case cb of None \<Rightarrow> [] | Some k \<Rightarrow> [Call k err v])"

section \<open>Sending\<close>

definition sendPacket :: "client \<Rightarrow> packet \<Rightarrow> callback option \<Rightarrow> outcome" where
  "sendPacket c packet cb =
     (let c1 = emit (EvPacketSend packet) c; n = cur c1 in
      rbind (writeToStream packet (cn_stream (conns c1 ! n))) (\<lambda>(result, s).
        let c2 = upd_conn n (\<lambda>k. k\<lparr>cn_stream := s\<rparr>) c1 in
        case cb of
          None \<Rightarrow> Inr c2
        | Some k \<Rightarrow>
            if \<not> result then Inr (upd_conn n (\<lambda>x. x\<lparr>cn_drain := cn_drain x @ [k]\<rparr>) c2)
            else Inr (push [Call k None VNone] c2)))"

definition storeAndSend :: "client \<Rightarrow> packet \<Rightarrow> callback option \<Rightarrow> outcome" where
  "storeAndSend c packet cb =
     rbind (store_put (outgoingStore c) packet True) (\<lambda>(st, _).
       sendPacket (c\<lparr>outgoingStore := st\<rparr>) packet cb)"

text \<open>\<^verbatim>\<open>MqttClient.prototype._sendPacket\<close>; rescheduling the ping timer leaves it set.\<close>

definition send_or_queue :: "client \<Rightarrow> packet \<Rightarrow> callback option \<Rightarrow> outcome" where
  "send_or_queue c packet cb =
     (if \<not> connected c then
        (if positive (p_qos packet) \<or> p_cmd packet \<noteq> Publish \<or> queueQoSZero c then
           Inr (c\<lparr>queue := queue c @ [(packet, cb)]\<rparr>)
         else Inr (push (call_opt cb (Some ''No connection to broker'') VNone) c))
      else if p_cmd packet \<noteq> Publish then sendPacket c packet cb
      else if p_qos packet = JNum 2 \<or> p_qos packet = JNum 1 then storeAndSend c packet cb
      else sendPacket c packet cb)"

section \<open>Message ids\<close>

definition take_id :: "client \<Rightarrow> int \<times> client" where
  \<comment> \<open>\<^verbatim>\<open>_nextId\<close>\<close>
  "take_id c =
     (let mid = nextId c; c1 = c\<lparr>nextId := mid + 1\<rparr> in
      (mid, if mid = 65535 then c1\<lparr>nextId := 1\<rparr> else c1))"

definition getLastMessageId :: "client \<Rightarrow> int" where
  "getLastMessageId c = (if nextId c = 1 then 65535 else nextId c - 1)"

section \<open>Reconnection, timers, closing\<close>

definition setupReconnect :: "client \<Rightarrow> client" where
  "setupReconnect c =
     (if \<not> disconnecting c \<and> \<not> reconnectTimer c \<and> o_reconnectPeriod (c_opts c) > 0 then
        (let c1 = (if \<not> reconnecting c then (emit EvOffline c)\<lparr>reconnecting := True\<rparr> else c) in
         c1\<lparr>reconnectTimer := True\<rparr>)
      else c)"

definition clearReconnect :: "client \<Rightarrow> client" where
  "clearReconnect c = (if reconnectTimer c then c\<lparr>reconnectTimer := False\<rparr> else c)"

definition setupPingTimer :: "client \<Rightarrow> client" where
  "setupPingTimer c =
     (if \<not> pingTimer c \<and> o_keepalive (c_opts c) \<noteq> 0 then c\<lparr>pingResp := True, pingTimer := True\<rparr> else c)"

definition cleanUp :: "client \<Rightarrow> bool \<Rightarrow> callback option option \<Rightarrow> outcome" where
  \<comment> \<open>\<open>done\<close> is \<open>Some cb\<close> for the closure that closes the stores and then calls \<open>cb\<close>\<close>
  "cleanUp c forced done =
     (let n = cur c;
          c1 = (case done of None \<Rightarrow> c
                | Some cb \<Rightarrow> upd_conn n (\<lambda>k. k\<lparr>cn_on_close := cn_on_close k @ [cb]\<rparr>) c)
      in rbind (if forced then Inr (upd_conn n (\<lambda>k. k\<lparr>cn_destroyed := True\<rparr>) c1)
                else send_or_queue c1 (bare_packet Disconnect) (Some (CbEndStream n))) (\<lambda>c2.
        let c3 = (if \<not> disconnecting c2 then setupReconnect (clearReconnect c2) else c2)
        in Inr (c3\<lparr>pingTimer := False\<rparr>)))"

definition setupStream :: "wstream \<Rightarrow> client \<Rightarrow> outcome" where
  \<comment> \<open>\<open>s\<close> is the stream \<^verbatim>\<open>streamBuilder\<close> returns\<close>
  "setupStream s c =
     (let c1 = clearReconnect c;
          k = \<lparr>cn_stream = s, cn_parser = new_Parser, cn_packets = [], cn_busy = False, cn_backlog = [],
               cn_drain = [], cn_on_close = [], cn_destroyed = False, cn_ended = False\<rparr>;
          c2 = c1\<lparr>conns := conns c1 @ [k]\<rparr>
      in rbind (sendPacket c2 ((o_connect (c_opts c2))\<lparr>p_cmd := Connect\<rparr>) None) (\<lambda>c3.
           Inr (c3\<lparr>connackTimer := True\<rparr>)))"

definition reconnect :: "wstream \<Rightarrow> client \<Rightarrow> outcome" where
  "reconnect s c = setupStream s (emit EvReconnect c)"

definition checkPing :: "client \<Rightarrow> outcome" where
  "checkPing c =
     (if pingResp c then send_or_queue (c\<lparr>pingResp := False\<rparr>) (bare_packet Pingreq) None
      else cleanUp c True None)"

section \<open>The application's operations\<close>

definition checkDisconnecting :: "client \<Rightarrow> callback option \<Rightarrow> client" where
  "checkDisconnecting c callback =
     (if disconnecting c then
        (case callback of
           Some k \<Rightarrow> push [Call k (Some ''client disconnecting'') VNone] c
         | None \<Rightarrow> emit (EvClientError ''client disconnecting'') c)
      else c)"

record pub_opts =
  po_qos :: jsval
  po_retain :: jsval
  po_dup :: jsval

definition publish_packet :: "jsval \<Rightarrow> jsval \<Rightarrow> pub_opts \<Rightarrow> int \<Rightarrow> packet" where
  "publish_packet topic message opts mid =
     (bare_packet Publish)\<lparr>p_topic := topic, p_payload := message, p_qos := po_qos opts,
       p_retain := po_retain opts, p_messageId := JNum mid, p_dup := po_dup opts\<rparr>"

definition client_publish :: "jsval \<Rightarrow> jsval \<Rightarrow> pub_opts option \<Rightarrow> callback option \<Rightarrow> client \<Rightarrow> outcome" where
  "client_publish topic message opts0 callback c =
     (let opts = (case opts0 of Some x \<Rightarrow> x
                  | None \<Rightarrow> \<lparr>po_qos = JNum 0, po_retain = JBool False, po_dup = JBool False\<rparr>) in
      if disconnecting c then Inr (checkDisconnecting c callback)
      else
        (let (mid, c1) = take_id c; packet = publish_packet topic message opts mid in
         if po_qos opts = JNum 1 \<or> po_qos opts = JNum 2 then
           send_or_queue (c1\<lparr>outgoing := set_prop (JNum mid) (case callback of Some k \<Rightarrow> k | None \<Rightarrow> CbNop) (outgoing c1)\<rparr>)
             packet None
         else send_or_queue c1 packet callback))"

text \<open>The first argument of \<^verbatim>\<open>subscribe\<close>: a topic, an array of topics, or an object from topics to QoS.\<close>

datatype topic_arg = TString jsstr | TArray "jsstr list" | TObject "(jsstr \<times> jsval) list"

definition invalid_topic :: "topic_arg \<Rightarrow> jsstr option result" where
  \<comment> \<open>\<^verbatim>\<open>validateTopics(obj)\<close>: of an object the code reads the property \<^verbatim>\<open>length\<close>, which is a topic if it is there\<close>
  "invalid_topic obj =
     (case obj of
        TString t \<Rightarrow> Inr (validateTopics [t])
      | TArray ts \<Rightarrow> Inr (validateTopics ts)
      | TObject ps \<Rightarrow>
          (case map_of ps (js ''length'') of
             Some (JNum n) \<Rightarrow>
               if n = 0 then Inr (Some (js ''empty_topic_list''))
               else if n > 0 then Inl (TypeError ''topic.split is not a function'')
               else Inr None
           | _ \<Rightarrow> Inr None))"

definition sub_list :: "topic_arg \<Rightarrow> jsval \<Rightarrow> sub list" where
  "sub_list obj qos =
     (case obj of
        TString t \<Rightarrow> [\<lparr>sub_topic = JStr t, sub_qos = qos\<rparr>]
      | TArray ts \<Rightarrow> map (\<lambda>t. \<lparr>sub_topic = JStr t, sub_qos = qos\<rparr>) ts
      | TObject ps \<Rightarrow> map (\<lambda>(t, q). \<lparr>sub_topic = JStr t, sub_qos = q\<rparr>) (Object_entries ps))"

definition topic_key :: "sub \<Rightarrow> jsstr" where
  "topic_key x = (case sub_topic x of JStr t \<Rightarrow> t | v \<Rightarrow> to_str v)"

definition subscribe_packet :: "sub list \<Rightarrow> int \<Rightarrow> packet" where
  "subscribe_packet subs mid =
     (bare_packet Subscribe)\<lparr>p_subscriptions := Some subs, p_qos := JNum 1, p_retain := JBool False,
       p_dup := JBool False, p_messageId := JNum mid\<rparr>"

definition invalid_message :: "jsstr \<Rightarrow> string" where
  "invalid_message t = ''Invalid topic '' @ map (\<lambda>u. char_of (unat u)) t"

definition client_subscribe :: "topic_arg \<Rightarrow> jsval option \<Rightarrow> callback option \<Rightarrow> client \<Rightarrow> outcome" where
  "client_subscribe obj qos callback0 c =
     (let callback = (case callback0 of Some k \<Rightarrow> k | None \<Rightarrow> CbNop) in
      rbind (invalid_topic obj) (\<lambda>inv.
        case inv of
          Some t \<Rightarrow> Inr (c\<lparr>immediates := immediates c @ [TCall callback (Some (invalid_message t))]\<rparr>)
        | None \<Rightarrow>
            if disconnecting c then Inr (checkDisconnecting c (Some callback))
            else
              (let subs = sub_list obj (case qos of Some q \<Rightarrow> q | None \<Rightarrow> JNum 0);
                   (mid, c1) = take_id c;
                   c2 = c1\<lparr>resubscribeTopics := foldl (\<lambda>m x. set_prop (topic_key x) (sub_qos x) m) (resubscribeTopics c1) subs,
                           outgoing := set_prop (JNum mid) (CbSubscribed callback subs) (outgoing c1)\<rparr>
               in send_or_queue c2 (subscribe_packet subs mid) None)))"

definition client_unsubscribe :: "topic_arg \<Rightarrow> callback option \<Rightarrow> client \<Rightarrow> outcome" where
  "client_unsubscribe topic callback0 c0 =
     (let callback = (case callback0 of Some k \<Rightarrow> k | None \<Rightarrow> CbNop);
          (mid, c) = take_id c0 in
      if disconnecting c then Inr (checkDisconnecting c (Some callback))
      else
        case (case topic of TString t \<Rightarrow> Some [t] | TArray ts \<Rightarrow> if ts \<noteq> [] then Some ts else None | TObject _ \<Rightarrow> None) of
          None \<Rightarrow> Inl (TypeError ''Cannot read property forEach of undefined'')
        | Some ts \<Rightarrow>
            (let c1 = c\<lparr>resubscribeTopics := foldl (\<lambda>m t. del_prop t m) (resubscribeTopics c) ts,
                       outgoing := set_prop (JNum mid) callback (outgoing c)\<rparr>;
                 packet = (bare_packet Unsubscribe)\<lparr>p_qos := JNum 1, p_messageId := JNum mid,
                             p_unsubscriptions := Some (map JStr ts)\<rparr>
             in send_or_queue c1 packet None))"

definition finish_end :: "client \<Rightarrow> bool \<Rightarrow> callback option \<Rightarrow> outcome" where
  "finish_end c force cb = cleanUp c force (Some cb)"

definition client_end :: "bool \<Rightarrow> callback option \<Rightarrow> client \<Rightarrow> outcome" where
  "client_end force cb c =
     (if disconnecting c then Inr c
      else
        (let c1 = (clearReconnect c)\<lparr>disconnecting := True\<rparr> in
         if \<not> force \<and> outgoing c1 \<noteq> [] then Inr (c1\<lparr>end_waiting := end_waiting c1 @ [(force, cb)]\<rparr>)
         else finish_end c1 force cb))"

section \<open>Handlers of incoming packets\<close>

definition refused :: "nat \<Rightarrow> string" where
  "refused rc =
     ''Connection refused: '' @
     (if rc < 6 then [[], ''Unacceptable protocol version'', ''Identifier rejected'', ''Server unavailable'',
                      ''Bad username or password'', ''Not authorized''] ! rc
      else ''undefined'')"

text \<open>The listeners of \<^verbatim>\<open>connect\<close>, in the order the constructor registers them.\<close>

definition on_connect :: "client \<Rightarrow> outcome" where
  "on_connect c0 =
     (let c = emit EvConnect c0 in
      rbind (if disconnected c then Inr c
             else
               (let c1 = c\<lparr>connected := True\<rparr> in
                rbind (createStream (outgoingStore c1)) (\<lambda>ss. Inr (c1\<lparr>replays := replays c1 @ [ss]\<rparr>)))) (\<lambda>c2.
        Inr (push [Deliver, Resubscribe] (setupPingTimer c2))))"

definition handleConnack :: "packet \<Rightarrow> client \<Rightarrow> outcome" where
  "handleConnack packet c0 =
     (let c = c0\<lparr>connackTimer := False\<rparr> in
      case p_returnCode packet of
        JNum rc \<Rightarrow>
          if rc = 0 then on_connect (c\<lparr>reconnecting := False\<rparr>)
          else if rc > 0 then Inr (emit (EvClientError (refused (nat rc))) c)
          else Inr c
      | _ \<Rightarrow> Inr c)"

definition ack_packet :: "cmd \<Rightarrow> jsval \<Rightarrow> packet" where
  "ack_packet type mid = (bare_packet type)\<lparr>p_messageId := mid\<rparr>"

definition handlePublish :: "nat \<Rightarrow> packet \<Rightarrow> client \<Rightarrow> outcome" where
  \<comment> \<open>\<open>n\<close>: the connection whose \<^verbatim>\<open>process\<close> is the argument \<^verbatim>\<open>done\<close>\<close>
  "handlePublish n packet c =
     (let mid = p_messageId packet; qos = p_qos packet in
      if qos = JNum 2 then
        rbind (store_put (incomingStore c) packet True) (\<lambda>(st, _).
          send_or_queue (c\<lparr>incomingStore := st\<rparr>) (ack_packet Pubrec mid) (Some (CbProcess n)))
      else if qos = JNum 1 \<or> qos = JNum 0 then
        rbind (if qos = JNum 1 then send_or_queue c (ack_packet Puback mid) None else Inr c) (\<lambda>c1.
          Inr (push [Process n] (emit (EvMessage (p_topic packet) (p_payload packet) packet) c1)))
      else Inr c)"

definition handlePubrel :: "nat \<Rightarrow> packet \<Rightarrow> client \<Rightarrow> outcome" where
  "handlePubrel n packet c =
     (let mid = p_messageId packet in
      rbind (store_get (incomingStore c) packet True) (\<lambda>reply.
        case reply of
          ReplyOk pub \<Rightarrow>
            rbind (if p_cmd pub \<noteq> Pubrel then
                     rbind (store_put (incomingStore c) packet False) (\<lambda>(st, _).
                       Inr ((emit (EvMessage (p_topic pub) (p_payload pub) pub) c)\<lparr>incomingStore := st\<rparr>))
                   else Inr c) (\<lambda>c1.
              send_or_queue c1 (ack_packet Pubcomp mid) (Some (CbProcess n)))
        | ReplyError e \<Rightarrow> Inr (emit (EvClientError e) c)
        | _ \<Rightarrow> Inr c))"

definition handleAck :: "packet \<Rightarrow> client \<Rightarrow> outcome" where
  "handleAck packet c =
     (let mid = p_messageId packet in
      case map_of (outgoing c) mid of
        None \<Rightarrow> Inr c
      | Some cb \<Rightarrow>
          (case p_cmd packet of
             Pubrec \<Rightarrow>
               rbind (send_or_queue c ((ack_packet Pubrel mid)\<lparr>p_qos := JNum 2\<rparr>) None) (\<lambda>c1. Inr (push [CheckEmpty] c1))
           | Suback \<Rightarrow>
               Inr (push [Call cb None (VPacket packet), CheckEmpty] (c\<lparr>outgoing := del_prop mid (outgoing c)\<rparr>))
           | Unsuback \<Rightarrow>
               Inr (push [Call cb None VNone, CheckEmpty] (c\<lparr>outgoing := del_prop mid (outgoing c)\<rparr>))
           | cmd \<Rightarrow>
               if cmd = Puback \<or> cmd = Pubcomp then
                 (let c1 = c\<lparr>outgoing := del_prop mid (outgoing c)\<rparr> in
                  rbind (store_del (outgoingStore c1) packet True) (\<lambda>(st, reply).
                    Inr (push (case reply of
                                 ReplyOk q \<Rightarrow> [Call cb None (VPacket q), CheckEmpty]
                               | ReplyError e \<Rightarrow> [Call cb (Some e) VNone, CheckEmpty]
                               | _ \<Rightarrow> [CheckEmpty])
                         (c1\<lparr>outgoingStore := st\<rparr>))))
               else Inr (push [CheckEmpty] (emit (EvClientError ''unrecognized packet type'') c))))"

definition handlePacket :: "nat \<Rightarrow> packet \<Rightarrow> client \<Rightarrow> outcome" where
  "handlePacket n packet c0 =
     (let c = emit (EvPacketReceive packet) c0 in
      case p_cmd packet of
        Publish \<Rightarrow> handlePublish n packet c
      | Puback \<Rightarrow> handleAck packet (push [Process n] c)
      | Pubrec \<Rightarrow> handleAck packet (push [Process n] c)
      | Pubcomp \<Rightarrow> handleAck packet (push [Process n] c)
      | Suback \<Rightarrow> handleAck packet (push [Process n] c)
      | Unsuback \<Rightarrow> handleAck packet (push [Process n] c)
      | Pubrel \<Rightarrow> handlePubrel n packet c
      | Connack \<Rightarrow> handleConnack packet (push [Process n] c)
      | Pingresp \<Rightarrow> Inr (push [Process n] (c\<lparr>pingResp := True\<rparr>))
      | _ \<Rightarrow> Inr c)"

section \<open>Reading a connection\<close>

fun packets_of :: "parser_event list \<Rightarrow> packet list" where
  "packets_of [] = []"
| "packets_of (EvPacket k # es) = k # packets_of es"
| "packets_of (EvError e # es) = packets_of es"

fun errors_of :: "parser_event list \<Rightarrow> string list" where
  "errors_of [] = []"
| "errors_of (EvPacket k # es) = errors_of es"
| "errors_of (EvError e # es) = e # errors_of es"

definition write_chunk :: "nat \<Rightarrow> buffer \<Rightarrow> client \<Rightarrow> outcome" where
  \<comment> \<open>\<^verbatim>\<open>writable._write\<close>; the parser model always returns, see \<open>parse_returns\<close>\<close>
  "write_chunk n buf c =
     (if n < length (conns c) then
        (let k = conns c ! n in
         case parse ((cn_parser k)\<lparr>ps_events := []\<rparr>) buf of
           None \<Rightarrow> Inl (JsError ''parser does not return'')
         | Some (Inl e) \<Rightarrow> Inl e
         | Some (Inr p) \<Rightarrow>
             Inr (push [Process n]
               (foldl (\<lambda>c e. emit (EvClientError e) c)
                 (upd_conn n (\<lambda>k. k\<lparr>cn_parser := p, cn_busy := True,
                    cn_packets := cn_packets k @ packets_of (ps_events p)\<rparr>) c)
                 (errors_of (ps_events p)))))
      else Inr c)"

definition process_next :: "nat \<Rightarrow> client \<Rightarrow> outcome" where
  \<comment> \<open>\<^verbatim>\<open>process\<close>: the next packet, or the end of the write and the next chunk held back\<close>
  "process_next n c =
     (let k = conns c ! n in
      case cn_packets k of
        packet # rest \<Rightarrow> handlePacket n packet (upd_conn n (\<lambda>k. k\<lparr>cn_packets := rest\<rparr>) c)
      | [] \<Rightarrow>
          if \<not> cn_busy k then Inl (TypeError ''done is not a function'')
          else
            (case cn_backlog k of
               [] \<Rightarrow> Inr (upd_conn n (\<lambda>k. k\<lparr>cn_busy := False\<rparr>) c)
             | b # bs \<Rightarrow> write_chunk n b (upd_conn n (\<lambda>k. k\<lparr>cn_busy := False, cn_backlog := bs\<rparr>) c)))"

section \<open>Continuations\<close>

definition deliver :: "client \<Rightarrow> outcome" where
  "deliver c =
     (case queue c of
        [] \<Rightarrow> Inr c
      | (packet, cb) # rest \<Rightarrow> send_or_queue (c\<lparr>queue := rest\<rparr>) packet (Some (CbDelivered cb)))"

definition resubscribe :: "client \<Rightarrow> outcome" where
  "resubscribe c =
     rbind (if \<not> firstConnection c \<and> o_clean (c_opts c) \<and> resubscribeTopics c \<noteq> []
            then client_subscribe (TObject (resubscribeTopics c)) None None c else Inr c) (\<lambda>c1.
       Inr (c1\<lparr>firstConnection := False\<rparr>))"

definition storeDeliver :: "nat \<Rightarrow> client \<Rightarrow> outcome" where
  "storeDeliver i c =
     (if i < length (replays c) then
        (let (packet, ss) = stream_read (outgoingStore c) (replays c ! i);
             c1 = c\<lparr>replays := (replays c)[i := ss]\<rparr>
         in case packet of
              None \<Rightarrow> Inr c1
            | Some p \<Rightarrow>
                if \<not> disconnecting c1 \<and> \<not> reconnectTimer c1 \<and> o_reconnectPeriod (c_opts c1) > 0 then
                  send_or_queue
                    (c1\<lparr>outgoing := set_prop (p_messageId p) (CbReplayed (map_of (outgoing c1) (p_messageId p)) i) (outgoing c1)\<rparr>)
                    p None
                else Inr (c1\<lparr>replays := (replays c1)[i := stream_destroy ss]\<rparr>))
      else Inr c)"

definition checkEmpty :: "client \<Rightarrow> client" where
  \<comment> \<open>the end of \<^verbatim>\<open>_handleAck\<close>, with the listener of \<^verbatim>\<open>end\<close> on \<^verbatim>\<open>outgoingEmpty\<close>\<close>
  "checkEmpty c =
     (if disconnecting c \<and> outgoing c = [] then
        (emit EvOutgoingEmpty c)\<lparr>end_timers := end_timers c @ end_waiting c, end_waiting := []\<rparr>
      else c)"

fun grant :: "sub list \<Rightarrow> jsval list \<Rightarrow> sub list result" where
  \<comment> \<open>\<^verbatim>\<open>subs[i].qos = granted[i]\<close>\<close>
  "grant subs [] = Inr subs"
| "grant [] (g # gs) = Inl (TypeError ''Cannot set property qos of undefined'')"
| "grant (x # xs) (g # gs) = rbind (grant xs gs) (\<lambda>ys. Inr (x\<lparr>sub_qos := g\<rparr> # ys))"

fun run_callback :: "callback \<Rightarrow> string option \<Rightarrow> cb_value \<Rightarrow> client \<Rightarrow> outcome" where
  "run_callback CbNop err v c = Inr c"
| "run_callback (CbUser u) err v c = Inr (emit (EvCallback u err v) c)"
| "run_callback (CbSubscribed cb subs) err v c =
     rbind (case err of
              Some e \<Rightarrow> Inr subs
            | None \<Rightarrow>
                (case v of
                   VPacket p \<Rightarrow>
                     (case p_granted p of
                        Some gs \<Rightarrow> grant subs gs
                      | None \<Rightarrow> Inl (TypeError ''Cannot read property length of undefined''))
                 | _ \<Rightarrow> Inl (TypeError ''Cannot read property granted of undefined''))) (\<lambda>subs'.
       Inr (push [Call cb err (VSubs subs')] c))"
| "run_callback (CbReplayed cb i) err v c = Inr (push (call_opt cb err v @ [StoreDeliver i]) c)"
| "run_callback (CbDelivered cb) err v c = Inr (push (call_opt cb err VNone @ [Deliver]) c)"
| "run_callback (CbProcess n) err v c = Inr (push [Process n] c)"
| "run_callback (CbEndStream n) err v c = Inr (c\<lparr>immediates := immediates c @ [TEndStream n]\<rparr>)"

fun perform :: "cont \<Rightarrow> client \<Rightarrow> outcome" where
  "perform (Call cb err v) c = run_callback cb err v c"
| "perform Deliver c = deliver c"
| "perform Resubscribe c = resubscribe c"
| "perform (StoreDeliver i) c = storeDeliver i c"
| "perform CheckEmpty c = Inr (checkEmpty c)"
| "perform (Process n) c = process_next n c"

fun run :: "nat \<Rightarrow> client \<Rightarrow> outcome option" where
  \<comment> \<open>until control returns to the event loop; \<open>None\<close>: the fuel did not suffice\<close>
  "run 0 c = (if todo c = [] then Some (Inr c) else None)"
| "run (Suc f) c =
     (case todo c of
        [] \<Rightarrow> Some (Inr c)
      | k # ks \<Rightarrow>
          (case perform k (c\<lparr>todo := ks\<rparr>) of
             Inl e \<Rightarrow> Some (Inl e)
           | Inr c1 \<Rightarrow> run f c1))"

section \<open>Events of the environment\<close>

datatype input =
    InData nat buffer            \<comment> \<open>the stream of a connection delivers a chunk\<close>
  | InDrain nat                  \<comment> \<open>its \<^verbatim>\<open>drain\<close> event\<close>
  | InFull nat                   \<comment> \<open>its \<^verbatim>\<open>write\<close> starts to return false\<close>
  | InUncork nat                 \<comment> \<open>the tick queued by \<^verbatim>\<open>writeToStream\<close>\<close>
  | InFinished nat               \<comment> \<open>end-of-stream calls back: the client emits \<^verbatim>\<open>close\<close>\<close>
  | InClosed nat                 \<comment> \<open>the \<^verbatim>\<open>close\<close> event of the stream itself\<close>
  | InConnackTimeout
  | InReconnectTick wstream
  | InPingTick
  | InImmediate
  | InEndTimer
  | InReadable nat               \<comment> \<open>a replay stream becomes readable\<close>
  | InStoreFill nat              \<comment> \<open>a replay stream reads ahead\<close>
  | InPublish jsval jsval "pub_opts option" "callback option"
  | InSubscribe topic_arg "jsval option" "callback option"
  | InUnsubscribe topic_arg "callback option"
  | InEnd bool "callback option"

definition on_close :: "client \<Rightarrow> client" where
  \<comment> \<open>the listeners of \<^verbatim>\<open>close\<close>, in the order of their registration\<close>
  "on_close c =
     setupReconnect ((emit EvClose c)\<lparr>connected := False, connackTimer := False, pingTimer := False\<rparr>)"

definition run_task :: "task \<Rightarrow> client \<Rightarrow> client" where
  "run_task t c =
     (case t of
        TCall cb err \<Rightarrow> push [Call cb err VNone] c
      | TEndStream n \<Rightarrow> upd_conn n (\<lambda>k. k\<lparr>cn_ended := True\<rparr>) c
      | TCloseStores cb \<Rightarrow>
          push (call_opt cb None VNone)
            (c\<lparr>disconnected := True, incomingStore := fst (store_close (incomingStore c) True),
               outgoingStore := fst (store_close (outgoingStore c) (cb \<noteq> None))\<rparr>))"

fun react :: "input \<Rightarrow> client \<Rightarrow> outcome" where
  "react (InData n buf) c =
     (if n < length (conns c) \<and> cn_busy (conns c ! n)
      then Inr (upd_conn n (\<lambda>k. k\<lparr>cn_backlog := cn_backlog k @ [buf]\<rparr>) c)
      else write_chunk n buf c)"
| "react (InDrain n) c =
     (if n < length (conns c) then
        Inr (push (map (\<lambda>k. Call k None VNone) (cn_drain (conns c ! n)))
          (upd_conn n (\<lambda>k. k\<lparr>cn_drain := [], cn_stream := (cn_stream k)\<lparr>sw_ok := True\<rparr>\<rparr>) c))
      else Inr c)"
| "react (InFull n) c = Inr (upd_conn n (\<lambda>k. k\<lparr>cn_stream := (cn_stream k)\<lparr>sw_ok := False\<rparr>\<rparr>) c)"
| "react (InUncork n) c = Inr (upd_conn n (\<lambda>k. k\<lparr>cn_stream := uncork (cn_stream k)\<rparr>) c)"
| "react (InFinished n) c = Inr (on_close c)"
| "react (InClosed n) c =
     (if n < length (conns c)
      then Inr (c\<lparr>immediates := immediates c @ map TCloseStores (cn_on_close (conns c ! n))\<rparr>)
      else Inr c)"
| "react InConnackTimeout c = (if connackTimer c then cleanUp (c\<lparr>connackTimer := False\<rparr>) True None else Inr c)"
| "react (InReconnectTick s) c = (if reconnectTimer c then reconnect s c else Inr c)"
| "react InPingTick c = (if pingTimer c then checkPing c else Inr c)"
| "react InImmediate c =
     (case immediates c of [] \<Rightarrow> Inr c | t # ts \<Rightarrow> Inr (run_task t (c\<lparr>immediates := ts\<rparr>)))"
| "react InEndTimer c =
     (case end_timers c of [] \<Rightarrow> Inr c | (force, cb) # ts \<Rightarrow> finish_end (c\<lparr>end_timers := ts\<rparr>) force cb)"
| "react (InReadable i) c = Inr (push [StoreDeliver i] c)"
| "react (InStoreFill i) c =
     (if i < length (replays c)
      then Inr (c\<lparr>replays := (replays c)[i := stream_fill (outgoingStore c) (replays c ! i)]\<rparr>)
      else Inr c)"
| "react (InPublish topic message opts cb) c = client_publish topic message opts cb c"
| "react (InSubscribe obj qos cb) c = client_subscribe obj qos cb c"
| "react (InUnsubscribe topic cb) c = client_unsubscribe topic cb c"
| "react (InEnd force cb) c = client_end force cb c"

section \<open>The constructor\<close>

definition blank_client :: "options \<Rightarrow> bool \<Rightarrow> int \<Rightarrow> client" where
  \<comment> \<open>\<open>seed\<close> is the value of \<^verbatim>\<open>Math.floor(Math.random() * 65535)\<close>\<close>
  "blank_client opts qz seed =
     \<lparr>c_opts = opts, queueQoSZero = qz, connected = False, disconnecting = False, disconnected = False,
      reconnecting = False, queue = [], outgoing = [], outgoingStore = new_Store, incomingStore = new_Store,
      nextId = seed, resubscribeTopics = [], firstConnection = True, pingTimer = False, pingResp = False,
      connackTimer = False, reconnectTimer = False, conns = [], replays = [], immediates = [],
      end_waiting = [], end_timers = [], todo = [], elog = []\<rparr>"

definition new_client :: "options \<Rightarrow> bool \<Rightarrow> int \<Rightarrow> wstream \<Rightarrow> outcome" where
  "new_client opts qz seed s = setupStream s (blank_client opts qz seed)"

text \<open>
  The reachable states: from a constructed client, by continuations that are due and, once none is, by
  events of the environment.
\<close>

inductive reachable :: "client \<Rightarrow> bool" where
  constructed: "new_client opts qz seed s = Inr c \<Longrightarrow> 0 \<le> seed \<Longrightarrow> seed < 65535 \<Longrightarrow> reachable c"
| continued: "reachable c \<Longrightarrow> todo c = k # ks \<Longrightarrow> perform k (c\<lparr>todo := ks\<rparr>) = Inr c' \<Longrightarrow> reachable c'"
| reacted: "reachable c \<Longrightarrow> todo c = [] \<Longrightarrow> react i c = Inr c' \<Longrightarrow> reachable c'"

end
