(* ===== verification/Client_Frame.thy ===== *)
theory Client_Frame
  imports Mqtt_Client
begin

text \<open>
  What the operations of the client leave alone, and the invariants of its reachable states: the range
  of the message ids, the keys of the two stores, and that a client that is ending never reconnects.
\<close>

section \<open>Sending\<close>

definition ctl :: "client \<Rightarrow> client" where
  \<comment> \<open>the part of the state that sending does not touch\<close>
  "ctl c = c\<lparr>elog := [], conns := [], todo := [], queue := [], outgoingStore := new_Store\<rparr>"

lemma ctl_simps [simp]:
  "ctl (c\<lparr>elog := x1\<rparr>) = ctl c"
  "ctl (c\<lparr>conns := x2\<rparr>) = ctl c"
  "ctl (c\<lparr>todo := x3\<rparr>) = ctl c"
  "ctl (c\<lparr>queue := x4\<rparr>) = ctl c"
  "ctl (c\<lparr>outgoingStore := x5\<rparr>) = ctl c"
  "ctl (upd_conn n f c) = ctl c"
  by (simp_all add: ctl_def upd_conn_def)

lemma upd_conn_fields [simp]:
  "elog (upd_conn n f c) = elog c" "todo (upd_conn n f c) = todo c" "queue (upd_conn n f c) = queue c"
  "outgoingStore (upd_conn n f c) = outgoingStore c" "incomingStore (upd_conn n f c) = incomingStore c"
  "connected (upd_conn n f c) = connected c" "length (conns (upd_conn n f c)) = length (conns c)"
  "nextId (upd_conn n f c) = nextId c" "disconnecting (upd_conn n f c) = disconnecting c"
  "reconnectTimer (upd_conn n f c) = reconnectTimer c" "outgoing (upd_conn n f c) = outgoing c"
  "queueQoSZero (upd_conn n f c) = queueQoSZero c" "disconnected (upd_conn n f c) = disconnected c"
  "c_opts (upd_conn n f c) = c_opts c" "replays (upd_conn n f c) = replays c"
  by (simp_all add: upd_conn_def)

lemma sendPacket_ctl: "sendPacket c p cb = Inr c' \<Longrightarrow> ctl c' = ctl c"
  by (auto simp: sendPacket_def Let_def result_simps split: option.splits if_splits)

lemma sendPacket_store: "sendPacket c p cb = Inr c' \<Longrightarrow> outgoingStore c' = outgoingStore c \<and> queue c' = queue c"
  by (auto simp: sendPacket_def Let_def result_simps split: option.splits if_splits)

lemma storeAndSend_ctl: "storeAndSend c p cb = Inr c' \<Longrightarrow> ctl c' = ctl c"
  by (auto simp: storeAndSend_def result_simps dest!: sendPacket_ctl)

lemma send_ctl: "send_or_queue c p cb = Inr c' \<Longrightarrow> ctl c' = ctl c"
  by (auto simp: send_or_queue_def dest!: sendPacket_ctl storeAndSend_ctl split: if_splits)

lemma send_store:
  "send_or_queue c p cb = Inr c' \<Longrightarrow> outgoingStore c' = outgoingStore c
     \<or> (\<exists>r. store_put (outgoingStore c) p True = Inr (outgoingStore c', r))"
  by (auto simp: send_or_queue_def storeAndSend_def result_simps dest!: sendPacket_store split: if_splits)

lemma ctl_fields:
  assumes "ctl c = ctl d"
  shows "connected c = connected d" "disconnecting c = disconnecting d" "disconnected c = disconnected d"
    "outgoing c = outgoing d" "incomingStore c = incomingStore d" "nextId c = nextId d"
    "reconnectTimer c = reconnectTimer d" "pingTimer c = pingTimer d" "pingResp c = pingResp d"
    "c_opts c = c_opts d" "queueQoSZero c = queueQoSZero d" "replays c = replays d" "immediates c = immediates d"
    "end_waiting c = end_waiting d" "end_timers c = end_timers d" "resubscribeTopics c = resubscribeTopics d"
    "firstConnection c = firstConnection d" "reconnecting c = reconnecting d" "connackTimer c = connackTimer d"
  using assms by (cases c; cases d; simp add: ctl_def)+

lemmas send_fields = ctl_fields [OF send_ctl]

section \<open>A safety invariant\<close>

definition client_inv :: "client \<Rightarrow> bool" where
  "client_inv c \<longleftrightarrow> 0 \<le> nextId c \<and> nextId c \<le> 65535 \<and> (disconnecting c \<longrightarrow> \<not> reconnectTimer c)
     \<and> store_inv (outgoingStore c) \<and> store_inv (incomingStore c)"

definition upholds :: "outcome \<Rightarrow> bool" where
  "upholds m \<longleftrightarrow> (\<forall>c'. m = Inr c' \<longrightarrow> client_inv c')"

lemma upholds_Inr [simp]: "upholds (Inr c) = client_inv c"
  by (simp add: upholds_def)

lemma upholds_Inl [simp]: "upholds (Inl e)"
  by (simp add: upholds_def)

lemma upholds_bind: "upholds m \<Longrightarrow> (\<And>c. client_inv c \<Longrightarrow> upholds (f c)) \<Longrightarrow> upholds (rbind m f)"
  by (cases m) (auto simp: upholds_def)

lemma client_inv_irrelevant [simp]:
  "client_inv (c\<lparr>elog := x1\<rparr>) = client_inv c" "client_inv (c\<lparr>todo := x2\<rparr>) = client_inv c"
  "client_inv (c\<lparr>queue := x3\<rparr>) = client_inv c" "client_inv (c\<lparr>conns := x4\<rparr>) = client_inv c"
  "client_inv (c\<lparr>outgoing := x5\<rparr>) = client_inv c" "client_inv (c\<lparr>connected := x6\<rparr>) = client_inv c"
  "client_inv (c\<lparr>pingTimer := x7\<rparr>) = client_inv c" "client_inv (c\<lparr>pingResp := x8\<rparr>) = client_inv c"
  "client_inv (c\<lparr>connackTimer := x9\<rparr>) = client_inv c" "client_inv (c\<lparr>reconnecting := x10\<rparr>) = client_inv c"
  "client_inv (c\<lparr>replays := x11\<rparr>) = client_inv c" "client_inv (c\<lparr>immediates := x12\<rparr>) = client_inv c"
  "client_inv (c\<lparr>end_timers := x13\<rparr>) = client_inv c" "client_inv (c\<lparr>end_waiting := x14\<rparr>) = client_inv c"
  "client_inv (c\<lparr>resubscribeTopics := x15\<rparr>) = client_inv c" "client_inv (c\<lparr>firstConnection := x16\<rparr>) = client_inv c"
  "client_inv (c\<lparr>disconnected := x17\<rparr>) = client_inv c" "client_inv (upd_conn n f c) = client_inv c"
  by (simp_all add: client_inv_def upd_conn_def)

lemma client_inv_timer_off: "client_inv c \<Longrightarrow> client_inv (c\<lparr>reconnectTimer := False\<rparr>)"
  by (simp add: client_inv_def)

lemma client_inv_reconnect:
  "client_inv c \<Longrightarrow> client_inv (clearReconnect c)" "client_inv c \<Longrightarrow> client_inv (setupReconnect c)"
  by (auto simp: client_inv_def clearReconnect_def setupReconnect_def Let_def)

lemma client_inv_send: "client_inv c \<Longrightarrow> upholds (send_or_queue c p cb)"
  unfolding upholds_def
proof (intro allI impI)
  fix c' assume i: "client_inv c" and s: "send_or_queue c p cb = Inr c'"
  have "store_inv (outgoingStore c')"
    using send_store [OF s] i store_inv_put by (auto simp: client_inv_def)
  then show "client_inv c'" using i send_fields [OF s] by (simp add: client_inv_def)
qed

lemma client_inv_take_id: "client_inv c \<Longrightarrow> take_id c = (mid, c1) \<Longrightarrow> client_inv c1"
  by (auto simp: client_inv_def take_id_def Let_def split: if_splits)

lemma client_inv_incoming:
  "client_inv c \<Longrightarrow> store_put (incomingStore c) p b = Inr (st, r) \<Longrightarrow> client_inv (c\<lparr>incomingStore := st\<rparr>)"
  by (auto simp: client_inv_def dest: store_inv_put)

lemma client_inv_checkDisconnecting: "client_inv c \<Longrightarrow> client_inv (checkDisconnecting c cb)"
  by (auto simp: checkDisconnecting_def split: option.split)

lemma client_inv_publish: "client_inv c \<Longrightarrow> upholds (client_publish t m opts cb c)"
  by (auto simp: client_publish_def Let_def client_inv_checkDisconnecting dest: client_inv_take_id
      intro!: client_inv_send split: prod.split)

lemma client_inv_subscribe: "client_inv c \<Longrightarrow> upholds (client_subscribe obj qos cb c)"
proof (cases "invalid_topic obj")
  case (Inr inv)
  assume "client_inv c"
  then show ?thesis
    using Inr by (cases inv)
      (auto simp: client_subscribe_def Let_def client_inv_checkDisconnecting dest: client_inv_take_id
        intro!: client_inv_send split: prod.split)
qed (simp add: client_subscribe_def)

lemma client_inv_unsubscribe: "client_inv c \<Longrightarrow> upholds (client_unsubscribe t cb c)"
  by (auto simp: client_unsubscribe_def Let_def intro!: client_inv_send client_inv_checkDisconnecting
      split: prod.split topic_arg.split option.split dest: client_inv_take_id)

lemma client_inv_cleanUp: "client_inv c \<Longrightarrow> upholds (cleanUp c forced d)"
  unfolding cleanUp_def Let_def
  by (rule upholds_bind) (auto simp: client_inv_reconnect intro: client_inv_send split: option.split)

lemma client_inv_end: "client_inv c \<Longrightarrow> upholds (client_end force cb c)"
proof -
  assume i: "client_inv c"
  have "client_inv ((clearReconnect c)\<lparr>disconnecting := True\<rparr>)"
    using i by (auto simp: clearReconnect_def client_inv_def)
  then show ?thesis
    using i by (auto simp: client_end_def Let_def finish_end_def intro: client_inv_cleanUp)
qed

lemma client_inv_setupStream: "client_inv c \<Longrightarrow> upholds (setupStream s c)"
proof -
  assume i: "client_inv c"
  have "upholds (sendPacket d p None)" if "client_inv d" for d p
    unfolding upholds_def
  proof (intro allI impI)
    fix c' assume e: "sendPacket d p None = Inr c'"
    show "client_inv c'"
      using that ctl_fields [OF sendPacket_ctl [OF e]] sendPacket_store [OF e] by (simp add: client_inv_def)
  qed
  then show ?thesis
    unfolding setupStream_def Let_def using i client_inv_reconnect(1) by (intro upholds_bind) auto
qed

lemma client_inv_on_connect: "client_inv c \<Longrightarrow> upholds (on_connect c)"
  unfolding on_connect_def Let_def
  by (rule upholds_bind) (auto simp: setupPingTimer_def upholds_def result_simps split: if_splits)

lemma client_inv_handleAck: "client_inv c \<Longrightarrow> upholds (handleAck p c)"
proof -
  assume i: "client_inv c"
  have d: "client_inv (d\<lparr>outgoingStore := st\<rparr>)" if "client_inv d" "store_del (outgoingStore d) p True = Inr (st, r)" for d st r
    using that store_inv_del by (auto simp: client_inv_def)
  have ack: "upholds (rbind (store_del (outgoingStore (c\<lparr>outgoing := o'\<rparr>)) p True) (\<lambda>(st, reply).
      Inr (push (case reply of ReplyOk q \<Rightarrow> [Call cb None (VPacket q), CheckEmpty]
             | ReplyError e \<Rightarrow> [Call cb (Some e) VNone, CheckEmpty] | _ \<Rightarrow> [CheckEmpty])
           (c\<lparr>outgoing := o', outgoingStore := st\<rparr>))))" for o' cb
    using d [of "c\<lparr>outgoing := o'\<rparr>"] i by (auto simp: upholds_def result_simps)
  have rec: "upholds (rbind (send_or_queue c k None) (\<lambda>c1. Inr (push [CheckEmpty] c1)))" for k
    using i by (intro upholds_bind client_inv_send) auto
  show ?thesis
    using i rec ack by (auto simp: handleAck_def Let_def split: option.split cmd.split)
qed

lemma client_inv_handlePublish: "client_inv c \<Longrightarrow> upholds (handlePublish n p c)"
proof -
  assume i: "client_inv c"
  have "upholds (rbind (store_put (incomingStore c) p True) (\<lambda>(st, _). send_or_queue (c\<lparr>incomingStore := st\<rparr>) k cb))" for k cb
    using client_inv_incoming [OF i] client_inv_send
    by (cases "store_put (incomingStore c) p True") auto
  moreover have "upholds (rbind (if b then send_or_queue c k None else Inr c) (\<lambda>c1. Inr (push [Process n] (emit e c1))))" for b k e
    using i by (intro upholds_bind) (auto intro: client_inv_send)
  ultimately show ?thesis using i by (simp add: handlePublish_def Let_def)
qed

lemma client_inv_handlePubrel: "client_inv c \<Longrightarrow> upholds (handlePubrel n p c)"
proof -
  assume i: "client_inv c"
  have "upholds (rbind (if b then rbind (store_put (incomingStore c) p False) (\<lambda>(st, _).
      Inr ((emit e c)\<lparr>incomingStore := st\<rparr>)) else Inr c) (\<lambda>c1. send_or_queue c1 k cb))" for b e k cb
  proof (rule upholds_bind)
    have "client_inv ((emit e c)\<lparr>incomingStore := st\<rparr>)" if "store_put (incomingStore c) p False = Inr (st, r)" for st r
      using client_inv_incoming [of "emit e c"] i that by simp
    then show "upholds (if b then rbind (store_put (incomingStore c) p False) (\<lambda>(st, _).
      Inr ((emit e c)\<lparr>incomingStore := st\<rparr>)) else Inr c)"
      using i by (auto simp: upholds_def result_simps)
  qed (rule client_inv_send)
  then show ?thesis
    using i by (cases "store_get (incomingStore c) p True")
      (auto simp: handlePubrel_def Let_def split: store_reply.split)
qed

lemma client_inv_handlePacket: "client_inv c \<Longrightarrow> upholds (handlePacket n p c)"
  by (auto simp: handlePacket_def Let_def handleConnack_def split: cmd.split jsval.split
      intro!: client_inv_handleAck client_inv_handlePublish client_inv_handlePubrel client_inv_on_connect)

lemma client_inv_foldl_emit: "client_inv (foldl (\<lambda>c e. emit (EvClientError e) c) c es) = client_inv c"
  by (induction es arbitrary: c) simp_all

lemma client_inv_write_chunk: "client_inv c \<Longrightarrow> upholds (write_chunk n b c)"
  by (auto simp: write_chunk_def Let_def client_inv_foldl_emit split: option.split sum.split)

lemma client_inv_process: "client_inv c \<Longrightarrow> upholds (process_next n c)"
  by (auto simp: process_next_def Let_def split: list.split intro!: client_inv_handlePacket client_inv_write_chunk)

lemma client_inv_storeDeliver: "client_inv c \<Longrightarrow> upholds (storeDeliver i c)"
  by (auto simp: storeDeliver_def Let_def split: prod.split option.split intro!: client_inv_send)

lemma client_inv_resubscribe: "client_inv c \<Longrightarrow> upholds (resubscribe c)"
  unfolding resubscribe_def by (rule upholds_bind) (auto intro: client_inv_subscribe)

lemma client_inv_callback: "client_inv c \<Longrightarrow> upholds (run_callback cb err v c)"
  by (cases cb) (auto simp: upholds_def result_simps)

lemma client_inv_perform: "client_inv c \<Longrightarrow> upholds (perform k c)"
  by (cases k) (auto simp: deliver_def checkEmpty_def split: list.split intro: client_inv_callback client_inv_send
      client_inv_storeDeliver client_inv_resubscribe client_inv_process)

lemma client_inv_react: "client_inv c \<Longrightarrow> upholds (react i c)"
proof (cases i)
  case InImmediate
  assume "client_inv c"
  then show ?thesis
    using InImmediate by (auto simp: run_task_def client_inv_def store_close_def store_inv_def upd_conn_def
        split: list.split task.split)
qed (auto simp: on_close_def checkPing_def reconnect_def finish_end_def split: list.split
    intro!: client_inv_write_chunk client_inv_cleanUp client_inv_setupStream client_inv_send client_inv_reconnect
      client_inv_publish client_inv_subscribe client_inv_unsubscribe client_inv_end)

lemma reachable_inv: "reachable c \<Longrightarrow> client_inv c"
proof (induction rule: reachable.induct)
  case (constructed opts qz seed s c)
  have "client_inv (blank_client opts qz seed)"
    using constructed(2,3) by (simp add: client_inv_def blank_client_def store_inv_new)
  from client_inv_setupStream [OF this, of s] show ?case
    using constructed(1) by (simp add: new_client_def upholds_def)
next
  case (continued c k ks c')
  then show ?case using client_inv_perform [of "c\<lparr>todo := ks\<rparr>" k] by (simp add: upholds_def)
next
  case (reacted c i c')
  then show ?case using client_inv_react [of c i] by (simp add: upholds_def)
qed

end
