(* ===== verification/Client_Ids.thy ===== *)
theory Client_Ids
  imports Client_Frame
begin

text \<open>
  Message ids, and the life of a client that is ending.
\<close>

section \<open>Message ids\<close>

definition sample_options :: options where
  "sample_options = \<lparr>o_keepalive = 60, o_reschedulePings = True, o_reconnectPeriod = 1000, o_clean = True,
     o_connect = sample_connect\<rparr>"

fun take_ids :: "nat \<Rightarrow> client \<Rightarrow> int list \<times> client" where
  "take_ids 0 c = ([], c)"
| "take_ids (Suc n) c = (let (mid, c1) = take_id c; (ids, c2) = take_ids n c1 in (mid # ids, c2))"

definition next_id :: "int \<Rightarrow> int" where
  "next_id i = (if i = 65535 then 1 else i + 1)"

lemma take_id_next: "take_id c = (nextId c, c\<lparr>nextId := next_id (nextId c)\<rparr>)"
  by (simp add: take_id_def next_id_def Let_def)

lemma take_ids_eq: "take_ids n c = (map (\<lambda>k. (next_id ^^ k) (nextId c)) [0..<n], c\<lparr>nextId := (next_id ^^ n) (nextId c)\<rparr>)"
proof (induction n arbitrary: c)
  case (Suc n)
  have "map (\<lambda>k. (next_id ^^ k) (nextId c)) [0..<Suc n] =
      nextId c # map (\<lambda>k. (next_id ^^ k) (next_id (nextId c))) [0..<n]"
    by (simp add: upt_conv_Cons map_Suc_upt [symmetric] funpow_swap1 comp_def del: upt_Suc)
  then show ?case by (simp add: take_id_next Suc funpow_swap1 del: upt_Suc)
qed simp

lemma next_id_pow:
  assumes "1 \<le> i" "i \<le> 65535"
  shows "(next_id ^^ k) i = (i - 1 + int k) mod 65535 + 1"
proof (induction k)
  case 0
  then show ?case using assms by simp
next
  case (Suc k)
  have "(next_id ^^ Suc k) i = next_id ((i - 1 + int k) mod 65535 + 1)" using Suc by simp
  also have "\<dots> = ((i - 1 + int k) mod 65535 + 1) mod 65535 + 1"
  proof (cases "(i - 1 + int k) mod 65535 = 65534")
    case True
    then show ?thesis by (simp add: next_id_def)
  next
    case False
    have "(i - 1 + int k) mod 65535 < 65535" "0 \<le> (i - 1 + int k) mod 65535" by simp_all
    with False show ?thesis by (simp add: next_id_def)
  qed
  also have "\<dots> = (i - 1 + int (Suc k)) mod 65535 + 1"
    using mod_add_left_eq [of "i - 1 + int k" 65535 1] by (simp add: add.assoc [symmetric])
  finally show ?case .
qed

text \<open>
  \<^bold>\<open>C9.\<close> Message ids do not repeat: from a client whose next id is between 1 and 65535, any number of
  operations up to 65535 get pairwise different ids, all of them valid non-zero 16-bit ids, and the
  counter is in its range again afterwards, whatever the wrap-around.
\<close>

theorem ids_distinct:
  assumes "1 \<le> nextId c" "nextId c \<le> 65535" "n \<le> 65535"
  shows "distinct (fst (take_ids n c)) \<and> (\<forall>i \<in> set (fst (take_ids n c)). 1 \<le> i \<and> i \<le> 65535)
    \<and> 1 \<le> nextId (snd (take_ids n c)) \<and> nextId (snd (take_ids n c)) \<le> 65535"
proof -
  note e = next_id_pow [OF assms(1,2)]
  have "inj_on (\<lambda>k. (nextId c - 1 + int k) mod 65535 + 1) {0..<n}"
  proof (rule inj_onI)
    fix j k assume j: "j \<in> {0..<n}" and k: "k \<in> {0..<n}"
      and "(nextId c - 1 + int j) mod 65535 + 1 = (nextId c - 1 + int k) mod 65535 + 1"
    then have "(nextId c - 1 + int j) mod 65535 = (nextId c - 1 + int k) mod 65535" by simp
    then have "65535 dvd (nextId c - 1 + int j) - (nextId c - 1 + int k)" by (simp only: mod_eq_dvd_iff)
    then have d: "65535 dvd int j - int k" by simp
    show "j = k"
    proof (rule ccontr)
      assume "j \<noteq> k"
      then have "int j - int k \<noteq> 0" by simp
      then have "\<bar>65535::int\<bar> \<le> \<bar>int j - int k\<bar>" using d by (rule dvd_imp_le_int)
      then show False using j k assms(3) by auto
    qed
  qed
  then have "distinct (map (\<lambda>k. (next_id ^^ k) (nextId c)) [0..<n])"
    by (simp add: distinct_map e)
  moreover have "1 \<le> (x mod 65535) + 1 \<and> (x mod 65535) + 1 \<le> (65535 :: int)" for x
    using pos_mod_bound [of 65535 x] pos_mod_sign [of 65535 x] by linarith
  ultimately show ?thesis by (auto simp: take_ids_eq e)
qed

theorem ids_distinct_witness:
  "distinct (fst (take_ids 10 (blank_client sample_options True 65530)))
    \<and> list_all (\<lambda>i. 1 \<le> i \<and> i \<le> 65535) (fst (take_ids 10 (blank_client sample_options True 65530)))
    \<and> 1 \<le> nextId (snd (take_ids 10 (blank_client sample_options True 65530)))
    \<and> nextId (snd (take_ids 10 (blank_client sample_options True 65530))) \<le> 65535"
  using ids_distinct [of "blank_client sample_options True 65530" 10]
  by (simp add: blank_client_def list_all_iff)

text \<open>
  The one exception: the counter starts at a random number from 0 on, and a client that starts
  with 0 uses the id 0, which the protocol does not allow, for its first packet; asked for the last id
  it then answers 65535. From every other start the last id is the one just used.
\<close>

lemma first_id_zero:
  "(nextId c = 0 \<longrightarrow> fst (take_id c) = 0 \<and> getLastMessageId (snd (take_id c)) = 65535)
   \<and> (1 \<le> nextId c \<and> nextId c \<le> 65535 \<longrightarrow> getLastMessageId (snd (take_id c)) = fst (take_id c))"
  by (simp add: take_id_def getLastMessageId_def Let_def)

lemma first_id_zero_witness:
  "\<exists>c. nextId c = 0 \<and> fst (take_id c) = 0 \<and> getLastMessageId (snd (take_id c)) = 65535"
proof -
  have "nextId (blank_client sample_options True 0) = 0" by (simp add: blank_client_def)
  then show ?thesis using first_id_zero [of "blank_client sample_options True 0"] by blast
qed

section \<open>Ending\<close>

text \<open>
  \<^bold>\<open>C6.\<close> Safety of every reachable state, between and inside the handlers: message ids stay within 16
  bits, both stores hold each packet under its own id and each id once, and a client on which \<^verbatim>\<open>end\<close> was
  called has no reconnect timer, so it never opens another connection.
\<close>

theorem reachable_safe:
  assumes "reachable c"
  shows "0 \<le> nextId c \<and> nextId c \<le> 65535
    \<and> store_inv (outgoingStore c) \<and> store_inv (incomingStore c)
    \<and> (disconnecting c \<longrightarrow> \<not> reconnectTimer c \<and> react (InReconnectTick s) c = Inr c)"
  using reachable_inv [OF assms] by (simp add: client_inv_def)

lemma new_client_ok: "\<exists>c. new_client sample_options True 7 new_Accumulator = Inr c"
proof -
  have "connect_ok sample_connect" using samples_ok(2) by (simp add: wf_packet_def sample_connect_def bare_packet_def)
  moreover have "sample_connect\<lparr>p_cmd := Connect\<rparr> = sample_connect" by (simp add: sample_connect_def bare_packet_def)
  moreover have "\<exists>r s. connect k new_Accumulator = Inr (r, s)" for k
    by (auto simp: connect_def Let_def fail_with_def split: sum.split)
  then have "\<exists>r s. writeToStream sample_connect new_Accumulator = Inr (r, s)"
    by (simp add: writeToStream_def sample_connect_def bare_packet_def new_Accumulator_def Let_def)
  ultimately show ?thesis
    by (auto simp: new_client_def setupStream_def sendPacket_def Let_def blank_client_def clearReconnect_def
        sample_options_def cur_def)
qed

theorem reachable_safe_witness:
  "\<exists>c. reachable c \<and> 0 \<le> nextId c \<and> nextId c \<le> 65535
    \<and> store_inv (outgoingStore c) \<and> store_inv (incomingStore c)
    \<and> (disconnecting c \<longrightarrow> \<not> reconnectTimer c \<and> react (InReconnectTick new_Accumulator) c = Inr c)"
proof -
  obtain c where "new_client sample_options True 7 new_Accumulator = Inr c" using new_client_ok by blast
  then have r: "reachable c" by (rule reachable.constructed) simp_all
  show ?thesis using reachable_safe [OF r, of new_Accumulator] r by blast
qed

end
