(* ===== verification/Client_Receive.thy ===== *)
theory Client_Receive
  imports Client_Ids
begin

text \<open>
  Delivery of incoming messages. The specification is a machine with the packets accepted at QoS 2 and
  not released yet, and the list of packets delivered to the application; every step of the client
  simulates a step of it.
\<close>

section \<open>The specification\<close>

type_synonym delivery = "(jsval \<Rightarrow> packet option) \<times> packet list"

inductive qos2_step :: "delivery \<Rightarrow> delivery \<Rightarrow> bool" where
  quiet: "qos2_step (A, ms) (A, ms)"
| direct: "p_qos p = JNum 0 \<or> p_qos p = JNum 1 \<Longrightarrow> qos2_step (A, ms) (A, ms @ [p])"
| accept: "p_qos p = JNum 2 \<Longrightarrow> qos2_step (A, ms) (A(p_messageId p \<mapsto> p), ms)"
| release: "A mid = Some p \<Longrightarrow> qos2_step (A, ms) (A(mid := None), ms @ [p])"

inductive_cases qos2_stepE: "qos2_step (A, ms) d"

definition waiting :: "packet \<Rightarrow> packet option" where
  \<comment> \<open>a stored packet that is not the PUBREL which replaced it\<close>
  "waiting p = (if p_cmd p \<noteq> Pubrel then Some p else None)"

definition awaiting :: "client \<Rightarrow> jsval \<Rightarrow> packet option" where
  "awaiting c mid = Option.bind (map_of (inflights (incomingStore c)) mid) waiting"

fun message_of :: "client_event \<Rightarrow> packet list" where
  "message_of (EvMessage t m p) = [p]"
| "message_of _ = []"

definition delivered :: "client \<Rightarrow> packet list" where
  "delivered c = concat (map message_of (elog c))"

definition abs_delivery :: "client \<Rightarrow> delivery" where
  "abs_delivery c = (awaiting c, delivered c)"

section \<open>Steps that deliver nothing\<close>

lemma abs_irrelevant [simp]:
  "abs_delivery (c\<lparr>todo := x2\<rparr>) = abs_delivery c"
  "abs_delivery (c\<lparr>queue := x3\<rparr>) = abs_delivery c" "abs_delivery (c\<lparr>conns := x4\<rparr>) = abs_delivery c"
  "abs_delivery (c\<lparr>outgoing := x5\<rparr>) = abs_delivery c" "abs_delivery (c\<lparr>connected := x6\<rparr>) = abs_delivery c"
  "abs_delivery (c\<lparr>pingTimer := x7\<rparr>) = abs_delivery c" "abs_delivery (c\<lparr>pingResp := x8\<rparr>) = abs_delivery c"
  "abs_delivery (c\<lparr>connackTimer := x9\<rparr>) = abs_delivery c" "abs_delivery (c\<lparr>reconnecting := x10\<rparr>) = abs_delivery c"
  "abs_delivery (c\<lparr>replays := x11\<rparr>) = abs_delivery c" "abs_delivery (c\<lparr>immediates := x12\<rparr>) = abs_delivery c"
  "abs_delivery (c\<lparr>end_timers := x13\<rparr>) = abs_delivery c" "abs_delivery (c\<lparr>end_waiting := x14\<rparr>) = abs_delivery c"
  "abs_delivery (c\<lparr>resubscribeTopics := x15\<rparr>) = abs_delivery c" "abs_delivery (c\<lparr>firstConnection := x16\<rparr>) = abs_delivery c"
  "abs_delivery (c\<lparr>disconnected := x17\<rparr>) = abs_delivery c" "abs_delivery (upd_conn n f c) = abs_delivery c"
  "abs_delivery (c\<lparr>outgoingStore := x18\<rparr>) = abs_delivery c" "abs_delivery (c\<lparr>nextId := x19\<rparr>) = abs_delivery c"
  "abs_delivery (c\<lparr>reconnectTimer := x20\<rparr>) = abs_delivery c" "abs_delivery (c\<lparr>disconnecting := x21\<rparr>) = abs_delivery c"
  by (simp_all add: abs_delivery_def awaiting_def delivered_def upd_conn_def fun_eq_iff)

lemma abs_emit: "message_of e = [] \<Longrightarrow> abs_delivery (emit e c) = abs_delivery c"
  by (simp add: abs_delivery_def awaiting_def delivered_def fun_eq_iff)

lemma abs_emits [simp]:
  "abs_delivery (emit (EvPacketSend p) c) = abs_delivery c"
  "abs_delivery (emit (EvPacketReceive p) c) = abs_delivery c"
  "abs_delivery (emit EvConnect c) = abs_delivery c"
  "abs_delivery (emit EvClose c) = abs_delivery c"
  "abs_delivery (emit EvOffline c) = abs_delivery c"
  "abs_delivery (emit EvReconnect c) = abs_delivery c"
  "abs_delivery (emit (EvClientError e) c) = abs_delivery c"
  "abs_delivery (emit EvOutgoingEmpty c) = abs_delivery c"
  "abs_delivery (emit (EvCallback u err v) c) = abs_delivery c"
  by (simp_all add: abs_emit)

definition silent :: "delivery \<Rightarrow> outcome \<Rightarrow> bool" where
  "silent d m \<longleftrightarrow> (\<forall>c'. m = Inr c' \<longrightarrow> abs_delivery c' = d)"

lemma silent_Inr [simp]: "silent d (Inr c) = (abs_delivery c = d)"
  by (simp add: silent_def)

lemma silent_Inl [simp]: "silent d (Inl e)"
  by (simp add: silent_def)

lemma silent_bind: "silent d m \<Longrightarrow> (\<And>c. abs_delivery c = d \<Longrightarrow> silent d (f c)) \<Longrightarrow> silent d (rbind m f)"
  by (cases m) (auto simp: silent_def)

lemma silent_bind_any: "(\<And>x. silent d (f x)) \<Longrightarrow> silent d (rbind m f)"
  by (cases m) (auto simp: silent_def)

lemma silent_sendPacket: "abs_delivery c = d \<Longrightarrow> silent d (sendPacket c p cb)"
  by (auto simp: sendPacket_def Let_def intro!: silent_bind_any split: option.split)

lemma silent_send: "abs_delivery c = d \<Longrightarrow> silent d (send_or_queue c p cb)"
  by (auto simp: send_or_queue_def storeAndSend_def intro!: silent_bind_any silent_sendPacket)

lemma silent_reconnects:
  "abs_delivery (clearReconnect c) = abs_delivery c" "abs_delivery (setupReconnect c) = abs_delivery c"
  "abs_delivery (setupPingTimer c) = abs_delivery c" "abs_delivery (checkDisconnecting c cb) = abs_delivery c"
  "abs_delivery (checkEmpty c) = abs_delivery c"
  by (auto simp: clearReconnect_def setupReconnect_def Let_def setupPingTimer_def checkDisconnecting_def checkEmpty_def
      split: option.split)

lemma silent_take_id: "take_id c = (mid, c1) \<Longrightarrow> abs_delivery c1 = abs_delivery c"
  by (auto simp: take_id_def Let_def split: if_splits)

lemma silent_cleanUp: "abs_delivery c = d \<Longrightarrow> silent d (cleanUp c forced dn)"
  unfolding cleanUp_def Let_def
  by (rule silent_bind) (auto simp: silent_reconnects intro: silent_send split: option.split)

lemma silent_setupStream: "abs_delivery c = d \<Longrightarrow> silent d (setupStream s c)"
  unfolding setupStream_def Let_def
  by (rule silent_bind) (auto simp: silent_reconnects intro!: silent_sendPacket)

lemma silent_api:
  "abs_delivery c = d \<Longrightarrow> silent d (client_publish t m opts cb c)"
  "abs_delivery c = d \<Longrightarrow> silent d (client_unsubscribe ta cb c)"
  "abs_delivery c = d \<Longrightarrow> silent d (client_end force cb c)"
  by (auto simp: client_publish_def client_unsubscribe_def client_end_def finish_end_def Let_def silent_reconnects
      dest: silent_take_id intro!: silent_send silent_cleanUp split: prod.split topic_arg.split option.split)

lemma silent_subscribe: "abs_delivery c = d \<Longrightarrow> silent d (client_subscribe obj qos cb c)"
  unfolding client_subscribe_def Let_def
  by (rule silent_bind_any)
     (auto simp: silent_reconnects dest: silent_take_id intro!: silent_send split: option.split prod.split)

lemma silent_on_connect: "abs_delivery c = d \<Longrightarrow> silent d (on_connect c)"
  unfolding on_connect_def Let_def
  by (rule silent_bind) (auto simp: silent_reconnects intro!: silent_bind_any)

lemma silent_handleAck: "abs_delivery c = d \<Longrightarrow> silent d (handleAck p c)"
proof -
  assume d: "abs_delivery c = d"
  have "silent d (rbind (send_or_queue c k None) (\<lambda>c1. Inr (push [CheckEmpty] c1)))" for k
    by (rule silent_bind [OF silent_send [OF d]]) simp
  moreover have "silent d (rbind (store_del st p True) (\<lambda>(st, reply). Inr (push (f reply) (c\<lparr>outgoing := x, outgoingStore := st\<rparr>))))"
    for st f x
    by (rule silent_bind_any) (auto simp: d)
  ultimately show ?thesis
    using d by (auto simp: handleAck_def Let_def split: option.split cmd.split)
qed

lemma silent_handleConnack: "abs_delivery c = d \<Longrightarrow> silent d (handleConnack p c)"
  by (auto simp: handleConnack_def Let_def abs_delivery_def awaiting_def delivered_def fun_eq_iff
      intro!: silent_on_connect split: jsval.split)

lemma silent_foldl: "abs_delivery (foldl (\<lambda>c e. emit (EvClientError e) c) c es) = abs_delivery c"
  by (induction es arbitrary: c) simp_all

lemma silent_write_chunk: "abs_delivery c = d \<Longrightarrow> silent d (write_chunk n b c)"
  by (auto simp: write_chunk_def Let_def silent_foldl split: option.split sum.split)

lemma silent_storeDeliver: "abs_delivery c = d \<Longrightarrow> silent d (storeDeliver i c)"
  by (auto simp: storeDeliver_def Let_def split: prod.split option.split intro!: silent_send)

lemma silent_callback: "abs_delivery c = d \<Longrightarrow> silent d (run_callback cb err v c)"
  by (cases cb) (auto intro!: silent_bind_any)

section \<open>Steps that deliver\<close>

definition simulates :: "delivery \<Rightarrow> outcome \<Rightarrow> bool" where
  "simulates d m \<longleftrightarrow> (\<forall>c'. m = Inr c' \<longrightarrow> qos2_step d (abs_delivery c'))"

lemma simulates_silent: "silent d m \<Longrightarrow> simulates d m"
  by (cases d) (auto simp: silent_def simulates_def intro: qos2_step.quiet)

lemma simulates_then_silent:
  assumes "qos2_step d d'" "silent d' m"
  shows "simulates d m"
  using assms by (auto simp: silent_def simulates_def)

lemma abs_message: "abs_delivery (emit (EvMessage t m p) c) = (awaiting c, delivered c @ [p])"
  by (simp add: abs_delivery_def awaiting_def delivered_def fun_eq_iff)

lemma awaiting_put:
  assumes "store_put (incomingStore c) p b = Inr (st, r)"
  shows "awaiting (c\<lparr>incomingStore := st\<rparr>) = (awaiting c)(p_messageId p := waiting p)"
  using assms by (auto simp: store_put_def awaiting_def map_of_set_prop fun_eq_iff split: if_splits)

lemma delivered_put: "delivered (c\<lparr>incomingStore := st\<rparr>) = delivered c"
  by (simp add: delivered_def)

lemma simulates_publish:
  assumes "p_cmd p = Publish"
  shows "simulates (abs_delivery c) (handlePublish n p c)"
proof -
  consider "p_qos p = JNum 2" | "p_qos p = JNum 1 \<or> p_qos p = JNum 0" | "p_qos p \<notin> {JNum 0, JNum 1, JNum 2}" by blast
  then show ?thesis
  proof cases
    case 1
    show ?thesis
    proof (cases "store_put (incomingStore c) p True")
      case (Inr y)
      then obtain st r where p: "store_put (incomingStore c) p True = Inr (st, r)" by (cases y) auto
      have w: "waiting p = Some p" using assms by (simp add: waiting_def)
      have "abs_delivery (c\<lparr>incomingStore := st\<rparr>) = ((awaiting c)(p_messageId p \<mapsto> p), delivered c)"
        using awaiting_put [OF p] w by (simp add: abs_delivery_def delivered_put)
      from simulates_then_silent [OF qos2_step.accept [OF 1] silent_send [OF this]] show ?thesis
        using 1 p by (simp add: handlePublish_def Let_def abs_delivery_def)
    qed (use 1 in \<open>simp add: handlePublish_def Let_def simulates_def\<close>)
  next
    case 2
    have "simulates (abs_delivery c) (rbind m (\<lambda>c1. Inr (push [Process n] (emit (EvMessage (p_topic p) (p_payload p) p) c1))))"
      if "silent (abs_delivery c) m" for m
    proof (cases m)
      case (Inr c1)
      then have a: "awaiting c1 = awaiting c" "delivered c1 = delivered c"
        using that by (simp_all add: abs_delivery_def)
      have "abs_delivery (push [Process n] (emit (EvMessage (p_topic p) (p_payload p) p) c1))
          = (awaiting c, delivered c @ [p])"
        using abs_message [where c = c1 and t = "p_topic p" and m = "p_payload p" and p = p] a by simp
      then show ?thesis
        unfolding simulates_def Inr using qos2_step.direct [of p "awaiting c" "delivered c"] 2
        by (auto simp: abs_delivery_def)
    qed (simp add: simulates_def)
    note m = this
    show ?thesis
      using 2 m [of "Inr c"] m [OF silent_send [OF refl]] by (auto simp: handlePublish_def Let_def)
  next
    case 3
    then show ?thesis by (auto simp: handlePublish_def Let_def intro: simulates_silent)
  qed
qed

lemma simulates_pubrel:
  assumes "p_cmd p = Pubrel"
  shows "simulates (abs_delivery c) (handlePubrel n p c)"
proof (cases "store_get (incomingStore c) p True")
  case (Inr reply)
  show ?thesis
  proof (cases reply)
    case (ReplyOk pub)
    then have l: "map_of (inflights (incomingStore c)) (p_messageId p) = Some pub" "\<not> store_closed (incomingStore c)"
      using Inr by (auto simp: store_get_def split: if_splits option.splits)
    show ?thesis
    proof (cases "p_cmd pub = Pubrel")
      case True
      then show ?thesis
        using Inr ReplyOk by (auto simp: handlePubrel_def Let_def intro!: simulates_silent silent_send)
    next
      case False
      then have a: "awaiting c (p_messageId p) = Some pub" using l by (simp add: awaiting_def waiting_def)
      obtain st r where p: "store_put (incomingStore c) p False = Inr (st, r)"
        using l(2) by (auto simp: store_put_def)
      let ?c = "(emit (EvMessage (p_topic pub) (p_payload pub) pub) c)\<lparr>incomingStore := st\<rparr>"
      have "awaiting ?c = (awaiting c)(p_messageId p := None)"
        using awaiting_put [of "emit (EvMessage (p_topic pub) (p_payload pub) pub) c"] p assms
        by (simp add: waiting_def awaiting_def fun_eq_iff)
      then have "abs_delivery ?c = ((awaiting c)(p_messageId p := None), delivered c @ [pub])"
        by (simp add: abs_delivery_def delivered_def)
      from simulates_then_silent [OF qos2_step.release [of "awaiting c" "p_messageId p" pub "delivered c", OF a] silent_send [OF this]] show ?thesis
        using Inr ReplyOk False p by (simp add: handlePubrel_def Let_def abs_delivery_def)
    qed
  qed (use Inr in \<open>auto simp: handlePubrel_def Let_def intro!: simulates_silent\<close>)
qed (simp add: handlePubrel_def Let_def simulates_def)

lemma simulates_packet: "simulates (abs_delivery c) (handlePacket n p c)"
proof -
  let ?c = "emit (EvPacketReceive p) c"
  have a: "abs_delivery ?c = abs_delivery c" by simp
  show ?thesis
  proof (cases "p_cmd p = Publish \<or> p_cmd p = Pubrel")
    case True
    then show ?thesis
      using simulates_publish [of p ?c] simulates_pubrel [of p ?c] a by (auto simp: handlePacket_def Let_def)
  next
    case False
    then show ?thesis
      by (intro simulates_silent)
         (auto simp: handlePacket_def Let_def split: cmd.split intro!: silent_handleAck silent_handleConnack)
  qed
qed

lemma simulates_process: "simulates (abs_delivery c) (process_next n c)"
proof (cases "cn_packets (conns c ! n)")
  case Nil
  then show ?thesis
    by (intro simulates_silent) (auto simp: process_next_def Let_def intro!: silent_write_chunk split: list.split)
next
  case (Cons p ps)
  then show ?thesis
    using simulates_packet [of "upd_conn n (\<lambda>k. k\<lparr>cn_packets := ps\<rparr>) c"] by (simp add: process_next_def Let_def)
qed

lemma simulates_perform: "simulates (abs_delivery c) (perform k c)"
proof (cases k)
  case (Process n)
  then show ?thesis by (simp add: simulates_process)
next
  case Resubscribe
  then show ?thesis
    by (intro simulates_silent) (auto simp: resubscribe_def intro!: silent_bind silent_subscribe)
qed (auto simp: deliver_def silent_reconnects split: list.split
    intro!: simulates_silent silent_callback silent_send silent_storeDeliver)

lemma simulates_react: "simulates (abs_delivery c) (react i c)"
proof (rule simulates_silent, cases i)
  case InImmediate
  then show "silent (abs_delivery c) (react i c)"
    by (auto simp: run_task_def store_close_def abs_delivery_def awaiting_def delivered_def upd_conn_def fun_eq_iff
        split: list.split task.split)
qed (auto simp: on_close_def checkPing_def reconnect_def finish_end_def silent_reconnects split: list.split
    intro!: silent_write_chunk silent_cleanUp silent_setupStream silent_send silent_api silent_subscribe)


section \<open>A QoS 2 exchange\<close>

lemma ack_written:
  assumes "type \<in> {Puback, Pubrec, Pubcomp}" "0 \<le> m" "m < 65536"
  shows "\<exists>s'. writeToStream (ack_packet type (JNum m)) s = Inr (sw_ok s, s') \<and> sw_ok s' = sw_ok s"
  using assms
  by (auto simp: writeToStream_def confirmation_def Let_def ack_packet_def bare_packet_def ACKS_def index_table_def
      genHeader_def writeNumber_def writeLength_def swrite_def)

lemma ack_sent:
  assumes "type \<in> {Puback, Pubrec, Pubcomp}" "0 \<le> m" "m < 65536" "connected c" "sw_ok (cn_stream (conns c ! cur c))"
  shows "\<exists>s'. sw_ok s' \<and> send_or_queue c (ack_packet type (JNum m)) (Some cb) =
    Inr (push [Call cb None VNone] (upd_conn (cur c) (\<lambda>k. k\<lparr>cn_stream := s'\<rparr>)
      (emit (EvPacketSend (ack_packet type (JNum m))) c)))"
proof -
  obtain s' where s: "writeToStream (ack_packet type (JNum m)) (cn_stream (conns c ! cur c)) = Inr (True, s')" "sw_ok s'"
    using ack_written [OF assms(1-3), of "cn_stream (conns c ! cur c)"] assms(5) by auto
  have "p_cmd (ack_packet type (JNum m)) \<noteq> Publish" using assms(1) by (auto simp: ack_packet_def bare_packet_def)
  then show ?thesis
    using s assms(4) by (intro exI [of _ s']) (simp add: send_or_queue_def sendPacket_def Let_def cur_def)
qed

definition flowing :: "nat \<Rightarrow> packet list \<Rightarrow> client \<Rightarrow> bool" where
  \<comment> \<open>connection \<open>n\<close> is current and writable and has just these packets to handle\<close>
  "flowing n ps c \<longleftrightarrow> connected c \<and> cur c = n \<and> n < length (conns c) \<and> sw_ok (cn_stream (conns c ! n))
     \<and> cn_packets (conns c ! n) = ps \<and> cn_busy (conns c ! n) \<and> cn_backlog (conns c ! n) = []
     \<and> \<not> store_closed (incomingStore c) \<and> todo c = [Process n]"

definition pub2 :: "packet \<Rightarrow> int \<Rightarrow> bool" where
  "pub2 p m \<longleftrightarrow> p_cmd p = Publish \<and> p_qos p = JNum 2 \<and> p_messageId p = JNum m \<and> 0 \<le> m \<and> m < 65536"

definition rel2 :: "packet \<Rightarrow> int \<Rightarrow> bool" where
  "rel2 p m \<longleftrightarrow> p_cmd p = Pubrel \<and> p_messageId p = JNum m \<and> 0 \<le> m \<and> m < 65536"

lemma flow_reply:
  assumes f: "flowing n (p # ps) c" and t: "type \<in> {Pubrec, Pubcomp}" "0 \<le> m" "m < 65536"
    and h: "process_next n (c\<lparr>todo := []\<rparr>) = send_or_queue d (ack_packet type (JNum m)) (Some (CbProcess n))"
    and d: "connected d = connected c" "conns d = (conns c)[n := (conns c ! n)\<lparr>cn_packets := ps\<rparr>]" "todo d = []"
      "store_closed (incomingStore d) = store_closed (incomingStore c)"
  shows "\<exists>c'. flowing n ps c' \<and> (\<forall>k. run (Suc (Suc k)) c = run k c') \<and> incomingStore c' = incomingStore d
    \<and> elog c' = elog d @ [EvPacketSend (ack_packet type (JNum m))]"
proof -
  have n: "n < length (conns c)" "cur d = n" using f d(2) by (auto simp: flowing_def cur_def)
  have "sw_ok (cn_stream (conns d ! cur d))" "connected d" using f n d by (auto simp: flowing_def)
  then obtain s' where s: "sw_ok s'" "send_or_queue d (ack_packet type (JNum m)) (Some (CbProcess n)) =
    Inr (push [Call (CbProcess n) None VNone] (upd_conn n (\<lambda>k. k\<lparr>cn_stream := s'\<rparr>)
      (emit (EvPacketSend (ack_packet type (JNum m))) d)))"
    using ack_sent [of type m d "CbProcess n"] t n(2) by auto
  let ?c' = "push [Process n] (upd_conn n (\<lambda>k. k\<lparr>cn_stream := s'\<rparr>) (emit (EvPacketSend (ack_packet type (JNum m))) d))"
  have "\<forall>k. run (Suc (Suc k)) c = run k ?c'"
    using f h s(2) d(3) by (simp add: flowing_def upd_conn_def)
  moreover have "flowing n ps ?c'"
    using f n s(1) d by (auto simp: flowing_def upd_conn_def cur_def)
  ultimately show ?thesis by (intro exI [of _ ?c']) simp
qed

lemma flow_publish:
  assumes "flowing n (p # ps) c" "pub2 p m"
  shows "\<exists>c'. flowing n ps c' \<and> (\<forall>k. run (Suc (Suc k)) c = run k c') \<and> delivered c' = delivered c
    \<and> map_of (inflights (incomingStore c')) (JNum m) = Some p"
proof -
  let ?d = "(emit (EvPacketReceive p) (upd_conn n (\<lambda>k. k\<lparr>cn_packets := ps\<rparr>) (c\<lparr>todo := []\<rparr>)))
    \<lparr>incomingStore := (incomingStore c)\<lparr>inflights := set_prop (JNum m) p (inflights (incomingStore c))\<rparr>\<rparr>"
  have h: "process_next n (c\<lparr>todo := []\<rparr>) = send_or_queue ?d (ack_packet Pubrec (JNum m)) (Some (CbProcess n))"
    using assms by (auto simp: flowing_def pub2_def process_next_def handlePacket_def handlePublish_def Let_def store_put_def
        upd_conn_def)
  have n: "n < length (conns c)" and m: "0 \<le> m" "m < 65536" using assms by (simp_all add: flowing_def pub2_def)
  have d: "connected ?d = connected c" "conns ?d = (conns c)[n := (conns c ! n)\<lparr>cn_packets := ps\<rparr>]" "todo ?d = []"
      "store_closed (incomingStore ?d) = store_closed (incomingStore c)"
    using n by (simp_all add: upd_conn_def)
  obtain c' where "flowing n ps c'" "\<forall>k. run (Suc (Suc k)) c = run k c'" "incomingStore c' = incomingStore ?d"
    "elog c' = elog ?d @ [EvPacketSend (ack_packet Pubrec (JNum m))]"
    using flow_reply [OF assms(1) _ m h d] by blast
  then show ?thesis
    by (intro exI [of _ c']) (simp add: delivered_def map_of_set_prop)
qed

lemma flow_release:
  assumes "flowing n (r # ps) c" "rel2 r m" "map_of (inflights (incomingStore c)) (JNum m) = Some q"
  shows "\<exists>c'. flowing n ps c' \<and> (\<forall>k. run (Suc (Suc k)) c = run k c')
    \<and> delivered c' = delivered c @ (if p_cmd q = Pubrel then [] else [q])
    \<and> (\<exists>q'. map_of (inflights (incomingStore c')) (JNum m) = Some q' \<and> p_cmd q' = Pubrel)"
proof -
  let ?e = "emit (EvPacketReceive r) (upd_conn n (\<lambda>k. k\<lparr>cn_packets := ps\<rparr>) (c\<lparr>todo := []\<rparr>))"
  let ?d = "if p_cmd q = Pubrel then ?e
    else (emit (EvMessage (p_topic q) (p_payload q) q) ?e)
      \<lparr>incomingStore := (incomingStore c)\<lparr>inflights := set_prop (JNum m) r (inflights (incomingStore c))\<rparr>\<rparr>"
  have h: "process_next n (c\<lparr>todo := []\<rparr>) = send_or_queue ?d (ack_packet Pubcomp (JNum m)) (Some (CbProcess n))"
    using assms by (auto simp: flowing_def rel2_def process_next_def handlePacket_def handlePubrel_def Let_def store_put_def
        store_get_def upd_conn_def)
  have n: "n < length (conns c)" and m: "0 \<le> m" "m < 65536" using assms by (simp_all add: flowing_def rel2_def)
  have d: "connected ?d = connected c" "conns ?d = (conns c)[n := (conns c ! n)\<lparr>cn_packets := ps\<rparr>]" "todo ?d = []"
      "store_closed (incomingStore ?d) = store_closed (incomingStore c)"
    using n by (simp_all add: upd_conn_def)
  obtain c' where "flowing n ps c'" "\<forall>k. run (Suc (Suc k)) c = run k c'" "incomingStore c' = incomingStore ?d"
    "elog c' = elog ?d @ [EvPacketSend (ack_packet Pubcomp (JNum m))]"
    using flow_reply [OF assms(1) _ m h d] by blast
  then show ?thesis
    using assms(2,3) by (intro exI [of _ c']) (auto simp: delivered_def map_of_set_prop rel2_def)
qed

lemma flow_releases:
  assumes "flowing n rs c" "list_all (\<lambda>r. rel2 r m) rs" "map_of (inflights (incomingStore c)) (JNum m) = Some q"
  shows "\<exists>c' k. run k c = Some (Inr c') \<and> todo c' = [] \<and>
    delivered c' = delivered c @ (if rs = [] \<or> p_cmd q = Pubrel then [] else [q])"
  using assms
proof (induction rs arbitrary: c q)
  case Nil
  then have "run (Suc 0) c = Some (Inr (upd_conn n (\<lambda>k. k\<lparr>cn_busy := False\<rparr>) (c\<lparr>todo := []\<rparr>)))"
    by (simp add: flowing_def process_next_def Let_def)
  then show ?case
    by (intro exI [of _ "upd_conn n (\<lambda>k. k\<lparr>cn_busy := False\<rparr>) (c\<lparr>todo := []\<rparr>)"] exI [of _ "Suc 0"])
       (simp add: delivered_def del: run.simps)
next
  case (Cons r rs)
  have rm: "rel2 r m" "list_all (\<lambda>r. rel2 r m) rs" using Cons.prems(2) by auto
  obtain c1 q1 where c1: "flowing n rs c1" "\<forall>k. run (Suc (Suc k)) c = run k c1"
    "delivered c1 = delivered c @ (if p_cmd q = Pubrel then [] else [q])"
    "map_of (inflights (incomingStore c1)) (JNum m) = Some q1" "p_cmd q1 = Pubrel"
    using flow_release [OF Cons.prems(1) rm(1) Cons.prems(3)] by blast
  obtain c2 k where c2: "run k c1 = Some (Inr c2)" "todo c2 = []" "delivered c2 = delivered c1"
    using Cons.IH [OF c1(1) rm(2) c1(4)] c1(5) by auto
  have "run (Suc (Suc k)) c = Some (Inr c2)" using c1(2) c2(1) by metis
  then show ?case using c2(2,3) c1(3) by (intro exI [of _ c2] exI [of _ "Suc (Suc k)"]) auto
qed

text \<open>
  \<^bold>\<open>C5.\<close> A QoS 2 exchange to the end. On a connected client whose stream accepts writes, a PUBLISH at QoS 2
  followed by one or more PUBRELs for its id is processed completely (control returns to the event
  loop), and the application gets the message once, however often the PUBREL is repeated.
\<close>

theorem qos2_exactly_once:
  assumes "flowing n (p # r # rs) c" "pub2 p m" "list_all (\<lambda>r. rel2 r m) (r # rs)"
  shows "\<exists>c' k. run k c = Some (Inr c') \<and> todo c' = [] \<and> delivered c' = delivered c @ [p]"
proof -
  obtain c1 where c1: "flowing n (r # rs) c1" "\<forall>k. run (Suc (Suc k)) c = run k c1" "delivered c1 = delivered c"
    "map_of (inflights (incomingStore c1)) (JNum m) = Some p"
    using flow_publish [OF assms(1,2)] by blast
  have "p_cmd p \<noteq> Pubrel" using assms(2) by (simp add: pub2_def)
  then obtain c2 k where "run k c1 = Some (Inr c2)" "todo c2 = []" "delivered c2 = delivered c1 @ [p]"
    using flow_releases [OF c1(1) assms(3) c1(4)] by auto
  then show ?thesis using c1(2,3) by metis
qed

definition sample_pub2 :: packet where
  "sample_pub2 = (bare_packet Publish)\<lparr>p_qos := JNum 2, p_messageId := JNum 5, p_topic := JStr (js ''t''), p_payload := JBuf []\<rparr>"

definition sample_receiver :: client where
  "sample_receiver = (blank_client sample_options True 1)\<lparr>connected := True, todo := [Process 0], conns :=
     [\<lparr>cn_stream = new_Accumulator, cn_parser = new_Parser,
       cn_packets = [sample_pub2, ack_packet Pubrel (JNum 5), ack_packet Pubrel (JNum 5)], cn_busy = True,
       cn_backlog = [], cn_drain = [], cn_on_close = [], cn_destroyed = False, cn_ended = False\<rparr>]\<rparr>"

lemma sample_receiver_flowing:
  "flowing 0 [sample_pub2, ack_packet Pubrel (JNum 5), ack_packet Pubrel (JNum 5)] sample_receiver"
  by (simp add: flowing_def sample_receiver_def blank_client_def cur_def new_Accumulator_def new_Store_def)

lemma sample_exchange: "pub2 sample_pub2 5" "rel2 (ack_packet Pubrel (JNum 5)) 5"
  by (simp_all add: pub2_def rel2_def sample_pub2_def ack_packet_def bare_packet_def)

theorem qos2_exactly_once_witness:
  "\<exists>c' k. run k sample_receiver = Some (Inr c') \<and> todo c' = []
     \<and> delivered c' = delivered sample_receiver @ [sample_pub2]"
  by (rule qos2_exactly_once [OF sample_receiver_flowing sample_exchange(1)]) (simp add: sample_exchange)

lemma sample_receiver_accepts:
  "\<exists>c'. process_next 0 sample_receiver = Inr c' \<and> awaiting c' (JNum 5) = Some sample_pub2"
  by (simp add: sample_receiver_def sample_pub2_def blank_client_def process_next_def handlePacket_def handlePublish_def
      bare_packet_def upd_conn_def store_put_def new_Store_def null_access_def send_or_queue_def sendPacket_def ack_packet_def
      writeToStream_def confirmation_def Let_def ACKS_def index_table_def genHeader_def new_Accumulator_def cur_def
      awaiting_def waiting_def)


end
