(* ===== verification/Client_Send.thy ===== *)
theory Client_Send
  imports Client_Receive
begin

text \<open>
  Outgoing messages: the life of a QoS 1 or 2 publication from the call to its acknowledgement, the
  queue of a client that is offline, the operations of a client that is ending, and the keepalive.
\<close>

section \<open>A publication and its acknowledgement\<close>

definition opts_qos :: "int \<Rightarrow> pub_opts" where
  "opts_qos q = \<lparr>po_qos = JNum q, po_retain = JBool False, po_dup = JBool False\<rparr>"

definition published :: "jsval \<Rightarrow> jsval \<Rightarrow> int \<Rightarrow> client \<Rightarrow> packet" where
  "published topic message q c = publish_packet topic message (opts_qos q) (nextId c)"

lemma published_simps [simp]:
  "p_cmd (published t m q c) = Publish" "p_qos (published t m q c) = JNum q"
  "p_messageId (published t m q c) = JNum (nextId c)"
  by (simp_all add: published_def publish_packet_def opts_qos_def bare_packet_def)

lemma publish_sends:
  assumes "q = 1 \<or> q = 2" "connected c" "\<not> disconnecting c" "open_inv (outgoingStore c)"
    "writeToStream (published t m q c) (cn_stream (conns c ! cur c)) = Inr (r, s)"
  shows "\<exists>c1. client_publish t m (Some (opts_qos q)) (Some cb) c = Inr c1 \<and> todo c1 = todo c
    \<and> outgoing c1 = set_prop (JNum (nextId c)) cb (outgoing c)
    \<and> map_of (inflights (outgoingStore c1)) = (map_of (inflights (outgoingStore c)))(JNum (nextId c) \<mapsto> published t m q c)
    \<and> open_inv (outgoingStore c1) \<and> elog c1 = elog c @ [EvPacketSend (published t m q c)]
    \<and> disconnecting c1 = disconnecting c \<and> nextId c1 = next_id (nextId c)"
proof -
  let ?k = "published t m q c"
  obtain st r' where st: "store_put (outgoingStore c) ?k True = Inr (st, r')" "open_inv st"
    "map_of (inflights st) = (map_of (inflights (outgoingStore c)))(JNum (nextId c) \<mapsto> ?k)"
    using assms(4) store_inv_put [of "outgoingStore c" ?k True] by (auto simp: open_inv_def store_put_def map_of_set_prop)
  let ?d = "c\<lparr>nextId := next_id (nextId c), outgoing := set_prop (JNum (nextId c)) cb (outgoing c)\<rparr>"
  let ?c1 = "upd_conn (cur c) (\<lambda>x. x\<lparr>cn_stream := s\<rparr>) (emit (EvPacketSend ?k) (?d\<lparr>outgoingStore := st\<rparr>))"
  have "client_publish t m (Some (opts_qos q)) (Some cb) c = send_or_queue ?d ?k None"
    using assms(1,3) by (auto simp: client_publish_def Let_def take_id_next opts_qos_def published_def)
  also have "\<dots> = storeAndSend ?d ?k None"
    using assms(1,2) by (auto simp: send_or_queue_def)
  also have "\<dots> = Inr ?c1"
    using st(1) assms(5) by (simp add: storeAndSend_def sendPacket_def Let_def cur_def)
  finally show ?thesis using st by (intro exI [of _ ?c1]) simp
qed

lemma ack_calls_back:
  assumes "p_cmd k = Puback \<or> p_cmd k = Pubcomp" "p_messageId k = mid" "map_of (outgoing c) mid = Some (CbUser u)"
    "open_inv (outgoingStore c)" "map_of (inflights (outgoingStore c)) mid = Some p" "\<not> disconnecting c"
  shows "\<exists>c2 c3. handleAck k c = Inr c2 \<and> todo c2 = [Call (CbUser u) None (VPacket p), CheckEmpty] @ todo c
    \<and> run_callback (CbUser u) None (VPacket p) (c2\<lparr>todo := CheckEmpty # todo c\<rparr>) = Inr c3
    \<and> elog c3 = elog c @ [EvCallback u None (VPacket p)] \<and> checkEmpty (c3\<lparr>todo := todo c\<rparr>) = c3\<lparr>todo := todo c\<rparr>
    \<and> map_of (outgoing c3) = (map_of (outgoing c))(mid := None)
    \<and> map_of (inflights (outgoingStore c3)) = (map_of (inflights (outgoingStore c)))(mid := None)
    \<and> handleAck k (c3\<lparr>todo := todo c\<rparr>) = Inr (c3\<lparr>todo := todo c\<rparr>)"
proof -
  have key: "p_messageId p = mid" using store_inv_key [of "outgoingStore c"] assms(4,5) by (simp add: open_inv_def)
  let ?st = "(outgoingStore c)\<lparr>inflights := del_prop mid (inflights (outgoingStore c))\<rparr>"
  have del: "store_del (outgoingStore c) k True = Inr (?st, ReplyOk p)"
    using assms(2,4,5) key by (simp add: store_del_def open_inv_def)
  let ?c2 = "push [Call (CbUser u) None (VPacket p), CheckEmpty]
    (c\<lparr>outgoing := del_prop mid (outgoing c), outgoingStore := ?st\<rparr>)"
  have h: "handleAck k c = Inr ?c2"
    using assms(1-3) del by (auto simp: handleAck_def Let_def)
  let ?c3 = "emit (EvCallback u None (VPacket p)) (?c2\<lparr>todo := CheckEmpty # todo c\<rparr>)"
  have none: "map_of (outgoing (?c3\<lparr>todo := todo c\<rparr>)) (p_messageId k) = None"
    using assms(2) by (simp add: map_of_del_prop)
  show ?thesis
    using h assms(6) none
    by (intro exI [of _ ?c2] exI [of _ ?c3]) (simp add: map_of_del_prop checkEmpty_def handleAck_def Let_def)
qed


definition sample_sender :: client where
  "sample_sender = (blank_client sample_options True 9)\<lparr>connected := True, conns :=
     [\<lparr>cn_stream = new_Accumulator, cn_parser = new_Parser, cn_packets = [], cn_busy = False,
       cn_backlog = [], cn_drain = [], cn_on_close = [], cn_destroyed = False, cn_ended = False\<rparr>]\<rparr>"

lemma sample_sender_simps [simp]:
  "connected sample_sender" "\<not> disconnecting sample_sender" "outgoingStore sample_sender = new_Store"
  "todo sample_sender = []" "nextId sample_sender = 9" "conns sample_sender ! cur sample_sender =
    \<lparr>cn_stream = new_Accumulator, cn_parser = new_Parser, cn_packets = [], cn_busy = False,
       cn_backlog = [], cn_drain = [], cn_on_close = [], cn_destroyed = False, cn_ended = False\<rparr>"
  by (simp_all add: sample_sender_def blank_client_def cur_def)

lemma sample_published:
  "\<exists>r s. writeToStream (published (JStr (js ''t'')) (JBuf [1]) 1 sample_sender) new_Accumulator = Inr (r, s)"
  by (auto simp: writeToStream_def publish_def Let_def published_def publish_packet_def opts_qos_def bare_packet_def
      topic_length_def publish_header_def PUBLISH_HEADER_def index_table_def genHeader_def js_or_def new_Accumulator_def)


end
