(* ===== verification/Client_Queue.thy ===== *)
theory Client_Queue
  imports Client_Send
begin

text \<open>
  The queue of a client that was offline, the operations of a client that is ending, and the keepalive.
\<close>

section \<open>Delivering the queue\<close>

definition accepted :: "packet \<Rightarrow> bool" where
  \<comment> \<open>a stream with room takes the packet and has room for more\<close>
  "accepted p \<longleftrightarrow> (\<forall>s. sw_ok s \<longrightarrow> (\<exists>s'. writeToStream p s = Inr (True, s') \<and> sw_ok s'))"

fun sent_of :: "client_event \<Rightarrow> packet list" where
  "sent_of (EvPacketSend p) = [p]"
| "sent_of _ = []"

definition sent :: "client \<Rightarrow> packet list" where
  "sent c = concat (map sent_of (elog c))"

fun call_of :: "client_event \<Rightarrow> (nat \<times> string option) list" where
  "call_of (EvCallback u err v) = [(u, err)]"
| "call_of _ = []"

definition calls :: "client \<Rightarrow> (nat \<times> string option) list" where
  "calls c = concat (map call_of (elog c))"

definition user_cb :: "callback option \<Rightarrow> bool" where
  "user_cb cb = (case cb of None \<Rightarrow> True | Some (CbUser u) \<Rightarrow> True | _ \<Rightarrow> False)"

definition user_calls :: "callback option \<Rightarrow> (nat \<times> string option) list" where
  "user_calls cb = (case cb of Some (CbUser u) \<Rightarrow> [(u, None)] | _ \<Rightarrow> [])"

definition online :: "client \<Rightarrow> bool" where
  "online c \<longleftrightarrow> connected c \<and> conns c \<noteq> [] \<and> sw_ok (cn_stream (conns c ! cur c)) \<and> open_inv (outgoingStore c)"

lemma online_send:
  assumes "online c" "accepted p"
  shows "\<exists>c'. send_or_queue c p (Some cb) = Inr c' \<and> todo c' = Call cb None VNone # todo c \<and> online c'
    \<and> queue c' = queue c \<and> elog c' = elog c @ [EvPacketSend p]"
proof -
  obtain s' where s: "writeToStream p (cn_stream (conns c ! cur c)) = Inr (True, s')" "sw_ok s'"
    using assms by (auto simp: accepted_def online_def)
  have n: "cur c < length (conns c)" using assms(1) by (simp add: online_def cur_def)
  have send: "\<exists>c'. sendPacket d p (Some cb) = Inr c' \<and> todo c' = Call cb None VNone # todo c \<and> online c'
    \<and> queue c' = queue c \<and> elog c' = elog c @ [EvPacketSend p]"
    if d: "d = c\<lparr>outgoingStore := st\<rparr>" "open_inv st" for d st
  proof -
    let ?c' = "push [Call cb None VNone] (upd_conn (cur c) (\<lambda>k. k\<lparr>cn_stream := s'\<rparr>) (emit (EvPacketSend p) d))"
    have "sendPacket d p (Some cb) = Inr ?c'"
      using s(1) d(1) by (simp add: sendPacket_def Let_def cur_def)
    moreover have "online ?c'"
      using assms(1) n s(2) d by (simp add: online_def upd_conn_def cur_def)
    ultimately show ?thesis using d(1) by (intro exI [of _ ?c']) simp
  qed
  have open_st: "open_inv (outgoingStore c)" and con: "connected c" using assms(1) by (simp_all add: online_def)
  obtain st r where st: "store_put (outgoingStore c) p True = Inr (st, r)" "open_inv st"
    using open_st store_inv_put [of "outgoingStore c" p True] by (auto simp: open_inv_def store_put_def)
  show ?thesis
    using send [of c "outgoingStore c"] send [of _ st] st con open_st
    by (auto simp: send_or_queue_def storeAndSend_def)
qed

lemma run_more: "run k c = Some r \<Longrightarrow> run (k + j) c = Some r"
proof (induction k arbitrary: c)
  case 0
  then show ?case by (cases j) (auto split: if_splits)
next
  case (Suc k)
  then show ?case by (auto split: list.splits sum.splits)
qed

lemma deliver_entry:
  assumes "online c" "todo c = [Deliver]" "queue c = (p, cb) # rest" "accepted p" "user_cb cb"
  shows "\<exists>c' j. (\<forall>k. run (j + k) c = run k c') \<and> online c' \<and> todo c' = [Deliver] \<and> queue c' = rest
    \<and> sent c' = sent c @ [p] \<and> calls c' = calls c @ user_calls cb"
proof -
  have o: "online (c\<lparr>todo := [], queue := rest\<rparr>)" using assms(1) by (simp add: online_def cur_def)
  obtain c1 where c1: "send_or_queue (c\<lparr>todo := [], queue := rest\<rparr>) p (Some (CbDelivered cb)) = Inr c1"
    "todo c1 = [Call (CbDelivered cb) None VNone]" "online c1" "queue c1 = rest" "elog c1 = elog c @ [EvPacketSend p]"
    using online_send [OF o assms(4), of "CbDelivered cb"] by auto
  have r1: "run (Suc k) c = run k c1" for k
    using assms(2,3) c1(1) by (simp add: deliver_def)
  let ?c2 = "c1\<lparr>todo := call_opt cb None VNone @ [Deliver]\<rparr>"
  have r2: "run (Suc k) c1 = run k ?c2" for k
    using c1(2) by simp
  have base: "online ?c2" "queue ?c2 = rest" "sent ?c2 = sent c @ [p]" "calls ?c2 = calls c"
    using c1 by (simp_all add: online_def cur_def sent_def calls_def)
  show ?thesis
  proof (cases cb)
    case None
    then have "todo ?c2 = [Deliver]" "user_calls cb = []" by (simp_all add: call_opt_def user_calls_def)
    then show ?thesis
      using r1 r2 base by (intro exI [of _ ?c2] exI [of _ "Suc (Suc 0)"]) (simp add: call_opt_def None)
  next
    case (Some x)
    then obtain u where u: "cb = Some (CbUser u)" using assms(5) by (cases x) (auto simp: user_cb_def)
    let ?c3 = "emit (EvCallback u None VNone) (?c2\<lparr>todo := [Deliver]\<rparr>)"
    have "run (Suc k) ?c2 = run k ?c3" for k by (simp add: call_opt_def u)
    then have "run (Suc (Suc (Suc 0)) + k) c = run k ?c3" for k using r1 r2 by simp
    moreover have "online ?c3" "queue ?c3 = rest" "sent ?c3 = sent c @ [p]" "calls ?c3 = calls c @ user_calls cb"
      using base u by (simp_all add: online_def cur_def sent_def calls_def user_calls_def)
    ultimately show ?thesis by (intro exI [of _ ?c3] exI [of _ "Suc (Suc (Suc 0))"]) simp
  qed
qed

lemma deliver_all:
  assumes "online c" "todo c = [Deliver]" "queue c = qs" "list_all (\<lambda>(p, cb). accepted p \<and> user_cb cb) qs"
  shows "\<exists>c' k. run k c = Some (Inr c') \<and> todo c' = [] \<and> queue c' = [] \<and> sent c' = sent c @ map fst qs
    \<and> calls c' = calls c @ concat (map (user_calls \<circ> snd) qs)"
  using assms
proof (induction qs arbitrary: c)
  case Nil
  then have "run (Suc 0) c = Some (Inr (c\<lparr>todo := []\<rparr>))" by (simp add: deliver_def)
  then show ?case using Nil
    by (intro exI [of _ "c\<lparr>todo := []\<rparr>"] exI [of _ "Suc 0"]) (simp add: sent_def calls_def del: run.simps)
next
  case (Cons q qs)
  obtain p cb where q: "q = (p, cb)" by (cases q)
  obtain c1 j where c1: "\<forall>k. run (j + k) c = run k c1" "online c1" "todo c1 = [Deliver]" "queue c1 = qs"
    "sent c1 = sent c @ [p]" "calls c1 = calls c @ user_calls cb"
    using deliver_entry [OF Cons.prems(1,2), of p cb qs] Cons.prems(3,4) q by auto
  obtain c2 k where "run k c1 = Some (Inr c2)" "todo c2 = []" "queue c2 = []" "sent c2 = sent c1 @ map fst qs"
    "calls c2 = calls c1 @ concat (map (user_calls \<circ> snd) qs)"
    using Cons.IH [OF c1(2-4)] Cons.prems(4) by (auto simp: comp_def)
  then show ?case
    using c1 q by (intro exI [of _ c2] exI [of _ "j + k"]) (auto simp: comp_def)
qed


lemma pingreq_accepted: "accepted (bare_packet Pingreq)"
  by (auto simp: accepted_def writeToStream_def emptyPacket_def bare_packet_def swrite_def Let_def)

definition sample_queued :: client where
  "sample_queued = sample_sender\<lparr>todo := [Deliver],
     queue := [(bare_packet Pingreq, Some (CbUser 1)), (bare_packet Pingreq, None)]\<rparr>"


text \<open>
  \<^bold>\<open>C23.\<close> A queued UNSUBSCRIBE blocks the queue. The writer of UNSUBSCRIBE returns no value, which delivery
  takes for a full stream: even when the stream has room, delivery stops after this packet and waits
  for a \<^verbatim>\<open>drain\<close> event; the rest of the queue stays unsent although nothing else is due.
\<close>

theorem queued_unsubscribe_blocks:
  assumes "online c" "todo c = [Deliver]" "queue c = (p, cb) # rest" "p_cmd p = Unsubscribe"
  shows "\<exists>c'. run 1 c = Some (Inr c') \<and> todo c' = [] \<and> queue c' = rest \<and> sent c' = sent c @ [p]
    \<and> cn_drain (conns c' ! cur c') = cn_drain (conns c ! cur c) @ [CbDelivered cb]"
proof -
  let ?s = "cn_stream (conns c ! cur c)"
  have "\<exists>s'. unsubscribe p s = Inr (False, s')" for s
    by (auto simp: unsubscribe_def Let_def fail_with_def split: option.split sum.split)
  then obtain s' where s: "writeToStream p ?s = Inr (False, s')"
    using assms(4) by (auto simp: writeToStream_def Let_def)
  have n: "cur c < length (conns c)" using assms(1) by (simp add: online_def cur_def)
  let ?d = "emit (EvPacketSend p) (c\<lparr>todo := [], queue := rest\<rparr>)"
  let ?c' = "upd_conn (cur c) (\<lambda>x. x\<lparr>cn_drain := cn_drain x @ [CbDelivered cb]\<rparr>) (upd_conn (cur c) (\<lambda>k. k\<lparr>cn_stream := s'\<rparr>) ?d)"
  have "deliver (c\<lparr>todo := []\<rparr>) = Inr ?c'"
    using assms s by (simp add: deliver_def send_or_queue_def online_def sendPacket_def Let_def cur_def)
  then have "run 1 c = Some (Inr ?c')" using assms(2) by simp
  moreover have "cn_drain (conns ?c' ! cur ?c') = cn_drain (conns c ! cur c) @ [CbDelivered cb]"
    using n by (simp add: upd_conn_def cur_def)
  ultimately show ?thesis by (intro exI [of _ ?c']) (simp add: sent_def)
qed

theorem queued_unsubscribe_blocks_witness:
  "\<exists>c'. run 1 (sample_sender\<lparr>todo := [Deliver], queue := [(bare_packet Unsubscribe, None), (bare_packet Pingreq, None)]\<rparr>) = Some (Inr c')
    \<and> todo c' = [] \<and> queue c' = [(bare_packet Pingreq, None)]
    \<and> sent c' = sent (sample_sender\<lparr>todo := [Deliver], queue := [(bare_packet Unsubscribe, None), (bare_packet Pingreq, None)]\<rparr>) @ [bare_packet Unsubscribe]
    \<and> cn_drain (conns c' ! cur c') = cn_drain (conns (sample_sender\<lparr>todo := [Deliver], queue := [(bare_packet Unsubscribe, None), (bare_packet Pingreq, None)]\<rparr>)
         ! cur (sample_sender\<lparr>todo := [Deliver], queue := [(bare_packet Unsubscribe, None), (bare_packet Pingreq, None)]\<rparr>)) @ [CbDelivered None]"
proof (rule queued_unsubscribe_blocks)
  show "online (sample_sender\<lparr>todo := [Deliver], queue := [(bare_packet Unsubscribe, None), (bare_packet Pingreq, None)]\<rparr>)"
    by (simp add: online_def sample_sender_def blank_client_def cur_def new_Accumulator_def
        open_inv_def store_inv_new) (simp add: new_Store_def)
qed (simp_all add: bare_packet_def)

section \<open>After the end\<close>

definition io_part :: "client \<Rightarrow> conn list \<times> (packet \<times> callback option) list \<times> (jsval \<times> callback) list \<times> store \<times> store" where
  "io_part c = (conns c, queue c, outgoing c, outgoingStore c, incomingStore c)"



section \<open>Keepalive\<close>

text \<open>
  \<^bold>\<open>C20.\<close> Keepalive. On a connected client whose last ping was answered, a tick of the ping timer sends one
  PINGREQ and waits for the answer; if the next tick comes first, the client destroys the stream, stops
  the timer and, unless it is ending or reconnection is off, arms the reconnect timer.
\<close>

theorem keepalive_detects_silence:
  assumes "online c" "pingTimer c" "pingResp c" "o_reconnectPeriod (c_opts c) > 0" "\<not> disconnecting c"
  shows "\<exists>c1 c2. react InPingTick c = Inr c1 \<and> sent c1 = sent c @ [bare_packet Pingreq] \<and> \<not> pingResp c1
    \<and> \<not> cn_destroyed (conns c1 ! cur c1) = (\<not> cn_destroyed (conns c ! cur c))
    \<and> react InPingTick c1 = Inr c2 \<and> cn_destroyed (conns c2 ! cur c2) \<and> \<not> pingTimer c2 \<and> reconnectTimer c2
    \<and> sent c2 = sent c1"
proof -
  have n: "cur c < length (conns c)" using assms(1) by (simp add: online_def cur_def)
  obtain s where s: "writeToStream (bare_packet Pingreq) (cn_stream (conns c ! cur c)) = Inr (True, s)"
    using assms(1) pingreq_accepted by (auto simp: online_def accepted_def)
  let ?c1 = "upd_conn (cur c) (\<lambda>k. k\<lparr>cn_stream := s\<rparr>) (emit (EvPacketSend (bare_packet Pingreq)) (c\<lparr>pingResp := False\<rparr>))"
  have t1: "react InPingTick c = Inr ?c1"
    using assms s by (simp add: checkPing_def send_or_queue_def online_def sendPacket_def Let_def cur_def bare_packet_def)
  have f: "pingTimer ?c1" "\<not> pingResp ?c1" using assms(2) by (simp_all add: upd_conn_def)
  let ?d = "upd_conn (cur ?c1) (\<lambda>k. k\<lparr>cn_destroyed := True\<rparr>) ?c1"
  let ?c2 = "(setupReconnect (clearReconnect ?d))\<lparr>pingTimer := False\<rparr>"
  have t2: "react InPingTick ?c1 = Inr ?c2"
    using f assms(5) by (simp add: checkPing_def cleanUp_def Let_def)
  have "conns ?c2 = conns ?d" "sent ?c2 = sent ?c1" "reconnectTimer ?c2"
    using assms(4,5) by (auto simp: setupReconnect_def clearReconnect_def Let_def sent_def)
  moreover have "cn_destroyed (conns ?d ! cur ?d)" using n by (simp add: upd_conn_def cur_def)
  ultimately show ?thesis
    using t1 t2 f n by (intro exI [of _ ?c1] exI [of _ ?c2]) (auto simp: sent_def upd_conn_def cur_def)
qed

theorem keepalive_detects_silence_witness:
  "\<exists>c1 c2. react InPingTick (sample_sender\<lparr>pingTimer := True, pingResp := True\<rparr>) = Inr c1
    \<and> sent c1 = sent (sample_sender\<lparr>pingTimer := True, pingResp := True\<rparr>) @ [bare_packet Pingreq] \<and> \<not> pingResp c1
    \<and> \<not> cn_destroyed (conns c1 ! cur c1) = (\<not> cn_destroyed (conns (sample_sender\<lparr>pingTimer := True, pingResp := True\<rparr>)
         ! cur (sample_sender\<lparr>pingTimer := True, pingResp := True\<rparr>)))
    \<and> react InPingTick c1 = Inr c2 \<and> cn_destroyed (conns c2 ! cur c2) \<and> \<not> pingTimer c2 \<and> reconnectTimer c2
    \<and> sent c2 = sent c1"
proof (rule keepalive_detects_silence)
  show "online (sample_sender\<lparr>pingTimer := True, pingResp := True\<rparr>)"
    by (simp add: online_def sample_sender_def blank_client_def cur_def new_Accumulator_def
        open_inv_def store_inv_new) (simp add: new_Store_def)
qed (simp_all add: sample_sender_def blank_client_def sample_options_def)

end
