(* ===== verification/Query_String.thy ===== *)
theory Query_String
  imports Js_String
begin

text \<open>
  Query strings (\<^verbatim>\<open>querystring\<close>, modules \<^verbatim>\<open>decode\<close> and \<^verbatim>\<open>encode\<close>): \<open>qs_parse\<close> splits the text into pairs and
  collects the values of a repeated key in an array, \<open>qs_stringify\<close> writes an object back. The locale
  \<open>field_codec\<close> is what both sides need from the escaping of a component; it is interpreted on
  \<^verbatim>\<open>encodeURIComponent\<close>. An object is the list of its properties in the order in which they were added.
\<close>

section \<open>The code\<close>

datatype qs_value = One jsval | Many "jsval list"

type_synonym qs_obj = "(jsstr \<times> qs_value) list"

definition with_default :: "jsstr option \<Rightarrow> jsstr \<Rightarrow> jsstr" where
  \<comment> \<open>\<^verbatim>\<open>s || d\<close>\<close>
  "with_default s d = (case s of Some (c # t) \<Rightarrow> c # t | _ \<Rightarrow> d)"

definition cut_pair :: "jsstr \<Rightarrow> jsstr \<Rightarrow> jsstr \<times> jsstr" where
  "cut_pair eq q =
     (let x = replace_all 43 (js ''%20'') q in
      case find_sub eq x of
        Some idx \<Rightarrow> (take idx x, drop (idx + 1) x)
      | None \<Rightarrow> (x, []))"

definition read_pair :: "(jsstr \<Rightarrow> jsstr result) \<Rightarrow> jsstr \<Rightarrow> jsstr \<Rightarrow> (jsstr \<times> jsstr) result" where
  "read_pair dec eq q =
     (let (kstr, vstr) = cut_pair eq q in
      rbind (dec kstr) (\<lambda>k. rbind (dec vstr) (\<lambda>v. Inr (k, v))))"

text \<open>
  A string assigned to \<^verbatim>\<open>__proto__\<close> is ignored by the language, and the name never becomes an own property.
\<close>

definition add_pair :: "qs_obj \<Rightarrow> jsstr \<times> jsstr \<Rightarrow> qs_obj" where
  "add_pair obj = (\<lambda>(k, v).
     if k = js ''__proto__'' then obj
     else case map_of obj k of
       None \<Rightarrow> obj @ [(k, One (JStr v))]
     | Some (Many vs) \<Rightarrow> map (\<lambda>(k', w). (k', if k' = k then Many (vs @ [JStr v]) else w)) obj
     | Some (One u) \<Rightarrow> map (\<lambda>(k', w). (k', if k' = k then Many [u, JStr v] else w)) obj)"

fun parse_pairs :: "jsstr \<Rightarrow> jsstr list \<Rightarrow> qs_obj \<Rightarrow> qs_obj result" where
  "parse_pairs eq [] obj = Inr obj"
| "parse_pairs eq (q # qs) obj =
     rbind (read_pair decodeURIComponent eq q) (\<lambda>kv. parse_pairs eq qs (add_pair obj kv))"

definition qs_parse :: "jsval \<Rightarrow> jsstr option \<Rightarrow> jsstr option \<Rightarrow> int option \<Rightarrow> qs_obj result" where
  \<comment> \<open>the last argument is \<^verbatim>\<open>options.maxKeys\<close>, \<open>None\<close> when it is not a number\<close>
  "qs_parse qs sep eq maxKeys =
     (case qs of
        JStr (c # t) \<Rightarrow>
          (let ps = split_str (with_default sep (js ''&'')) (c # t);
               m = (case maxKeys of Some n \<Rightarrow> n | None \<Rightarrow> 1000);
               len = (if m > 0 \<and> int (length ps) > m then nat m else length ps)
           in parse_pairs (with_default eq (js ''='')) (take len ps) [])
      | _ \<Rightarrow> Inr [])"

fun stringifyPrimitive :: "jsval \<Rightarrow> jsstr" where
  \<comment> \<open>a number is returned as it is and turned into its text by \<^verbatim>\<open>encodeURIComponent\<close>\<close>
  "stringifyPrimitive (JStr s) = s"
| "stringifyPrimitive (JBool b) = (if b then js ''true'' else js ''false'')"
| "stringifyPrimitive (JNum n) = int_text n"
| "stringifyPrimitive (JFrac t s) = s"
| "stringifyPrimitive _ = []"

definition write_pair :: "(jsstr \<Rightarrow> jsstr result) \<Rightarrow> jsstr \<Rightarrow> jsstr \<times> jsstr \<Rightarrow> jsstr result" where
  "write_pair enc eq = (\<lambda>(k, v). rbind (enc k) (\<lambda>k'. rbind (enc v) (\<lambda>v'. Inr (k' @ eq @ v'))))"

definition stringify_entry :: "jsstr \<Rightarrow> jsstr \<Rightarrow> jsstr \<times> qs_value \<Rightarrow> jsstr result" where
  "stringify_entry sep eq = (\<lambda>(k, w).
     case w of
       Many vs \<Rightarrow>
         rbind (encodeURIComponent k) (\<lambda>_.
         rbind (map_result (\<lambda>v. write_pair encodeURIComponent eq (k, stringifyPrimitive v)) vs)
           (\<lambda>ts. Inr (join sep ts)))
     | One v \<Rightarrow> write_pair encodeURIComponent eq (k, stringifyPrimitive v))"

text \<open>The first argument is an object, or a primitive value that is written under the key \<^verbatim>\<open>name\<close>.\<close>

definition qs_stringify :: "qs_obj + jsval \<Rightarrow> jsstr option \<Rightarrow> jsstr option \<Rightarrow> jsval \<Rightarrow> jsstr result" where
  "qs_stringify obj sep eq name =
     (let sep' = with_default sep (js ''&''); eq' = with_default eq (js ''='') in
      case obj of
        Inl ps \<Rightarrow> rbind (map_result (stringify_entry sep' eq') (Object_entries ps)) (\<lambda>ts. Inr (join sep' ts))
      | Inr v \<Rightarrow>
          if \<not> truthy name then Inr []
          else write_pair encodeURIComponent eq' (stringifyPrimitive name, stringifyPrimitive v))"

section \<open>Components\<close>

locale field_codec =
  fixes enc dec :: "jsstr \<Rightarrow> jsstr result"
    and good :: "jsstr \<Rightarrow> bool"
    and plain :: "code_unit \<Rightarrow> bool"
  assumes codec: "good s \<Longrightarrow> \<exists>t. enc s = Inr t \<and> dec t = Inr s \<and> list_all plain t"
    and no_plus: "\<not> plain 43"
begin

lemma pair_written:
  assumes "good k" "good v" "\<not> plain e" "e \<noteq> 43"
  shows "\<exists>t. write_pair enc [e] (k, v) = Inr t \<and> read_pair dec [e] t = Inr (k, v)
           \<and> list_all (\<lambda>c. plain c \<or> c = e) t"
proof -
  obtain a where a: "enc k = Inr a" "dec a = Inr k" "list_all plain a" using codec assms(1) by blast
  obtain b where b: "enc v = Inr b" "dec b = Inr v" "list_all plain b" using codec assms(2) by blast
  have "43 \<notin> set (a @ e # b)" "e \<notin> set a" using a(3) b(3) no_plus assms(3,4) by (auto simp: list_all_iff)
  then have "cut_pair [e] (a @ e # b) = (a, b)"
    by (simp add: cut_pair_def find_sub_first)
  then show ?thesis using a b by (auto simp: write_pair_def read_pair_def list_all_iff)
qed

lemma pairs_written:
  assumes "list_all (\<lambda>(k, v). good k \<and> good v) ps" "\<not> plain e" "e \<noteq> 43"
  shows "\<exists>ts. map_result (write_pair enc [e]) ps = Inr ts \<and> map_result (read_pair dec [e]) ts = Inr ps
           \<and> list_all (list_all (\<lambda>c. plain c \<or> c = e)) ts"
  using assms(1)
proof (induction ps)
  case (Cons p ps)
  obtain k v where p: "p = (k, v)" by (cases p)
  obtain t where "write_pair enc [e] p = Inr t" "read_pair dec [e] t = Inr p"
      "list_all (\<lambda>c. plain c \<or> c = e) t"
    using pair_written [of k v e] Cons.prems p assms(2,3) by auto
  with Cons show ?case by auto
qed simp

end

interpretation uri: field_codec encodeURIComponent decodeURIComponent wf_utf16 uri_char
  by unfold_locales (auto simp: uri_component uri_char_not_separator)

section \<open>Writing and reading an object\<close>

definition pairs_of :: "qs_obj \<Rightarrow> (jsstr \<times> jsstr) list" where
  "pairs_of obj =
     concat (map (\<lambda>(k, w). case w of One v \<Rightarrow> [(k, stringifyPrimitive v)]
                            | Many vs \<Rightarrow> map (\<lambda>v. (k, stringifyPrimitive v)) vs) obj)"

definition text_value :: "jsval \<Rightarrow> bool" where
  "text_value v = (case v of JStr s \<Rightarrow> wf_utf16 s | _ \<Rightarrow> False)"

definition text_entry :: "jsstr \<times> qs_value \<Rightarrow> bool" where
  \<comment> \<open>what parsing can give: text everywhere, an array for two values or more\<close>
  "text_entry = (\<lambda>(k, w). wf_utf16 k \<and> k \<noteq> js ''__proto__''
     \<and> (case w of One v \<Rightarrow> text_value v | Many vs \<Rightarrow> 2 \<le> length vs \<and> list_all text_value vs))"

definition wf_query :: "qs_obj \<Rightarrow> bool" where
  "wf_query obj \<longleftrightarrow> distinct (map fst obj) \<and> list_all text_entry obj"

lemma pairs_of_simps [simp]:
  "pairs_of [] = []"
  "pairs_of ((k, w) # es) =
     (case w of One v \<Rightarrow> [(k, stringifyPrimitive v)] | Many vs \<Rightarrow> map (\<lambda>v. (k, stringifyPrimitive v)) vs)
     @ pairs_of es"
  by (simp_all add: pairs_of_def)

lemma text_value_JStr: "text_value v \<longleftrightarrow> (\<exists>s. v = JStr s \<and> wf_utf16 s)"
  by (auto simp: text_value_def split: jsval.splits)

lemma join_append: "xs \<noteq> [] \<Longrightarrow> ys \<noteq> [] \<Longrightarrow> join p (xs @ ys) = join p xs @ p @ join p ys"
  by (induction p xs rule: join.induct) (cases ys; simp)+

lemma join_concat: "[] \<notin> set xss \<Longrightarrow> join p (map (join p) xss) = join p (concat xss)"
proof (induction xss)
  case (Cons xs xss)
  then show ?case by (cases xss) (auto simp: join_append)
qed simp

lemma stringify_entries:
  assumes "map_result (write_pair encodeURIComponent eq) (pairs_of es) = Inr ts"
    and "list_all (\<lambda>(k, w). w \<noteq> Many []) es"
  shows "\<exists>tss. map_result (stringify_entry sep eq) es = Inr (map (join sep) tss) \<and> concat tss = ts \<and> [] \<notin> set tss"
  using assms
proof (induction es arbitrary: ts)
  case (Cons x es)
  obtain k w where x: "x = (k, w)" by (cases x)
  define ps where "ps = (case w of One v \<Rightarrow> [(k, stringifyPrimitive v)] | Many vs \<Rightarrow> map (\<lambda>v. (k, stringifyPrimitive v)) vs)"
  obtain a b where ab: "map_result (write_pair encodeURIComponent eq) ps = Inr a"
      "map_result (write_pair encodeURIComponent eq) (pairs_of es) = Inr b" "ts = a @ b"
    using Cons.prems(1) by (auto simp: x ps_def map_result_append result_simps)
  obtain tss where tss: "map_result (stringify_entry sep eq) es = Inr (map (join sep) tss)"
      "concat tss = b" "[] \<notin> set tss"
    using Cons.IH [OF ab(2)] Cons.prems(2) by auto
  have "stringify_entry sep eq x = Inr (join sep a) \<and> a \<noteq> []"
  proof (cases w)
    case (One v)
    then show ?thesis using ab(1) by (auto simp: ps_def stringify_entry_def x result_simps)
  next
    case (Many vs)
    have "vs \<noteq> []" using Cons.prems(2) Many x by auto
    then obtain u us where vs: "vs = u # us" by (cases vs) auto
    have "\<exists>k'. encodeURIComponent k = Inr k'"
      using ab(1) Many vs by (auto simp: ps_def write_pair_def result_simps)
    then show ?thesis
      using ab(1) Many vs map_result_length [OF ab(1)]
      by (auto simp: ps_def stringify_entry_def x map_result_map)
  qed
  then show ?case using tss ab(3) by (intro exI [of _ "a # tss"]) auto
qed simp

lemma parse_pairs_fold:
  "map_result (read_pair decodeURIComponent eq) ts = Inr ps \<Longrightarrow> parse_pairs eq ts obj = Inr (foldl add_pair obj ps)"
  by (induction ts arbitrary: ps obj) (auto simp: result_simps)

lemma add_more:
  assumes "k \<notin> fst ` set acc" "k \<noteq> js ''__proto__''"
  shows "foldl add_pair (acc @ [(k, Many us)]) (map (\<lambda>v. (k, v)) ss) = acc @ [(k, Many (us @ map JStr ss))]"
  using assms
proof (induction ss arbitrary: us)
  case (Cons s ss)
  have m: "map_of (acc @ [(k, Many us)]) k = Some (Many us)"
    using Cons.prems(1) by (simp add: map_add_def map_of_eq_None_iff [THEN iffD2])
  have "map (\<lambda>(k', w). (k', if k' = k then x else w)) acc = acc" for x
    using Cons.prems(1) by (intro map_idI) force
  then have "add_pair (acc @ [(k, Many us)]) (k, s) = acc @ [(k, Many (us @ [JStr s]))]"
    using m Cons.prems(2) by (simp add: add_pair_def)
  then show ?case using Cons by simp
qed simp

lemma add_pairs_of:
  assumes "wf_query es" "fst ` set acc \<inter> fst ` set es = {}"
  shows "foldl add_pair acc (pairs_of es) = acc @ es"
  using assms
proof (induction es arbitrary: acc)
  case (Cons x es)
  obtain k w where x: "x = (k, w)" by (cases x)
  have k: "k \<notin> fst ` set acc" "k \<noteq> js ''__proto__''" "wf_query es"
    using Cons.prems x by (auto simp: wf_query_def text_entry_def)
  have first: "add_pair acc (k, s) = acc @ [(k, One (JStr s))]" for s
    using k by (simp add: add_pair_def map_of_eq_None_iff [THEN iffD2])
  have "foldl add_pair acc (pairs_of [x]) = acc @ [x]"
  proof (cases w)
    case (One v)
    then show ?thesis using Cons.prems(1) x first by (auto simp: wf_query_def text_entry_def text_value_JStr)
  next
    case (Many vs)
    then have vs: "2 \<le> length vs" "list_all text_value vs" using Cons.prems(1) x by (auto simp: wf_query_def text_entry_def)
    then obtain a b us where v: "vs = a # b # us" by (metis One_nat_def Suc_1 Suc_le_length_iff)
    obtain s t where st: "a = JStr s" "b = JStr t" using vs v by (auto simp: text_value_JStr)
    have us: "map JStr (map stringifyPrimitive us) = us"
      using vs(2) v by (auto simp: list_all_iff text_value_JStr intro!: map_idI)
    have m: "map_of (acc @ [(k, One (JStr s))]) k = Some (One (JStr s))"
      using k(1) by (simp add: map_add_def map_of_eq_None_iff [THEN iffD2])
    have "map (\<lambda>(k', w). (k', if k' = k then y else w)) acc = acc" for y
      using k(1) by (intro map_idI) force
    then have "add_pair (acc @ [(k, One (JStr s))]) (k, t) = acc @ [(k, Many [JStr s, JStr t])]"
      using m k(2) by (simp add: add_pair_def)
    then show ?thesis
      using x Many v st first [of s] add_more [OF k(1,2), of "[JStr s, JStr t]" "map stringifyPrimitive us"] us
      by (simp add: comp_def)
  qed
  moreover have "foldl add_pair (acc @ [x]) (pairs_of es) = acc @ x # es"
    using Cons.IH [OF k(3), of "acc @ [x]"] Cons.prems x by (auto simp: wf_query_def)
  ultimately show ?case using x by simp
qed simp

lemma wf_query_entries: "wf_query (Object_entries obj) = wf_query obj"
  by (simp add: wf_query_def distinct_Object_entries list_all_iff)

lemma pairs_of_good:
  "list_all text_entry es \<Longrightarrow> list_all (\<lambda>(k, v). wf_utf16 k \<and> wf_utf16 v) (pairs_of es)"
proof (induction es)
  case (Cons x es)
  obtain k w where x: "x = (k, w)" by (cases x)
  have "text_value v \<Longrightarrow> wf_utf16 (stringifyPrimitive v)" for v by (auto simp: text_value_JStr)
  then have "list_all (\<lambda>(k, v). wf_utf16 k \<and> wf_utf16 v) (pairs_of [x])"
    using Cons.prems x by (auto simp: text_entry_def list_all_iff split: qs_value.splits)
  with Cons show ?case by (simp add: x)
qed simp

lemma length_pairs_entries: "length (pairs_of (Object_entries obj)) = length (pairs_of obj)"
proof -
  have "length (pairs_of es) = sum_list (map (\<lambda>(k, w). case w of One v \<Rightarrow> 1 | Many vs \<Rightarrow> length vs) es)" for es
    by (induction es) (auto split: qs_value.splits)
  then show ?thesis by (metis mset_Object_entries mset_map sum_mset_sum_list)
qed

lemma pairs_of_empty: "list_all text_entry es \<Longrightarrow> pairs_of es = [] \<longleftrightarrow> es = []"
  by (cases es) (auto simp: text_entry_def split: qs_value.splits)

lemma list_all_join: "list_all P p \<Longrightarrow> list_all (list_all P) xs \<Longrightarrow> list_all P (join p xs)"
  by (induction p xs rule: join.induct) auto

lemma entries_ok: "list_all text_entry es \<Longrightarrow> list_all (\<lambda>(k, w). w \<noteq> Many []) es"
  by (auto simp: list_all_iff text_entry_def)

lemma query_written:
  assumes "wf_query obj" "length (pairs_of obj) \<le> 1000"
    and "with_default sep (js ''&'') = [s]" "with_default eq (js ''='') = [e]"
    and "\<not> uri_char s" "\<not> uri_char e" "s \<noteq> e" "e \<noteq> 43"
  shows "\<exists>t. qs_stringify (Inl obj) sep eq name = Inr t
           \<and> qs_parse (JStr t) sep eq None = Inr (Object_entries obj)
           \<and> list_all (\<lambda>c. uri_char c \<or> c = s \<or> c = e) t \<and> (t = [] \<longleftrightarrow> obj = [])"
proof -
  let ?es = "Object_entries obj"
  have wf: "wf_query ?es" using assms(1) by (simp add: wf_query_entries)
  then have all: "list_all text_entry ?es" by (simp add: wf_query_def)
  obtain ts where ts: "map_result (write_pair encodeURIComponent [e]) (pairs_of ?es) = Inr ts"
      "map_result (read_pair decodeURIComponent [e]) ts = Inr (pairs_of ?es)"
      "list_all (list_all (\<lambda>c. uri_char c \<or> c = e)) ts"
    using uri.pairs_written [OF pairs_of_good [OF all] assms(6,8)] by blast
  obtain tss where tss: "map_result (stringify_entry [s] [e]) ?es = Inr (map (join [s]) tss)"
      "concat tss = ts" "[] \<notin> set tss"
    using stringify_entries [OF ts(1) entries_ok [OF all], of "[s]"] by blast
  have w: "qs_stringify (Inl obj) sep eq name = Inr (join [s] ts)"
    using tss join_concat [OF tss(3), of "[s]"] assms(3,4) by (simp add: qs_stringify_def)
  have len: "length ts \<le> 1000"
    using map_result_length [OF ts(1)] assms(2) by (simp add: length_pairs_entries)
  have sep: "ts \<noteq> [] \<Longrightarrow> split_on s (join [s] ts) = ts"
    using ts(3) assms(5,7) by (intro split_join) (auto simp: list_all_iff)
  have read: "parse_pairs [e] ts [] = Inr ?es"
    using parse_pairs_fold [OF ts(2)] add_pairs_of [OF wf, of "[]"] by simp
  have empty: "join [s] ts = [] \<longleftrightarrow> ts = []"
  proof
    assume e: "join [s] ts = []"
    show "ts = []"
    proof (rule ccontr)
      assume "ts \<noteq> []"
      then have "ts = [[]]" using sep e by simp
      then show False using ts(2) map_result_length [OF ts(1)] ts(1)
        by (cases "pairs_of ?es") (auto simp: write_pair_def result_simps)
    qed
  qed simp
  have "qs_parse (JStr (join [s] ts)) sep eq None = Inr ?es"
  proof (cases "join [s] ts")
    case Nil
    then show ?thesis using empty read by (simp add: qs_parse_def)
  next
    case (Cons c u)
    then have "ts \<noteq> []" by auto
    then show ?thesis using Cons sep read len assms(3,4) by (simp add: qs_parse_def Let_def)
  qed
  moreover have "join [s] ts = [] \<longleftrightarrow> obj = []"
  proof -
    have "ts = [] \<longleftrightarrow> pairs_of ?es = []" using map_result_length [OF ts(1)] by auto
    also have "\<dots> \<longleftrightarrow> ?es = []" using pairs_of_empty [OF all] .
    also have "\<dots> \<longleftrightarrow> obj = []" by (metis length_Object_entries length_0_conv)
    finally show ?thesis using empty by simp
  qed
  moreover have "list_all (\<lambda>c. uri_char c \<or> c = s \<or> c = e) (join [s] ts)"
    using ts(3) by (intro list_all_join) (auto simp: list_all_iff)
  ultimately show ?thesis using w by blast
qed

text \<open>
  \<^bold>\<open>C32.\<close> An object of texts and of arrays of at least two texts, with at most a thousand values and no key
  \<^verbatim>\<open>__proto__\<close>, survives being written as a query string and read back, whatever two characters outside the
  URI alphabet separate pairs and keys: the result is the object, its keys in the order of \<^verbatim>\<open>Object.keys\<close>.
\<close>

theorem query_roundtrip:
  assumes "wf_query obj" "length (pairs_of obj) \<le> 1000"
    and "with_default sep (js ''&'') = [s]" "with_default eq (js ''='') = [e]"
    and "\<not> uri_char s" "\<not> uri_char e" "s \<noteq> e" "e \<noteq> 43"
  shows "\<exists>t. qs_stringify (Inl obj) sep eq name = Inr t
           \<and> qs_parse (JStr t) sep eq None = Inr (Object_entries obj)"
  using query_written [OF assms] by blast

theorem query_roundtrip_witness:
  "\<exists>t. qs_stringify (Inl [(js ''topic'', One (JStr (js ''a/b&c'' @ [0xE9]))), (js ''q'', Many [JStr (js ''1''), JStr []]), (js ''7'', One (JStr []))])
          None (Some (js '':'')) JUndef = Inr t
       \<and> qs_parse (JStr t) None (Some (js '':'')) None
         = Inr [(js ''7'', One (JStr [])), (js ''topic'', One (JStr (js ''a/b&c'' @ [0xE9]))), (js ''q'', Many [JStr (js ''1''), JStr []])]"
  using query_roundtrip [of "[(js ''topic'', One (JStr (js ''a/b&c'' @ [0xE9]))), (js ''q'', Many [JStr (js ''1''), JStr []]), (js ''7'', One (JStr []))]"
      None 38 "Some (js '':'')" 58 JUndef]
  by (simp add: wf_query_def text_entry_def text_value_def surrogate_def js_def with_default_def uri_char_not_separator
      Object_entries_def array_index_def is_digit_def digits_value_def)

text \<open>Keys beyond the limit are not read, and a separator of several characters is skipped as if it were one.\<close>

lemma long_eq_misread:
  "qs_stringify (Inl [(js ''a'', One (JStr (js ''b'')))]) None (Some (js ''=='')) JUndef = Inr (js ''a==b'')
   \<and> qs_parse (JStr (js ''a==b'')) None (Some (js ''=='')) None = Inr [(js ''a'', One (JStr (js ''=b'')))]"
  by code_simp

end
