(* ===== verification/Punycode.thy ===== *)
theory Punycode
  imports Js_String
begin

text \<open>
  Host names outside ASCII (\<^verbatim>\<open>punycode\<close>): code points of a string, the Bootstring encoder and decoder, and
  the conversion of a domain label by label. Numbers of the decoder are integers because a code unit below
  the digits is taken as a negative digit; its bias may then be minus infinity, which is \<open>None\<close>. The main
  result is that decoding an encoded label gives the label back.
\<close>

section \<open>Code points\<close>

fun ucs2decode :: "jsstr \<Rightarrow> int list" where
  "ucs2decode [] = []"
| "ucs2decode [value] = [uint value]"
| "ucs2decode (value # extra # s) =
     (if uint value \<ge> 0xD800 \<and> uint value \<le> 0xDBFF then
        (if uint extra AND 0xFC00 = 0xDC00
         then (push_bit 10 (uint value AND 0x3FF) + (uint extra AND 0x3FF) + 0x10000) # ucs2decode s
         else uint value # ucs2decode (extra # s))
      else uint value # ucs2decode (extra # s))"

definition ucs2encode_one :: "int \<Rightarrow> jsstr" where
  "ucs2encode_one v =
     (if v > 0xFFFF then
        (let v = v - 0x10000 in [word_of_int ((drop_bit 10 v AND 0x3FF) OR 0xD800), word_of_int (0xDC00 OR (v AND 0x3FF))])
      else [word_of_int v])"

definition ucs2encode :: "int list \<Rightarrow> jsstr" where
  "ucs2encode vs = concat (map ucs2encode_one vs)"

section \<open>Digits and bias\<close>

definition maxInt :: int where
  "maxInt = 2147483647"

definition basicToDigit :: "int \<Rightarrow> int" where
  "basicToDigit codePoint =
     (if codePoint - 48 < 10 then codePoint - 22
      else if codePoint - 65 < 26 then codePoint - 65
      else if codePoint - 97 < 26 then codePoint - 97
      else 36)"

definition digitToBasic :: "int \<Rightarrow> int \<Rightarrow> int" where
  "digitToBasic d flag = d + 22 + 75 * of_bool (d < 26) - push_bit 5 (of_bool (flag \<noteq> 0))"

function adapt_loop :: "int \<Rightarrow> int \<Rightarrow> int \<times> int" where
  "adapt_loop k delta = (if delta > 455 then adapt_loop (k + 36) (delta div 35) else (k, delta))"
  by pat_completeness auto
termination by (relation "measure (\<lambda>(k, delta). nat delta)") (auto simp: nat_less_eq_zless int_div_less_self)

declare adapt_loop.simps [simp del]

definition adapt :: "int \<Rightarrow> int \<Rightarrow> bool \<Rightarrow> int option" where
  "adapt delta numPoints firstTime =
     (let d0 = (if firstTime then delta div 700 else to_int32 delta div 2);
          (k, d) = adapt_loop 0 (d0 + d0 div numPoints)
      in if d + 38 = 0 then None else Some (k + 36 * d div (d + 38)))"

definition threshold :: "int \<Rightarrow> int option \<Rightarrow> int" where
  "threshold k bias =
     (case bias of
        None \<Rightarrow> 26
      | Some b \<Rightarrow> if k \<le> b then 1 else if k \<ge> b + 26 then 26 else k - b)"

definition overflow :: js_error where
  "overflow = RangeError ''Overflow: input needs wider integers to process''"

lemma threshold_range: "1 \<le> threshold k bias \<and> threshold k bias \<le> 26"
  by (auto simp: threshold_def split: option.split)

section \<open>Decoder\<close>

fun read_delta :: "int option \<Rightarrow> int \<Rightarrow> int \<Rightarrow> int \<Rightarrow> jsstr \<Rightarrow> (int \<times> jsstr) result" where
  "read_delta bias k w i [] = Inl (RangeError ''Invalid input'')"
| "read_delta bias k w i (c # s) =
     (let d = basicToDigit (uint c) in
      if d \<ge> 36 \<or> d > (maxInt - i) div w then Inl overflow
      else
        let i' = i + d * w; t = threshold k bias in
        if d < t then Inr (i', s)
        else if w > maxInt div (36 - t) then Inl overflow
        else read_delta bias (k + 36) (w * (36 - t)) i' s)"

lemma read_delta_shorter: "read_delta bias k w i s = Inr (j, u) \<Longrightarrow> length u < length s"
  by (induction s arbitrary: k w i) (auto simp: Let_def less_SucI split: if_splits)

definition js_rem :: "int \<Rightarrow> int \<Rightarrow> int" where
  \<comment> \<open>the operator \<^verbatim>\<open>%\<close>, with the sign of the left operand\<close>
  "js_rem a b = (if a < 0 then - ((- a) mod b) else a mod b)"

definition splice_in :: "int list \<Rightarrow> int \<Rightarrow> int \<Rightarrow> int list" where
  \<comment> \<open>\<^verbatim>\<open>xs.splice(i, 0, v)\<close>; a negative index counts from the end\<close>
  "splice_in xs i v =
     (let p = (if i < 0 then nat (int (length xs) + i) else nat i) in take p xs @ v # drop p xs)"

function decode_loop :: "int \<Rightarrow> int option \<Rightarrow> int \<Rightarrow> int list \<Rightarrow> jsstr \<Rightarrow> int list result" where
  "decode_loop n bias i output s =
     (if s = [] then Inr output
      else case read_delta bias 36 1 i s of
        Inl e \<Rightarrow> Inl e
      | Inr (i', s') \<Rightarrow>
          (let out = int (length output) + 1;
               bias' = adapt (i' - i) out (i = 0)
           in if i' div out > maxInt - n then Inl overflow
              else let n' = n + i' div out; p = js_rem i' out
                   in decode_loop n' bias' (p + 1) (splice_in output p n') s'))"
  by pat_completeness auto
termination by (relation "measure (\<lambda>(n, bias, i, output, s). length s)") (auto dest: read_delta_shorter)

declare decode_loop.simps [simp del]

definition decode :: "jsstr \<Rightarrow> jsstr result" where
  "decode input =
     (let basic = (case lastIndexOf input 45 of Some b \<Rightarrow> b | None \<Rightarrow> 0) in
      if \<not> list_all (\<lambda>c. c < 0x80) (take basic input)
      then Inl (RangeError ''Illegal input >= 0x80 (not a basic code point)'')
      else rbind (decode_loop 128 (Some 72) 0 (map uint (take basic input)) (drop (if basic > 0 then basic + 1 else 0) input))
             (\<lambda>output. Inr (ucs2encode output)))"

section \<open>Encoder\<close>

function write_delta :: "int option \<Rightarrow> int \<Rightarrow> int \<Rightarrow> int list" where
  "write_delta bias k q =
     (let t = threshold k bias in
      if q < t then [q]
      else (t + (q - t) mod (36 - t)) # write_delta bias (k + 36) ((q - t) div (36 - t)))"
  by pat_completeness auto
termination
proof (relation "measure (\<lambda>(bias, k, q). nat q)")
  fix bias k q t
  assume "t = threshold k bias" "\<not> q < (t::int)"
  moreover from this have "1 \<le> t" "t \<le> 26" using threshold_range [of k bias] by auto
  moreover from this have "(q - t) div (36 - t) \<le> q - t"
    using int_div_le_self [of "q - t" "36 - t"] \<open>\<not> q < t\<close> by (cases "q = t") auto
  ultimately have "(q - t) div (36 - t) < q" by linarith
  then show "((bias, k + 36, (q - t) div (36 - t)), bias, k, q) \<in> measure (\<lambda>(bias, k, q). nat q)"
    using \<open>\<not> q < t\<close> \<open>1 \<le> t\<close> by (simp add: nat_less_eq_zless zless_nat_eq_int_zless)
qed simp

declare write_delta.simps [simp del]

definition write_digits :: "int option \<Rightarrow> int \<Rightarrow> jsstr" where
  "write_digits bias delta = map (\<lambda>d. word_of_int (digitToBasic d 0)) (write_delta bias 36 delta)"

record enc_state =
  e_delta :: int
  e_bias :: "int option"
  e_handled :: int
  e_output :: jsstr

text \<open>
  The inner loop over the input; \<open>plus1\<close> is \<^verbatim>\<open>handledCPCountPlusOne\<close>, which keeps the value it had before the loop.
\<close>

fun encode_inner :: "int \<Rightarrow> int \<Rightarrow> int \<Rightarrow> int list \<Rightarrow> enc_state \<Rightarrow> enc_state result" where
  "encode_inner n plus1 basicLength [] st = Inr st"
| "encode_inner n plus1 basicLength (currentValue # cs) st =
     (let st1 = (if currentValue < n then st\<lparr>e_delta := e_delta st + 1\<rparr> else st) in
      if currentValue < n \<and> e_delta st1 > maxInt then Inl overflow
      else if currentValue = n then
        encode_inner n plus1 basicLength cs
          (st1\<lparr>e_output := e_output st1 @ write_digits (e_bias st1) (e_delta st1),
               e_bias := adapt (e_delta st1) plus1 (e_handled st1 = basicLength),
               e_delta := 0, e_handled := e_handled st1 + 1\<rparr>)
      else encode_inner n plus1 basicLength cs st1)"

definition next_code_point :: "int \<Rightarrow> int list \<Rightarrow> int" where
  "next_code_point n input = foldl (\<lambda>m c. if c \<ge> n \<and> c < m then c else m) maxInt input"

text \<open>The main loop handles at least one code point in each round, so the length of the input is enough fuel.\<close>

fun encode_loop :: "nat \<Rightarrow> int list \<Rightarrow> int \<Rightarrow> int \<Rightarrow> enc_state \<Rightarrow> enc_state result option" where
  "encode_loop 0 input basicLength n st = (if e_handled st < int (length input) then None else Some (Inr st))"
| "encode_loop (Suc fuel) input basicLength n st =
     (if e_handled st < int (length input) then
        (let m = next_code_point n input; plus1 = e_handled st + 1 in
         if m - n > (maxInt - e_delta st) div plus1 then Some (Inl overflow)
         else case encode_inner m plus1 basicLength input (st\<lparr>e_delta := e_delta st + (m - n) * plus1\<rparr>) of
           Inl e \<Rightarrow> Some (Inl e)
         | Inr st' \<Rightarrow> encode_loop fuel input basicLength (m + 1) (st'\<lparr>e_delta := e_delta st' + 1\<rparr>))
      else Some (Inr st))"

definition encode :: "jsstr \<Rightarrow> jsstr result" where
  \<comment> \<open>the last branch is never taken, see \<open>encode_loop_returns\<close>\<close>
  "encode s =
     (let input = ucs2decode s;
          basic = map word_of_int (filter (\<lambda>c. c < 0x80) input) :: jsstr;
          n = int (length basic)
      in case encode_loop (length input) input n 128
                \<lparr>e_delta = 0, e_bias = Some 72, e_handled = n, e_output = (if n > 0 then basic @ [45] else basic)\<rparr> of
           Some r \<Rightarrow> rbind r (\<lambda>st. Inr (e_output st))
         | None \<Rightarrow> Inl (JsError ''out of fuel''))"

section \<open>Domains\<close>

definition mapDomain :: "(jsstr \<Rightarrow> jsstr result) \<Rightarrow> jsstr \<Rightarrow> jsstr result" where
  \<comment> \<open>the helper \<^verbatim>\<open>map\<close> goes from the last label to the first\<close>
  "mapDomain f string =
     (let parts = split_on 64 string;
          (result, s) = (if length parts > 1 then (parts ! 0 @ [64], parts ! 1) else ([], string));
          s' = map (\<lambda>c. if c = 0x3002 \<or> c = 0xFF0E \<or> c = 0xFF61 then 0x2E else c) s
      in rbind (map_result f (rev (split_on 0x2E s'))) (\<lambda>ls. Inr (result @ join [0x2E] (rev ls))))"

definition toUnicode :: "jsstr \<Rightarrow> jsstr result" where
  "toUnicode = mapDomain (\<lambda>s. if take 4 s = js ''xn--'' then decode (map (\<lambda>c. if 65 \<le> c \<and> c \<le> 90 then c + 32 else c) (drop 4 s)) else Inr s)"

definition nonASCII :: "jsstr \<Rightarrow> bool" where
  "nonASCII s \<longleftrightarrow> \<not> list_all (\<lambda>c. 0x20 \<le> c \<and> c \<le> 0x7E) s"

definition toASCII :: "jsstr \<Rightarrow> jsstr result" where
  "toASCII = mapDomain (\<lambda>s. if nonASCII s then rbind (encode s) (\<lambda>t. Inr (js ''xn--'' @ t)) else Inr s)"

section \<open>The loop of the encoder ends\<close>

lemma encode_inner_handled:
  "encode_inner n p b cs st = Inr st' \<Longrightarrow> e_handled st' = e_handled st + int (length (filter (\<lambda>c. c = n) cs))"
  by (induction cs arbitrary: st) (auto simp: Let_def split: if_splits)

lemma next_code_point_min:
  assumes "c \<in> set input" "n \<le> c" "c < maxInt"
  shows "next_code_point n input \<in> set input" "n \<le> next_code_point n input"
    "d \<in> set input \<Longrightarrow> n \<le> d \<Longrightarrow> next_code_point n input \<le> d"
proof -
  have f: "let r = foldl (\<lambda>m c. if c \<ge> n \<and> c < m then c else m) a xs in
      r \<le> a \<and> (r = a \<or> r \<in> set xs \<and> n \<le> r) \<and> (\<forall>c \<in> set xs. n \<le> c \<longrightarrow> r \<le> c)" for a xs
  proof (induction xs arbitrary: a)
    case (Cons x xs)
    from Cons [of "if x \<ge> n \<and> x < a then x else a"] show ?case
      by (auto simp: Let_def split: if_splits)
  qed simp
  have "next_code_point n input \<le> c" using f [of maxInt input] assms(1,2)
    by (auto simp: next_code_point_def Let_def)
  then show "next_code_point n input \<in> set input" "n \<le> next_code_point n input"
    using f [of maxInt input] assms(3) by (auto simp: next_code_point_def Let_def)
  show "d \<in> set input \<Longrightarrow> n \<le> d \<Longrightarrow> next_code_point n input \<le> d"
    using f [of maxInt input] by (auto simp: next_code_point_def Let_def)
qed

lemma filter_between:
  assumes "\<forall>c \<in> set xs. n \<le> c \<longrightarrow> m \<le> c" "n \<le> (m::int)"
  shows "filter (\<lambda>c. c < m) xs = filter (\<lambda>c. c < n) xs"
  using assms by (intro filter_cong) force+

lemma length_filter_through:
  "length (filter (\<lambda>c. c < m + 1) xs) = length (filter (\<lambda>c. c < m) xs) + length (filter (\<lambda>c. c = (m::int)) xs)"
  by (induction xs) auto

lemma encode_loop_returns:
  assumes "\<forall>c \<in> set input. c < maxInt"
    and "e_handled st = int (length (filter (\<lambda>c. c < n) input))"
    and "length input \<le> length (filter (\<lambda>c. c < n) input) + fuel"
  shows "encode_loop fuel input b n st \<noteq> None"
  using assms(2,3)
proof (induction fuel arbitrary: n st)
  case (Suc fuel)
  show ?case
  proof (cases "e_handled st < int (length input)")
    case True
    then have "length (filter (\<lambda>c. c < n) input) < length input" using Suc.prems(1) by simp
    then obtain c where c: "c \<in> set input" "n \<le> c"
      by (metis filter_True linorder_not_less less_irrefl)
    define m where "m = next_code_point n input"
    have m: "m \<in> set input" "n \<le> m" "\<forall>d \<in> set input. n \<le> d \<longrightarrow> m \<le> d"
      using next_code_point_min [of c input n] c assms(1) by (auto simp: m_def)
    have same: "length (filter (\<lambda>c. c < m) input) = length (filter (\<lambda>c. c < n) input)"
      using filter_between [OF m(3,2)] by simp
    have more: "1 \<le> length (filter (\<lambda>c. c = m) input)"
      using m(1) by (cases "filter (\<lambda>c. c = m) input") (auto simp: filter_empty_conv)
    have "encode_loop fuel input b (m + 1) (st'\<lparr>e_delta := x\<rparr>) \<noteq> None"
      if "encode_inner m p b input (st\<lparr>e_delta := d\<rparr>) = Inr st'" for st' p d x
    proof (rule Suc.IH)
      show "e_handled (st'\<lparr>e_delta := x\<rparr>) = int (length (filter (\<lambda>c. c < m + 1) input))"
        using encode_inner_handled [OF that] Suc.prems(1) same length_filter_through [of m input] by simp
      show "length input \<le> length (filter (\<lambda>c. c < m + 1) input) + fuel"
        using Suc.prems(2) same more length_filter_through [of m input] by linarith
    qed
    then show ?thesis using True
      by (auto simp: Let_def m_def split: sum.split)
  qed simp
qed simp

section \<open>One number\<close>

lemma int_or_surrogate:
  assumes "0 \<le> a" "a < 1024"
  shows "(a::int) OR 0xD800 = a + 0xD800" "0xDC00 OR a = 0xDC00 + a"
proof -
  obtain n where n: "a = int n" using assms(1) nonneg_int_cases by blast
  then have "n < 1024" using assms(2) by simp
  note e = or_surrogate [OF this]
  have "int (n OR 0xD800) = int n OR int 0xD800" "int (0xDC00 OR n) = int 0xDC00 OR int n"
    by (rule of_nat_or_eq)+
  with e n show "a OR 0xD800 = a + 0xD800" "0xDC00 OR a = 0xDC00 + a" by simp_all
qed

lemma int_and_3FF: "(x::int) AND 0x3FF = x mod 1024"
  using int_and_mask [of x 10] by (simp add: mask_eq_exp_minus_1)

lemma trail_mask: "0 \<le> x \<Longrightarrow> x < 65536 \<Longrightarrow> (x::int) AND 0xFC00 = 0xDC00 \<longleftrightarrow> 0xDC00 \<le> x \<and> x \<le> 0xDFFF"
proof -
  assume x: "0 \<le> x" "x < 65536"
  have "x AND push_bit 10 y = push_bit 10 (drop_bit 10 x AND y)" for y
    by (rule bit_eqI) (auto simp: bit_simps)
  from this [of 63] have "x AND 0xFC00 = (x div 1024 AND 63) * 1024"
    by (simp add: push_bit_eq_mult drop_bit_eq_div)
  moreover have "(x div 1024) AND 63 = x div 1024"
    using int_and_mask [of "x div 1024" 6] x by (simp add: mask_eq_exp_minus_1)
  ultimately show ?thesis using x by auto
qed

lemma uint_code_unit: "0 \<le> uint (c::code_unit) \<and> uint c < 65536"
  using uint_lt2p [of c] by simp

lemma ucs2_pair:
  assumes "0xD800 \<le> uint c" "uint c \<le> 0xDBFF" "uint (d::code_unit) AND 0xFC00 = 0xDC00"
  defines "v \<equiv> push_bit 10 (uint (c::code_unit) AND 0x3FF) + (uint d AND 0x3FF) + 0x10000"
  shows "ucs2encode_one v = [c, d]" "0 \<le> v \<and> v < 0x110000"
proof -
  define h where "h = uint c - 0xD800"
  define l where "l = uint d - 0xDC00"
  have d: "0xDC00 \<le> uint d" "uint d \<le> 0xDFFF" using trail_mask [of "uint d"] uint_code_unit [of d] assms(3) by auto
  have h: "0 \<le> h" "h < 1024" "uint c = h + 0xD800" and l: "0 \<le> l" "l < 1024" "uint d = 0xDC00 + l"
    using assms(1,2) d by (auto simp: h_def l_def)
  have "uint c mod 1024 = h" using h mod_mult_self1 [of h 54 1024] by simp
  moreover have "uint d mod 1024 = l" using l mod_mult_self2 [of l 1024 55] by (simp add: add.commute)
  ultimately have v: "v = h * 1024 + l + 0x10000"
    unfolding v_def int_and_3FF by (simp add: push_bit_eq_mult)
  then show "0 \<le> v \<and> v < 0x110000" using h l by auto
  have "ucs2encode_one v = [word_of_int (h + 0xD800), word_of_int (0xDC00 + l)]"
    using h l v by (simp add: ucs2encode_one_def Let_def int_and_3FF drop_bit_eq_div int_or_surrogate)
  then show "ucs2encode_one v = [c, d]" by (simp add: h(3) [symmetric] l(3) [symmetric])
qed

lemma ucs2_roundtrip: "ucs2encode (ucs2decode s) = s"
proof -
  have "ucs2encode_one (uint c) = [c]" for c :: code_unit
    using uint_code_unit [of c] by (simp add: ucs2encode_one_def)
  then show ?thesis
    by (induction s rule: ucs2decode.induct) (auto simp: ucs2encode_def ucs2_pair(1) simp del: push_bit_and)
qed

lemma ucs2decode_range: "x \<in> set (ucs2decode s) \<Longrightarrow> 0 \<le> x \<and> x < 0x110000"
proof (induction s rule: ucs2decode.induct)
  case (2 c)
  then show ?case using uint_code_unit [of c] by auto
next
  case (3 c d s)
  then show ?case using uint_code_unit [of c] ucs2_pair(2) [of c d] by (auto split: if_splits)
qed simp

lemma length_ucs2decode: "length (ucs2decode s) \<le> length s"
  by (induction s rule: ucs2decode.induct) auto

lemma digit_char:
  assumes "0 \<le> d" "d < 36"
  shows "basicToDigit (uint (word_of_int (digitToBasic d 0) :: code_unit)) = d"
    "(word_of_int (digitToBasic d 0) :: code_unit) \<noteq> 45" "(word_of_int (digitToBasic d 0) :: code_unit) < 0x80"
proof -
  have e: "digitToBasic d 0 = (if d < 26 then d + 97 else d + 22)" by (simp add: digitToBasic_def)
  have u: "uint (word_of_int (digitToBasic d 0) :: code_unit) = digitToBasic d 0"
    using assms by (simp add: e uint_word_of_int take_bit_eq_mod)
  show "basicToDigit (uint (word_of_int (digitToBasic d 0) :: code_unit)) = d"
    using assms unfolding u by (simp add: e basicToDigit_def)
  show "(word_of_int (digitToBasic d 0) :: code_unit) \<noteq> 45" "(word_of_int (digitToBasic d 0) :: code_unit) < 0x80"
    using assms u by (auto simp: e word_less_def word_uint_eq_iff split: if_splits)
qed

lemma write_delta_range: "0 \<le> q \<Longrightarrow> list_all (\<lambda>d. 0 \<le> d \<and> d < 36) (write_delta bias k q)"
proof (induction bias k q rule: write_delta.induct)
  case (1 bias k q)
  define t where "t = threshold k bias"
  have t: "1 \<le> t" "t \<le> 26" using threshold_range [of k bias] by (auto simp: t_def)
  have "0 \<le> (q - t) mod (36 - t)" "(q - t) mod (36 - t) < 36 - t" using t by auto
  then have "0 \<le> t + (q - t) mod (36 - t)" "t + (q - t) mod (36 - t) < 36" using t by linarith+
  moreover have "0 \<le> (q - t) div (36 - t)" if "\<not> q < t" using that t by (simp add: pos_imp_zdiv_nonneg_iff)
  ultimately show ?case
    using 1 t by (subst write_delta.simps) (auto simp: Let_def t_def [symmetric])
qed

lemma write_delta_ne: "write_delta bias k q \<noteq> []"
  by (subst write_delta.simps) (simp add: Let_def)

definition delta_bound :: int where
  "delta_bound = 0x110000 * 64"

lemma le_div: "0 < b \<Longrightarrow> a * b \<le> c \<Longrightarrow> a \<le> c div (b::int)"
  using zdiv_mono1 [of "a * b" c b] by simp

lemma weight_ok:
  assumes "1 \<le> w" "w * q \<le> delta_bound" "t \<le> q" "t = threshold k (Some b)"
    and "k \<le> b + 1 \<longrightarrow> (\<exists>j. w = 35 ^ j)"
  shows "w * (36 - t) \<le> maxInt"
proof (cases "k \<le> b + 1")
  case True
  then obtain j where j: "w = 35 ^ j" using assms(5) by blast
  have t: "t = 1" using True assms(4) by (auto simp: threshold_def)
  have "w * 1 \<le> w * q" using assms(1,3) t by (intro mult_left_mono) auto
  then have "w \<le> delta_bound" using assms(2) by simp
  then have "(35::int) ^ j < 35 ^ 6" using j by (simp add: delta_bound_def)
  then have "j < 6" by (rule power_less_imp_less_exp [rotated]) simp
  then have "(35::int) ^ Suc j \<le> 35 ^ 6" by (intro power_increasing) auto
  then show ?thesis using j t by (simp add: maxInt_def)
next
  case False
  then have t: "2 \<le> t" "t \<le> 26" using assms(4) by (auto simp: threshold_def)
  have "w * 2 \<le> w * q" using assms(1,3) t by (intro mult_left_mono) auto
  then have "w \<le> delta_bound div 2" using assms(2) by simp
  moreover have "w * (36 - t) \<le> w * 34" using assms(1) t by (intro mult_left_mono) auto
  ultimately show ?thesis by (simp add: delta_bound_def maxInt_def)
qed

lemma read_write_delta:
  assumes "0 \<le> q" "1 \<le> w" "0 \<le> i" "i + w * q \<le> maxInt" "w * q \<le> delta_bound"
    and "k \<le> b + 1 \<longrightarrow> (\<exists>j. w = 35 ^ j)"
  shows "read_delta (Some b) k w i
           (map (\<lambda>d. word_of_int (digitToBasic d 0)) (write_delta (Some b) k q) @ s) = Inr (i + w * q, s)"
  using assms
proof (induction "Some b" k q arbitrary: w i rule: write_delta.induct)
  case (1 k q)
  define t where "t = threshold k (Some b)"
  have t: "1 \<le> t" "t \<le> 26" using threshold_range [of k "Some b"] by (auto simp: t_def)
  have fits: "\<not> d > (maxInt - i) div w" if "0 \<le> d" "d \<le> q" for d
  proof -
    have "d * w \<le> q * w" using that(2) "1.prems"(2) by (intro mult_right_mono) auto
    also have "\<dots> \<le> maxInt - i" using "1.prems"(4) by (simp add: mult.commute)
    finally have "d \<le> (maxInt - i) div w" using "1.prems"(2) by (intro le_div) auto
    then show ?thesis by simp
  qed
  show ?case
  proof (cases "q < t")
    case True
    have d: "basicToDigit (uint (word_of_int (digitToBasic q 0) :: code_unit)) = q"
      using True t "1.prems"(1) by (intro digit_char) auto
    show ?thesis
      using True fits [of q] "1.prems"(1) t
      by (subst write_delta.simps) (simp add: Let_def t_def [symmetric] d mult.commute)
  next
    case False
    define r where "r = (q - t) mod (36 - t)"
    define u where "u = (q - t) div (36 - t)"
    have r: "0 \<le> r" "r < 36 - t" using t by (auto simp: r_def)
    have u: "0 \<le> u" using False t by (simp add: u_def pos_imp_zdiv_nonneg_iff)
    have q: "q = t + r + u * (36 - t)"
      using div_mult_mod_eq [of "q - t" "36 - t"] unfolding r_def u_def by linarith
    have d: "basicToDigit (uint (word_of_int (digitToBasic (t + r) 0) :: code_unit)) = t + r"
      using r t by (intro digit_char) auto
    have "t + r \<le> q" using q u t by simp
    note f = fits [OF _ this]
    have w: "w * (36 - t) \<le> maxInt"
      using weight_ok [of w q t k b] False "1.prems" by (simp add: t_def)
    then have nw: "\<not> w > maxInt div (36 - t)" using t le_div [of "36 - t" w maxInt] by simp
    have eq: "i + (t + r) * w + w * (36 - t) * u = i + w * q" by (simp add: q algebra_simps)
    have i': "0 \<le> (t + r) * w" using t r "1.prems"(2) by simp
    have w': "1 \<le> w * (36 - t)" using t "1.prems"(2) mult_mono [of 1 w 1 "36 - t"] by simp
    have D: "w * (36 - t) * u \<le> delta_bound" using i' eq "1.prems"(5) by linarith
    have pw: "k + 36 \<le> b + 1 \<longrightarrow> (\<exists>j. w * (36 - t) = 35 ^ j)"
    proof
      assume k: "k + 36 \<le> b + 1"
      then obtain j where "w = 35 ^ j" using "1.prems"(6) by auto
      moreover have "t = 1" using k by (simp add: t_def threshold_def)
      ultimately have "w * (36 - t) = 35 ^ Suc j" by simp
      then show "\<exists>j. w * (36 - t) = 35 ^ j" by blast
    qed
    have rec: "read_delta (Some b) (k + 36) (w * (36 - t)) (i + (t + r) * w)
        (map (\<lambda>d. word_of_int (digitToBasic d 0)) (write_delta (Some b) (k + 36) u) @ s)
        = Inr (i + (t + r) * w + w * (36 - t) * u, s)"
      using "1.hyps" [OF t_def False, of "w * (36 - t)" "i + (t + r) * w"] u w' i' D pw "1.prems"(3,4) eq
      by (simp add: u_def)
    show ?thesis
      using False f d r t nw rec eq
      by (subst write_delta.simps) (simp add: Let_def t_def [symmetric] r_def [symmetric] u_def [symmetric])
  qed
qed

section \<open>Encoder and decoder in step\<close>

lemma adapt_loop_nonneg: "0 \<le> delta \<Longrightarrow> adapt_loop k delta = (k', d) \<Longrightarrow> 0 \<le> d"
proof (induction k delta rule: adapt_loop.induct)
  case (1 k delta)
  show ?case
    using 1 by (cases "delta > 455") (auto simp: adapt_loop.simps [of k delta] pos_imp_zdiv_nonneg_iff)
qed

lemma small_int32: "0 \<le> delta \<Longrightarrow> delta \<le> delta_bound \<Longrightarrow> to_int32 delta = delta"
  by (rule to_int32_id) (auto simp: delta_bound_def)

lemma adapt_finite:
  assumes "0 \<le> delta" "delta \<le> delta_bound" "0 < p"
  shows "\<exists>b. adapt delta p f = Some b"
proof -
  let ?d = "if f then delta div 700 else to_int32 delta div 2"
  have "0 \<le> ?d" using assms by (simp add: small_int32 pos_imp_zdiv_nonneg_iff)
  then have "0 \<le> ?d + ?d div p" using assms(3) by (simp add: pos_imp_zdiv_nonneg_iff)
  moreover obtain k d where l: "adapt_loop 0 (?d + ?d div p) = (k, d)" by (cases "adapt_loop 0 (?d + ?d div p)")
  ultimately have "0 \<le> d" by (rule adapt_loop_nonneg)
  then have "adapt delta p f = Some (k + 36 * d div (d + 38))" unfolding adapt_def Let_def l by simp
  then show ?thesis by blast
qed

text \<open>
  Within one round the encoder passes a count that is too small from the second equal code point on; the
  result is the same because the delta is smaller than either count.
\<close>

lemma adapt_stale_count:
  assumes "0 \<le> delta" "delta \<le> delta_bound" "delta < p" "p \<le> p'"
  shows "adapt delta p False = adapt delta p' False"
proof -
  have "delta div 2 div p = 0" "delta div 2 div p' = 0"
    using assms by (auto intro!: div_pos_pos_trivial simp: pos_imp_zdiv_nonneg_iff)
  then show ?thesis using assms by (simp add: adapt_def small_int32 Let_def)
qed

lemma insert_at_end: "splice_in (xs @ ys) (int (length xs)) v = xs @ v # ys"
  by (simp add: splice_in_def)

lemma decode_step:
  assumes "0 \<le> delta" "delta \<le> delta_bound" "0 \<le> i" "i + delta \<le> maxInt"
    and "i + delta = (m - n) * (int (length (xs @ ys)) + 1) + int (length xs)" "n \<le> m" "m \<le> maxInt"
  shows "decode_loop n (Some b) i (xs @ ys) (write_digits (Some b) delta @ s)
       = decode_loop m (adapt delta (int (length (xs @ ys)) + 1) (i = 0)) (int (length xs) + 1) (xs @ m # ys) s"
proof -
  let ?out = "int (length (xs @ ys)) + 1"
  have r: "read_delta (Some b) 36 1 i (write_digits (Some b) delta @ s) = Inr (i + delta, s)"
  proof -
    have "36 \<le> b + 1 \<longrightarrow> (\<exists>j. (1::int) = 35 ^ j)" by (metis power_0)
    from read_write_delta [of delta 1 i 36 b s, OF _ _ _ _ _ this] show ?thesis
      unfolding write_digits_def using assms(1-4) by simp
  qed
  have ne: "write_digits (Some b) delta \<noteq> []" using write_delta_ne by (simp add: write_digits_def)
  have l: "0 \<le> int (length xs)" "int (length xs) < ?out" by auto
  have "(i + delta) div ?out = m - n" "(i + delta) mod ?out = int (length xs)"
    unfolding assms(5) using l by (auto simp: div_pos_pos_trivial mod_pos_pos_trivial)
  moreover have "0 \<le> i + delta" using assms by simp
  ultimately show ?thesis
    using r ne assms(6,7)
    by (subst decode_loop.simps) (simp add: Let_def js_rem_def insert_at_end)
qed

definition digit_text :: "jsstr \<Rightarrow> bool" where
  "digit_text = list_all (\<lambda>c. c \<noteq> 45 \<and> c < 0x80)"

lemma write_digits_text: "0 \<le> delta \<Longrightarrow> digit_text (write_digits b delta)"
  using write_delta_range [of delta b 36] digit_char
  by (auto simp: digit_text_def write_digits_def list_all_iff)

text \<open>
  The relation between the two sides when the encoder, in the round of code point \<open>m\<close>, has passed \<open>pre\<close> and has
  \<open>suf\<close> ahead: the decoder holds what is handled, and its counter lags behind by the encoder's delta.
\<close>

definition below :: "int \<Rightarrow> int list \<Rightarrow> int list" where
  "below m = filter (\<lambda>c. c < m)"

definition through :: "int \<Rightarrow> int list \<Rightarrow> int list" where
  "through m = filter (\<lambda>c. c \<le> m)"

definition in_step :: "int \<Rightarrow> int \<Rightarrow> int list \<Rightarrow> int list \<Rightarrow> enc_state \<Rightarrow> int \<Rightarrow> int \<Rightarrow> bool" where
  "in_step m basic pre suf st n i \<longleftrightarrow>
     e_handled st = int (length (through m pre @ below m suf))
     \<and> i + e_delta st = (m - n) * (e_handled st + 1) + int (length (through m pre))
     \<and> 0 \<le> e_delta st \<and> 0 \<le> i \<and> 128 \<le> n \<and> n \<le> m \<and> basic \<le> e_handled st
     \<and> (e_handled st = basic \<longleftrightarrow> i = 0) \<and> (\<exists>b. e_bias st = Some b)
     \<and> (m \<notin> set pre \<or> e_delta st \<le> int (length (below m pre)) \<and> 0 < i)"

lemma below_through_simps [simp]:
  "below m [] = []" "through m [] = []"
  "below m (c # cs) = (if c < m then c # below m cs else below m cs)"
  "through m (c # cs) = (if c \<le> m then c # through m cs else through m cs)"
  "below m (xs @ ys) = below m xs @ below m ys" "through m (xs @ ys) = through m xs @ through m ys"
  by (simp_all add: below_def through_def)

lemma below_le_through: "length (below m xs) \<le> length (through m xs)"
  by (induction xs) auto

lemma below_eq_through: "m \<notin> set xs \<Longrightarrow> through m xs = below m xs"
  by (induction xs) auto

lemma length_through: "length (through m xs) \<le> length xs" "length (below m xs) \<le> length xs"
  by (simp_all add: below_def through_def)

lemma in_step_bounds:
  assumes "in_step m basic pre suf st n i" "m < 0x110000" "length (pre @ suf) \<le> 63"
  shows "i + e_delta st \<le> delta_bound"
proof -
  let ?h = "int (length (through m pre @ below m suf))"
  have "length (through m pre) \<le> length pre" "length (below m suf) \<le> length suf"
    by (rule length_through)+
  then have h: "?h \<le> 63" "int (length (through m pre)) \<le> 63" using assms(3) by auto
  have n: "0 \<le> m - n" "m - n \<le> 0x10FFFF" using assms(1,2) by (auto simp: in_step_def)
  have "(m - n) * (?h + 1) \<le> 0x10FFFF * 64" using n h by (intro mult_mono) auto
  then show ?thesis using assms(1) h by (auto simp: in_step_def delta_bound_def)
qed

lemma encode_inner_step:
  assumes "in_step m basic pre suf st n i" "m < 0x110000" "length (pre @ suf) \<le> 63"
    and "p = int (length (below m (pre @ suf))) + 1"
  shows "\<exists>st' ds n' i'. encode_inner m p basic suf st = Inr st' \<and> e_output st' = e_output st @ ds \<and> digit_text ds
     \<and> (\<forall>s. decode_loop n (e_bias st) i (through m pre @ below m suf) (ds @ s)
            = decode_loop n' (e_bias st') i' (through m (pre @ suf)) s)
     \<and> in_step m basic (pre @ suf) [] st' n' i'"
  using assms
proof (induction suf arbitrary: pre st n i)
  case Nil
  then show ?case
    by (intro exI [of _ st] exI [of _ "[]"] exI [of _ n] exI [of _ i]) (simp add: digit_text_def)
next
  case (Cons c cs)
  have len: "length ((pre @ [c]) @ cs) \<le> 63" using Cons.prems(3) by simp
  have p: "p = int (length (below m ((pre @ [c]) @ cs))) + 1" using Cons.prems(4) by simp
  note inv = Cons.prems(1)
  have bound: "i + e_delta st \<le> delta_bound"
    using in_step_bounds Cons.prems(1-3) by blast
  have small: "0 \<le> e_delta st" "0 \<le> i" using inv by (simp_all add: in_step_def)
  then have le: "e_delta st \<le> delta_bound" using bound by linarith
  consider "c < m" | "c = m" | "c > m" by linarith
  then show ?case
  proof cases
    case 1
    define st1 where "st1 = st\<lparr>e_delta := e_delta st + 1\<rparr>"
    have i1: "in_step m basic (pre @ [c]) cs st1 n i"
      using inv 1 below_le_through [of m pre] by (auto simp: in_step_def st1_def)
    have "\<not> e_delta st1 > maxInt" using small bound unfolding st1_def delta_bound_def maxInt_def by simp
    then show ?thesis
      using Cons.IH [OF i1 Cons.prems(2) len p] 1 by (simp add: st1_def Let_def)
  next
    case 3
    have "in_step m basic (pre @ [c]) cs st n i" using inv 3 by (auto simp: in_step_def)
    from Cons.IH [OF this Cons.prems(2) len p] 3 show ?thesis by (simp add: Let_def)
  next
    case 2
    define st1 where "st1 = st\<lparr>e_output := e_output st @ write_digits (e_bias st) (e_delta st),
      e_bias := adapt (e_delta st) p (e_handled st = basic), e_delta := 0, e_handled := e_handled st + 1\<rparr>"
    obtain b where b: "e_bias st = Some b" using inv by (auto simp: in_step_def)
    let ?out = "int (length (through m pre @ below m cs)) + 1"
    have h: "e_handled st + 1 = ?out" "0 \<le> e_delta st" "e_delta st \<le> delta_bound" "0 \<le> i" "0 < p"
      using inv 2 p small le by (simp_all add: in_step_def)
    have adapt: "e_bias st1 = adapt (e_delta st) ?out (i = 0)"
    proof (cases "m \<in> set pre")
      case True
      then have "e_delta st \<le> int (length (below m pre))" "0 < i" using inv by (auto simp: in_step_def)
      moreover from this have "e_handled st \<noteq> basic" using inv by (auto simp: in_step_def)
      moreover have "p \<le> ?out" using p below_le_through [of m pre] 2 by simp
      ultimately show ?thesis
        using adapt_stale_count [OF h(2,3), of p ?out] p 2 by (simp add: st1_def)
    next
      case False
      then have "p = ?out" using p 2 by (simp add: below_eq_through)
      moreover have "(e_handled st = basic) = (i = 0)" using inv unfolding in_step_def by blast
      ultimately show ?thesis by (simp add: st1_def)
    qed
    have i1: "in_step m basic (pre @ [c]) cs st1 m (int (length (through m pre)) + 1)"
      using inv 2 h adapt_finite [OF h(2,3,5)] by (auto simp: in_step_def st1_def)
    have dec: "decode_loop n (e_bias st) i (through m pre @ below m (c # cs)) (write_digits (e_bias st) (e_delta st) @ s)
        = decode_loop m (e_bias st1) (int (length (through m pre)) + 1) (through m (pre @ [c]) @ below m cs) s" for s
      using decode_step [of "e_delta st" i m n "through m pre" "below m cs" b s] inv bound h 2 b Cons.prems(2)
      by (simp add: adapt in_step_def delta_bound_def maxInt_def)
    obtain st' ds n' i' where ih: "encode_inner m p basic cs st1 = Inr st'" "e_output st' = e_output st1 @ ds"
        "digit_text ds" "\<forall>s. decode_loop m (e_bias st1) (int (length (through m pre)) + 1) (through m (pre @ [c]) @ below m cs) (ds @ s)
            = decode_loop n' (e_bias st') i' (through m ((pre @ [c]) @ cs)) s"
        "in_step m basic ((pre @ [c]) @ cs) [] st' n' i'"
      using Cons.IH [OF i1 Cons.prems(2) len p] by blast
    have "digit_text (write_digits (e_bias st) (e_delta st) @ ds)"
      using ih(3) write_digits_text [OF h(2)] by (simp add: digit_text_def)
    then show ?thesis
      using ih 2 dec
      by (intro exI [of _ st'] exI [of _ "write_digits (e_bias st) (e_delta st) @ ds"] exI [of _ n'] exI [of _ i'])
        (simp add: st1_def Let_def)
  qed
qed

lemma below_next:
  assumes "\<forall>c \<in> set xs. n \<le> c \<longrightarrow> m \<le> c" "n \<le> (m::int)"
  shows "below m xs = below n xs"
  using filter_between [OF assms] by (simp add: below_def)

lemma below_Suc: "below (m + 1) xs = through m xs"
  by (simp add: below_def through_def)

lemma encode_loop_step:
  assumes "\<forall>c \<in> set xs. 0 \<le> c \<and> c < 0x110000" "length xs \<le> 63" "length xs \<le> length (below m xs) + fuel"
    and "e_handled st = int (length (below m xs))" "i + e_delta st = (m - n) * (e_handled st + 1)"
    and "0 \<le> e_delta st" "0 \<le> i" "128 \<le> n" "n \<le> m" "m \<le> 0x110000" "basic \<le> e_handled st"
    and "e_handled st = basic \<longleftrightarrow> i = 0" "e_bias st = Some b"
  shows "\<exists>st' ds. encode_loop fuel xs basic m st = Some (Inr st') \<and> e_output st' = e_output st @ ds \<and> digit_text ds
      \<and> decode_loop n (e_bias st) i (below m xs) ds = Inr xs"
  using assms(3-)
proof (induction fuel arbitrary: m st i n b)
  case 0
  have "length (below m xs) \<le> length xs" by (rule length_through)
  then have e: "length (below m xs) = length xs" using "0.prems"(1) by simp
  then have "below m xs = xs" unfolding below_def by (metis filter_id_conv length_filter_less less_irrefl)
  then show ?case using "0.prems"(2) by (simp add: digit_text_def decode_loop.simps)
next
  case (Suc fuel)
  show ?case
  proof (cases "e_handled st < int (length xs)")
    case False
    have "length (below m xs) \<le> length xs" by (rule length_through)
    then have "length (below m xs) = length xs" using Suc.prems(2) False by simp
    then have "below m xs = xs" unfolding below_def by (metis filter_id_conv length_filter_less less_irrefl)
    then show ?thesis using False by (simp add: digit_text_def decode_loop.simps)
  next
    case True
    then have "length (below m xs) < length xs" using Suc.prems(2) by simp
    then obtain c where c: "c \<in> set xs" "m \<le> c"
      by (metis below_def filter_True linorder_not_less less_irrefl)
    define k where "k = next_code_point m xs"
    have "c < maxInt" using assms(1) c(1) by (auto simp: maxInt_def)
    then have k: "k \<in> set xs" "m \<le> k" "\<forall>d \<in> set xs. m \<le> d \<longrightarrow> k \<le> d"
      using next_code_point_min [OF c] by (auto simp: k_def)
    have kb: "k < 0x110000" using assms(1) k(1) by auto
    have same: "below k xs = below m xs" using below_next [OF k(3,2)] .
    let ?st = "st\<lparr>e_delta := e_delta st + (k - m) * (e_handled st + 1)\<rparr>"
    have h: "0 \<le> e_handled st" using Suc.prems(2) by simp
    have "0 \<le> (k - m) * (e_handled st + 1)" using k(2) h by simp
    moreover have "(m - n) * (e_handled st + 1) + (k - m) * (e_handled st + 1) = (k - n) * (e_handled st + 1)"
      by (simp add: algebra_simps)
    ultimately have i0: "in_step k basic [] xs ?st n i"
      using Suc.prems(2-) k(2) same unfolding in_step_def by simp
    obtain st' ds n' i' where inner: "encode_inner k (e_handled st + 1) basic xs ?st = Inr st'"
        "e_output st' = e_output st @ ds" "digit_text ds"
        "\<forall>s. decode_loop n (e_bias st) i (below k xs) (ds @ s) = decode_loop n' (e_bias st') i' (through k xs) s"
        "in_step k basic xs [] st' n' i'"
      using encode_inner_step [OF i0 kb, of "e_handled st + 1"] assms(2) Suc.prems(2) same by auto
    let ?st2 = "st'\<lparr>e_delta := e_delta st' + 1\<rparr>"
    obtain b' where b': "e_bias st' = Some b'" using inner(5) by (auto simp: in_step_def)
    have state: "e_handled st' = int (length (through k xs))"
        "i' + e_delta st' = (k - n') * (e_handled st' + 1) + int (length (through k xs))"
        "0 \<le> e_delta st'" "0 \<le> i'" "128 \<le> n'" "n' \<le> k" "basic \<le> e_handled st'" "e_handled st' = basic \<longleftrightarrow> i' = 0"
      using inner(5) unfolding in_step_def append_Nil below_through_simps append_Nil2 by - (elim conjE, assumption)+
    have "\<exists>st3 es. encode_loop fuel xs basic (k + 1) ?st2 = Some (Inr st3) \<and> e_output st3 = e_output ?st2 @ es \<and> digit_text es
      \<and> decode_loop n' (e_bias ?st2) i' (below (k + 1) xs) es = Inr xs"
    proof (rule Suc.IH)
      have "length (through k xs) > length (below k xs)"
      proof -
        have "filter (\<lambda>c. c = k) xs \<noteq> []" using k(1) by (auto simp: filter_empty_conv)
        then have "0 < length (filter (\<lambda>c. c = k) xs)" by simp
        then show ?thesis
          using length_filter_through [of k xs] unfolding below_Suc [symmetric] below_def by linarith
      qed
      then show "length xs \<le> length (below (k + 1) xs) + fuel"
        using Suc.prems(1) same by (simp add: below_Suc)
      show "i' + e_delta ?st2 = (k + 1 - n') * (e_handled ?st2 + 1)"
        using state(1,2) by (simp add: algebra_simps)
    qed (use state kb b' in \<open>simp_all add: below_Suc\<close>)
    then obtain st3 es where rest: "encode_loop fuel xs basic (k + 1) ?st2 = Some (Inr st3)"
        "e_output st3 = e_output ?st2 @ es" "digit_text es"
        "decode_loop n' (e_bias ?st2) i' (below (k + 1) xs) es = Inr xs" by blast
    have "(k - m) * (e_handled st + 1) \<le> maxInt - e_delta st"
      using in_step_bounds [OF i0 kb] assms(2) Suc.prems(5) by (simp add: delta_bound_def maxInt_def)
    then have "\<not> k - m > (maxInt - e_delta st) div (e_handled st + 1)"
      using le_div [of "e_handled st + 1"] h by (simp add: not_less)
    then have "encode_loop (Suc fuel) xs basic m st = Some (Inr st3)"
      using True inner(1) rest(1) by (simp add: Let_def k_def [symmetric])
    moreover have "digit_text (ds @ es)" using inner(3) rest(3) by (simp add: digit_text_def)
    moreover have "decode_loop n (e_bias st) i (below m xs) (ds @ es) = Inr xs"
      using inner(4) rest(4) same by (simp add: below_Suc)
    ultimately show ?thesis using inner(2) rest(2) by auto
  qed
qed

lemma lastIndexOf_none: "c \<notin> set s \<Longrightarrow> lastIndexOf s c = None"
  by (induction s) auto

lemma lastIndexOf_last: "c \<notin> set t \<Longrightarrow> lastIndexOf (s @ c # t) c = Some (length s)"
  by (induction s) (auto simp: lastIndexOf_none)

text \<open>
  \<^bold>\<open>C33.\<close> Every label of at most 63 code units, whatever they are (unpaired surrogates included), is encoded
  without an overflow into ASCII text, and decoding this text gives the label back.
\<close>

theorem punycode_roundtrip:
  assumes "length s \<le> 63"
  shows "\<exists>t. encode s = Inr t \<and> decode t = Inr s \<and> list_all (\<lambda>c. c < 0x80) t"
proof -
  let ?in = "ucs2decode s"
  define basic :: jsstr where "basic = map word_of_int (below 128 ?in)"
  define st where "st = \<lparr>e_delta = 0, e_bias = Some 72, e_handled = int (length basic),
      e_output = (if int (length basic) > 0 then basic @ [45] else basic)\<rparr>"
  have range: "\<forall>c \<in> set ?in. 0 \<le> c \<and> c < 0x110000" using ucs2decode_range by blast
  have len: "length ?in \<le> 63" using length_ucs2decode [of s] assms by simp
  have lb: "length basic = length (below 128 ?in)" by (simp add: basic_def)
  have u: "map uint basic = below 128 ?in" "list_all (\<lambda>c. c < 0x80) basic"
  proof -
    have "uint (word_of_int c :: code_unit) = c" if "0 \<le> c" "c < 128" for c
      using that by (simp add: uint_word_of_int take_bit_eq_mod)
    then show "map uint basic = below 128 ?in" "list_all (\<lambda>c. c < 0x80) basic"
      using range by (auto simp: basic_def below_def list_all_iff word_less_def intro!: map_idI)
  qed
  obtain st' ds where e: "encode_loop (length ?in) ?in (int (length basic)) 128 st = Some (Inr st')"
      "e_output st' = e_output st @ ds" "digit_text ds"
      "decode_loop 128 (Some 72) 0 (below 128 ?in) ds = Inr ?in"
    using encode_loop_step [OF range len, of 128 "length ?in" st 0 128 "int (length basic)" 72] lb
    by (auto simp: st_def)
  let ?t = "e_output st @ ds"
  have enc: "encode s = Inr ?t"
    using e(1,2) unfolding encode_def Let_def below_def [symmetric] basic_def [symmetric] st_def [symmetric] by simp
  have d45: "45 \<notin> set ds" using e(3) by (auto simp: digit_text_def list_all_iff)
  have "decode ?t = Inr s"
  proof (cases "basic = []")
    case True
    then show ?thesis
      using e(4) u(1) d45 by (simp add: decode_def st_def lastIndexOf_none ucs2_roundtrip)
  next
    case False
    then have "lastIndexOf ?t 45 = Some (length basic)"
      using lastIndexOf_last [OF d45, of basic] by (simp add: st_def)
    then show ?thesis using e(4) u False by (simp add: decode_def st_def ucs2_roundtrip)
  qed
  moreover have "list_all (\<lambda>c. c < 0x80) ?t"
    using u(2) e(3) by (auto simp: st_def digit_text_def list_all_iff)
  ultimately show ?thesis using enc by blast
qed

theorem punycode_roundtrip_witness:
  "\<exists>t. encode [0x62, 0xFC, 0x63, 0xFC, 0xD83D, 0xDE00] = Inr t
     \<and> decode t = Inr [0x62, 0xFC, 0x63, 0xFC, 0xD83D, 0xDE00] \<and> list_all (\<lambda>c. c < 0x80) t"
  by (rule punycode_roundtrip) simp

lemma toASCII_example: "toASCII (js ''B'' @ [0xFC] @ js ''cher.de'') = Inr (js ''xn--Bcher-kva.de'')"
  by code_simp

end
