(* ===== verification/Url.thy ===== *)
theory Url
  imports Query_String Punycode
begin

text \<open>
  URLs (\<^verbatim>\<open>url\<close>): the record is the \<^verbatim>\<open>Url\<close> object, with \<open>None\<close> for \<^verbatim>\<open>null\<close> and \<^verbatim>\<open>undefined\<close>; \<open>url_parse\<close> is
  its method \<^verbatim>\<open>parse\<close>, cut at the blank lines of the source into the steps for the host, its check and the
  tail, \<open>url_format\<close> is \<^verbatim>\<open>format\<close>. Regular expressions are written out as conditions on the text.
  The lower case of a text outside ASCII is the parameter \<open>uni\<close>, which the platform's Unicode tables give.
\<close>

section \<open>The object\<close>

datatype url_query = QNull | QText jsstr | QObject qs_obj

record url =
  u_protocol :: "jsstr option"
  u_slashes :: bool
  u_auth :: "jsstr option"
  u_host :: "jsstr option"
  u_port :: "jsstr option"
  u_hostname :: "jsstr option"
  u_hash :: "jsstr option"
  u_search :: "jsstr option"
  u_query :: url_query
  u_pathname :: "jsstr option"
  u_path :: "jsstr option"
  u_href :: "jsstr option"

definition new_Url :: url where
  "new_Url = \<lparr>u_protocol = None, u_slashes = False, u_auth = None, u_host = None, u_port = None, u_hostname = None,
     u_hash = None, u_search = None, u_query = QNull, u_pathname = None, u_path = None, u_href = None\<rparr>"

definition or_empty :: "jsstr option \<Rightarrow> jsstr" where
  \<comment> \<open>\<^verbatim>\<open>s || ''\<close>\<close>
  "or_empty s = (case s of Some t \<Rightarrow> t | None \<Rightarrow> [])"

section \<open>Tables\<close>

definition delims :: jsstr where "delims = js ''<>'' @ [34, 0x60, 32, 13, 10, 9]"
definition unwise :: jsstr where "unwise = js ''{}|'' @ [92, 94, 0x60] @ delims"
definition autoEscape :: jsstr where "autoEscape = 39 # unwise"
definition nonHostChars :: jsstr where "nonHostChars = js ''%/?;#'' @ autoEscape"
definition hostEndingChars :: jsstr where "hostEndingChars = js ''/?#''"

definition unsafeProtocol :: "jsstr option \<Rightarrow> bool" where
  "unsafeProtocol p \<longleftrightarrow> p = Some (js ''javascript'') \<or> p = Some (js ''javascript:'')"

definition hostlessProtocol :: "jsstr option \<Rightarrow> bool" where
  "hostlessProtocol p \<longleftrightarrow> p = Some (js ''javascript'') \<or> p = Some (js ''javascript:'')"

definition slashedProtocol :: "jsstr option \<Rightarrow> bool" where
  "slashedProtocol p \<longleftrightarrow>
     p \<in> Some ` set (map js [''http'', ''https'', ''ftp'', ''gopher'', ''file'',
        ''http:'', ''https:'', ''ftp:'', ''gopher:'', ''file:''])"

section \<open>Patterns\<close>

definition protocol_char :: "code_unit \<Rightarrow> bool" where
  "protocol_char c \<longleftrightarrow> is_letter c \<or> is_digit c \<or> c \<in> {46, 43, 45}"

definition protocolPattern :: "jsstr \<Rightarrow> jsstr option" where
  "protocolPattern s =
     (let p = takeWhile protocol_char s in
      if p \<noteq> [] \<and> take 1 (drop (length p) s) = [58] then Some (p @ [58]) else None)"

definition portPattern :: "jsstr \<Rightarrow> jsstr option" where
  \<comment> \<open>only the last colon can match\<close>
  "portPattern s =
     (case lastIndexOf s 58 of
        None \<Rightarrow> None
      | Some i \<Rightarrow> if list_all is_digit (drop (i + 1) s) then Some (drop i s) else None)"

definition simplePathPattern :: "jsstr \<Rightarrow> (jsstr \<times> jsstr option) option" where
  "simplePathPattern s =
     (if take 1 s = [47] \<and> take 3 s \<noteq> js ''///'' \<and> list_all (\<lambda>c. \<not> white_space c) s
      then Some (takeWhile (\<lambda>c. c \<noteq> 63) s, if 63 \<in> set s then Some (dropWhile (\<lambda>c. c \<noteq> 63) s) else None)
      else None)"

definition userPattern :: "jsstr \<Rightarrow> bool" where
  \<comment> \<open>\<^verbatim>\<open>//user@host\<close>\<close>
  "userPattern s =
     (let r = drop 2 s; a = takeWhile (\<lambda>c. c \<noteq> 64 \<and> c \<noteq> 47) r; b = drop (length a) r in
      take 2 s = js ''//'' \<and> a \<noteq> [] \<and> take 1 b = [64]
      \<and> (case drop 1 b of [] \<Rightarrow> False | c # _ \<Rightarrow> c \<noteq> 64 \<and> c \<noteq> 47))"

definition host_char :: "code_unit \<Rightarrow> bool" where
  "host_char c \<longleftrightarrow> is_letter c \<or> is_digit c \<or> c \<in> {43, 45, 95}"

definition hostnamePartPattern :: "jsstr \<Rightarrow> bool" where
  "hostnamePartPattern s \<longleftrightarrow> list_all host_char s \<and> length s \<le> 63"

definition line_terminator :: "code_unit \<Rightarrow> bool" where
  "line_terminator c \<longleftrightarrow> c \<in> {10, 13, 0x2028, 0x2029}"

definition hostnamePartStart :: "jsstr \<Rightarrow> (jsstr \<times> jsstr) option" where
  "hostnamePartStart s =
     (let n = min 63 (length (takeWhile host_char s)) in
      if list_all (\<lambda>c. \<not> line_terminator c) (drop n s) then Some (take n s, drop n s) else None)"

section \<open>Parsing\<close>

definition fix_backslashes :: "jsstr \<Rightarrow> jsstr" where
  "fix_backslashes u =
     (let queryIndex = indexOf u 63;
          splitter = (if queryIndex \<noteq> -1 \<and> queryIndex < indexOf u 35 then 63 else 35);
          uSplit = split_on splitter u
      in join [splitter] (replace_all 92 [47] (hd uSplit) # tl uSplit))"

definition first_index :: "jsstr \<Rightarrow> jsstr \<Rightarrow> int" where
  \<comment> \<open>the loop over a table of characters, -1 if none occurs\<close>
  "first_index cs rest =
     foldl (\<lambda>hostEnd c. let hec = indexOf rest c in
              if hec \<noteq> -1 \<and> (hostEnd = -1 \<or> hec < hostEnd) then hec else hostEnd) (-1) cs"

definition parseHost :: "url \<Rightarrow> url" where
  "parseHost u =
     (let host = or_empty (u_host u);
          (u1, h) = (case portPattern host of
             None \<Rightarrow> (u, host)
           | Some port \<Rightarrow> (if port \<noteq> [58] then u\<lparr>u_port := Some (drop 1 port)\<rparr> else u, take (length host - length port) host))
      in if h \<noteq> [] then u1\<lparr>u_hostname := Some h\<rparr> else u1)"

fun check_parts :: "jsstr list \<Rightarrow> jsstr list \<Rightarrow> (jsstr list \<times> jsstr list) option" where
  \<comment> \<open>the first part that is no part of a host name splits the name\<close>
  "check_parts validParts [] = None"
| "check_parts validParts (part # parts) =
     (if part = [] \<or> hostnamePartPattern part
         \<or> hostnamePartPattern (map (\<lambda>c. if c > 127 then 120 else c) part)
      then check_parts (validParts @ [part]) parts
      else Some (case hostnamePartStart part of
                   Some (a, b) \<Rightarrow> (validParts @ [a], b # parts)
                 | None \<Rightarrow> (validParts, parts)))"

definition lower_case :: "(jsstr \<Rightarrow> jsstr) \<Rightarrow> jsstr \<Rightarrow> jsstr" where
  "lower_case uni s = (if ascii s then toLowerCase s else uni s)"

definition ipv6 :: "jsstr \<Rightarrow> bool" where
  "ipv6 h \<longleftrightarrow> h \<noteq> [] \<and> hd h = 91 \<and> last h = 93"

text \<open>From the cut of the port to the host that is shown; the text is what is left after the host.\<close>

definition parse_hostname :: "(jsstr \<Rightarrow> jsstr) \<Rightarrow> url \<Rightarrow> jsstr \<Rightarrow> (url \<times> jsstr) result" where
  "parse_hostname uni u0 rest0 =
     (let u1 = parseHost u0;
          name0 = or_empty (u_hostname u1);
          ip = ipv6 name0;
          (name1, rest1) =
            (if ip then (name0, rest0)
             else case check_parts [] (split_on 46 name0) of
               None \<Rightarrow> (name0, rest0)
             | Some (validParts, notHost) \<Rightarrow>
                 (join [46] validParts, if notHost \<noteq> [] then [47] @ join [46] notHost @ rest0 else rest0));
          name2 = (if length name1 > 255 then [] else lower_case uni name1)
      in rbind (if ip then Inr name2 else toASCII name2) (\<lambda>name3.
           let p = (case u_port u1 of Some (d # ds) \<Rightarrow> 58 # d # ds | _ \<Rightarrow> []);
               host = name3 @ p;
               u2 = u1\<lparr>u_host := Some host, u_hostname := Some name3,
                        u_href := Some ((case u_href u1 of Some t \<Rightarrow> t | None \<Rightarrow> js ''null'') @ host)\<rparr>
           in Inr (if ip
                   then (u2\<lparr>u_hostname := Some (take (length name3 - 2) (drop 1 name3))\<rparr>,
                         if take 1 rest1 \<noteq> [47] then 47 # rest1 else rest1)
                   else (u2, rest1))))"

definition parse_host :: "(jsstr \<Rightarrow> jsstr) \<Rightarrow> url \<Rightarrow> jsstr \<Rightarrow> (url \<times> jsstr) result" where
  "parse_host uni u rest =
     (let hostEnd = first_index hostEndingChars rest;
          atSign = (if hostEnd = -1 then lastIndexOf rest 64 else lastIndexOf (take (nat hostEnd + 1) rest) 64)
      in rbind
          (case atSign of
             None \<Rightarrow> Inr (u, rest)
           | Some a \<Rightarrow> rbind (decodeURIComponent (take a rest)) (\<lambda>auth. Inr (u\<lparr>u_auth := Some auth\<rparr>, drop (a + 1) rest)))
          (\<lambda>(u1, rest1).
            let e = first_index nonHostChars rest1;
                hostEnd = (if e = -1 then length rest1 else nat e)
            in parse_hostname uni (u1\<lparr>u_host := Some (take hostEnd rest1)\<rparr>) (drop hostEnd rest1)))"

definition escape_rest :: "jsstr \<Rightarrow> jsstr result" where
  "escape_rest rest =
     foldl (\<lambda>r ae. rbind r (\<lambda>rest.
              if ae \<notin> set rest then Inr rest
              else rbind (encodeURIComponent [ae]) (\<lambda>esc.
                let esc = (if esc = [ae] then escape_byte (ucast ae) else esc)
                in Inr (join esc (split_on ae rest)))))
       (Inr rest) autoEscape"

definition url_format :: "url \<Rightarrow> jsstr result" where
  "url_format u =
     rbind (if or_empty (u_auth u) = [] then Inr []
            else rbind (encodeURIComponent (or_empty (u_auth u))) (\<lambda>a.
              Inr ((case find_sub (js ''%3A'') (map (\<lambda>c. if c = 97 then 65 else c) a) of
                      Some i \<Rightarrow> take i a @ [58] @ drop (i + 3) a | None \<Rightarrow> a) @ [64])))
      (\<lambda>auth.
       let protocol = or_empty (u_protocol u); pathname = or_empty (u_pathname u); hash = or_empty (u_hash u);
           host = (if or_empty (u_host u) \<noteq> [] then Some (auth @ or_empty (u_host u))
                   else case u_hostname u of
                     Some (c # cs) \<Rightarrow>
                       Some (auth @ (if 58 \<notin> set (c # cs) then c # cs else [91] @ (c # cs) @ [93])
                             @ (if or_empty (u_port u) \<noteq> [] then [58] @ or_empty (u_port u) else []))
                   | _ \<Rightarrow> None)
       in rbind (case u_query u of
                   QObject q \<Rightarrow> if q = [] then Inr [] else qs_stringify (Inl q) None None JUndef
                 | _ \<Rightarrow> Inr [])
      (\<lambda>query.
       let search0 = (if or_empty (u_search u) \<noteq> [] then or_empty (u_search u) else if query \<noteq> [] then [63] @ query else []);
           protocol = (if protocol \<noteq> [] \<and> last protocol \<noteq> 58 then protocol @ [58] else protocol);
           slash2 = (u_slashes u \<or> (protocol = [] \<or> slashedProtocol (Some protocol)) \<and> host \<noteq> None);
           shown = (if slash2 then js ''//'' @ or_empty host else or_empty host);
           pathname = (if slash2 \<and> pathname \<noteq> [] \<and> hd pathname \<noteq> 47 then [47] @ pathname else pathname);
           hash = (if hash \<noteq> [] \<and> hd hash \<noteq> 35 then [35] @ hash else hash);
           search = (if search0 \<noteq> [] \<and> hd search0 \<noteq> 63 then [63] @ search0 else search0);
           pathname = replace_all 35 (js ''%23'') (replace_all 63 (js ''%3F'') pathname);
           search = (case find_sub [35] search of Some i \<Rightarrow> take i search @ js ''%23'' @ drop (i + 1) search | None \<Rightarrow> search)
       in Inr (protocol @ shown @ pathname @ search @ hash)))"

text \<open>From the escaping of what follows the host to the end; the protocol is the lower-case one.\<close>

definition parse_tail :: "bool \<Rightarrow> jsstr option \<Rightarrow> url \<Rightarrow> jsstr \<Rightarrow> url result" where
  "parse_tail parseQueryString lowerProto u0 rest0 =
     rbind (if unsafeProtocol lowerProto then Inr rest0 else escape_rest rest0) (\<lambda>rest.
       let (u1, rest1) = (case find_sub [35] rest of
              Some h \<Rightarrow> (u0\<lparr>u_hash := Some (drop h rest)\<rparr>, take h rest) | None \<Rightarrow> (u0, rest))
       in rbind (case find_sub [63] rest1 of
             Some qm \<Rightarrow>
               rbind (if parseQueryString
                      then rbind (qs_parse (JStr (drop (qm + 1) rest1)) None None None) (\<lambda>q. Inr (QObject q))
                      else Inr (QText (drop (qm + 1) rest1)))
                 (\<lambda>q. Inr (u1\<lparr>u_search := Some (drop qm rest1), u_query := q\<rparr>, take qm rest1))
           | None \<Rightarrow>
               Inr (if parseQueryString then u1\<lparr>u_search := Some [], u_query := QObject []\<rparr> else u1, rest1))
      (\<lambda>(u2, rest2).
       let u3 = (if rest2 \<noteq> [] then u2\<lparr>u_pathname := Some rest2\<rparr> else u2);
           u4 = (if slashedProtocol lowerProto \<and> or_empty (u_hostname u3) \<noteq> [] \<and> or_empty (u_pathname u3) = []
                 then u3\<lparr>u_pathname := Some [47]\<rparr> else u3);
           u5 = (if or_empty (u_pathname u4) \<noteq> [] \<or> or_empty (u_search u4) \<noteq> []
                 then u4\<lparr>u_path := Some (or_empty (u_pathname u4) @ or_empty (u_search u4))\<rparr> else u4)
       in rbind (url_format u5) (\<lambda>href. Inr (u5\<lparr>u_href := Some href\<rparr>))))"

fun js_typeof :: "jsval \<Rightarrow> string" where
  "js_typeof JUndef = ''undefined''"
| "js_typeof (JBool b) = ''boolean''"
| "js_typeof (JNum n) = ''number''"
| "js_typeof (JFrac t s) = ''number''"
| "js_typeof (JStr s) = ''string''"
| "js_typeof _ = ''object''"

definition url_parse :: "(jsstr \<Rightarrow> jsstr) \<Rightarrow> jsval \<Rightarrow> bool \<Rightarrow> bool \<Rightarrow> url result" where
  "url_parse uni u parseQueryString slashesDenoteHost =
     (case u of
        JStr s \<Rightarrow>
          (let s1 = fix_backslashes s; rest = trim s1;
               simple = (if \<not> slashesDenoteHost \<and> 35 \<notin> set s1 then simplePathPattern rest else None)
           in case simple of
             Some (pathname, search) \<Rightarrow>
               (let u1 = new_Url\<lparr>u_path := Some rest, u_href := Some rest, u_pathname := Some pathname\<rparr> in
                case search of
                  Some q \<Rightarrow>
                    rbind (if parseQueryString
                           then rbind (qs_parse (JStr (drop 1 q)) None None None) (\<lambda>o'. Inr (QObject o'))
                           else Inr (QText (drop 1 q)))
                      (\<lambda>v. Inr (u1\<lparr>u_search := Some q, u_query := v\<rparr>))
                | None \<Rightarrow> Inr (if parseQueryString then u1\<lparr>u_search := Some [], u_query := QObject []\<rparr> else u1))
           | None \<Rightarrow>
               (let proto = protocolPattern rest; lowerProto = map_option toLowerCase proto;
                    u1 = (if proto \<noteq> None then new_Url\<lparr>u_protocol := lowerProto\<rparr> else new_Url);
                    rest1 = (case proto of Some p \<Rightarrow> drop (length p) rest | None \<Rightarrow> rest);
                    slashes = ((slashesDenoteHost \<or> proto \<noteq> None \<or> userPattern rest1) \<and> take 2 rest1 = js ''//'');
                    (u2, rest2) = (if slashes \<and> \<not> hostlessProtocol proto then (u1\<lparr>u_slashes := True\<rparr>, drop 2 rest1) else (u1, rest1))
                in rbind (if \<not> hostlessProtocol proto \<and> (slashes \<or> proto \<noteq> None \<and> \<not> slashedProtocol proto)
                          then parse_host uni u2 rest2 else Inr (u2, rest2))
                     (\<lambda>(u3, rest3). parse_tail parseQueryString lowerProto u3 rest3)))
      | v \<Rightarrow> Inl (TypeError (''Parameter 'url' must be a string, not '' @ js_typeof v)))"

text \<open>The functions of the module that take a text or an object.\<close>

definition urlParse :: "(jsstr \<Rightarrow> jsstr) \<Rightarrow> url + jsval \<Rightarrow> bool \<Rightarrow> bool \<Rightarrow> url result" where
  "urlParse uni u pq sd = (case u of Inl o' \<Rightarrow> Inr o' | Inr v \<Rightarrow> url_parse uni v pq sd)"

definition urlFormat :: "(jsstr \<Rightarrow> jsstr) \<Rightarrow> url + jsstr \<Rightarrow> jsstr result" where
  "urlFormat uni u = (case u of Inl o' \<Rightarrow> url_format o' | Inr s \<Rightarrow> rbind (urlParse uni (Inr (JStr s)) False False) url_format)"

section \<open>Searching\<close>

lemma indexOf_takeWhile:
  "indexOf s c = (if c \<in> set s then int (length (takeWhile (\<lambda>x. x \<noteq> c) s)) else -1)"
  by (induction s) (auto simp: Let_def)

lemma length_takeWhile_conj:
  "length (takeWhile (\<lambda>x. P x \<and> Q x) xs) = min (length (takeWhile P xs)) (length (takeWhile Q xs))"
  by (induction xs) auto

lemma first_index_takeWhile:
  "first_index cs rest =
     (if set cs \<inter> set rest = {} then -1 else int (length (takeWhile (\<lambda>x. x \<notin> set cs) rest)))"
proof (induction cs rule: rev_induct)
  case Nil
  then show ?case by (simp add: first_index_def)
next
  case (snoc c cs)
  define A where "A = length (takeWhile (\<lambda>x. x \<notin> set cs) rest)"
  define B where "B = length (takeWhile (\<lambda>x. x \<noteq> c) rest)"
  have le: "A \<le> length rest" "B \<le> length rest" by (simp_all add: A_def B_def length_takeWhile_le)
  have all: "A = length rest" if "set cs \<inter> set rest = {}"
  proof -
    have "takeWhile (\<lambda>x. x \<notin> set cs) rest = rest" using that by (auto simp: takeWhile_eq_all_conv)
    then show ?thesis by (simp only: A_def)
  qed
  have none: "B = length rest" if "c \<notin> set rest"
  proof -
    have "takeWhile (\<lambda>x. x \<noteq> c) rest = rest" using that by (auto simp: takeWhile_eq_all_conv)
    then show ?thesis by (simp only: B_def)
  qed
  have "(\<lambda>x. x \<notin> set (cs @ [c])) = (\<lambda>x. x \<notin> set cs \<and> x \<noteq> c)" by auto
  then have m: "length (takeWhile (\<lambda>x. x \<notin> set (cs @ [c])) rest) = min A B"
    by (simp only: length_takeWhile_conj A_def B_def)
  have i: "indexOf rest c = (if c \<in> set rest then int B else -1)" by (simp add: indexOf_takeWhile B_def)
  have f: "first_index cs rest = (if set cs \<inter> set rest = {} then -1 else int A)" using snoc by (simp add: A_def)
  have "first_index (cs @ [c]) rest =
      (let hec = indexOf rest c; h = first_index cs rest in if hec \<noteq> -1 \<and> (h = -1 \<or> hec < h) then hec else h)"
    by (simp add: first_index_def Let_def)
  also have "\<dots> = (if set (cs @ [c]) \<inter> set rest = {} then -1 else int (min A B))"
    using all none le by (cases "set cs \<inter> set rest = {}"; cases "c \<in> set rest") (auto simp: i f Let_def)
  finally show ?case by (simp only: m)
qed

lemma first_index_append:
  assumes "list_all (\<lambda>c. c \<notin> set cs) x" "t = [] \<or> hd t \<in> set cs"
  shows "first_index cs (x @ t) = (if t = [] then -1 else int (length x))"
proof (cases t)
  case Nil
  then show ?thesis using assms(1) by (auto simp: first_index_takeWhile list_all_iff)
next
  case (Cons c r)
  have "takeWhile (\<lambda>c. c \<notin> set cs) (x @ c # r) = x"
    using assms Cons by (auto simp: takeWhile_append list_all_iff)
  then show ?thesis using assms Cons by (auto simp: first_index_takeWhile)
qed

lemma check_parts_ok: "list_all hostnamePartPattern ps \<Longrightarrow> check_parts vs ps = None"
  by (induction ps arbitrary: vs) auto

lemma lastIndexOf_append: "c \<notin> set t \<Longrightarrow> lastIndexOf (s @ t) c = lastIndexOf s c"
  by (induction s) (auto simp: lastIndexOf_none split: option.split)

section \<open>A URL made of its parts\<close>

text \<open>
  \<open>host_ok\<close>: a lower-case ASCII name whose labels have at most 63 characters; \<open>path_ok\<close>: empty or starting with a
  slash, without characters that parsing escapes, cuts at or trims.
\<close>

definition host_ok :: "jsstr \<Rightarrow> bool" where
  "host_ok h \<longleftrightarrow> h \<noteq> [] \<and> length h \<le> 255
     \<and> list_all (\<lambda>c. c = 46 \<or> host_char c \<and> \<not> (65 \<le> c \<and> c \<le> 90)) h
     \<and> list_all (\<lambda>p. length p \<le> 63) (split_on 46 h)"

definition path_ok :: "jsstr \<Rightarrow> bool" where
  "path_ok p \<longleftrightarrow> (p = [] \<or> hd p = 47) \<and> list_all (\<lambda>c. c \<notin> set (35 # 63 # autoEscape) \<and> \<not> white_space c) p"

definition scheme_ok :: "jsstr \<Rightarrow> bool" where
  "scheme_ok p \<longleftrightarrow> p \<noteq> [] \<and> list_all (\<lambda>c. protocol_char c \<and> \<not> (65 \<le> c \<and> c \<le> 90)) p \<and> p \<noteq> js ''javascript''"

definition port_text :: "jsstr option \<Rightarrow> jsstr" where
  "port_text port = (case port of Some d \<Rightarrow> 58 # d | None \<Rightarrow> [])"

definition auth_text :: "jsstr option \<Rightarrow> jsstr" where
  "auth_text a = (case a of Some t \<Rightarrow> t @ [64] | None \<Rightarrow> [])"

definition query_text :: "jsstr \<Rightarrow> jsstr" where
  "query_text q = (if q = [] then [] else 63 # q)"

definition url_text :: "jsstr \<Rightarrow> jsstr option \<Rightarrow> jsstr \<Rightarrow> jsstr option \<Rightarrow> jsstr \<Rightarrow> jsstr \<Rightarrow> jsstr" where
  "url_text p a h port path q = p @ js ''://'' @ auth_text a @ h @ port_text port @ path @ query_text q"

lemma host_char_plain:
  "host_char c \<Longrightarrow> c \<notin> set nonHostChars \<and> c \<noteq> 64 \<and> c \<noteq> 58 \<and> c \<noteq> 46 \<and> 0x20 \<le> c \<and> c \<le> 0x7E \<and> c \<noteq> 91 \<and> \<not> white_space c"
  by (auto simp: host_char_def is_letter_def is_digit_def nonHostChars_def autoEscape_def unwise_def delims_def
      js_def white_space_def word_le_nat_alt)

lemma host_ok_chars:
  assumes "host_ok h" "c \<in> set h"
  shows "c \<notin> set nonHostChars" "c \<noteq> 64" "c \<noteq> 58" "0x20 \<le> c" "c \<le> 0x7E" "\<not> white_space c" "\<not> (65 \<le> c \<and> c \<le> 90)" "c \<noteq> 91"
proof -
  have "c = 46 \<or> host_char c \<and> \<not> (65 \<le> c \<and> c \<le> 90)" using assms by (auto simp: host_ok_def list_all_iff)
  moreover have "(46::code_unit) \<notin> set nonHostChars" "\<not> white_space 46"
    by (simp_all add: nonHostChars_def autoEscape_def unwise_def delims_def js_def white_space_def)
  ultimately show "c \<notin> set nonHostChars" "c \<noteq> 64" "c \<noteq> 58" "0x20 \<le> c" "c \<le> 0x7E" "\<not> white_space c" "\<not> (65 \<le> c \<and> c \<le> 90)" "c \<noteq> 91"
    using host_char_plain by auto
qed

lemma host_ok_parts: "host_ok h \<Longrightarrow> check_parts [] (split_on 46 h) = None"
proof (rule check_parts_ok)
  assume h: "host_ok h"
  have "set p \<subseteq> set h" if "p \<in> set (split_on 46 h)" for p
    using that join_split [of 46 h] by (metis set_join_subset)
  then show "list_all hostnamePartPattern (split_on 46 h)"
    using h split_on_clean [of _ 46 h]
    by (fastforce simp: host_ok_def hostnamePartPattern_def list_all_iff)
qed

lemma toASCII_plain:
  assumes "list_all (\<lambda>c. 0x20 \<le> c \<and> c \<le> 0x7E \<and> c \<noteq> 64) h"
  shows "toASCII h = Inr h"
proof -
  have a: "64 \<notin> set h" using assms by (auto simp: list_all_iff)
  have m: "map (\<lambda>c. if c = 0x3002 \<or> c = 0xFF0E \<or> c = 0xFF61 then 0x2E else c) h = h"
    using assms by (intro map_idI) (auto simp: list_all_iff)
  have "\<not> nonASCII p" if "p \<in> set (split_on 46 h)" for p
    using that assms join_split [of 46 h] set_join_subset [of p "split_on 46 h" "[46]"]
    by (auto simp: nonASCII_def list_all_iff)
  then have "map_result (\<lambda>s. if nonASCII s then rbind (encode s) (\<lambda>t. Inr (js ''xn--'' @ t)) else Inr s)
      (rev (split_on 46 h)) = Inr (rev (split_on 46 h))"
    by (intro map_result_id) auto
  then show ?thesis
    using split_on_none [OF a] by (simp add: toASCII_def mapDomain_def m join_split)
qed

definition port_ok :: "jsstr option \<Rightarrow> bool" where
  "port_ok port = (case port of Some d \<Rightarrow> d \<noteq> [] \<and> list_all is_digit d | None \<Rightarrow> True)"

definition auth_ok :: "jsstr option \<Rightarrow> jsstr option \<Rightarrow> bool" where
  \<comment> \<open>\<open>a\<close> is the escaped text of \<open>au\<close>\<close>
  "auth_ok a au =
     (case (a, au) of
        (None, None) \<Rightarrow> True
      | (Some t, Some x) \<Rightarrow> decodeURIComponent t = Inr x \<and> list_all (\<lambda>c. uri_char c \<or> c = 58) t \<and> wf_utf16 x
      | _ \<Rightarrow> False)"

lemma digit_plain: "is_digit c \<Longrightarrow> c \<noteq> 58 \<and> c \<noteq> 64 \<and> c \<notin> set nonHostChars \<and> \<not> white_space c"
  by (auto simp: is_digit_def nonHostChars_def autoEscape_def unwise_def delims_def js_def white_space_def word_le_nat_alt)

lemma parseHost_text:
  assumes "host_ok h" "port_ok port"
  shows "parseHost (u\<lparr>u_host := Some (h @ port_text port)\<rparr>) =
           u\<lparr>u_host := Some (h @ port_text port), u_hostname := Some h, u_port := (if port = None then u_port u else port)\<rparr>"
proof (cases port)
  case None
  have "58 \<notin> set h" using host_ok_chars [OF assms(1)] by blast
  then have "portPattern h = None" by (simp add: portPattern_def lastIndexOf_none)
  then show ?thesis using None assms(1) by (simp add: parseHost_def port_text_def or_empty_def host_ok_def)
next
  case (Some d)
  then have d: "d \<noteq> []" "list_all is_digit d" using assms(2) by (auto simp: port_ok_def)
  then have "58 \<notin> set d" using digit_plain by (auto simp: list_all_iff)
  then have "portPattern (h @ 58 # d) = Some (58 # d)"
    using d lastIndexOf_last [of 58 d h] by (simp add: portPattern_def)
  then show ?thesis using Some d assms(1) by (simp add: parseHost_def port_text_def or_empty_def host_ok_def)
qed

lemma lower_case_plain: "ascii h \<Longrightarrow> list_all (\<lambda>c. \<not> (65 \<le> c \<and> c \<le> 90)) h \<Longrightarrow> lower_case uni h = h"
  unfolding lower_case_def toLowerCase_def by (auto simp: list_all_iff intro!: map_idI)

lemma parse_hostname_text:
  assumes "host_ok h" "port_ok port" "u_port u = None"
  shows "\<exists>href. parse_hostname uni (u\<lparr>u_host := Some (h @ port_text port)\<rparr>) rest =
           Inr (u\<lparr>u_host := Some (h @ port_text port), u_hostname := Some h, u_port := port, u_href := href\<rparr>, rest)"
proof -
  note c = host_ok_chars [OF assms(1)]
  have h: "h \<noteq> []" "length h \<le> 255" using assms(1) by (auto simp: host_ok_def)
  have "\<not> ipv6 h" using c(8) [of "hd h"] h by (auto simp: ipv6_def)
  moreover have "ascii h"
  proof -
    have "unat x < 0x80" if "x \<in> set h" for x using c(5) [OF that] by (simp add: word_le_nat_alt)
    then show ?thesis by (simp add: ascii_def list_all_iff)
  qed
  then have "lower_case uni h = h" using c(7) by (intro lower_case_plain) (auto simp: list_all_iff)
  moreover have "toASCII h = Inr h" using c by (intro toASCII_plain) (auto simp: list_all_iff)
  moreover have "(case port of Some (d # ds) \<Rightarrow> 58 # d # ds | _ \<Rightarrow> []) = port_text port"
    using assms(2) by (auto simp: port_text_def port_ok_def split: option.split list.split)
  moreover have "(if port = None then None else port) = port" by simp
  ultimately show ?thesis
    using h parseHost_text [OF assms(1,2), of u] host_ok_parts [OF assms(1)] assms(3)
    by (cases u) (auto simp: parse_hostname_def Let_def or_empty_def)
qed

lemma host_ending_non_host: "c \<in> set hostEndingChars \<Longrightarrow> c \<in> set nonHostChars"
  by (auto simp: hostEndingChars_def nonHostChars_def js_def)

lemma uri_char_not_ending: "uri_char c \<or> c = 58 \<Longrightarrow> c \<notin> set hostEndingChars \<and> c \<noteq> 64"
  using uri_char_not_separator by (auto simp: hostEndingChars_def js_def)

lemma parse_host_text:
  assumes "host_ok h" "port_ok port" "auth_ok a au" "u_port u = None" "u_auth u = None"
    and "t = [] \<or> hd t = 47 \<or> hd t = 63"
  shows "\<exists>href. parse_host uni u (auth_text a @ h @ port_text port @ t) =
           Inr (u\<lparr>u_auth := au, u_host := Some (h @ port_text port), u_hostname := Some h, u_port := port, u_href := href\<rparr>, t)"
proof -
  let ?H = "h @ port_text port"
  have H: "list_all (\<lambda>c. c \<notin> set nonHostChars \<and> c \<noteq> 64) ?H"
  proof -
    have "(58::code_unit) \<notin> set nonHostChars"
      by (simp add: nonHostChars_def autoEscape_def unwise_def delims_def js_def)
    then show ?thesis
      using host_ok_chars(1,2) [OF assms(1)] assms(2) digit_plain
      by (auto simp: list_all_iff port_text_def port_ok_def split: option.splits)
  qed
  have A: "list_all (\<lambda>c. c \<notin> set hostEndingChars) (auth_text a)"
    using assms(3) uri_char_not_ending
    by (auto simp: auth_ok_def auth_text_def list_all_iff hostEndingChars_def js_def split: option.splits)
  have tend: "t = [] \<or> hd t \<in> set hostEndingChars" using assms(6) by (auto simp: hostEndingChars_def js_def)
  have AH: "list_all (\<lambda>c. c \<notin> set hostEndingChars) (auth_text a @ ?H)"
    using A H host_ending_non_host by (auto simp: list_all_iff)
  have e1: "first_index hostEndingChars (auth_text a @ ?H @ t) = (if t = [] then -1 else int (length (auth_text a @ ?H)))"
    using first_index_append [OF AH tend] by simp
  have e2: "first_index nonHostChars (?H @ t) = (if t = [] then -1 else int (length ?H))"
    using first_index_append [of nonHostChars ?H t] H tend host_ending_non_host by (auto simp: list_all_iff)
  have no64: "64 \<notin> set (?H @ [hd t])" "64 \<notin> set ?H" if "t \<noteq> []"
    using H that assms(6) by (auto simp: list_all_iff)
  have at: "(if first_index hostEndingChars (auth_text a @ ?H @ t) = -1 then lastIndexOf (auth_text a @ ?H @ t) 64
        else lastIndexOf (take (nat (first_index hostEndingChars (auth_text a @ ?H @ t)) + 1) (auth_text a @ ?H @ t)) 64)
      = lastIndexOf (auth_text a) 64"
  proof (cases t)
    case Nil
    have "64 \<notin> set ?H" using H by (auto simp: list_all_iff)
    then show ?thesis using Nil e1 lastIndexOf_append [of 64 ?H] by simp
  next
    case (Cons c r)
    have tk: "take (length (auth_text a @ ?H) + 1) (auth_text a @ ?H @ t) = auth_text a @ ?H @ [hd t]"
      using Cons by simp
    have n: "first_index hostEndingChars (auth_text a @ ?H @ t) = int (length (auth_text a @ ?H))"
      using e1 Cons by simp
    have "lastIndexOf (auth_text a @ ?H @ [hd t]) 64 = lastIndexOf (auth_text a) 64"
      using lastIndexOf_append [OF no64(1), of "auth_text a"] Cons by simp
    then show ?thesis unfolding n nat_int tk by simp
  qed
  have user: "(case lastIndexOf (auth_text a) 64 of
        None \<Rightarrow> Inr (u, auth_text a @ ?H @ t)
      | Some i \<Rightarrow> rbind (decodeURIComponent (take i (auth_text a @ ?H @ t))) (\<lambda>auth. Inr (u\<lparr>u_auth := Some auth\<rparr>, drop (i + 1) (auth_text a @ ?H @ t))))
      = Inr (u\<lparr>u_auth := au\<rparr>, ?H @ t)"
  proof (cases a)
    case None
    then have "au = None" using assms(3) by (auto simp: auth_ok_def split: option.splits)
    then show ?thesis using None assms(5) by (simp add: auth_text_def)
  next
    case (Some x)
    then obtain y where "au = Some y" "decodeURIComponent x = Inr y"
      using assms(3) by (auto simp: auth_ok_def split: option.splits)
    then show ?thesis using Some lastIndexOf_last [of 64 "[]" x] by (simp add: auth_text_def)
  qed
  have cut: "take (if t = [] then length (?H @ t) else nat (int (length ?H))) (?H @ t) = ?H"
     "drop (if t = [] then length (?H @ t) else nat (int (length ?H))) (?H @ t) = t" by auto
  obtain href where "parse_hostname uni (u\<lparr>u_auth := au, u_host := Some ?H\<rparr>) t =
      Inr (u\<lparr>u_auth := au, u_host := Some ?H, u_hostname := Some h, u_port := port, u_href := href\<rparr>, t)"
    using parse_hostname_text [OF assms(1,2), of "u\<lparr>u_auth := au\<rparr>" uni t] assms(4) by auto
  moreover have "parse_host uni u (auth_text a @ ?H @ t) = parse_hostname uni (u\<lparr>u_auth := au, u_host := Some ?H\<rparr>) t"
    unfolding parse_host_def Let_def at user
    using e2 cut by (auto simp: nat_int)
  ultimately show ?thesis by auto
qed

lemma escape_rest_plain:
  assumes "list_all (\<lambda>c. c \<notin> set autoEscape) r"
  shows "escape_rest r = Inr r"
proof -
  have "foldl (\<lambda>x ae. rbind x (\<lambda>rest.
              if ae \<notin> set rest then Inr rest
              else rbind (encodeURIComponent [ae]) (\<lambda>esc.
                let esc = (if esc = [ae] then escape_byte (ucast ae) else esc)
                in Inr (join esc (split_on ae rest))))) (Inr r) cs = Inr r" if "set cs \<inter> set r = {}" for cs
    using that by (induction cs) auto
  then show ?thesis using assms unfolding escape_rest_def by (auto simp: list_all_iff)
qed

lemma url_format_returns:
  assumes "wf_utf16 (or_empty (u_auth u))" "u_query u = QObject q" "wf_query q" "length (pairs_of q) \<le> 1000"
  shows "\<exists>href. url_format u = Inr href"
proof -
  obtain t where "qs_stringify (Inl q) None None JUndef = Inr t"
    using query_written [OF assms(3,4), of None 38 None 61 JUndef]
    by (auto simp: with_default_def js_def uri_char_not_separator)
  moreover obtain a where "encodeURIComponent (or_empty (u_auth u)) = Inr a"
    using uri_component [OF assms(1)] by blast
  ultimately show ?thesis using assms(2) by (simp add: url_format_def Let_def)
qed

lemma query_chars:
  assumes "list_all (\<lambda>c. uri_char c \<or> c = 38 \<or> c = 61) q" "39 \<notin> set q"
  shows "list_all (\<lambda>c. c \<notin> set (35 # 63 # autoEscape) \<and> c \<noteq> 92 \<and> \<not> white_space c) q"
proof -
  have "list_all (\<lambda>c. c = 39 \<or> \<not> uri_char c \<and> c \<noteq> 38 \<and> c \<noteq> 61) (35 # 63 # 92 # autoEscape)"
    by (simp add: uri_char_def uri_unescaped_def is_letter_def is_digit_def autoEscape_def unwise_def delims_def js_def)
  moreover have "\<not> white_space c" if "uri_char c \<or> c = 38 \<or> c = 61" for c
  proof -
    have "33 \<le> unat c \<and> unat c \<le> 126"
      using that by (auto simp: uri_char_def uri_unescaped_def is_letter_def is_digit_def js_def word_le_nat_alt)
    then show ?thesis by (auto simp: white_space_def word_le_nat_alt)
  qed
  ultimately show ?thesis using assms by (force simp: list_all_iff)
qed

lemma parse_tail_text:
  assumes "path_ok path" "path = [] \<longrightarrow> \<not> slashedProtocol (Some p)" "\<not> unsafeProtocol (Some p)"
    and "wf_query q" "length (pairs_of q) \<le> 1000" "qs_stringify (Inl q) None None JUndef = Inr qt" "39 \<notin> set qt"
    and "u_hash u = None" "u_pathname u = None" "u_path u = None" "wf_utf16 (or_empty (u_auth u))"
  shows "\<exists>href. parse_tail True (Some p) u (path @ query_text qt) =
    Inr (u\<lparr>u_search := Some (query_text qt), u_query := QObject (Object_entries q),
           u_pathname := (if path = [] then None else Some path),
           u_path := (if path @ query_text qt = [] then None else Some (path @ query_text qt)), u_href := Some href\<rparr>)"
proof -
  have qt: "qs_parse (JStr qt) None None None = Inr (Object_entries q)"
      "list_all (\<lambda>c. uri_char c \<or> c = 38 \<or> c = 61) qt" "qt = [] \<longleftrightarrow> q = []"
    using query_written [OF assms(4,5), of None 38 None 61 JUndef] assms(6)
    by (auto simp: with_default_def js_def uri_char_not_separator)
  have pc: "list_all (\<lambda>c. c \<notin> set (35 # 63 # autoEscape) \<and> \<not> white_space c) path" using assms(1) by (simp add: path_ok_def)
  note qc = query_chars [OF qt(2) assms(7)]
  have "(63::code_unit) \<notin> set autoEscape" by (simp add: autoEscape_def unwise_def delims_def js_def)
  then have esc: "escape_rest (path @ query_text qt) = Inr (path @ query_text qt)"
    using pc qc by (intro escape_rest_plain) (auto simp: list_all_iff query_text_def)
  have "35 \<notin> set (path @ query_text qt)" using pc qc by (auto simp: list_all_iff query_text_def)
  then have hash: "find_sub [35] (path @ query_text qt) = None" by (simp add: find_sub_unit)
  have "63 \<notin> set path" using pc by (auto simp: list_all_iff)
  then have qm: "find_sub [63] (path @ query_text qt) = (if qt = [] then None else Some (length path))"
    by (simp add: query_text_def find_sub_first) (simp add: find_sub_unit)
  have entries: "wf_query (Object_entries q)" "length (pairs_of (Object_entries q)) \<le> 1000"
    using assms(4,5) by (simp_all add: wf_query_entries length_pairs_entries)
  have empty: "Object_entries q = []" if "qt = []"
    using that qt(3) by (simp add: Object_entries_def)
  let ?u = "u\<lparr>u_search := Some (query_text qt), u_query := QObject (Object_entries q),
           u_pathname := (if path = [] then None else Some path),
           u_path := (if path @ query_text qt = [] then None else Some (path @ query_text qt))\<rparr>"
  obtain href where f: "url_format ?u = Inr href"
    using url_format_returns [of ?u "Object_entries q"] entries assms(11) by auto
  have "parse_tail True (Some p) u (path @ query_text qt) = rbind (url_format ?u) (\<lambda>href. Inr (?u\<lparr>u_href := Some href\<rparr>))"
    unfolding parse_tail_def
    using assms(2,3,8,9,10) esc hash qm qt(1) empty
    by (cases "qt = []"; cases "path = []"; cases u) (simp_all add: query_text_def or_empty_def)
  then show ?thesis using f by auto
qed

lemma trim_plain: "list_all (\<lambda>c. \<not> white_space c) s \<Longrightarrow> trim s = s"
proof -
  have d: "dropWhile P xs = xs" if "list_all (\<lambda>c. \<not> P c) xs" for P :: "code_unit \<Rightarrow> bool" and xs
    using that by (cases xs) auto
  assume "list_all (\<lambda>c. \<not> white_space c) s"
  then show ?thesis by (simp add: trim_def d list_all_rev)
qed

lemma fix_backslashes_plain: "92 \<notin> set s \<Longrightarrow> fix_backslashes s = s"
proof -
  assume s: "92 \<notin> set s"
  have "join [c] (replace_all 92 [47] (hd (split_on c s)) # tl (split_on c s)) = s" for c
  proof -
    obtain p ps where ps: "split_on c s = p # ps" using split_on_ne [of c s] by (cases "split_on c s") auto
    have j: "join [c] (p # ps) = s" using join_split [of c s] ps by simp
    then have "set p \<subseteq> set s" using set_join_subset [of p "p # ps" "[c]"] by simp
    then have "92 \<notin> set p" using s by auto
    then show ?thesis using ps j by simp
  qed
  then show ?thesis by (simp add: fix_backslashes_def Let_def)
qed

lemma scheme_chars:
  "protocol_char c \<Longrightarrow> c \<noteq> 92 \<and> c \<noteq> 35 \<and> c \<noteq> 47 \<and> c \<noteq> 58 \<and> \<not> white_space c \<and> unat c < 0x80"
  by (auto simp: protocol_char_def is_letter_def is_digit_def white_space_def word_le_nat_alt)

lemma uri_char_plain: "uri_char c \<or> c = 58 \<Longrightarrow> c \<noteq> 92 \<and> c \<noteq> 35 \<and> \<not> white_space c"
proof -
  assume c: "uri_char c \<or> c = 58"
  then have "33 \<le> unat c \<and> unat c \<le> 126"
    by (auto simp: uri_char_def uri_unescaped_def is_letter_def is_digit_def js_def word_le_nat_alt)
  then have "\<not> white_space c" by (auto simp: white_space_def word_le_nat_alt)
  moreover have "c \<noteq> 92" "c \<noteq> 35" using c uri_char_not_separator by auto
  ultimately show ?thesis by simp
qed

lemma url_text_plain:
  assumes "scheme_ok p" "host_ok h" "path_ok path" "port_ok port" "auth_ok a au"
    and "list_all (\<lambda>c. uri_char c \<or> c = 38 \<or> c = 61) qt" "39 \<notin> set qt"
  shows "list_all (\<lambda>c. c \<noteq> 92 \<and> c \<noteq> 35 \<and> \<not> white_space c) (url_text p a h port path qt)"
proof -
  have "list_all (\<lambda>c. c \<noteq> 92 \<and> c \<noteq> 35 \<and> \<not> white_space c) p"
    using assms(1) scheme_chars by (auto simp: scheme_ok_def list_all_iff)
  moreover have "list_all (\<lambda>c. c \<noteq> 92 \<and> c \<noteq> 35 \<and> \<not> white_space c) (js ''://'')"
    by (simp add: js_def white_space_def)
  moreover have "list_all (\<lambda>c. c \<noteq> 92 \<and> c \<noteq> 35 \<and> \<not> white_space c) (auth_text a)"
    using assms(5) uri_char_plain
    by (auto simp: auth_ok_def auth_text_def list_all_iff white_space_def split: option.splits)
  moreover have "list_all (\<lambda>c. c \<noteq> 92 \<and> c \<noteq> 35 \<and> \<not> white_space c) h"
    using host_ok_chars [OF assms(2)]
    by (auto simp: list_all_iff nonHostChars_def autoEscape_def unwise_def js_def)
  moreover have "list_all (\<lambda>c. c \<noteq> 92 \<and> c \<noteq> 35 \<and> \<not> white_space c) (port_text port)"
    using assms(4) digit_plain
    by (auto simp: port_ok_def port_text_def list_all_iff white_space_def nonHostChars_def autoEscape_def unwise_def js_def
        split: option.splits)
  moreover have "list_all (\<lambda>c. c \<noteq> 92 \<and> c \<noteq> 35 \<and> \<not> white_space c) path"
    using assms(3) by (auto simp: path_ok_def list_all_iff autoEscape_def unwise_def)
  moreover have "list_all (\<lambda>c. c \<noteq> 92 \<and> c \<noteq> 35 \<and> \<not> white_space c) (query_text qt)"
    using query_chars [OF assms(6,7)] by (auto simp: query_text_def list_all_iff white_space_def)
  ultimately show ?thesis by (simp add: url_text_def)
qed

lemma protocol_of_text:
  assumes "scheme_ok p"
  shows "protocolPattern (p @ 58 # s) = Some (p @ [58])" "toLowerCase (p @ [58]) = p @ [58]"
    "take 1 (p @ s) \<noteq> [47]" "\<not> hostlessProtocol (Some (p @ [58]))" "\<not> unsafeProtocol (Some (p @ [58]))"
proof -
  have p: "p \<noteq> []" "list_all protocol_char p" using assms by (auto simp: scheme_ok_def list_all_iff)
  have "\<not> protocol_char 58" by (simp add: protocol_char_def is_letter_def is_digit_def)
  then have "takeWhile protocol_char (p @ 58 # s) = p" using p(2) by (auto simp: takeWhile_append list_all_iff)
  then show "protocolPattern (p @ 58 # s) = Some (p @ [58])" using p(1) by (simp add: protocolPattern_def)
  show "toLowerCase (p @ [58]) = p @ [58]"
    using assms unfolding toLowerCase_def by (auto simp: scheme_ok_def list_all_iff intro!: map_idI)
  show "take 1 (p @ s) \<noteq> [47]" using p scheme_chars by (cases p) auto
  have "p @ [58] \<noteq> js ''javascript'' \<and> p @ [58] \<noteq> js ''javascript:''"
    using assms by (auto simp: scheme_ok_def js_def)
  then show "\<not> hostlessProtocol (Some (p @ [58]))" "\<not> unsafeProtocol (Some (p @ [58]))"
    by (auto simp: hostlessProtocol_def unsafeProtocol_def)
qed

lemma parse_url_text:
  assumes "scheme_ok p" "host_ok h" "path_ok path" "path = [] \<longrightarrow> \<not> slashedProtocol (Some (p @ [58]))"
    and "auth_ok a au" "port_ok port"
    and "wf_query q" "length (pairs_of q) \<le> 1000" "qs_stringify (Inl q) None None JUndef = Inr qt" "39 \<notin> set qt"
  shows "\<exists>href. url_parse uni (JStr (url_text p a h port path qt)) True False = Inr
    \<lparr>u_protocol = Some (p @ [58]), u_slashes = True, u_auth = au, u_host = Some (h @ port_text port), u_port = port,
     u_hostname = Some h, u_hash = None, u_search = Some (query_text qt), u_query = QObject (Object_entries q),
     u_pathname = (if path = [] then None else Some path),
     u_path = (if path @ query_text qt = [] then None else Some (path @ query_text qt)), u_href = Some href\<rparr>"
proof -
  let ?s = "url_text p a h port path qt" and ?P = "Some (p @ [58])" and ?t = "path @ query_text qt"
  have qt: "list_all (\<lambda>c. uri_char c \<or> c = 38 \<or> c = 61) qt"
    using query_written [OF assms(7,8), of None 38 None 61 JUndef] assms(9)
    by (auto simp: with_default_def js_def uri_char_not_separator)
  have plain: "list_all (\<lambda>c. c \<noteq> 92 \<and> c \<noteq> 35 \<and> \<not> white_space c) ?s"
    by (rule url_text_plain [OF assms(1-3,6,5) qt assms(10)])
  have s1: "fix_backslashes ?s = ?s" using plain by (intro fix_backslashes_plain) (auto simp: list_all_iff)
  have s2: "trim ?s = ?s" using plain by (intro trim_plain) (auto simp: list_all_iff)
  define r where "r = auth_text a @ h @ port_text port @ ?t"
  have s3: "?s = p @ 58 # 47 # 47 # r" by (simp add: url_text_def r_def js_def)
  note pr = protocol_of_text [OF assms(1)]
  have s4: "simplePathPattern ?s = None" unfolding s3 simplePathPattern_def using pr(3) by simp
  have proto: "protocolPattern ?s = ?P" unfolding s3 by (rule pr(1))
  have drp: "drop (length (p @ [58])) ?s = 47 # 47 # r" by (simp add: s3)
  have hd: "?t = [] \<or> hd ?t = 47 \<or> hd ?t = 63"
    using assms(3) by (cases path) (auto simp: path_ok_def query_text_def)
  let ?u = "new_Url\<lparr>u_protocol := ?P, u_slashes := True\<rparr>"
  obtain h1 where host: "parse_host uni ?u r =
      Inr (?u\<lparr>u_auth := au, u_host := Some (h @ port_text port), u_hostname := Some h, u_port := port, u_href := h1\<rparr>, ?t)"
    using parse_host_text [OF assms(2,6,5), of ?u ?t uni] hd by (auto simp: r_def new_Url_def)
  have "wf_utf16 (or_empty au)"
    using assms(5) by (auto simp: auth_ok_def or_empty_def split: option.splits)
  then obtain h2 where tail: "parse_tail True ?P
      (?u\<lparr>u_auth := au, u_host := Some (h @ port_text port), u_hostname := Some h, u_port := port, u_href := h1\<rparr>) ?t =
      Inr (?u\<lparr>u_auth := au, u_host := Some (h @ port_text port), u_hostname := Some h, u_port := port,
           u_search := Some (query_text qt), u_query := QObject (Object_entries q),
           u_pathname := (if path = [] then None else Some path),
           u_path := (if ?t = [] then None else Some ?t), u_href := Some h2\<rparr>)"
    using parse_tail_text [OF assms(3,4) pr(5) assms(7-10), of
        "?u\<lparr>u_auth := au, u_host := Some (h @ port_text port), u_hostname := Some h, u_port := port, u_href := h1\<rparr>"]
    by (auto simp: new_Url_def)
  have "url_parse uni (JStr ?s) True False = rbind (parse_host uni ?u r) (\<lambda>(u3, rest3). parse_tail True ?P u3 rest3)"
    unfolding url_parse_def Let_def jsval.case s1 s2 s4 proto
    using pr(2,4) drp by (simp add: js_def)
  then show ?thesis using host tail by (auto simp: new_Url_def)
qed

text \<open>Backslashes of the query are converted when the URL has no fragment, against the comment.\<close>

lemma query_backslash: "fix_backslashes (js ''a?b'' @ [92]) = js ''a?b/''"
  by code_simp

end
