(* ===== verification/Mqtt_Connect.thy ===== *)
theory Mqtt_Connect
  imports Url Mqtt_Client
begin

text \<open>
  \<^verbatim>\<open>mqtt.connect\<close> and the stream builders (\<^verbatim>\<open>lib/connect\<close>: \<^verbatim>\<open>index\<close>, \<^verbatim>\<open>tcp\<close>, \<^verbatim>\<open>tls\<close>, \<^verbatim>\<open>ws\<close>), up to the sockets, and
  the defaults the client's constructor fills in. The option object is a partial map from names to values. Parameters are
  whether the code runs in a browser (\<^verbatim>\<open>process.title\<close>), the Unicode lower case of \<open>Url\<close>, the address of the
  document if there is one, and the random client id.
\<close>

section \<open>Options\<close>

datatype opt_value =
    OVal jsval
  | OQuery qs_obj
  | OServers "(jsval \<times> jsval) list"       \<comment> \<open>hosts and ports\<close>
  | OWill will_val
  | OMap "(string \<times> jsval) list"          \<comment> \<open>\<^verbatim>\<open>wsOptions\<close>\<close>
  | OTransform "jsstr \<Rightarrow> jsstr"           \<comment> \<open>\<^verbatim>\<open>transformWsUrl\<close>\<close>

type_synonym opts = "string \<Rightarrow> opt_value option"

definition get_opt :: "opts \<Rightarrow> string \<Rightarrow> opt_value" where
  "get_opt o' k = (case o' k of Some v \<Rightarrow> v | None \<Rightarrow> OVal JUndef)"

definition get_val :: "opts \<Rightarrow> string \<Rightarrow> jsval" where
  \<comment> \<open>an option that is an object of its own is \<open>JObj\<close>\<close>
  "get_val o' k = (case get_opt o' k of OVal v \<Rightarrow> v | _ \<Rightarrow> JObj)"

definition set_val :: "string \<Rightarrow> jsval \<Rightarrow> opts \<Rightarrow> opts" where
  "set_val k v o' = o'(k \<mapsto> OVal v)"

definition null_or :: "jsstr option \<Rightarrow> opt_value option" where
  "null_or s = Some (OVal (case s of Some t \<Rightarrow> JStr t | None \<Rightarrow> JNull))"

definition url_opts :: "url \<Rightarrow> opts" where
  \<comment> \<open>the own properties of a \<^verbatim>\<open>Url\<close>, the port as a number\<close>
  "url_opts u = [''protocol'' \<mapsto> the (null_or (u_protocol u)),
     ''slashes'' \<mapsto> OVal (if u_slashes u then JBool True else JNull),
     ''auth'' \<mapsto> the (null_or (u_auth u)), ''host'' \<mapsto> the (null_or (u_host u)),
     ''port'' \<mapsto> OVal (case u_port u of Some d \<Rightarrow> JNum (int (digits_value d)) | None \<Rightarrow> JNull),
     ''hostname'' \<mapsto> the (null_or (u_hostname u)), ''hash'' \<mapsto> the (null_or (u_hash u)),
     ''search'' \<mapsto> the (null_or (u_search u)),
     ''query'' \<mapsto> (case u_query u of QNull \<Rightarrow> OVal JNull | QText t \<Rightarrow> OVal (JStr t) | QObject q \<Rightarrow> OQuery q),
     ''pathname'' \<mapsto> the (null_or (u_pathname u)), ''path'' \<mapsto> the (null_or (u_path u)),
     ''href'' \<mapsto> the (null_or (u_href u))]"

definition xtend :: "opts \<Rightarrow> opts \<Rightarrow> opts" where
  "xtend a b = (\<lambda>k. case b k of Some v \<Rightarrow> Some v | None \<Rightarrow> a k)"

section \<open>Protocols\<close>

datatype builder = Tcp | Tls | Ws | Inherited

definition object_prototype :: "jsstr list" where
  \<comment> \<open>what every object inherits\<close>
  "object_prototype = map js [''constructor'', ''toString'', ''toLocaleString'', ''valueOf'', ''hasOwnProperty'',
     ''isPrototypeOf'', ''propertyIsEnumerable'', ''__proto__'', ''__defineGetter__'', ''__defineSetter__'',
     ''__lookupGetter__'', ''__lookupSetter__'']"

definition protocols :: "bool \<Rightarrow> jsstr \<Rightarrow> builder option" where
  "protocols browser p =
     (if \<not> browser \<and> p \<in> set (map js [''mqtt'', ''tcp'']) then Some Tcp
      else if \<not> browser \<and> p \<in> set (map js [''ssl'', ''tls'', ''mqtts'']) then Some Tls
      else if p \<in> set (map js [''ws'', ''wss'']) then Some Ws
      else if p \<in> set object_prototype then Some Inherited
      else None)"

definition key_text :: "jsval \<Rightarrow> jsstr" where
  \<comment> \<open>a value as the name of a property\<close>
  "key_text v = to_str v"

definition split_auth :: "jsstr \<Rightarrow> (jsstr \<times> jsstr) option" where
  \<comment> \<open>\<^verbatim>\<open>/^(.+):(.+)$/\<close>: the last colon with text on both sides\<close>
  "split_auth s =
     (if list_all (\<lambda>c. \<not> line_terminator c) s then
        (case lastIndexOf (drop 1 (butlast s)) 58 of
           Some i \<Rightarrow> Some (take (i + 1) s, drop (i + 2) s)
         | None \<Rightarrow> None)
      else None)"

definition parseAuthOptions :: "opts \<Rightarrow> opts result" where
  "parseAuthOptions o' =
     (let auth = get_val o' ''auth'' in
      if truthy auth then
        (case auth of
           JStr s \<Rightarrow>
             (case split_auth s of
                Some (u, p) \<Rightarrow> Inr (set_val ''password'' (JStr p) (set_val ''username'' (JStr u) o'))
              | None \<Rightarrow> Inr (set_val ''username'' (JStr s) o'))
         | _ \<Rightarrow> Inl (TypeError ''opts.auth.match is not a function''))
      else Inr o')"

section \<open>connect\<close>

datatype broker = BUrl jsval | BOpts opts     \<comment> \<open>the first argument: a primitive value or an option object\<close>

text \<open>The options once the URL is merged in.\<close>

definition merge_url :: "(jsstr \<Rightarrow> jsstr) \<Rightarrow> jsval \<Rightarrow> opts \<Rightarrow> opts result" where
  "merge_url uni brokerUrl o' =
     rbind (url_parse uni brokerUrl True False) (\<lambda>u.
       let m = xtend (url_opts u) o' in
       case get_val m ''protocol'' of
         JNull \<Rightarrow> Inl (JsError ''Missing protocol'')
       | JStr p \<Rightarrow> Inr (set_val ''protocol'' (JStr (if p \<noteq> [] \<and> last p = 58 then butlast p else p)) m)
       | _ \<Rightarrow> Inl (TypeError ''opts.protocol.replace is not a function''))"

definition query_client_id :: "opts \<Rightarrow> opts" where
  "query_client_id o' =
     (case get_opt o' ''query'' of
        OQuery q \<Rightarrow> (case map_of q (js ''clientId'') of Some (One (JStr s)) \<Rightarrow> set_val ''clientId'' (JStr s) o' | _ \<Rightarrow> o')
      | _ \<Rightarrow> o')"

definition secure_protocol :: "opts \<Rightarrow> opts result" where
  "secure_protocol o' =
     (if truthy (get_val o' ''cert'') \<and> truthy (get_val o' ''key'') then
        (let p = get_val o' ''protocol'' in
         if truthy p then
           if p = JStr (js ''mqtts'') \<or> p = JStr (js ''wss'') then Inr o'
           else if p = JStr (js ''mqtt'') then Inr (set_val ''protocol'' (JStr (js ''mqtts'')) o')
           else if p = JStr (js ''ws'') then Inr (set_val ''protocol'' (JStr (js ''wss'')) o')
           else Inl (JsError ''Unknown protocol for secure connection'')
         else Inl (JsError ''Missing secure protocol key''))
      else Inr o')"

definition usable_protocol :: "bool \<Rightarrow> opts \<Rightarrow> opts" where
  \<comment> \<open>an unknown protocol is replaced by the first one of the list that is there\<close>
  "usable_protocol browser o' =
     (let p = get_val o' ''protocol'' in
      if protocols browser (key_text p) = None then
        (let isSecure = (p = JStr (js ''mqtts'') \<or> p = JStr (js ''wss'')) in
         set_val ''protocol''
           (case filter (\<lambda>(key, index). \<not> (isSecure \<and> index mod 2 = 0) \<and> protocols browser key \<noteq> None)
                   (zip (map js [''mqtt'', ''mqtts'', ''ws'', ''wss'']) [0 ..< 4]) of
              (key, _) # _ \<Rightarrow> JStr key | [] \<Rightarrow> JUndef) o')
      else o')"

definition connect_opts :: "bool \<Rightarrow> (jsstr \<Rightarrow> jsstr) \<Rightarrow> broker \<Rightarrow> opts option \<Rightarrow> opts result" where
  \<comment> \<open>the options handed to the constructor\<close>
  "connect_opts browser uni broker o' =
     (let (brokerUrl, o1) =
            (case (broker, o') of
               (BOpts b, None) \<Rightarrow> (BUrl JNull, b)
             | (BUrl JNull, None) \<Rightarrow> (BUrl JNull, Map.empty)
             | (b, None) \<Rightarrow> (b, Map.empty)
             | (b, Some m) \<Rightarrow> (b, m))
      in rbind (case brokerUrl of
                  BUrl v \<Rightarrow> if truthy v then merge_url uni v o1 else Inr o1
                | BOpts _ \<Rightarrow> Inl (TypeError ''Parameter 'url' must be a string, not object''))
      (\<lambda>o2. rbind (parseAuthOptions o2)
      (\<lambda>o3. rbind (secure_protocol (query_client_id o3))
      (\<lambda>o4. let o5 = usable_protocol browser o4 in
            if get_val o5 ''clean'' = JBool False \<and> \<not> truthy (get_val o5 ''clientId'')
            then Inl (JsError ''Missing clientId for unclean clients'')
            else Inr o5))))"

section \<open>Builders\<close>

datatype request =
    TcpRequest jsval jsval                          \<comment> \<open>port and host\<close>
  | TlsRequest opts
  | WsRequest jsstr jsstr "(string \<times> jsval) list"  \<comment> \<open>URL, sub-protocol, \<^verbatim>\<open>wsOptions\<close>\<close>
  | ClientItself                                    \<comment> \<open>an inherited function is called instead of a builder\<close>

definition tcp_builder :: "opts \<Rightarrow> request \<times> opts" where
  "tcp_builder o' =
     (let o1 = set_val ''port'' (js_or (get_val o' ''port'') (JNum 1883)) o';
          o2 = set_val ''hostname'' (js_or (get_val o1 ''hostname'') (js_or (get_val o1 ''host'') (JStr (js ''localhost'')))) o1
      in (TcpRequest (get_val o2 ''port'') (get_val o2 ''hostname''), o2))"

definition tls_builder :: "opts \<Rightarrow> request \<times> opts" where
  "tls_builder o' =
     (let o1 = set_val ''port'' (js_or (get_val o' ''port'') (JNum 8883)) o';
          o2 = set_val ''host'' (js_or (get_val o1 ''hostname'') (js_or (get_val o1 ''host'') (JStr (js ''localhost'')))) o1;
          o3 = set_val ''rejectUnauthorized'' (JBool (get_val o2 ''rejectUnauthorized'' \<noteq> JBool False)) o2
      in (TlsRequest o3, o3))"

definition WSS_OPTIONS :: "string list" where
  "WSS_OPTIONS = [''rejectUnauthorized'', ''ca'', ''cert'', ''key'', ''pfx'', ''passphrase'']"

definition ws_options :: "opts \<Rightarrow> (string \<times> jsval) list" where
  "ws_options o' = (case get_opt o' ''wsOptions'' of OMap m \<Rightarrow> m | _ \<Rightarrow> [])"

definition setDefaultOpts :: "bool \<Rightarrow> opts \<Rightarrow> opts" where
  "setDefaultOpts browser o' =
     (let o1 = (if \<not> truthy (get_val o' ''hostname'') then set_val ''hostname'' (JStr (js ''localhost'')) o' else o');
          o2 = (if \<not> truthy (get_val o1 ''port'')
                then set_val ''port'' (JNum (if get_val o1 ''protocol'' = JStr (js ''wss'') then 443 else 80)) o1 else o1);
          o3 = (if \<not> truthy (get_val o2 ''path'') then set_val ''path'' (JStr [47]) o2 else o2);
          o4 = (if \<not> truthy (get_val o3 ''wsOptions'') then o3(''wsOptions'' \<mapsto> OMap []) else o3)
      in if \<not> browser \<and> get_val o4 ''protocol'' = JStr (js ''wss'')
         then o4(''wsOptions'' \<mapsto> OMap (foldl (\<lambda>m prop.
                if o4 prop \<noteq> None \<and> map_of m prop = None then m @ [(prop, get_val o4 prop)] else m)
                (ws_options o4) WSS_OPTIONS))
         else o4)"

definition buildUrl :: "opts \<Rightarrow> jsstr" where
  "buildUrl o' =
     (let url = to_str (get_val o' ''protocol'') @ js ''://'' @ to_str (get_val o' ''hostname'') @ js '':''
                @ to_str (get_val o' ''port'') @ to_str (get_val o' ''path'')
      in case get_opt o' ''transformWsUrl'' of OTransform f \<Rightarrow> f url | _ \<Rightarrow> url)"

definition createWebSocket :: "bool \<Rightarrow> opts \<Rightarrow> request \<times> opts" where
  "createWebSocket browser o' =
     (let sub = (if get_val o' ''protocolId'' = JStr (js ''MQIsdp'') \<and> get_val o' ''protocolVersion'' = JNum 3
                 then js ''mqttv3.1'' else js ''mqtt'');
          o1 = setDefaultOpts browser o'
      in (WsRequest (buildUrl o1) sub (ws_options o1), o1))"

text \<open>In a browser the host may come from the address of the document.\<close>

definition ws_builder :: "bool \<Rightarrow> (jsstr \<Rightarrow> jsstr) \<Rightarrow> jsstr option \<Rightarrow> opts \<Rightarrow> (request \<times> opts) result" where
  "ws_builder browser uni document o' =
     (if \<not> browser then Inr (createWebSocket browser o')
      else
        let o1 = (if \<not> truthy (get_val o' ''hostname'') then set_val ''hostname'' (get_val o' ''host'') o' else o') in
        if truthy (get_val o1 ''hostname'') then Inr (createWebSocket browser o1)
        else case document of
          None \<Rightarrow> Inl (JsError ''Could not determine host. Specify host manually.'')
        | Some address \<Rightarrow>
            rbind (url_parse uni (JStr address) False False) (\<lambda>parsed.
              let o2 = set_val ''hostname'' (case u_hostname parsed of Some h \<Rightarrow> JStr h | None \<Rightarrow> JNull) o1;
                  o3 = (if \<not> truthy (get_val o2 ''port'')
                        then set_val ''port'' (case u_port parsed of Some d \<Rightarrow> JStr d | None \<Rightarrow> JNull) o2 else o2)
              in Inr (createWebSocket browser o3)))"

text \<open>
  The stream builder of the client: it takes the next server of the list, if there is one. The number is
  \<^verbatim>\<open>_reconnectCount\<close>, 0 also while it is undefined; \<^verbatim>\<open>servers\<close> is an array or absent.
\<close>

definition wrapper :: "bool \<Rightarrow> (jsstr \<Rightarrow> jsstr) \<Rightarrow> jsstr option \<Rightarrow> nat \<times> opts \<Rightarrow> (request \<times> nat \<times> opts) result" where
  "wrapper browser uni document = (\<lambda>(reconnectCount, o').
     rbind (case get_opt o' ''servers'' of
              OServers ss \<Rightarrow>
                (let n = (if reconnectCount = 0 \<or> reconnectCount = length ss then 0 else reconnectCount) in
                 if n < length ss
                 then Inr (Suc n, set_val ''hostname'' (fst (ss ! n)) (set_val ''port'' (snd (ss ! n)) (set_val ''host'' (fst (ss ! n)) o')))
                 else Inl (TypeError ''Cannot read property 'host' of undefined''))
            | _ \<Rightarrow> Inr (reconnectCount, o'))
       (\<lambda>(n, o1).
         case protocols browser (key_text (get_val o1 ''protocol'')) of
           Some Tcp \<Rightarrow> (let (r, o2) = tcp_builder o1 in Inr (r, n, o2))
         | Some Tls \<Rightarrow> (let (r, o2) = tls_builder o1 in Inr (r, n, o2))
         | Some Ws \<Rightarrow> rbind (ws_builder browser uni document o1) (\<lambda>(r, o2). Inr (r, n, o2))
         | Some Inherited \<Rightarrow> Inr (ClientItself, n, o1)
         | None \<Rightarrow> Inl (TypeError ''protocols[opts.protocol] is not a function'')))"

section \<open>TLS\<close>

record tls_connection =
  tls_watched :: bool               \<comment> \<open>\<open>handleTLSerrors\<close> is registered\<close>
  tls_ended :: bool
  tls_reported :: "string list"     \<comment> \<open>errors emitted on the client\<close>

definition tls_opened :: tls_connection where
  "tls_opened = \<lparr>tls_watched = True, tls_ended = False, tls_reported = []\<rparr>"

definition handleTLSerrors :: "opts \<Rightarrow> string \<Rightarrow> tls_connection \<Rightarrow> tls_connection" where
  "handleTLSerrors o' err c =
     (if tls_watched c then
        c\<lparr>tls_reported := (if truthy (get_val o' ''rejectUnauthorized'') then tls_reported c @ [err] else tls_reported c),
          tls_ended := True\<rparr>
      else c)"

definition secureConnect :: "opts \<Rightarrow> bool \<Rightarrow> tls_connection \<Rightarrow> tls_connection" where
  "secureConnect o' authorized c =
     (if truthy (get_val o' ''rejectUnauthorized'') \<and> \<not> authorized
      then handleTLSerrors o' ''TLS not authorized'' c
      else c\<lparr>tls_watched := False\<rparr>)"

section \<open>Defaults of the client\<close>

definition defaultConnectOptions :: "(string \<times> jsval) list" where
  "defaultConnectOptions =
     [(''keepalive'', JNum 60), (''reschedulePings'', JBool True), (''protocolId'', JStr (js ''MQTT'')),
      (''protocolVersion'', JNum 4), (''reconnectPeriod'', JNum 1000), (''connectTimeout'', JNum 30000),
      (''clean'', JBool True)]"

definition client_defaults :: "jsstr \<Rightarrow> opts \<Rightarrow> opts" where
  \<comment> \<open>the first argument is \<^verbatim>\<open>defaultId()\<close>\<close>
  "client_defaults random_id o' =
     (let o1 = foldl (\<lambda>m (k, v). if get_opt m k = OVal JUndef then set_val k v m else m) o' defaultConnectOptions
      in set_val ''clientId'' (js_or (get_val o1 ''clientId'') (JStr random_id)) o1)"

text \<open>The option object as the prototype of the CONNECT packet.\<close>

definition connect_packet :: "opts \<Rightarrow> packet" where
  "connect_packet o' =
     (bare_packet Connect)\<lparr>p_protocolId := get_val o' ''protocolId'', p_protocolVersion := get_val o' ''protocolVersion'',
        p_clean := get_val o' ''clean'', p_keepalive := get_val o' ''keepalive'', p_clientId := get_val o' ''clientId'',
        p_username := get_val o' ''username'', p_password := get_val o' ''password'',
        p_will := (case get_opt o' ''will'' of OWill w \<Rightarrow> w | _ \<Rightarrow> NoWill)\<rparr>"

text \<open>The options the client model reads; its timers count whole numbers.\<close>

definition client_options :: "opts \<Rightarrow> options" where
  "client_options o' =
     (let num = (\<lambda>k. case get_val o' k of JNum n \<Rightarrow> n | _ \<Rightarrow> 0) in
      \<lparr>o_keepalive = num ''keepalive'', o_reschedulePings = truthy (get_val o' ''reschedulePings''),
       o_reconnectPeriod = num ''reconnectPeriod'', o_clean = truthy (get_val o' ''clean''), o_connect = connect_packet o'\<rparr>)"

section \<open>From the URL to the options\<close>

lemma get_set [simp]:
  "get_val (set_val k v m) j = (if j = k then v else get_val m j)"
  "get_opt (set_val k v m) j = (if j = k then OVal v else get_opt m j)"
  by (simp_all add: get_val_def get_opt_def set_val_def)

lemma set_val_dom [simp]: "set_val k v m j = (if j = k then Some (OVal v) else m j)"
  by (simp add: set_val_def)

lemma split_auth_pair:
  assumes "user \<noteq> []" "pass \<noteq> []" "58 \<notin> set pass" "list_all (\<lambda>c. \<not> line_terminator c) (user @ pass)"
  shows "split_auth (user @ 58 # pass) = Some (user, pass)"
proof -
  obtain u us where u: "user = u # us" using assms(1) by (cases user) auto
  obtain ps x where p: "pass = ps @ [x]" using assms(2) by (cases pass rule: rev_cases) auto
  have "drop 1 (butlast (user @ 58 # pass)) = us @ 58 # ps" by (simp add: u p butlast_append)
  moreover have "58 \<notin> set ps" using assms(3) p by simp
  ultimately have "lastIndexOf (drop 1 (butlast (user @ 58 # pass))) 58 = Some (length us)"
    using lastIndexOf_last by simp
  moreover have "\<not> line_terminator 58" by (simp add: line_terminator_def)
  ultimately show ?thesis using assms(4) by (simp add: split_auth_def u)
qed

lemma auth_ok_pair:
  assumes "wf_utf16 user" "wf_utf16 pass" "encodeURIComponent user = Inr eu" "encodeURIComponent pass = Inr ep"
  shows "auth_ok (Some (eu @ 58 # ep)) (Some (user @ 58 # pass))"
proof -
  have u: "\<forall>v. decodeURIComponent (eu @ v) = rbind (decodeURIComponent v) (\<lambda>w. Inr (user @ w))" "list_all uri_char eu"
    using uri_component_append [OF assms(1)] assms(3) by auto
  have p: "decodeURIComponent ep = Inr pass" "list_all uri_char ep"
    using uri_component [OF assms(2)] assms(4) by auto
  have "wf_utf16 (58 # pass)" using assms(2) wf_utf16_append [of "[58]" pass] by (simp add: surrogate_def)
  then show ?thesis
    using u p assms(1) wf_utf16_append [of user "58 # pass"] by (auto simp: auth_ok_def list_all_iff)
qed

definition broker_schemes :: "jsstr list" where
  "broker_schemes = map js [''mqtt'', ''mqtts'', ''ws'', ''wss'', ''tcp'', ''ssl'', ''tls'']"

definition used_protocol :: "bool \<Rightarrow> jsstr \<Rightarrow> jsstr" where
  "used_protocol browser p =
     (if \<not> browser then p else if p = js ''mqtts'' \<or> p = js ''wss'' then js ''wss'' else js ''ws'')"

lemma schemes_ok: "p \<in> set broker_schemes \<Longrightarrow> scheme_ok p \<and> \<not> slashedProtocol (Some (p @ [58]))"
  by (auto simp: broker_schemes_def scheme_ok_def protocol_char_def is_letter_def slashedProtocol_def js_def)

lemma schemes_used:
  assumes "p \<in> set broker_schemes" "get_val o' ''protocol'' = JStr p"
  shows "get_val (usable_protocol browser o') ''protocol'' = JStr (used_protocol browser p)"
    "j \<noteq> ''protocol'' \<Longrightarrow> get_opt (usable_protocol browser o') j = get_opt o' j"
proof -
  have "p \<in> set (map js [''mqtt'', ''mqtts'', ''ws'', ''wss'', ''tcp'', ''ssl'', ''tls''])"
    using assms(1) by (simp add: broker_schemes_def)
  then show "get_val (usable_protocol browser o') ''protocol'' = JStr (used_protocol browser p)"
    using assms(2)
    by (cases browser) (auto simp: usable_protocol_def Let_def key_text_def protocols_def used_protocol_def js_def object_prototype_def
        upt_rec [of _ "4"])
  show "j \<noteq> ''protocol'' \<Longrightarrow> get_opt (usable_protocol browser o') j = get_opt o' j"
    by (simp add: usable_protocol_def Let_def)
qed

definition unset_by_url :: "string list" where
  \<comment> \<open>options the model reads that no address sets\<close>
  "unset_by_url = [''servers'', ''wsOptions'', ''transformWsUrl'', ''protocolId'', ''protocolVersion'', ''clean'', ''keepalive'',
     ''reschedulePings'', ''reconnectPeriod'', ''connectTimeout'', ''will'']"

lemma get_val_opt: "get_opt a k = get_opt b k \<Longrightarrow> get_val a k = get_val b k"
  by (simp add: get_val_def)

lemma connect_url:
  assumes "p \<in> set broker_schemes" "host_ok h" "path_ok path" "port_ok (Some d)"
    and "wf_utf16 user" "wf_utf16 pass" "user \<noteq> []" "pass \<noteq> []" "58 \<notin> set pass"
    and "list_all (\<lambda>c. \<not> line_terminator c) (user @ pass)"
    and "encodeURIComponent user = Inr eu" "encodeURIComponent pass = Inr ep"
    and "wf_query q" "length (pairs_of q) \<le> 1000" "qs_stringify (Inl q) None None JUndef = Inr qt" "39 \<notin> set qt"
    and "map_of q (js ''clientId'') = Some (One (JStr cid))"
  shows "\<exists>m. connect_opts browser uni (BUrl (JStr (url_text p (Some (eu @ 58 # ep)) h (Some d) path qt))) None = Inr m
    \<and> get_val m ''protocol'' = JStr (used_protocol browser p) \<and> get_val m ''hostname'' = JStr h
    \<and> get_val m ''port'' = JNum (int (digits_value d))
    \<and> get_val m ''path'' = (if path @ query_text qt = [] then JNull else JStr (path @ query_text qt))
    \<and> get_val m ''username'' = JStr user \<and> get_val m ''password'' = JStr pass \<and> get_val m ''clientId'' = JStr cid
    \<and> (\<forall>k \<in> set unset_by_url. m k = None)"
proof -
  let ?t = "url_text p (Some (eu @ 58 # ep)) h (Some d) path qt"
  obtain href where parsed: "url_parse uni (JStr ?t) True False = Inr
    \<lparr>u_protocol = Some (p @ [58]), u_slashes = True, u_auth = Some (user @ 58 # pass), u_host = Some (h @ port_text (Some d)),
     u_port = Some d, u_hostname = Some h, u_hash = None, u_search = Some (query_text qt),
     u_query = QObject (Object_entries q), u_pathname = (if path = [] then None else Some path),
     u_path = (if path @ query_text qt = [] then None else Some (path @ query_text qt)), u_href = Some href\<rparr>"
    using parse_url_text [of p h path "Some (eu @ 58 # ep)" "Some (user @ 58 # pass)" "Some d" q qt uni] schemes_ok [OF assms(1)]
      auth_ok_pair [OF assms(5,6,11,12)] assms(2-4,13-16) by blast
  let ?u = "\<lparr>u_protocol = Some (p @ [58]), u_slashes = True, u_auth = Some (user @ 58 # pass), u_host = Some (h @ port_text (Some d)),
     u_port = Some d, u_hostname = Some h, u_hash = None, u_search = Some (query_text qt),
     u_query = QObject (Object_entries q), u_pathname = (if path = [] then None else Some path),
     u_path = (if path @ query_text qt = [] then None else Some (path @ query_text qt)), u_href = Some href\<rparr>"
  define m1 where "m1 = set_val ''protocol'' (JStr p) (xtend (url_opts ?u) Map.empty)"
  define m2 where "m2 = set_val ''clientId'' (JStr cid) (set_val ''password'' (JStr pass) (set_val ''username'' (JStr user) m1))"
  have gm1: "get_val (xtend (url_opts ?u) Map.empty) ''protocol'' = JStr (p @ [58])"
    by (simp add: get_val_def get_opt_def xtend_def url_opts_def null_or_def)
  have t: "?t \<noteq> []" by (simp add: url_text_def js_def)
  have merged: "merge_url uni (JStr ?t) Map.empty = Inr m1"
    using gm1 unfolding merge_url_def parsed by (simp add: m1_def)
  have m1: "get_val m1 ''auth'' = JStr (user @ 58 # pass)" "get_val m1 ''hostname'' = JStr h"
    "get_val m1 ''port'' = JNum (int (digits_value d))" "get_opt m1 ''query'' = OQuery (Object_entries q)"
    "get_val m1 ''path'' = (if path @ query_text qt = [] then JNull else JStr (path @ query_text qt))"
    "get_val m1 ''cert'' = JUndef"
    "\<forall>k \<in> set unset_by_url. m1 k = None"
    by (simp_all add: m1_def unset_by_url_def, simp_all add: get_val_def get_opt_def xtend_def url_opts_def null_or_def)
  have auth: "parseAuthOptions m1 = Inr (set_val ''password'' (JStr pass) (set_val ''username'' (JStr user) m1))"
    using split_auth_pair [OF assms(7-10)] m1(1) by (simp add: parseAuthOptions_def Let_def)
  have "distinct (map fst q)" using assms(13) by (simp add: wf_query_def)
  then have "map_of (Object_entries q) = map_of q"
    by (subst map_of_inject_set) (simp_all add: distinct_Object_entries)
  then have query: "query_client_id (set_val ''password'' (JStr pass) (set_val ''username'' (JStr user) m1)) = m2"
    using m1(4) assms(17) by (simp add: query_client_id_def m2_def)
  have secure: "secure_protocol m2 = Inr m2" using m1(6) by (simp add: secure_protocol_def m2_def)
  have p2: "get_val m2 ''protocol'' = JStr p" by (simp add: m2_def m1_def)
  let ?m = "usable_protocol browser m2"
  note used = schemes_used [OF assms(1) p2]
  have other: "get_val ?m j = get_val m2 j" if "j \<noteq> ''protocol''" for j
    using get_val_opt used(2) that by blast
  have none: "?m k = m2 k" if "k \<noteq> ''protocol''" for k
    using that by (simp add: usable_protocol_def Let_def)
  have "connect_opts browser uni (BUrl (JStr ?t)) None = Inr ?m"
    using t merged auth query secure m1(7) [unfolded unset_by_url_def] other [of "''clean''"]
    by (simp add: connect_opts_def Let_def m2_def get_val_def get_opt_def)
  moreover have m2: "get_val m2 ''hostname'' = JStr h" "get_val m2 ''port'' = JNum (int (digits_value d))"
    "get_val m2 ''path'' = (if path @ query_text qt = [] then JNull else JStr (path @ query_text qt))"
    "get_val m2 ''username'' = JStr user" "get_val m2 ''password'' = JStr pass" "get_val m2 ''clientId'' = JStr cid"
    "\<forall>k \<in> set unset_by_url. m2 k = None"
    using m1 by (simp_all add: m2_def unset_by_url_def)
  ultimately show ?thesis
    using used(1) by (intro exI [of _ ?m]) (simp add: other none unset_by_url_def)
qed

lemma client_defaults_get:
  assumes "\<forall>k \<in> set unset_by_url. m k = None" "get_val m ''clientId'' = JStr cid" "cid \<noteq> []"
  shows "k \<in> {''protocol'', ''hostname'', ''port'', ''path'', ''username'', ''password'', ''clientId''} \<Longrightarrow>
           get_val (client_defaults rid m) k = get_val m k"
    "get_val (client_defaults rid m) ''protocolId'' = JStr (js ''MQTT'')"
    "get_val (client_defaults rid m) ''protocolVersion'' = JNum 4"
    "get_val (client_defaults rid m) ''clean'' = JBool True" "get_val (client_defaults rid m) ''keepalive'' = JNum 60"
    "get_opt (client_defaults rid m) ''servers'' = OVal JUndef" "get_opt (client_defaults rid m) ''wsOptions'' = OVal JUndef"
    "get_opt (client_defaults rid m) ''transformWsUrl'' = OVal JUndef" "get_opt (client_defaults rid m) ''will'' = OVal JUndef"
proof -
  have u: "get_opt m k = OVal JUndef" if "k \<in> set unset_by_url" for k
    using assms(1) that by (simp add: get_opt_def)
  define m1 where "m1 = foldl (\<lambda>m (k, v). if get_opt m k = OVal JUndef then set_val k v m else m) m defaultConnectOptions"
  have m1: "m1 = set_val ''clean'' (JBool True) (set_val ''connectTimeout'' (JNum 30000) (set_val ''reconnectPeriod'' (JNum 1000)
      (set_val ''protocolVersion'' (JNum 4) (set_val ''protocolId'' (JStr (js ''MQTT''))
        (set_val ''reschedulePings'' (JBool True) (set_val ''keepalive'' (JNum 60) m))))))"
    using u by (simp add: m1_def defaultConnectOptions_def unset_by_url_def)
  then have c: "get_val m1 ''clientId'' = JStr cid" using assms(2) by simp
  have d: "client_defaults rid m = set_val ''clientId'' (JStr cid) m1"
    using c assms(3) by (simp add: client_defaults_def m1_def [symmetric] Let_def js_or_def)
  show "k \<in> {''protocol'', ''hostname'', ''port'', ''path'', ''username'', ''password'', ''clientId''} \<Longrightarrow>
           get_val (client_defaults rid m) k = get_val m k"
    "get_val (client_defaults rid m) ''protocolId'' = JStr (js ''MQTT'')"
    "get_val (client_defaults rid m) ''protocolVersion'' = JNum 4"
    "get_val (client_defaults rid m) ''clean'' = JBool True" "get_val (client_defaults rid m) ''keepalive'' = JNum 60"
    "get_opt (client_defaults rid m) ''servers'' = OVal JUndef" "get_opt (client_defaults rid m) ''wsOptions'' = OVal JUndef"
    "get_opt (client_defaults rid m) ''transformWsUrl'' = OVal JUndef" "get_opt (client_defaults rid m) ''will'' = OVal JUndef"
    using assms(2) u [of "''servers''"] u [of "''wsOptions''"] u [of "''transformWsUrl''"] u [of "''will''"]
    by (auto simp: d m1 unset_by_url_def)
qed

lemma ws_request:
  assumes "get_val m ''protocol'' = JStr p" "p = js ''ws'' \<or> p = js ''wss''" "get_val m ''hostname'' = JStr h" "h \<noteq> []"
    and "get_val m ''port'' = JNum n" "n \<noteq> 0" "get_val m ''path'' = (if t = [] then JNull else JStr t)"
    and "get_opt m ''servers'' = OVal JUndef" "get_opt m ''wsOptions'' = OVal JUndef" "get_opt m ''transformWsUrl'' = OVal JUndef"
    and "get_val m ''protocolId'' = JStr (js ''MQTT'')"
  shows "\<exists>k m'. wrapper True uni doc (0, m) =
    Inr (WsRequest (p @ js ''://'' @ h @ js '':'' @ int_text n @ (if t = [] then [47] else t)) (js ''mqtt'') [], k, m')"
proof -
  have pr: "protocols True p = Some Ws" using assms(2) by (auto simp: protocols_def)
  have w: "get_val m ''wsOptions'' = JUndef" using assms(9) by (simp add: get_val_def)
  have "setDefaultOpts True m = (let o1 = (if t = [] then set_val ''path'' (JStr [47]) m else m) in o1(''wsOptions'' \<mapsto> OMap []))"
    using assms w by (simp add: setDefaultOpts_def Let_def)
  then have "fst (createWebSocket True m) =
      WsRequest (p @ js ''://'' @ h @ js '':'' @ int_text n @ (if t = [] then [47] else t)) (js ''mqtt'') []"
    using assms by (simp add: createWebSocket_def buildUrl_def ws_options_def Let_def js_def) (simp add: get_val_def get_opt_def set_val_def)
  then show ?thesis
    using assms pr by (cases "createWebSocket True m") (simp add: wrapper_def ws_builder_def key_text_def Let_def)
qed



section \<open>A list of servers\<close>

fun connect_times :: "bool \<Rightarrow> (jsstr \<Rightarrow> jsstr) \<Rightarrow> jsstr option \<Rightarrow> nat \<Rightarrow> nat \<times> opts \<Rightarrow> (request list \<times> nat \<times> opts) result" where
  \<comment> \<open>the builder called again and again, as reconnecting does\<close>
  "connect_times browser uni doc 0 st = Inr ([], st)"
| "connect_times browser uni doc (Suc k) st =
     rbind (wrapper browser uni doc st) (\<lambda>(r, st1).
     rbind (connect_times browser uni doc k st1) (\<lambda>(rs, st2). Inr (r # rs, st2)))"

lemma wrapper_server:
  assumes "get_opt m ''servers'' = OServers ss" "c \<le> length ss" "ss \<noteq> []" "get_val m ''protocol'' = JStr p" "protocols browser p = Some Tcp"
    and "\<forall>(host, port) \<in> set ss. truthy host \<and> truthy port"
  defines "i \<equiv> if c = length ss then 0 else c"
  shows "\<exists>m'. wrapper browser uni doc (c, m) = Inr (TcpRequest (snd (ss ! i)) (fst (ss ! i)), Suc i, m')
     \<and> get_opt m' ''servers'' = OServers ss \<and> get_val m' ''protocol'' = JStr p"
proof -
  have i: "i < length ss" "(if c = 0 \<or> c = length ss then 0 else c) = i" using assms(2,3) by (auto simp: i_def)
  then have "truthy (fst (ss ! i))" "truthy (snd (ss ! i))" using assms(6) by (auto simp: case_prod_beta)
  then show ?thesis
    using assms(1,4,5) i by (simp add: wrapper_def Let_def key_text_def tcp_builder_def js_or_def)
qed

lemma connect_times_servers:
  assumes "get_opt m ''servers'' = OServers ss" "c \<le> length ss" "ss \<noteq> []" "get_val m ''protocol'' = JStr p" "protocols browser p = Some Tcp"
    and "\<forall>(host, port) \<in> set ss. truthy host \<and> truthy port"
  shows "\<exists>st. connect_times browser uni doc k (c, m) =
           Inr (map (\<lambda>j. let s = ss ! ((c + j) mod length ss) in TcpRequest (snd s) (fst s)) [0 ..< k], st)"
  using assms(1,2,4)
proof (induction k arbitrary: c m)
  case (Suc k)
  define i where "i = (if c = length ss then 0 else c)"
  have i: "i < length ss" "i = c mod length ss" using Suc.prems(2) assms(3) by (auto simp: i_def)
  obtain m' where m': "wrapper browser uni doc (c, m) = Inr (TcpRequest (snd (ss ! i)) (fst (ss ! i)), Suc i, m')"
      "get_opt m' ''servers'' = OServers ss" "get_val m' ''protocol'' = JStr p"
    using wrapper_server [OF Suc.prems(1,2) assms(3) Suc.prems(3) assms(5,6)] unfolding i_def by blast
  have "Suc i \<le> length ss" using i by simp
  then obtain st where st: "connect_times browser uni doc k (Suc i, m') =
      Inr (map (\<lambda>j. let s = ss ! ((Suc i + j) mod length ss) in TcpRequest (snd s) (fst s)) [0 ..< k], st)"
    using Suc.IH [OF m'(2) _ m'(3)] by blast
  have shift: "map f [0 ..< Suc k] = f 0 # map (\<lambda>j. f (Suc j)) [0 ..< k]" for f :: "nat \<Rightarrow> request"
    by (simp only: upt_conv_Cons map_Suc_upt [symmetric] zero_less_Suc list.map map_map comp_def)
  have "(Suc i + j) mod length ss = (c + Suc j) mod length ss" for j
    using i(2) by (metis add_Suc_right add_Suc mod_add_left_eq)
  then show ?case
    using m'(1) st i(2) unfolding shift by (simp add: Let_def)
qed simp

text \<open>
  With a list of servers, successive connections go round the list: connection number k (from 0) is made
  to host and port of the entry k modulo the length, whatever the earlier ones changed in the options.
\<close>

lemma servers_rotate:
  assumes "get_opt m ''servers'' = OServers ss" "ss \<noteq> []" "get_val m ''protocol'' = JStr p" "protocols browser p = Some Tcp"
    and "list_all (\<lambda>(host, port). truthy host \<and> truthy port) ss"
  shows "\<exists>st. connect_times browser uni doc k (0, m) =
           Inr (map (\<lambda>j. let s = ss ! (j mod length ss) in TcpRequest (snd s) (fst s)) [0 ..< k], st)"
  using connect_times_servers [OF assms(1) _ assms(2,3,4), of 0] assms(5) by (simp add: list_all_iff)

lemma servers_rotate_witness:
  "\<exists>st. connect_times False id None 3
       (0, [''servers'' \<mapsto> OServers [(JStr (js ''a''), JNum 1), (JStr (js ''b''), JNum 2)], ''protocol'' \<mapsto> OVal (JStr (js ''mqtt''))]) =
     Inr ([TcpRequest (JNum 1) (JStr (js ''a'')), TcpRequest (JNum 2) (JStr (js ''b'')), TcpRequest (JNum 1) (JStr (js ''a''))], st)"
  using servers_rotate [of "[''servers'' \<mapsto> OServers [(JStr (js ''a''), JNum 1), (JStr (js ''b''), JNum 2)], ''protocol'' \<mapsto> OVal (JStr (js ''mqtt''))]"
      "[(JStr (js ''a''), JNum 1), (JStr (js ''b''), JNum 2)]" "js ''mqtt''" False id None 3]
  by (simp add: get_opt_def get_val_def protocols_def js_def upt_rec numeral_3_eq_3)

section \<open>Findings\<close>

text \<open>In a browser an address with the scheme \<^verbatim>\<open>ssl\<close> or \<^verbatim>\<open>tls\<close> is connected to without encryption.\<close>

lemma tls_downgraded:
  "p = js ''ssl'' \<or> p = js ''tls'' \<Longrightarrow> get_val (usable_protocol True [''protocol'' \<mapsto> OVal (JStr p)]) ''protocol'' = JStr (js ''ws'')"
  using schemes_used(1) [of p "[''protocol'' \<mapsto> OVal (JStr p)]" True]
  by (auto simp: broker_schemes_def used_protocol_def get_val_def get_opt_def js_def)

text \<open>The user name goes up to the last colon, so a password with a colon is cut.\<close>

lemma password_cut: "split_auth (js ''user:pa:ss'') = Some (js ''user:pa'', js ''ss'')"
  by code_simp

text \<open>A name that objects inherit counts as a known protocol; no stream is built.\<close>

lemma inherited_protocol:
  "\<exists>m st. connect_opts False id (BUrl (JStr (js ''constructor://h''))) None = Inr m \<and> wrapper False id None (0, m) = Inr (ClientItself, st)"
proof -
  obtain href where u: "url_parse id (JStr (js ''constructor://h'')) True False = Inr (new_Url\<lparr>u_protocol := Some (js ''constructor:''), u_slashes := True,
      u_host := Some (js ''h''), u_hostname := Some (js ''h''), u_search := Some [], u_query := QObject [], u_href := Some href\<rparr>)"
  proof -
    have "scheme_ok (js ''constructor'')" "host_ok (js ''h'')" "\<not> slashedProtocol (Some (js ''constructor'' @ [58]))" by code_simp+
    from parse_url_text [OF this(1,2), of "[]" None None None "[]" "[]" id] this(3) that show thesis
      by (auto simp: path_ok_def auth_ok_def port_ok_def wf_query_def qs_stringify_def url_text_def auth_text_def port_text_def
          query_text_def js_def Object_entries_def new_Url_def)
  qed
  define m where "m = set_val ''protocol'' (JStr (js ''constructor'')) (xtend (url_opts (new_Url\<lparr>u_protocol := Some (js ''constructor:''), u_slashes := True,
      u_host := Some (js ''h''), u_hostname := Some (js ''h''), u_search := Some [], u_query := QObject [], u_href := Some href\<rparr>)) Map.empty)"
  have p: "protocols False (js ''constructor'') = Some Inherited" by code_simp
  have g: "get_val m ''auth'' = JNull" "get_opt m ''query'' = OQuery []" "get_val m ''cert'' = JUndef" "get_val m ''clean'' = JUndef"
      "get_opt m ''servers'' = OVal JUndef" "get_val m ''protocol'' = JStr (js ''constructor'')"
    by (simp_all add: m_def, simp_all add: get_val_def get_opt_def xtend_def url_opts_def null_or_def new_Url_def)
  have "merge_url id (JStr (js ''constructor://h'')) Map.empty = Inr m"
    unfolding merge_url_def u
    by (simp add: m_def Let_def) (simp add: get_val_def get_opt_def xtend_def url_opts_def null_or_def new_Url_def js_def)
  moreover have "js ''constructor://h'' \<noteq> []" by (simp add: js_def)
  ultimately have "connect_opts False id (BUrl (JStr (js ''constructor://h''))) None = Inr m"
    using g p by (simp add: connect_opts_def Let_def parseAuthOptions_def query_client_id_def secure_protocol_def usable_protocol_def key_text_def)
  moreover have "wrapper False id None (0, m) = Inr (ClientItself, 0, m)"
    using g p by (simp add: wrapper_def key_text_def)
  ultimately show ?thesis by blast
qed

end
