(* ===== verification/Event_Emitter.thy ===== *)
theory Event_Emitter
  imports Js_Prelude
begin

text \<open>
  \<^verbatim>\<open>EventEmitter\<close> of the module \<^verbatim>\<open>events\<close>: client, parser and streams register their listeners with it. A
  function is a listener value; the closure \<^verbatim>\<open>g\<close> of \<^verbatim>\<open>once\<close> is a listener of its own with an identity. What a
  function does to the emitter when it is called is a parameter \<open>body\<close>: a list of operations that may depend
  on the state. Calls that are due are kept in \<open>ev_todo\<close>, the first one next, so that nested emissions run
  in the order of the code. Event names are not names of properties of \<^verbatim>\<open>Object.prototype\<close>, and a missing table
  is an empty one.
\<close>

section \<open>State\<close>

datatype listener =
    Plain nat
  | Once nat string listener   \<comment> \<open>the closure \<^verbatim>\<open>g\<close>: its identity, \<^verbatim>\<open>type\<close>, and \<^verbatim>\<open>g.listener\<close>\<close>

datatype arg = AError string | AText string | AFun listener

datatype slot = OneFn listener | Many "listener list" bool   \<comment> \<open>with the property \<^verbatim>\<open>warned\<close>\<close>

datatype op =
    On string "listener option"            \<comment> \<open>\<open>None\<close>: not a function\<close>
  | OnceOp string "listener option"
  | Off string "listener option"
  | OffAll "string option"
  | Emit string "arg list"
  | SetMax "int option"

datatype act =
    Do op
  | Invoke listener "arg list"
  | Insert string listener                 \<comment> \<open>the rest of \<^verbatim>\<open>addListener\<close>\<close>
  | Fire nat listener "arg list"           \<comment> \<open>the rest of \<^verbatim>\<open>g\<close>\<close>
  | RemoveLoop string                      \<comment> \<open>the loop at the end of \<^verbatim>\<open>removeAllListeners\<close>\<close>
  | Delete string
  | Clear

record emitter =
  ev_events :: "(string \<times> slot) list"
  ev_max :: "int option"
  ev_warnings :: nat
  ev_next :: nat                           \<comment> \<open>identity of the next closure of \<^verbatim>\<open>once\<close>\<close>
  ev_fired :: "nat list"
  ev_todo :: "act list"
  ev_log :: "(nat \<times> arg list) list"        \<comment> \<open>functions of the application, as they were called\<close>

definition new_EventEmitter :: emitter where
  "new_EventEmitter = \<lparr>ev_events = [], ev_max = None, ev_warnings = 0, ev_next = 0, ev_fired = [], ev_todo = [], ev_log = []\<rparr>"

definition defaultMaxListeners :: int where
  "defaultMaxListeners = 10"

abbreviation slot_of :: "emitter \<Rightarrow> string \<Rightarrow> slot option" where
  "slot_of em t \<equiv> map_of (ev_events em) t"

fun put_slot :: "string \<Rightarrow> slot \<Rightarrow> (string \<times> slot) list \<Rightarrow> (string \<times> slot) list" where
  "put_slot t s [] = [(t, s)]"
| "put_slot t s ((u, r) # es) = (if u = t then (t, s) # es else (u, r) # put_slot t s es)"

definition del_slot :: "string \<Rightarrow> (string \<times> slot) list \<Rightarrow> (string \<times> slot) list" where
  "del_slot t es = filter (\<lambda>(u, _). u \<noteq> t) es"

abbreviation due :: "act list \<Rightarrow> emitter \<Rightarrow> emitter" where
  "due as em \<equiv> em\<lparr>ev_todo := as @ ev_todo em\<rparr>"

section \<open>Operations\<close>

definition setMaxListeners :: "int option \<Rightarrow> emitter \<Rightarrow> emitter result" where
  "setMaxListeners n em =
     (case n of
        None \<Rightarrow> Inl (TypeError ''n must be a positive number'')
      | Some m \<Rightarrow> if m < 0 then Inl (TypeError ''n must be a positive number'') else Inr (em\<lparr>ev_max := Some m\<rparr>))"

fun uncaught :: "arg list \<Rightarrow> js_error" where
  "uncaught (AError e # _) = JsError e"
| "uncaught (AText s # _) = JsError (''Uncaught, unspecified \"error\" event. ('' @ s @ '')'')"
| "uncaught (AFun f # _) = JsError ''Uncaught, unspecified \"error\" event. (function)''"
| "uncaught [] = JsError ''Uncaught, unspecified \"error\" event. (undefined)''"

text \<open>\<^verbatim>\<open>emit\<close> copies the array before it calls the listeners, so the calls due are fixed when it starts.\<close>

definition emit_ev :: "string \<Rightarrow> arg list \<Rightarrow> emitter \<Rightarrow> (bool \<times> emitter) result" where
  "emit_ev type args em =
     (if type = ''error'' \<and> (case slot_of em type of None \<Rightarrow> True | Some (Many ls _) \<Rightarrow> ls = [] | Some (OneFn _) \<Rightarrow> False)
      then Inl (uncaught args)
      else case slot_of em type of
        None \<Rightarrow> Inr (False, em)
      | Some (OneFn l) \<Rightarrow> Inr (True, due [Invoke l args] em)
      | Some (Many ls _) \<Rightarrow> Inr (True, due (map (\<lambda>l. Invoke l args) ls) em))"

fun inner :: "listener \<Rightarrow> listener" where
  \<comment> \<open>\<^verbatim>\<open>isFunction(listener.listener) ? listener.listener : listener\<close>\<close>
  "inner (Plain f) = Plain f"
| "inner (Once n t l) = l"

definition insert_listener :: "string \<Rightarrow> listener \<Rightarrow> emitter \<Rightarrow> emitter" where
  "insert_listener type l em =
     (let s = (case slot_of em type of
                 None \<Rightarrow> OneFn l
               | Some (Many ls w) \<Rightarrow> Many (ls @ [l]) w
               | Some (OneFn k) \<Rightarrow> Many [k, l] False);
          m = (case ev_max em of Some m \<Rightarrow> m | None \<Rightarrow> defaultMaxListeners)
      in case s of
           OneFn _ \<Rightarrow> em\<lparr>ev_events := put_slot type s (ev_events em)\<rparr>
         | Many ls w \<Rightarrow>
             if \<not> w \<and> m > 0 \<and> int (length ls) > m
             then em\<lparr>ev_events := put_slot type (Many ls True) (ev_events em), ev_warnings := ev_warnings em + 1\<rparr>
             else em\<lparr>ev_events := put_slot type s (ev_events em)\<rparr>)"

definition addListener :: "string \<Rightarrow> listener option \<Rightarrow> emitter \<Rightarrow> emitter result" where
  "addListener type listener em =
     (case listener of
        None \<Rightarrow> Inl (TypeError ''listener must be a function'')
      | Some l \<Rightarrow>
          if slot_of em ''newListener'' \<noteq> None then
            rbind (emit_ev ''newListener'' [AText type, AFun (inner l)] (due [Insert type l] em)) (\<lambda>(_, e). Inr e)
          else Inr (insert_listener type l em))"

definition once_ev :: "string \<Rightarrow> listener option \<Rightarrow> emitter \<Rightarrow> emitter result" where
  "once_ev type listener em =
     (case listener of
        None \<Rightarrow> Inl (TypeError ''listener must be a function'')
      | Some l \<Rightarrow> addListener type (Some (Once (ev_next em) type l)) (em\<lparr>ev_next := ev_next em + 1\<rparr>))"

fun matches :: "listener \<Rightarrow> listener \<Rightarrow> bool" where
  \<comment> \<open>\<^verbatim>\<open>x === listener || x.listener === listener\<close>\<close>
  "matches l (Plain f) = (l = Plain f)"
| "matches l (Once n t k) = (l = Once n t k \<or> l = k)"

fun remove_last :: "listener \<Rightarrow> listener list \<Rightarrow> listener list option" where
  \<comment> \<open>the search from the end and \<^verbatim>\<open>splice(position, 1)\<close>; \<open>None\<close>: not found\<close>
  "remove_last l [] = None"
| "remove_last l (x # xs) =
     (case remove_last l xs of
        Some ys \<Rightarrow> Some (x # ys)
      | None \<Rightarrow> if matches l x then Some xs else None)"

definition take_out :: "string \<Rightarrow> listener \<Rightarrow> emitter \<Rightarrow> emitter option" where
  \<comment> \<open>\<open>None\<close>: no such listener\<close>
  "take_out type l em =
     (case slot_of em type of
        None \<Rightarrow> None
      | Some (OneFn k) \<Rightarrow>
          if matches l k then Some (em\<lparr>ev_events := del_slot type (ev_events em)\<rparr>) else None
      | Some (Many ls w) \<Rightarrow>
          (case remove_last l ls of
             None \<Rightarrow> None
           | Some ks \<Rightarrow>
               Some (em\<lparr>ev_events :=
                 (if ks = [] then del_slot type (ev_events em) else put_slot type (Many ks w) (ev_events em))\<rparr>)))"

definition removeListener :: "string \<Rightarrow> listener option \<Rightarrow> emitter \<Rightarrow> emitter result" where
  "removeListener type listener em =
     (case listener of
        None \<Rightarrow> Inl (TypeError ''listener must be a function'')
      | Some l \<Rightarrow>
          (case take_out type l em of
             None \<Rightarrow> Inr em
           | Some e \<Rightarrow>
               if slot_of e ''removeListener'' \<noteq> None then
                 rbind (emit_ev ''removeListener'' [AText type, AFun l] e) (\<lambda>(_, e'). Inr e')
               else Inr e))"

definition removeAllListeners :: "string option \<Rightarrow> emitter \<Rightarrow> emitter result" where
  "removeAllListeners type em =
     (if slot_of em ''removeListener'' = None then
        Inr (em\<lparr>ev_events := (case type of None \<Rightarrow> [] | Some t \<Rightarrow> del_slot t (ev_events em))\<rparr>)
      else case type of
        None \<Rightarrow>
          Inr (due (map (\<lambda>t. Do (OffAll (Some t))) (filter (\<lambda>t. t \<noteq> ''removeListener'') (map fst (ev_events em)))
                    @ [Do (OffAll (Some ''removeListener'')), Clear]) em)
      | Some t \<Rightarrow>
          (case slot_of em t of
             Some (OneFn l) \<Rightarrow> Inr (due [Do (Off t (Some l)), Delete t] em)
           | Some (Many ls w) \<Rightarrow> Inr (due [RemoveLoop t] em)
           | None \<Rightarrow> Inr (due [Delete t] em)))"

definition remove_loop :: "string \<Rightarrow> emitter \<Rightarrow> emitter" where
  \<comment> \<open>\<^verbatim>\<open>while (listeners.length) this.removeListener(type, last); delete this._events[type]\<close>\<close>
  "remove_loop t em =
     (case slot_of em t of
        Some (Many (l # ls) w) \<Rightarrow> due [Do (Off t (Some (last (l # ls)))), RemoveLoop t] em
      | _ \<Rightarrow> em\<lparr>ev_events := del_slot t (ev_events em)\<rparr>)"

definition listeners :: "string \<Rightarrow> emitter \<Rightarrow> listener list" where
  "listeners type em =
     (case slot_of em type of None \<Rightarrow> [] | Some (OneFn l) \<Rightarrow> [l] | Some (Many ls _) \<Rightarrow> ls)"

definition listenerCount :: "string \<Rightarrow> emitter \<Rightarrow> nat" where
  "listenerCount type em =
     (case slot_of em type of None \<Rightarrow> 0 | Some (OneFn l) \<Rightarrow> 1 | Some (Many ls _) \<Rightarrow> length ls)"

section \<open>Execution\<close>

fun do_op :: "op \<Rightarrow> emitter \<Rightarrow> emitter result" where
  "do_op (On t l) em = addListener t l em"
| "do_op (OnceOp t l) em = once_ev t l em"
| "do_op (Off t l) em = removeListener t l em"
| "do_op (OffAll t) em = removeAllListeners t em"
| "do_op (Emit t as) em = rbind (emit_ev t as em) (\<lambda>(_, e). Inr e)"
| "do_op (SetMax n) em = setMaxListeners n em"

type_synonym bodies = "nat \<Rightarrow> arg list \<Rightarrow> emitter \<Rightarrow> op list"

fun do_act :: "bodies \<Rightarrow> act \<Rightarrow> emitter \<Rightarrow> emitter result" where
  "do_act body (Do oper) em = do_op oper em"
| "do_act body (Invoke (Plain f) args) em =
     (let e = em\<lparr>ev_log := ev_log em @ [(f, args)]\<rparr> in Inr (due (map Do (body f args e)) e))"
| "do_act body (Invoke (Once n t l) args) em =
     removeListener t (Some (Once n t l)) (due [Fire n l args] em)"
| "do_act body (Insert t l) em = Inr (insert_listener t l em)"
| "do_act body (Fire n l args) em =
     (if n \<in> set (ev_fired em) then Inr em
      else Inr (due [Invoke l args] (em\<lparr>ev_fired := n # ev_fired em\<rparr>)))"
| "do_act body (RemoveLoop t) em = Inr (remove_loop t em)"
| "do_act body (Delete t) em = Inr (em\<lparr>ev_events := del_slot t (ev_events em)\<rparr>)"
| "do_act body Clear em = Inr (em\<lparr>ev_events := []\<rparr>)"

fun run_ev :: "bodies \<Rightarrow> nat \<Rightarrow> emitter \<Rightarrow> emitter result option" where
  \<comment> \<open>\<open>None\<close>: the fuel did not suffice\<close>
  "run_ev body 0 em = (if ev_todo em = [] then Some (Inr em) else None)"
| "run_ev body (Suc n) em =
     (case ev_todo em of
        [] \<Rightarrow> Some (Inr em)
      | a # as \<Rightarrow>
          (case do_act body a (em\<lparr>ev_todo := as\<rparr>) of
             Inl e \<Rightarrow> Some (Inl e)
           | Inr e \<Rightarrow> run_ev body n e))"

section \<open>The table of listeners\<close>

lemma map_of_put_slot [simp]: "map_of (put_slot t s es) u = (if u = t then Some s else map_of es u)"
  by (induction es) auto

lemma map_of_del_slot [simp]: "map_of (del_slot t es) u = (if u = t then None else map_of es u)"
  by (induction es) (auto simp: del_slot_def)

lemma keys_del_slot: "map fst (del_slot t es) = filter (\<lambda>u. u \<noteq> t) (map fst es)"
  by (induction es) (auto simp: del_slot_def)

lemma keys_put_slot: "map fst (put_slot t s es) = map fst es @ (if t \<in> set (map fst es) then [] else [t])"
  by (induction es) (auto, force)

definition table_ok :: "emitter \<Rightarrow> bool" where
  \<comment> \<open>one slot per event, and an array in the table is never empty\<close>
  "table_ok em \<longleftrightarrow> distinct (map fst (ev_events em)) \<and> list_all (\<lambda>(t, s). \<forall>w. s \<noteq> Many [] w) (ev_events em)"

lemma slots_put_slot: "list_all P (put_slot t s es) \<Longrightarrow> P (t, s)" "P (t, s) \<Longrightarrow> list_all P es \<Longrightarrow> list_all P (put_slot t s es)"
  by (induction es) (auto split: if_splits)

lemma slots_del_slot: "list_all P es \<Longrightarrow> list_all P (del_slot t es)"
  by (auto simp: del_slot_def list_all_iff)

lemma table_ok_put [simp]:
  "table_ok em \<Longrightarrow> (\<And>w. s \<noteq> Many [] w) \<Longrightarrow> table_ok (em\<lparr>ev_events := put_slot t s (ev_events em)\<rparr>)"
  by (auto simp: table_ok_def keys_put_slot intro!: slots_put_slot(2))

lemma table_ok_del [simp]: "table_ok em \<Longrightarrow> table_ok (em\<lparr>ev_events := del_slot t (ev_events em)\<rparr>)"
  by (auto simp: table_ok_def keys_del_slot slots_del_slot)

lemma table_ok_slot: "table_ok em \<Longrightarrow> slot_of em t = Some (Many ls w) \<Longrightarrow> ls \<noteq> []"
  by (auto simp: table_ok_def list_all_iff dest!: map_of_SomeD)

lemma listeners_insert:
  "listeners u (insert_listener t l em) = (if u = t then listeners t em @ [l] else listeners u em)"
  by (auto simp: insert_listener_def listeners_def Let_def split: slot.split option.split)

lemma insert_fields [simp]:
  "ev_todo (insert_listener t l em) = ev_todo em" "ev_log (insert_listener t l em) = ev_log em"
  "ev_fired (insert_listener t l em) = ev_fired em" "ev_next (insert_listener t l em) = ev_next em"
  by (auto simp: insert_listener_def Let_def split: slot.split option.split)

lemma table_ok_insert: "table_ok em \<Longrightarrow> table_ok (insert_listener t l em)"
  by (auto simp: insert_listener_def Let_def table_ok_def keys_put_slot split: slot.split option.split
      intro!: slots_put_slot(2))

lemma take_out_fields:
  "take_out t l em = Some e \<Longrightarrow>
     ev_todo e = ev_todo em \<and> ev_log e = ev_log em \<and> ev_fired e = ev_fired em \<and> ev_next e = ev_next em"
  by (auto simp: take_out_def split: option.splits slot.splits if_splits)

lemma listeners_take_out:
  "take_out t l em = Some e \<Longrightarrow> remove_last l (listeners t em) = Some (listeners t e)"
  "take_out t l em = Some e \<Longrightarrow> u \<noteq> t \<Longrightarrow> listeners u e = listeners u em"
  by (auto simp: take_out_def listeners_def split: option.splits slot.splits if_splits)

lemma take_out_None: "take_out t l em = None \<longleftrightarrow> remove_last l (listeners t em) = None"
  by (auto simp: take_out_def listeners_def split: option.split slot.split)

lemma table_ok_take_out: "table_ok em \<Longrightarrow> take_out t l em = Some e \<Longrightarrow> table_ok e"
  by (auto simp: take_out_def split: option.splits slot.splits if_splits)

lemma matches_self [simp]: "matches l l"
  by (cases l) auto

lemma remove_last_snoc [simp]: "remove_last l (xs @ [l]) = Some xs"
  by (induction xs) auto

text \<open>
  What client, parser and streams rely on: registrations of one event are kept in their order, and removing a
  listener takes out the latest registration it matches.
\<close>

locale listener_table =
  fixes regs :: "string \<Rightarrow> 'e \<Rightarrow> listener list"
    and register :: "string \<Rightarrow> listener \<Rightarrow> 'e \<Rightarrow> 'e"
    and unregister :: "string \<Rightarrow> listener \<Rightarrow> 'e \<Rightarrow> 'e option"
  assumes regs_register: "regs u (register t l e) = (if u = t then regs t e @ [l] else regs u e)"
    and regs_unregister: "unregister t l e = Some e' \<Longrightarrow> remove_last l (regs t e) = Some (regs t e')"
    and regs_other: "unregister t l e = Some e' \<Longrightarrow> u \<noteq> t \<Longrightarrow> regs u e' = regs u e"
    and unregister_None: "unregister t l e = None \<longleftrightarrow> remove_last l (regs t e) = None"
begin

lemma regs_register_all: "regs t (foldl (\<lambda>e l. register t l e) e ls) = regs t e @ ls"
  by (induction ls arbitrary: e) (auto simp: regs_register)

lemma register_unregister: "\<exists>e'. unregister t l (register t l e) = Some e' \<and> (\<forall>u. regs u e' = regs u e)"
proof -
  have "unregister t l (register t l e) \<noteq> None"
    by (simp add: unregister_None regs_register)
  then obtain e' where e': "unregister t l (register t l e) = Some e'" by blast
  have "regs u e' = regs u e" for u
    using regs_unregister [OF e'] regs_other [OF e', of u] by (cases "u = t") (auto simp: regs_register)
  then show ?thesis using e' by blast
qed

end

interpretation reg: listener_table listeners insert_listener take_out
  by unfold_locales (auto simp: listeners_insert listeners_take_out take_out_None)

lemma emit_ev_listeners:
  assumes "table_ok em"
  shows "emit_ev t args em =
    (if t = ''error'' \<and> listeners t em = [] then Inl (uncaught args)
     else Inr (listeners t em \<noteq> [], due (map (\<lambda>l. Invoke l args) (listeners t em)) em))"
  using table_ok_slot [OF assms, of t]
  by (auto simp: emit_ev_def listeners_def split: option.splits slot.splits)

section \<open>Emission while listeners change\<close>

fun func_of :: "listener \<Rightarrow> nat" where
  "func_of (Plain f) = f"
| "func_of (Once n t l) = func_of l"

fun once_ids :: "listener \<Rightarrow> nat list" where
  "once_ids (Plain f) = []"
| "once_ids (Once n t l) = [n]"

fun wf_listener :: "listener \<Rightarrow> bool" where
  \<comment> \<open>a function, or a closure of \<^verbatim>\<open>once\<close> around one\<close>
  "wf_listener (Plain f) = True"
| "wf_listener (Once n t (Plain f)) = True"
| "wf_listener (Once n t l) = False"

fun registers :: "op \<Rightarrow> bool" where
  \<comment> \<open>an operation that changes the registrations of an ordinary event\<close>
  "registers (On t (Some (Plain f))) = (t \<noteq> ''newListener'' \<and> t \<noteq> ''removeListener'')"
| "registers (OnceOp t (Some (Plain f))) = (t \<noteq> ''newListener'' \<and> t \<noteq> ''removeListener'')"
| "registers (Off t (Some (Plain f))) = True"
| "registers (SetMax (Some m)) = (0 \<le> m)"
| "registers _ = False"

definition calm :: "emitter \<Rightarrow> bool" where
  "calm em \<longleftrightarrow> slot_of em ''newListener'' = None \<and> slot_of em ''removeListener'' = None"

definition leads :: "bodies \<Rightarrow> emitter \<Rightarrow> emitter \<Rightarrow> bool" where
  "leads body em em' \<longleftrightarrow> (\<exists>n. \<forall>m. run_ev body (n + m) em = run_ev body m em')"

lemma leads_refl: "leads body em em"
  unfolding leads_def by (rule exI [of _ 0]) simp

lemma leads_trans:
  assumes "leads body a b" "leads body b c"
  shows "leads body a c"
proof -
  obtain n k where "\<forall>m. run_ev body (n + m) a = run_ev body m b" "\<forall>m. run_ev body (k + m) b = run_ev body m c"
    using assms unfolding leads_def by blast
  then have "\<forall>m. run_ev body ((n + k) + m) a = run_ev body m c" by (metis add.assoc)
  then show ?thesis unfolding leads_def by blast
qed

lemma leads_step: "ev_todo em = a # as \<Longrightarrow> do_act body a (em\<lparr>ev_todo := as\<rparr>) = Inr e \<Longrightarrow> leads body em e"
  unfolding leads_def by (rule exI [of _ 1]) simp

lemma leads_run: "leads body em em' \<Longrightarrow> ev_todo em' = [] \<Longrightarrow> \<exists>n. run_ev body n em = Some (Inr em')"
  unfolding leads_def by (metis add_0_right run_ev.simps(1))

lemma slot_insert: "slot_of (insert_listener t l em) u = None \<longleftrightarrow> u \<noteq> t \<and> slot_of em u = None"
  by (auto simp: insert_listener_def Let_def split: slot.split option.split)

lemma slot_take_out: "take_out t l em = Some e \<Longrightarrow> slot_of em u = None \<Longrightarrow> slot_of e u = None"
  by (auto simp: take_out_def split: option.splits slot.splits if_splits)

lemma calm_irrelevant [simp]:
  "calm (em\<lparr>ev_todo := x\<rparr>) = calm em" "calm (em\<lparr>ev_log := y\<rparr>) = calm em" "calm (em\<lparr>ev_fired := z\<rparr>) = calm em"
  by (simp_all add: calm_def)

lemma calm_removeListener:
  assumes "calm em"
  shows "\<exists>e. removeListener t (Some l) em = Inr e \<and> calm e \<and> ev_todo e = ev_todo em \<and> ev_log e = ev_log em
    \<and> ev_fired e = ev_fired em"
proof (cases "take_out t l em")
  case None
  then show ?thesis using assms by (simp add: removeListener_def)
next
  case (Some e)
  have "calm e" using slot_take_out [OF Some] assms by (simp add: calm_def)
  then show ?thesis using Some take_out_fields [OF Some] by (simp add: removeListener_def calm_def)
qed

lemma calm_register:
  assumes "registers oper" "calm em"
  shows "\<exists>e. do_op oper em = Inr e \<and> calm e \<and> ev_todo e = ev_todo em \<and> ev_log e = ev_log em \<and> ev_fired e = ev_fired em"
  using assms calm_removeListener [OF assms(2)]
  by (cases oper rule: registers.cases)
     (auto simp: addListener_def once_ev_def setMaxListeners_def calm_def slot_insert)

lemma calm_registers:
  assumes "list_all registers ops" "calm em" "ev_todo em = map Do ops @ rest"
  shows "\<exists>e. leads body em e \<and> calm e \<and> ev_todo e = rest \<and> ev_log e = ev_log em \<and> ev_fired e = ev_fired em"
  using assms
proof (induction ops arbitrary: em)
  case Nil
  then show ?case using leads_refl by auto
next
  case (Cons oper ops)
  let ?em = "em\<lparr>ev_todo := map Do ops @ rest\<rparr>"
  obtain e where e: "do_op oper ?em = Inr e" "calm e" "ev_todo e = map Do ops @ rest" "ev_log e = ev_log em"
      "ev_fired e = ev_fired em"
    using calm_register [of oper ?em] Cons.prems by auto
  obtain e' where e': "leads body e e'" "calm e'" "ev_todo e' = rest" "ev_log e' = ev_log e" "ev_fired e' = ev_fired e"
    using Cons.IH [OF _ e(2,3)] Cons.prems(1) by auto
  have "leads body em e" by (rule leads_step [of _ "Do oper" "map Do ops @ rest"]) (use Cons.prems(3) e(1) in auto)
  then show ?case using leads_trans [OF _ e'(1)] e' e by auto
qed

definition snapshot_ok :: "emitter \<Rightarrow> listener list \<Rightarrow> bool" where
  \<comment> \<open>every closure of \<^verbatim>\<open>once\<close> is there one time and has not been called yet\<close>
  "snapshot_ok em ls \<longleftrightarrow> list_all wf_listener ls \<and> distinct (concat (map once_ids ls))
     \<and> set (concat (map once_ids ls)) \<inter> set (ev_fired em) = {}"

lemma call_plain:
  assumes "\<forall>f args e. list_all registers (body f args e)" "calm em" "ev_todo em = Invoke (Plain f) args # rest"
  shows "\<exists>e. leads body em e \<and> calm e \<and> ev_todo e = rest \<and> ev_log e = ev_log em @ [(f, args)] \<and> ev_fired e = ev_fired em"
proof -
  let ?e = "em\<lparr>ev_todo := rest, ev_log := ev_log em @ [(f, args)]\<rparr>"
  let ?d = "due (map Do (body f args ?e)) ?e"
  have l: "leads body em ?d" by (rule leads_step [OF assms(3)]) (simp add: Let_def)
  have "\<exists>e. leads body ?d e \<and> calm e \<and> ev_todo e = rest \<and> ev_log e = ev_log ?d \<and> ev_fired e = ev_fired ?d"
    by (rule calm_registers [of "body f args ?e"]) (use assms in simp_all)
  then obtain e where "leads body ?d e" "calm e" "ev_todo e = rest" "ev_log e = ev_log ?d" "ev_fired e = ev_fired ?d"
    by blast
  then show ?thesis using leads_trans [OF l] by auto
qed

lemma call_once:
  assumes b: "\<forall>f args e. list_all registers (body f args e)" and c: "calm em"
    and t: "ev_todo em = Invoke (Once n t (Plain f)) args # rest" and n: "n \<notin> set (ev_fired em)"
  shows "\<exists>e. leads body em e \<and> calm e \<and> ev_todo e = rest \<and> ev_log e = ev_log em @ [(f, args)] \<and> ev_fired e = n # ev_fired em"
proof -
  let ?em = "em\<lparr>ev_todo := Fire n (Plain f) args # rest\<rparr>"
  obtain e1 where e1: "removeListener t (Some (Once n t (Plain f))) ?em = Inr e1" "calm e1"
      "ev_todo e1 = Fire n (Plain f) args # rest" "ev_log e1 = ev_log em" "ev_fired e1 = ev_fired em"
    using calm_removeListener [of ?em] c by auto
  let ?e2 = "e1\<lparr>ev_todo := Invoke (Plain f) args # rest, ev_fired := n # ev_fired e1\<rparr>"
  have l1: "leads body em e1" by (rule leads_step [OF t]) (use e1(1) in simp)
  have l2: "leads body e1 ?e2" by (rule leads_step [OF e1(3)]) (use e1(5) n in simp)
  have "\<exists>e. leads body ?e2 e \<and> calm e \<and> ev_todo e = rest \<and> ev_log e = ev_log ?e2 @ [(f, args)] \<and> ev_fired e = ev_fired ?e2"
    by (rule call_plain [OF b]) (use e1(2) in simp_all)
  then show ?thesis using leads_trans [OF leads_trans [OF l1 l2]] e1(4,5) by auto
qed

lemma calls_run:
  assumes "\<forall>f args e. list_all registers (body f args e)" "calm em" "snapshot_ok em ls"
    "ev_todo em = map (\<lambda>l. Invoke l args) ls @ rest"
  shows "\<exists>e. leads body em e \<and> ev_todo e = rest \<and> ev_log e = ev_log em @ map (\<lambda>l. (func_of l, args)) ls"
  using assms(2-)
proof (induction ls arbitrary: em)
  case Nil
  then show ?case using leads_refl by auto
next
  case (Cons l ls)
  have "\<exists>e. leads body em e \<and> calm e \<and> ev_todo e = map (\<lambda>l. Invoke l args) ls @ rest
      \<and> ev_log e = ev_log em @ [(func_of l, args)] \<and> ev_fired e = once_ids l @ ev_fired em"
    using Cons.prems call_plain [OF assms(1), of em] call_once [OF assms(1), of em]
    by (cases l rule: wf_listener.cases) (auto simp: snapshot_ok_def)
  then obtain e where e: "leads body em e" "calm e" "ev_todo e = map (\<lambda>l. Invoke l args) ls @ rest"
      "ev_log e = ev_log em @ [(func_of l, args)]" "ev_fired e = once_ids l @ ev_fired em" by blast
  have "snapshot_ok e ls" using Cons.prems(2) e(5) by (auto simp: snapshot_ok_def)
  from Cons.IH [OF e(2) this e(3)] show ?case using leads_trans [OF e(1)] e(4) by auto
qed

text \<open>
  \<^bold>\<open>C26.\<close> Emission is isolated from changes it causes. Whatever the listeners do to the registrations while
  they are called (add, add once, remove, any event), \<^verbatim>\<open>emit\<close> calls exactly the listeners that were
  registered when it started, each of them once, in the order of their registration, and control returns.
\<close>

theorem emit_snapshot:
  assumes "table_ok em" "calm em" "snapshot_ok em (listeners t em)" "listeners t em \<noteq> []" "ev_todo em = []"
    and "\<forall>f args e. list_all registers (body f args e)"
  shows "\<exists>e n e'. emit_ev t args em = Inr (True, e) \<and> run_ev body n e = Some (Inr e') \<and> ev_todo e' = []
    \<and> ev_log e' = ev_log em @ map (\<lambda>l. (func_of l, args)) (listeners t em)"
proof -
  let ?e = "due (map (\<lambda>l. Invoke l args) (listeners t em)) em"
  have "emit_ev t args em = Inr (True, ?e)" using emit_ev_listeners [OF assms(1)] assms(4) by simp
  moreover have "\<exists>e'. leads body ?e e' \<and> ev_todo e' = [] \<and> ev_log e' = ev_log ?e @ map (\<lambda>l. (func_of l, args)) (listeners t em)"
    by (rule calls_run [OF assms(6)]) (use assms in \<open>simp_all add: snapshot_ok_def\<close>)
  ultimately show ?thesis using leads_run [of body ?e] by fastforce
qed

definition sample_emitter :: emitter where
  "sample_emitter = new_EventEmitter\<lparr>ev_events := [(''drain'', Many [Plain 1, Once 0 ''drain'' (Plain 2), Plain 3] False)], ev_next := 1\<rparr>"

theorem emit_snapshot_witness:
  "\<exists>e n e'. emit_ev ''drain'' [] sample_emitter = Inr (True, e)
    \<and> run_ev (\<lambda>f args e. if f = 1 then [Off ''drain'' (Some (Plain 3)), On ''drain'' (Some (Plain 4))] else []) n e = Some (Inr e')
    \<and> ev_todo e' = [] \<and> ev_log e' = [(1, []), (2, []), (3, [])]"
  using emit_snapshot [of sample_emitter "''drain''"
      "\<lambda>f args e. if f = 1 then [Off ''drain'' (Some (Plain 3)), On ''drain'' (Some (Plain 4))] else []" "[]"]
  by (simp add: sample_emitter_def new_EventEmitter_def table_ok_def calm_def snapshot_ok_def listeners_def)

text \<open>
  Removal undoes registration: \<^verbatim>\<open>on\<close> appends the listener to those of its event, and \<^verbatim>\<open>removeListener\<close> of the
  same function afterwards restores the listeners of every event, also when the function (or a \<^verbatim>\<open>once\<close> closure
  around it) was registered before: the latest registration goes.
\<close>

lemma on_off_restores:
  assumes "calm em" "t \<noteq> ''newListener''" "t \<noteq> ''removeListener''"
  shows "\<exists>e e'. addListener t (Some l) em = Inr e \<and> listeners t e = listeners t em @ [l]
    \<and> removeListener t (Some l) e = Inr e' \<and> (\<forall>u. listeners u e' = listeners u em)"
proof -
  let ?e = "insert_listener t l em"
  have "calm ?e" using assms by (simp add: calm_def slot_insert)
  moreover obtain e' where e': "take_out t l ?e = Some e'" "\<forall>u. listeners u e' = listeners u em"
    using reg.register_unregister by blast
  ultimately have "calm e'" using slot_take_out [OF e'(1)] by (simp add: calm_def)
  then have "removeListener t (Some l) ?e = Inr e'" using e'(1) by (simp add: removeListener_def calm_def)
  moreover have "addListener t (Some l) em = Inr ?e" using assms(1) by (simp add: addListener_def calm_def)
  ultimately show ?thesis using e'(2) by (auto simp: listeners_insert)
qed

lemma on_off_restores_witness:
  "\<exists>e e'. addListener ''drain'' (Some (Plain 2)) sample_emitter = Inr e
    \<and> listeners ''drain'' e = [Plain 1, Once 0 ''drain'' (Plain 2), Plain 3, Plain 2]
    \<and> removeListener ''drain'' (Some (Plain 2)) e = Inr e'
    \<and> listeners ''drain'' e' = [Plain 1, Once 0 ''drain'' (Plain 2), Plain 3]"
proof -
  have "calm sample_emitter" by (simp add: sample_emitter_def new_EventEmitter_def calm_def)
  moreover have "listeners ''drain'' sample_emitter = [Plain 1, Once 0 ''drain'' (Plain 2), Plain 3]"
    by (simp add: sample_emitter_def listeners_def)
  ultimately show ?thesis using on_off_restores [of sample_emitter "''drain''" "Plain 2"] by auto
qed

end
