(* ===== verification/String_Decoder.thy ===== *)
theory String_Decoder
  imports Buffer_List
begin

text \<open>
  \<^verbatim>\<open>StringDecoder\<close> of the bundled \<^verbatim>\<open>string_decoder\<close>: it turns a series of Buffers into strings without breaking
  characters apart, keeping the bytes of an incomplete character between two writes. The main results:
  however the bytes are cut, the strings of the writes and of \<^verbatim>\<open>end\<close> together are the text of all bytes.
\<close>

section \<open>State\<close>

record decoder =
  sd_encoding :: encoding
  lastNeed :: nat
  lastTotal :: nat
  lastChar :: buffer

fun enc_name :: "encoding \<Rightarrow> jsstr" where
  "enc_name Utf8 = js ''utf8''"
| "enc_name Ucs2 = js ''utf16le''"
| "enc_name Latin1 = js ''latin1''"
| "enc_name Base64 = js ''base64''"
| "enc_name Ascii = js ''ascii''"
| "enc_name Hex = js ''hex''"

definition normalizeEncoding :: "jsstr option \<Rightarrow> encoding result" where
  \<comment> \<open>the spelling as given, then in lower case\<close>
  "normalizeEncoding enc =
     (case enc of
        None \<Rightarrow> Inr Utf8
      | Some e \<Rightarrow>
          if e = [] then Inr Utf8
          else (case resolve_encoding e of
                  Some k \<Rightarrow> Inr k
                | None \<Rightarrow> Inl (JsError (''Unknown encoding: '' @ map (\<lambda>u. char_of (unat u)) e))))"

definition new_StringDecoder :: "jsstr option \<Rightarrow> decoder result" where
  "new_StringDecoder enc =
     rbind (normalizeEncoding enc) (\<lambda>k.
       Inr \<lparr>sd_encoding = k, lastNeed = 0, lastTotal = 0,
            lastChar = replicate (case k of Ucs2 \<Rightarrow> 4 | Utf8 \<Rightarrow> 4 | Base64 \<Rightarrow> 3 | _ \<Rightarrow> 0) 0\<rparr>)"

definition text_of :: "encoding \<Rightarrow> buffer \<Rightarrow> nat \<Rightarrow> nat option \<Rightarrow> jsstr result" where
  \<comment> \<open>\<^verbatim>\<open>buf.toString(encoding, start, end)\<close>\<close>
  "text_of k buf start end =
     Buffer_toString buf (Some (Some (enc_name k), Some (int start), map_option int end))"

section \<open>UTF-8\<close>

definition utf8CheckByte :: "byte \<Rightarrow> int" where
  "utf8CheckByte b =
     (let n = unat b in
      if n \<le> 0x7F then 0 else if drop_bit 5 n = 0x06 then 2 else if drop_bit 4 n = 0x0E then 3
      else if drop_bit 3 n = 0x1E then 4 else -1)"

definition utf8CheckIncomplete :: "decoder \<Rightarrow> buffer \<Rightarrow> nat \<Rightarrow> nat \<times> decoder" where
  "utf8CheckIncomplete self buf i =
     (let n = length buf in
      if n < i + 1 then (0, self)
      else let nb = utf8CheckByte (buf ! (n - 1)) in
      if nb \<ge> 0 then (nat nb, if nb > 0 then self\<lparr>lastNeed := nat (nb - 1)\<rparr> else self)
      else if n < i + 2 then (0, self)
      else let nb = utf8CheckByte (buf ! (n - 2)) in
      if nb \<ge> 0 then (nat nb, if nb > 0 then self\<lparr>lastNeed := nat (nb - 2)\<rparr> else self)
      else if n < i + 3 then (0, self)
      else let nb = utf8CheckByte (buf ! (n - 3)) in
      if nb \<ge> 0 then
        (if nb > 0 then (if nb = 2 then (0, self) else (nat nb, self\<lparr>lastNeed := nat (nb - 3)\<rparr>)) else (0, self))
      else (0, self))"

definition utf8CheckExtraBytes :: "decoder \<Rightarrow> buffer \<Rightarrow> nat \<Rightarrow> jsstr option \<times> decoder" where
  "utf8CheckExtraBytes self buf p =
     (if \<not> continuation (buf ! 0) then (Some (replicate p 0xFFFD), self\<lparr>lastNeed := 0\<rparr>)
      else if lastNeed self > 1 \<and> length buf > 1 then
        (if \<not> continuation (buf ! 1) then (Some (replicate (p + 1) 0xFFFD), self\<lparr>lastNeed := 1\<rparr>)
         else if lastNeed self > 2 \<and> length buf > 2 \<and> \<not> continuation (buf ! 2)
         then (Some (replicate (p + 2) 0xFFFD), self\<lparr>lastNeed := 2\<rparr>)
         else (None, self))
      else (None, self))"

definition copy_last :: "decoder \<Rightarrow> buffer \<Rightarrow> nat \<Rightarrow> nat \<Rightarrow> nat option \<Rightarrow> decoder result" where
  \<comment> \<open>\<^verbatim>\<open>buf.copy(this.lastChar, at, start, end)\<close>\<close>
  "copy_last self buf at start end =
     rbind (Buffer_copy buf (lastChar self) (int at) (int start) (map_option int end)) (\<lambda>(c, _). Inr (self\<lparr>lastChar := c\<rparr>))"

definition fillLast :: "decoder \<Rightarrow> buffer \<Rightarrow> (jsstr option \<times> decoder) result" where
  "fillLast self buf =
     (let p = lastTotal self - lastNeed self in
      if lastNeed self \<le> length buf then
        rbind (copy_last self buf p 0 (Some (lastNeed self))) (\<lambda>d.
        rbind (text_of (sd_encoding d) (lastChar d) 0 (Some (lastTotal d))) (\<lambda>r. Inr (Some r, d)))
      else
        rbind (copy_last self buf p 0 (Some (length buf))) (\<lambda>d.
          Inr (None, d\<lparr>lastNeed := lastNeed d - length buf\<rparr>)))"

definition utf8FillLast :: "decoder \<Rightarrow> buffer \<Rightarrow> (jsstr option \<times> decoder) result" where
  "utf8FillLast self buf =
     (let p = lastTotal self - lastNeed self in
      case utf8CheckExtraBytes self buf p of
        (Some r, d) \<Rightarrow> Inr (Some r, d)
      | (None, d) \<Rightarrow> fillLast d buf)"

definition utf8Text :: "decoder \<Rightarrow> buffer \<Rightarrow> nat \<Rightarrow> (jsstr \<times> decoder) result" where
  "utf8Text self buf i =
     (let (total, d) = utf8CheckIncomplete self buf i in
      if lastNeed d = 0 then rbind (text_of Utf8 buf i None) (\<lambda>r. Inr (r, d))
      else
        (let end = length buf - (total - lastNeed d) in
         rbind (copy_last (d\<lparr>lastTotal := total\<rparr>) buf 0 end None) (\<lambda>d'.
         rbind (text_of Utf8 buf i (Some end)) (\<lambda>r. Inr (r, d')))))"

section \<open>UTF-16 and base64\<close>

definition utf16Text :: "decoder \<Rightarrow> buffer \<Rightarrow> nat \<Rightarrow> (jsstr \<times> decoder) result" where
  "utf16Text self buf i =
     (let n = length buf in
      if (n - i) mod 2 = 0 then
        rbind (text_of Ucs2 buf i None) (\<lambda>r.
          if r \<noteq> [] \<and> 0xD800 \<le> unat (last r) \<and> unat (last r) \<le> 0xDBFF then
            Inr (butlast r, self\<lparr>lastNeed := 2, lastTotal := 4,
                   lastChar := (lastChar self)[0 := buf ! (n - 2), 1 := buf ! (n - 1)]\<rparr>)
          else Inr (r, self))
      else
        rbind (text_of Ucs2 buf i (Some (n - 1))) (\<lambda>r.
          Inr (r, self\<lparr>lastNeed := 1, lastTotal := 2, lastChar := (lastChar self)[0 := buf ! (n - 1)]\<rparr>)))"

definition base64Text :: "decoder \<Rightarrow> buffer \<Rightarrow> nat \<Rightarrow> (jsstr \<times> decoder) result" where
  "base64Text self buf i =
     (let len = length buf; n = (len - i) mod 3 in
      if n = 0 then rbind (text_of Base64 buf i None) (\<lambda>r. Inr (r, self))
      else
        (let d = self\<lparr>lastNeed := 3 - n, lastTotal := 3,
               lastChar := (if n = 1 then (lastChar self)[0 := buf ! (len - 1)]
                            else (lastChar self)[0 := buf ! (len - 2), 1 := buf ! (len - 1)])\<rparr>
         in rbind (text_of Base64 buf i (Some (len - n))) (\<lambda>r. Inr (r, d))))"

section \<open>Writing and ending\<close>

definition sd_text :: "decoder \<Rightarrow> buffer \<Rightarrow> nat \<Rightarrow> (jsstr \<times> decoder) result" where
  "sd_text self buf i =
     (case sd_encoding self of Ucs2 \<Rightarrow> utf16Text self buf i | Base64 \<Rightarrow> base64Text self buf i | _ \<Rightarrow> utf8Text self buf i)"

definition sd_fill :: "decoder \<Rightarrow> buffer \<Rightarrow> (jsstr option \<times> decoder) result" where
  "sd_fill self buf = (case sd_encoding self of Utf8 \<Rightarrow> utf8FillLast self buf | _ \<Rightarrow> fillLast self buf)"

definition sd_rest :: "decoder \<Rightarrow> buffer \<Rightarrow> jsstr \<Rightarrow> nat \<Rightarrow> (jsstr \<times> decoder) result" where
  \<comment> \<open>the end of \<^verbatim>\<open>write\<close>: the text from index \<open>i\<close> on behind \<open>r\<close>\<close>
  "sd_rest self buf r i =
     (if i < length buf then rbind (sd_text self buf i) (\<lambda>(t, d). Inr (r @ t, d)) else Inr (r, self))"

definition sd_write :: "decoder \<Rightarrow> buffer \<Rightarrow> (jsstr \<times> decoder) result" where
  "sd_write self buf =
     (if sd_encoding self \<in> {Utf8, Ucs2, Base64} then
        (if length buf = 0 then Inr ([], self)
         else if lastNeed self \<noteq> 0 then
           rbind (sd_fill self buf) (\<lambda>(r, d).
             case r of
               None \<Rightarrow> Inr ([], d)
             | Some s \<Rightarrow> sd_rest (d\<lparr>lastNeed := 0\<rparr>) buf s (lastNeed d))
         else sd_rest self buf [] 0)
      else rbind (Buffer_toString buf (Some (Some (enc_name (sd_encoding self)), None, None))) (\<lambda>r. Inr (r, self)))"

definition sd_end :: "decoder \<Rightarrow> buffer \<Rightarrow> (jsstr \<times> decoder) result" where
  \<comment> \<open>an absent argument is the empty Buffer\<close>
  "sd_end self buf =
     rbind (if length buf > 0 then sd_write self buf else Inr ([], self)) (\<lambda>(r, d).
       if sd_encoding d \<in> {Utf8, Ucs2, Base64} \<and> lastNeed d \<noteq> 0 then
         (case sd_encoding d of
            Ucs2 \<Rightarrow> rbind (text_of Ucs2 (lastChar d) 0 (Some (lastTotal d - lastNeed d))) (\<lambda>t. Inr (r @ t, d))
          | Base64 \<Rightarrow> rbind (text_of Base64 (lastChar d) 0 (Some (3 - lastNeed d))) (\<lambda>t. Inr (r @ t, d))
          | _ \<Rightarrow> Inr (r @ replicate (lastTotal d - lastNeed d) 0xFFFD, d))
       else Inr (r, d))"

text \<open>All writes and the end.\<close>

fun write_all :: "decoder \<Rightarrow> buffer list \<Rightarrow> (jsstr \<times> decoder) result" where
  "write_all d [] = Inr ([], d)"
| "write_all d (b # bs) =
     rbind (sd_write d b) (\<lambda>(r, d'). rbind (write_all d' bs) (\<lambda>(s, e). Inr (r @ s, e)))"

definition decode_all :: "encoding \<Rightarrow> buffer list \<Rightarrow> jsstr result" where
  "decode_all k chunks =
     rbind (new_StringDecoder (Some (enc_name k))) (\<lambda>d.
     rbind (write_all d chunks) (\<lambda>(r, d').
     rbind (sd_end d' []) (\<lambda>(s, _). Inr (r @ s))))"

section \<open>The text of a range\<close>

fun dec :: "encoding \<Rightarrow> buffer \<Rightarrow> jsstr" where
  "dec Ucs2 bs = utf16_pairs bs"
| "dec Base64 bs = fromByteArray bs"
| "dec _ bs = utf8Slice_loop bs"

abbreviation multi :: "encoding \<Rightarrow> bool" where
  "multi k \<equiv> k \<in> {Utf8, Ucs2, Base64}"

lemma resolve_names [simp]:
  "resolve_encoding (js ''utf16le'') = Some Ucs2" "resolve_encoding (js ''base64'') = Some Base64"
  by (simp_all add: resolve_encoding_def encoding_of_def js_def)

lemma dec_Nil [simp]: "dec k [] = []"
  by (cases k) (simp_all add: fromByteArray_eq_spec)

lemma text_of_range:
  assumes "multi k" "s \<le> e" "e \<le> length buf" "small buf"
  shows "text_of k buf s (Some e) = Inr (dec k (take (e - s) (drop s buf)))"
proof (cases "s = e")
  case True
  then show ?thesis using assms(3,4)
    by (cases buf) (auto simp: text_of_def Buffer_toString_def slowToString_def Let_def)
next
  case False
  have u: "to_uint32 (int e) = int e" "to_uint32 (int s) = int s" using assms by simp_all
  have "s < length buf" using False assms by simp
  then show ?thesis using assms False u Buffer_slice_nat [OF assms(2,3,4)]
    by (auto simp: text_of_def Buffer_toString_def slowToString_def Let_def utf8Slice_def utf16leSlice_def base64Slice_def
        drop_take min_def)
qed

lemma text_of_from:
  assumes "multi k" "s \<le> length buf" "small buf"
  shows "text_of k buf s None = Inr (dec k (drop s buf))"
proof -
  have "text_of k buf s None = text_of k buf s (Some (length buf))"
    by (simp add: text_of_def Buffer_toString_def slowToString_def Let_def)
  then show ?thesis using text_of_range [OF assms(1,2) order_refl assms(3)] by simp
qed

section \<open>Filling the incomplete character\<close>

definition kept :: "decoder \<Rightarrow> buffer \<Rightarrow> bool" where
  \<comment> \<open>the bytes of an incomplete character are the front of \<^verbatim>\<open>lastChar\<close>\<close>
  "kept d part \<longleftrightarrow> part \<noteq> [] \<and> lastNeed d \<noteq> 0 \<and> lastTotal d = length part + lastNeed d
     \<and> lastTotal d \<le> length (lastChar d) \<and> part = take (length part) (lastChar d) \<and> length (lastChar d) \<le> 4"

lemma fillLast_complete:
  assumes "kept d part" "multi (sd_encoding d)" "lastNeed d \<le> length buf"
  shows "\<exists>c. fillLast d buf = Inr (Some (dec (sd_encoding d) (part @ take (lastNeed d) buf)), d\<lparr>lastChar := c\<rparr>)
    \<and> length c = length (lastChar d)"
proof -
  let ?p = "length part"
  let ?c = "take ?p (lastChar d) @ take (lastNeed d) buf @ drop (?p + lastNeed d) (lastChar d)"
  have k: "lastTotal d - lastNeed d = ?p" "?p + lastNeed d \<le> length (lastChar d)" "take ?p (lastChar d) = part"
      "lastTotal d = ?p + lastNeed d" "length (lastChar d) \<le> 4"
    using assms(1) by (auto simp: kept_def)
  have c: "copy_last d buf ?p 0 (Some (lastNeed d)) = Inr (d\<lparr>lastChar := ?c\<rparr>)"
    using Buffer_copy_range [of 0 "lastNeed d" buf ?p "lastChar d"] assms(3) k by (simp add: copy_last_def)
  have l: "length ?c = length (lastChar d)" using k assms(3) by simp
  have "text_of (sd_encoding d) ?c 0 (Some (lastTotal d)) = Inr (dec (sd_encoding d) (take (lastTotal d) ?c))"
    using text_of_range [OF assms(2), of 0 "lastTotal d" ?c] k(2,4,5) unfolding l by simp
  also have "take (lastTotal d) ?c = part @ take (lastNeed d) buf"
    using k assms(3) by (simp add: k(3))
  finally show ?thesis using c l assms(3) by (auto simp: fillLast_def Let_def k(1))
qed

lemma fillLast_partial:
  assumes "kept d part" "length buf < lastNeed d"
  shows "\<exists>e. fillLast d buf = Inr (None, e) \<and> kept e (part @ buf) \<and> sd_encoding e = sd_encoding d
    \<and> lastTotal e = lastTotal d \<and> length (lastChar e) = length (lastChar d)"
proof -
  let ?p = "length part"
  let ?c = "take ?p (lastChar d) @ buf @ drop (?p + length buf) (lastChar d)"
  have k: "lastTotal d - lastNeed d = ?p" "?p + lastNeed d \<le> length (lastChar d)" "take ?p (lastChar d) = part"
      "lastTotal d = ?p + lastNeed d" "length (lastChar d) \<le> 4"
    using assms(1) by (auto simp: kept_def)
  have "copy_last d buf ?p 0 (Some (length buf)) = Inr (d\<lparr>lastChar := ?c\<rparr>)"
    using Buffer_copy_range [of 0 "length buf" buf ?p "lastChar d"] assms(2) k by (simp add: copy_last_def)
  then have "fillLast d buf = Inr (None, d\<lparr>lastChar := ?c, lastNeed := lastNeed d - length buf\<rparr>)"
    using assms(2) by (simp add: fillLast_def Let_def k(1))
  moreover have "kept (d\<lparr>lastChar := ?c, lastNeed := lastNeed d - length buf\<rparr>) (part @ buf)"
    using assms k by (simp add: kept_def)
  ultimately show ?thesis using assms(2) k by auto
qed

section \<open>Decoders as a whole\<close>

definition fresh :: "encoding \<Rightarrow> decoder \<Rightarrow> bool" where
  "fresh k d \<longleftrightarrow> sd_encoding d = k \<and> lastNeed d = 0 \<and> length (lastChar d) = (if k = Base64 then 3 else 4)"

text \<open>
  The interface of the three encodings: which bytes are pending in a state, which byte sequences are whole
  characters, which continuations are legal, how the text of a range ends, and how a pending character is filled.
\<close>

locale chunked_text =
  fixes k :: encoding
    and pend :: "decoder \<Rightarrow> buffer \<Rightarrow> bool"
    and whole :: "buffer \<Rightarrow> bool"
    and legal :: "buffer \<Rightarrow> buffer \<Rightarrow> bool"
  assumes multi_k: "multi k"
    and whole_append: "whole a \<Longrightarrow> whole b \<Longrightarrow> whole (a @ b)"
    and whole_Nil: "whole []"
    and dec_append: "whole a \<Longrightarrow> dec k (a @ b) = dec k a @ dec k b"
    and pend_Nil: "pend d [] \<longleftrightarrow> fresh k d"
    and pend_kept: "pend d part \<Longrightarrow> part \<noteq> [] \<Longrightarrow> sd_encoding d = k \<and> lastNeed d \<noteq> 0"
    and rest_step: "fresh k d \<Longrightarrow> i < length buf \<Longrightarrow> legal [] (drop i buf @ post) \<Longrightarrow>
      small buf \<Longrightarrow> \<exists>w part d'. sd_text d buf i = Inr (dec k w, d') \<and> pend d' part \<and> drop i buf = w @ part \<and> whole w
        \<and> legal part post"
    and fill_complete: "pend d part \<Longrightarrow> part \<noteq> [] \<Longrightarrow> legal part (buf @ post) \<Longrightarrow> buf \<noteq> [] \<Longrightarrow> lastNeed d \<le> length buf \<Longrightarrow>
      \<exists>d'. sd_fill d buf = Inr (Some (dec k (part @ take (lastNeed d) buf)), d') \<and> lastNeed d' = lastNeed d
        \<and> fresh k (d'\<lparr>lastNeed := 0\<rparr>) \<and> whole (part @ take (lastNeed d) buf) \<and> legal [] (drop (lastNeed d) buf @ post)"
    and fill_partial: "pend d part \<Longrightarrow> part \<noteq> [] \<Longrightarrow> legal part (buf @ post) \<Longrightarrow> buf \<noteq> [] \<Longrightarrow> length buf < lastNeed d \<Longrightarrow>
      \<exists>d'. sd_fill d buf = Inr (None, d') \<and> pend d' (part @ buf) \<and> legal (part @ buf) post"
begin

lemma rest_whole:
  assumes "fresh k d" "i \<le> length buf" "legal [] (drop i buf @ post)" "small buf"
  shows "\<exists>w part d'. sd_rest d buf r i = Inr (r @ dec k w, d') \<and> pend d' part \<and> drop i buf = w @ part \<and> whole w
    \<and> legal part post"
proof (cases "i < length buf")
  case True
  obtain w part d' where "sd_text d buf i = Inr (dec k w, d')" "pend d' part" "drop i buf = w @ part" "whole w" "legal part post"
    using rest_step [OF assms(1) True assms(3,4)] by blast
  then show ?thesis using True by (auto simp: sd_rest_def)
next
  case False
  then show ?thesis using assms whole_Nil pend_Nil [of d] by (auto simp: sd_rest_def)
qed

lemma write_step:
  assumes "pend d part" "legal part (buf @ post)" "small buf"
  shows "\<exists>w part' d'. sd_write d buf = Inr (dec k w, d') \<and> pend d' part' \<and> part @ buf = w @ part' \<and> whole w
    \<and> legal part' post"
proof (cases "buf = [] \<or> part = []")
  case True
  have k: "sd_encoding d = k" using assms(1) pend_Nil [of d] pend_kept by (cases "part = []") (auto simp: fresh_def)
  show ?thesis
  proof (cases "buf = []")
    case True
    then show ?thesis using assms(1,2) k multi_k whole_Nil
      by - (rule exI [of _ "[]"], rule exI [of _ part], rule exI [of _ d], auto simp: sd_write_def)
  next
    case False
    then have p: "part = []" using \<open>buf = [] \<or> part = []\<close> by simp
    then have f: "fresh k d" using assms(1) by (simp add: pend_Nil)
    have "sd_write d buf = sd_rest d buf [] 0" using False f multi_k by (auto simp: sd_write_def fresh_def)
    then show ?thesis using rest_whole [OF f, of 0 buf post "[]"] assms(2,3) p by simp
  qed
next
  case False
  then have ne: "buf \<noteq> []" "part \<noteq> []" by simp_all
  have k: "sd_encoding d = k" "lastNeed d \<noteq> 0" using pend_kept [OF assms(1) ne(2)] by simp_all
  show ?thesis
  proof (cases "lastNeed d \<le> length buf")
    case True
    let ?u = "part @ take (lastNeed d) buf"
    obtain d1 where d1: "sd_fill d buf = Inr (Some (dec k ?u), d1)" "lastNeed d1 = lastNeed d"
        "fresh k (d1\<lparr>lastNeed := 0\<rparr>)" "whole ?u" "legal [] (drop (lastNeed d) buf @ post)"
      using fill_complete [OF assms(1) ne(2) assms(2) ne(1) True] by blast
    obtain w part' d' where w: "sd_rest (d1\<lparr>lastNeed := 0\<rparr>) buf (dec k ?u) (lastNeed d) = Inr (dec k ?u @ dec k w, d')"
        "pend d' part'" "drop (lastNeed d) buf = w @ part'" "whole w" "legal part' post"
      using rest_whole [OF d1(3) True d1(5) assms(3)] by blast
    have "sd_write d buf = Inr (dec k (?u @ w), d')"
      using d1 w(1) k ne multi_k dec_append [OF d1(4)] by (auto simp: sd_write_def)
    moreover have "part @ buf = (?u @ w) @ part'" using w(3) append_take_drop_id [of "lastNeed d" buf] by (metis append.assoc)
    ultimately show ?thesis using w whole_append [OF d1(4) w(4)] by blast
  next
    case False
    then obtain d' where "sd_fill d buf = Inr (None, d')" "pend d' (part @ buf)" "legal (part @ buf) post"
      using fill_partial [OF assms(1) ne(2) assms(2) ne(1)] by auto
    then show ?thesis using k ne multi_k whole_Nil
      by - (rule exI [of _ "[]"], rule exI [of _ "part @ buf"], rule exI [of _ d'], auto simp: sd_write_def)
  qed
qed

lemma writes_whole:
  assumes "pend d part" "legal part (concat chunks @ post)" "list_all small chunks"
  shows "\<exists>w part' d'. write_all d chunks = Inr (dec k w, d') \<and> pend d' part' \<and> part @ concat chunks = w @ part' \<and> whole w
    \<and> legal part' post"
  using assms
proof (induction chunks arbitrary: d part)
  case Nil
  then show ?case using whole_Nil by - (rule exI [of _ "[]"], rule exI [of _ part], rule exI [of _ d], auto)
next
  case (Cons b chunks)
  have "legal part (b @ (concat chunks @ post))" "small b" using Cons.prems(2,3) by simp_all
  then obtain w1 p1 d1 where s1: "sd_write d b = Inr (dec k w1, d1)" "pend d1 p1" "part @ b = w1 @ p1" "whole w1"
      "legal p1 (concat chunks @ post)"
    using write_step [OF Cons.prems(1)] by blast
  obtain w2 p2 d2 where s2: "write_all d1 chunks = Inr (dec k w2, d2)" "pend d2 p2" "p1 @ concat chunks = w2 @ p2" "whole w2"
      "legal p2 post"
    using Cons.IH [OF s1(2,5)] Cons.prems(3) by auto
  have "write_all d (b # chunks) = Inr (dec k (w1 @ w2), d2)" using s1(1) s2(1) dec_append [OF s1(4)] by simp
  moreover have "part @ concat (b # chunks) = (w1 @ w2) @ p2" using s1(3) s2(3) by (metis append.assoc concat.simps(2))
  ultimately show ?case using s2 whole_append [OF s1(4) s2(4)] by blast
qed

end

lemma small_chunks: "small (concat chunks) \<Longrightarrow> list_all small chunks"
  by (induction chunks) auto

section \<open>base64 and UTF-16\<close>

definition b64_pend :: "decoder \<Rightarrow> buffer \<Rightarrow> bool" where
  "b64_pend d part \<longleftrightarrow> (if part = [] then fresh Base64 d
     else kept d part \<and> sd_encoding d = Base64 \<and> lastTotal d = 3 \<and> length (lastChar d) = 3)"

definition u16_pend :: "decoder \<Rightarrow> buffer \<Rightarrow> bool" where
  "u16_pend d part \<longleftrightarrow> (if part = [] then fresh Ucs2 d
     else kept d part \<and> sd_encoding d = Ucs2 \<and> even (lastTotal d) \<and> length (lastChar d) = 4)"

lemma utf16_pairs_append: "even (length a) \<Longrightarrow> utf16_pairs (a @ b) = utf16_pairs a @ utf16_pairs b"
  by (induction a rule: utf16_pairs.induct) auto

lemma utf16_pairs_snoc:
  "even (length a) \<Longrightarrow> utf16_pairs (a @ [x, y]) = utf16_pairs a @ [of_nat (unat x + unat y * 256)]"
  by (simp only: utf16_pairs_append utf16_pairs.simps)

lemma drop_last_1: "i < length buf \<Longrightarrow> drop i buf = take (length buf - 1 - i) (drop i buf) @ [buf ! (length buf - 1)]"
proof -
  assume i: "i < length buf"
  have "drop i buf = take (length buf - 1 - i) (drop i buf) @ drop (length buf - 1 - i) (drop i buf)"
    by (rule append_take_drop_id [symmetric])
  also have "drop (length buf - 1 - i) (drop i buf) = drop (length buf - 1) buf" using i by simp
  also have "\<dots> = [buf ! (length buf - 1)]" using i Cons_nth_drop_Suc [of "length buf - 1" buf] by simp
  finally show ?thesis .
qed

lemma drop_last_2:
  "Suc i < length buf \<Longrightarrow>
     drop i buf = take (length buf - 2 - i) (drop i buf) @ [buf ! (length buf - 2), buf ! (length buf - 1)]"
proof -
  assume i: "Suc i < length buf"
  have "drop i buf = take (length buf - 2 - i) (drop i buf) @ drop (length buf - 2 - i) (drop i buf)"
    by (rule append_take_drop_id [symmetric])
  also have "drop (length buf - 2 - i) (drop i buf) = drop (length buf - 2) buf" using i by simp
  also have "\<dots> = [buf ! (length buf - 2), buf ! (length buf - 1)]"
    using i Cons_nth_drop_Suc [of "length buf - 2" buf] Cons_nth_drop_Suc [of "length buf - 1" buf]
    by (simp add: Suc_diff_Suc numeral_2_eq_2)
  finally show ?thesis .
qed

lemma three: "length (xs :: 'a list) = 3 \<Longrightarrow> \<exists>a b c. xs = [a, b, c]" "length xs = 4 \<Longrightarrow> \<exists>a b c d. xs = [a, b, c, d]"
  by (auto simp: numeral_eq_Suc length_Suc_conv)

lemma base64_rest:
  assumes "fresh Base64 d" "i < length buf" "small buf"
  shows "\<exists>w part d'. sd_text d buf i = Inr (dec Base64 w, d') \<and> b64_pend d' part \<and> drop i buf = w @ part
    \<and> length w mod 3 = 0"
proof -
  let ?n = "(length buf - i) mod 3"
  let ?w = "take (length buf - ?n - i) (drop i buf)"
  have f: "sd_encoding d = Base64" "lastNeed d = 0" "length (lastChar d) = 3" using assms(1) by (simp_all add: fresh_def)
  obtain a b c where l: "lastChar d = [a, b, c]" using three(1) [OF f(3)] by blast
  have le: "?n \<le> length buf - i" by simp
  have "length ?w = (length buf - i) - ?n" by simp
  then have w: "length ?w mod 3 = 0" by (simp only: minus_mod_eq_mult_div mod_mult_self1_is_0)
  have t: "text_of Base64 buf i (Some (length buf - ?n)) = Inr (dec Base64 ?w)"
    using text_of_range [of Base64 i "length buf - ?n" buf] le assms(2,3) by simp
  consider "?n = 0" | "?n = 1" | "?n = 2" by linarith
  then show ?thesis
  proof cases
    case 1
    then show ?thesis using f assms w text_of_from [of Base64 i buf]
      by (intro exI [of _ "drop i buf"] exI [of _ "[]"] exI [of _ d])
         (auto simp: sd_text_def base64Text_def b64_pend_def)
  next
    case 2
    let ?d = "d\<lparr>lastNeed := 2, lastTotal := 3, lastChar := (lastChar d)[0 := buf ! (length buf - 1)]\<rparr>"
    have "sd_text d buf i = Inr (dec Base64 ?w, ?d)"
      using f t 2 by (simp add: sd_text_def base64Text_def Let_def)
    moreover have "b64_pend ?d [buf ! (length buf - 1)]" using f l by (simp add: b64_pend_def kept_def)
    moreover have "drop i buf = ?w @ [buf ! (length buf - 1)]" using drop_last_1 [OF assms(2)] 2 by simp
    ultimately show ?thesis using w
      by - (rule exI [of _ ?w], rule exI [of _ "[buf ! (length buf - 1)]"], rule exI [of _ ?d], intro conjI)
  next
    case 3
    let ?p = "[buf ! (length buf - 2), buf ! (length buf - 1)]"
    let ?d = "d\<lparr>lastNeed := 1, lastTotal := 3, lastChar := (lastChar d)[0 := buf ! (length buf - 2), 1 := buf ! (length buf - 1)]\<rparr>"
    have "Suc i < length buf" using 3 assms(2) by (cases "length buf - i = 1") auto
    then have "drop i buf = ?w @ ?p" using drop_last_2 [of i buf] 3 by simp
    moreover have "sd_text d buf i = Inr (dec Base64 ?w, ?d)"
      using f t 3 by (simp add: sd_text_def base64Text_def Let_def)
    moreover have "b64_pend ?d ?p" using f l by (simp add: b64_pend_def kept_def)
    ultimately show ?thesis using w
      by - (rule exI [of _ ?w], rule exI [of _ ?p], rule exI [of _ ?d], intro conjI)
  qed
qed

lemma utf16_rest:
  assumes "fresh Ucs2 d" "i < length buf" "small buf"
  shows "\<exists>w part d'. sd_text d buf i = Inr (dec Ucs2 w, d') \<and> u16_pend d' part \<and> drop i buf = w @ part \<and> even (length w)"
proof -
  have f: "sd_encoding d = Ucs2" "lastNeed d = 0" "length (lastChar d) = 4" using assms(1) by (simp_all add: fresh_def)
  obtain a b c e where l: "lastChar d = [a, b, c, e]" using three(2) [OF f(3)] by blast
  show ?thesis
  proof (cases "(length buf - i) mod 2 = 0")
    case True
    let ?w = "take (length buf - 2 - i) (drop i buf)"
    let ?p = "[buf ! (length buf - 2), buf ! (length buf - 1)]"
    have "Suc i < length buf" using True assms(2) by (cases "length buf - i = 1") auto
    then have s: "drop i buf = ?w @ ?p" by (rule drop_last_2)
    have w: "even (length ?w)" using True \<open>Suc i < length buf\<close> by (simp add: mod_2_eq_odd)
    let ?u = "of_nat (unat (buf ! (length buf - 2)) + unat (buf ! (length buf - 1)) * 256) :: code_unit"
    have r: "utf16_pairs (drop i buf) = utf16_pairs ?w @ [?u]"
      by (subst s) (rule utf16_pairs_snoc [OF w])
    have t: "text_of Ucs2 buf i None = Inr (utf16_pairs ?w @ [?u])"
      using text_of_from [of Ucs2 i buf] assms(2,3) r by simp
    show ?thesis
    proof (cases "0xD800 \<le> unat ?u \<and> unat ?u \<le> 0xDBFF")
      case c: True
      let ?d = "d\<lparr>lastNeed := 2, lastTotal := 4, lastChar := (lastChar d)[0 := buf ! (length buf - 2), 1 := buf ! (length buf - 1)]\<rparr>"
      have "sd_text d buf i = Inr (dec Ucs2 ?w, ?d)"
        using f t c True by (simp add: sd_text_def utf16Text_def Let_def)
      moreover have "u16_pend ?d ?p" using f l by (simp add: u16_pend_def kept_def)
      ultimately show ?thesis using s w
        by - (rule exI [of _ ?w], rule exI [of _ ?p], rule exI [of _ ?d], intro conjI)
    next
      case c: False
      have "sd_text d buf i = Inr (dec Ucs2 (drop i buf), d)"
        using f t c True r by (simp add: sd_text_def utf16Text_def Let_def)
      moreover have "u16_pend d []" using assms(1) by (simp add: u16_pend_def)
      ultimately show ?thesis using True by (intro exI [of _ "drop i buf"] exI [of _ "[]"] exI [of _ d]) auto
    qed
  next
    case False
    let ?w = "take (length buf - 1 - i) (drop i buf)"
    let ?d = "d\<lparr>lastNeed := 1, lastTotal := 2, lastChar := (lastChar d)[0 := buf ! (length buf - 1)]\<rparr>"
    have "even (length ?w)" using False assms(2) by (simp add: mod_2_eq_odd)
    moreover have "sd_text d buf i = Inr (dec Ucs2 ?w, ?d)"
      using f False text_of_range [of Ucs2 i "length buf - 1" buf] assms(2,3)
      by (simp add: sd_text_def utf16Text_def Let_def)
    moreover have "u16_pend ?d [buf ! (length buf - 1)]" using f l by (simp add: u16_pend_def kept_def)
    ultimately show ?thesis using drop_last_1 [OF assms(2)]
      by - (rule exI [of _ ?w], rule exI [of _ "[buf ! (length buf - 1)]"], rule exI [of _ ?d], intro conjI)
  qed
qed

interpretation b64: chunked_text Base64 b64_pend "\<lambda>w. length w mod 3 = 0" "\<lambda>_ _. True"
proof (unfold_locales, goal_cases)
  case (7 d i buf post)
  then show ?case using base64_rest by auto
next
  case (8 d part buf post)
  have p: "kept d part" "sd_encoding d = Base64" "lastTotal d = 3" "length (lastChar d) = 3"
    using 8 by (simp_all add: b64_pend_def)
  then have "length part + lastNeed d = 3" by (simp add: kept_def)
  then show ?case using fillLast_complete [OF p(1) _ 8(5)] p 8(5)
    by (auto simp: sd_fill_def fresh_def min_def)
next
  case (9 d part buf post)
  have p: "kept d part" "sd_encoding d = Base64" "lastTotal d = 3" "length (lastChar d) = 3"
    using 9 by (simp_all add: b64_pend_def)
  then show ?case using fillLast_partial [OF p(1) 9(5)] 9(2) by (auto simp: sd_fill_def b64_pend_def)
qed (auto simp: b64_pend_def kept_def fromByteArray_eq_spec encode_spec_append mod_add_eq mod_add_left_eq)

interpretation u16: chunked_text Ucs2 u16_pend "\<lambda>w. even (length w)" "\<lambda>_ _. True"
proof (unfold_locales, goal_cases)
  case (7 d i buf post)
  then show ?case using utf16_rest by auto
next
  case (8 d part buf post)
  have p: "kept d part" "sd_encoding d = Ucs2" "even (lastTotal d)" "length (lastChar d) = 4"
    using 8 by (simp_all add: u16_pend_def)
  then have "even (length part + lastNeed d)" by (simp add: kept_def)
  then show ?case using fillLast_complete [OF p(1) _ 8(5)] p 8(5)
    by (auto simp: sd_fill_def fresh_def min_def)
next
  case (9 d part buf post)
  have p: "kept d part" "sd_encoding d = Ucs2" "even (lastTotal d)" "length (lastChar d) = 4"
    using 9 by (simp_all add: u16_pend_def)
  then show ?case using fillLast_partial [OF p(1) 9(5)] 9(2) by (auto simp: sd_fill_def u16_pend_def)
qed (auto simp: u16_pend_def kept_def utf16_pairs_append)

section \<open>UTF-8\<close>

abbreviation encode_all :: "nat list \<Rightarrow> buffer" where
  "encode_all cps \<equiv> concat (map encode_code_point cps)"

definition u8_whole :: "buffer \<Rightarrow> bool" where
  "u8_whole w \<longleftrightarrow> (\<exists>cps. list_all scalar_value cps \<and> w = encode_all cps)"

definition u8_legal :: "buffer \<Rightarrow> buffer \<Rightarrow> bool" where
  "u8_legal part rest \<longleftrightarrow> (\<exists>cps. list_all scalar_value cps \<and> part @ rest = encode_all cps
     \<and> (part = [] \<or> (\<exists>c cs. cps = c # cs \<and> length part < length (encode_code_point c))))"

definition u8_pend :: "decoder \<Rightarrow> buffer \<Rightarrow> bool" where
  "u8_pend d part \<longleftrightarrow> (if part = [] then fresh Utf8 d
     else kept d part \<and> sd_encoding d = Utf8 \<and> lastTotal d = bytesPerSequence (hd part) \<and> length (lastChar d) = 4)"

lemma check_continuation: "continuation b \<Longrightarrow> utf8CheckByte b = -1"
proof -
  assume "continuation b"
  then have n: "unat b div 64 = 2" by (simp add: continuation_iff)
  have "unat b div 32 = 4 \<or> unat b div 32 = 5" "unat b div 16 < 12" "unat b div 8 < 24" "127 < unat b" using n by linarith+
  then show ?thesis by (auto simp: utf8CheckByte_def Let_def drop_bit_eq_div)
qed

lemma encode_shape:
  assumes "cp < 0x110000"
  shows "\<exists>b bs. encode_code_point cp = b # bs \<and> list_all continuation bs \<and> length bs \<le> 3
    \<and> utf8CheckByte b = (if bs = [] then 0 else int (length bs) + 1)"
proof -
  consider "cp < 0x80" | "0x80 \<le> cp" "cp < 0x800" | "0x800 \<le> cp" "cp < 0x10000" | "0x10000 \<le> cp" by linarith
  then show ?thesis
  proof cases
    case 1
    then have "unat (of_nat cp :: byte) = cp" by (simp add: unat_of_nat)
    then show ?thesis using 1 by (simp add: encode_1 utf8CheckByte_def)
  next
    case 2
    then have "cp div 64 < 32" by simp
    then have "unat (of_nat (cp div 64 + 192) :: byte) = cp div 64 + 192" by (simp add: unat_of_nat del: of_nat_add)
    moreover have "drop_bit 5 (cp div 64 + 192) = 6" using \<open>cp div 64 < 32\<close> by (simp add: drop_bit_eq_div)
    ultimately show ?thesis using 2 continuation_byte [of "cp mod 64"]
      by (simp add: encode_2 utf8CheckByte_def Let_def del: of_nat_add)
  next
    case 3
    then have "cp div 4096 < 16" by simp
    then have "unat (of_nat (cp div 4096 + 224) :: byte) = cp div 4096 + 224" by (simp add: unat_of_nat del: of_nat_add)
    moreover have "drop_bit 4 (cp div 4096 + 224) = 14" "drop_bit 5 (cp div 4096 + 224) = 7"
      using \<open>cp div 4096 < 16\<close> by (simp_all add: drop_bit_eq_div)
    ultimately show ?thesis using 3 continuation_byte [of "cp mod 64"] continuation_byte [of "cp div 64 mod 64"]
      by (simp add: encode_3 utf8CheckByte_def Let_def del: of_nat_add)
  next
    case 4
    then have "cp div 262144 < 8" using assms by simp
    then have "unat (of_nat (cp div 262144 + 240) :: byte) = cp div 262144 + 240" by (simp add: unat_of_nat del: of_nat_add)
    moreover have "drop_bit 3 (cp div 262144 + 240) = 30" "drop_bit 4 (cp div 262144 + 240) = 15" "drop_bit 5 (cp div 262144 + 240) = 7"
      using \<open>cp div 262144 < 8\<close> by (simp_all add: drop_bit_eq_div)
    ultimately show ?thesis
      using 4 assms continuation_byte [of "cp mod 64"] continuation_byte [of "cp div 64 mod 64"] continuation_byte [of "cp div 4096 mod 64"]
      by (simp add: encode_4 utf8CheckByte_def Let_def del: of_nat_add)
  qed
qed

lemma scalar_less: "scalar_value cp \<Longrightarrow> cp < 0x110000"
  by (auto simp: scalar_value_def)

lemma split_encoding:
  "list_all scalar_value cps \<Longrightarrow> x @ post = encode_all cps \<Longrightarrow>
     \<exists>ds part cs. x = encode_all ds @ part \<and> cps = ds @ cs \<and> part @ post = encode_all cs
       \<and> (part = [] \<or> (\<exists>c cs'. cs = c # cs' \<and> length part < length (encode_code_point c)))"
proof (induction cps arbitrary: x)
  case Nil
  then show ?case by (intro exI [of _ "[]"]) auto
next
  case (Cons c cps)
  show ?case
  proof (cases "length x < length (encode_code_point c)")
    case True
    then show ?thesis using Cons.prems by - (rule exI [of _ "[]"], rule exI [of _ x], rule exI [of _ "c # cps"], auto)
  next
    case False
    define y where "y = drop (length (encode_code_point c)) x"
    have "take (length (encode_code_point c)) (x @ post) = encode_code_point c"
        "drop (length (encode_code_point c)) (x @ post) = encode_all cps"
      using Cons.prems(2) by simp_all
    then have y: "x = encode_code_point c @ y" "y @ post = encode_all cps"
      using False append_take_drop_id [of "length (encode_code_point c)" x] by (simp_all add: y_def)
    obtain ds part cs where "y = encode_all ds @ part" "cps = ds @ cs" "part @ post = encode_all cs"
        "part = [] \<or> (\<exists>c cs'. cs = c # cs' \<and> length part < length (encode_code_point c))"
      using Cons.IH [OF _ y(2)] Cons.prems(1) by auto
    then show ?thesis using y(1) by - (rule exI [of _ "c # ds"], rule exI [of _ part], rule exI [of _ cs], auto)
  qed
qed

lemma incomplete:
  assumes "scalar_value c" "q @ q' = encode_code_point c" "q \<noteq> []" "drop i buf = pre @ q" "lastNeed d = 0"
  shows "\<exists>t. utf8CheckIncomplete d buf i = (t, d\<lparr>lastNeed := length q'\<rparr>) \<and> (q' \<noteq> [] \<longrightarrow> t = length (encode_code_point c))"
proof -
  obtain b bs where e: "encode_code_point c = b # bs" "list_all continuation bs" "length bs \<le> 3"
      "utf8CheckByte b = (if bs = [] then 0 else int (length bs) + 1)"
    using encode_shape [OF scalar_less [OF assms(1)]] by blast
  obtain r where q: "q = b # r" "r @ q' = bs" using assms(2,3) e(1) by (cases q) auto
  have d0: "d\<lparr>lastNeed := 0\<rparr> = d" using assms(5) by simp
  have c: "utf8CheckByte x = -1" if "x \<in> set bs" for x using e(2) that by (simp add: list_all_iff check_continuation)
  have buf: "buf = (take i buf @ pre) @ b # r" "length (take i buf) = i"
    using append_take_drop_id [of i buf] assms(4) q(1) by (auto dest: arg_cong [of _ _ length] simp: min_def not_le)
  define A where "A = take i buf @ pre"
  have A: "buf = A @ b # r" "i \<le> length A" using buf by (simp_all add: A_def)
  consider "r = []" | x where "r = [x]" | x y where "r = [x, y]" | x y z where "r = [x, y, z]"
    using q(2) e(3) by (cases r; cases "tl r"; cases "tl (tl r)"; cases "tl (tl (tl r))") auto
  then show ?thesis
  proof cases
    case 1
    then show ?thesis using A e q(2) d0 by (auto simp: utf8CheckIncomplete_def Let_def nth_append)
  next
    case 2
    then show ?thesis using A e q(2) d0 c by (auto simp: utf8CheckIncomplete_def Let_def nth_append)
  next
    case 3
    then show ?thesis using A e q(2) d0 c by (auto simp: utf8CheckIncomplete_def Let_def nth_append nth_Cons')
  next
    case 4
    then have "q' = []" using q(2) e(3) by (cases q') auto
    then show ?thesis using 4 A e q(2) d0 c by (auto simp: utf8CheckIncomplete_def Let_def nth_append nth_Cons')
  qed
qed

lemma u8_rest:
  assumes "fresh Utf8 d" "i < length buf" "u8_legal [] (drop i buf @ post)" "small buf"
  shows "\<exists>w part d'. sd_text d buf i = Inr (dec Utf8 w, d') \<and> u8_pend d' part \<and> drop i buf = w @ part \<and> u8_whole w
    \<and> u8_legal part post"
proof -
  have f: "sd_encoding d = Utf8" "lastNeed d = 0" "length (lastChar d) = 4" using assms(1) by (simp_all add: fresh_def)
  obtain cps where cps: "list_all scalar_value cps" "drop i buf @ post = encode_all cps"
    using assms(3) by (auto simp: u8_legal_def)
  obtain ds part cs where s: "drop i buf = encode_all ds @ part" "cps = ds @ cs" "part @ post = encode_all cs"
      "part = [] \<or> (\<exists>c cs'. cs = c # cs' \<and> length part < length (encode_code_point c))"
    using split_encoding [OF cps] by blast
  have l: "u8_whole (encode_all ds)" "u8_legal part post"
    using cps(1) s by (auto simp: u8_whole_def u8_legal_def)
  show ?thesis
  proof (cases "part = []")
    case True
    obtain ds' c where ds: "ds = ds' @ [c]" using s(1) True assms(2) by (cases ds rule: rev_cases) auto
    have "\<exists>t. utf8CheckIncomplete d buf i = (t, d\<lparr>lastNeed := 0\<rparr>)"
      using incomplete [of c "encode_code_point c" "[]" i buf "encode_all ds'" d] ds s(1,2) True cps(1) f(2)
      by (auto simp: encode_code_point_nonempty)
    then have "sd_text d buf i = Inr (dec Utf8 (drop i buf), d)"
      using f text_of_from [of Utf8 i buf] assms(2,4) by (auto simp: sd_text_def utf8Text_def)
    then show ?thesis using s(1) l True assms(1)
      by - (rule exI [of _ "encode_all ds"], rule exI [of _ "[]"], rule exI [of _ d], simp add: u8_pend_def)
  next
    case False
    obtain c cs' where c: "cs = c # cs'" "length part < length (encode_code_point c)" using False s(4) by blast
    have sc: "scalar_value c" using cps(1) s(2) c(1) by simp
    define q where "q = drop (length part) (encode_code_point c)"
    have "take (length part) (part @ post) = part" by simp
    then have "take (length part) (encode_code_point c) = part" using s(3) c by simp
    then have q: "part @ q = encode_code_point c" unfolding q_def by (metis append_take_drop_id)
    have lq: "length (encode_code_point c) = length part + length q" "q \<noteq> []" using q c(2) by (auto simp: q_def)
    let ?T = "length (encode_code_point c)"
    have ci: "utf8CheckIncomplete d buf i = (?T, d\<lparr>lastNeed := length q\<rparr>)"
      using incomplete [OF sc q False s(1) f(2)] lq(2) by auto
    let ?e = "length buf - length part"
    have lb: "length buf = i + length (encode_all ds) + length part"
      using arg_cong [OF s(1), of length] assms(2) by simp
    have T4: "?T \<le> 4" by (simp add: length_encode_code_point)
    have db: "drop ?e buf = part"
    proof -
      have "drop ?e buf = drop (length (encode_all ds)) (drop i buf)" using lb by (simp add: add.commute)
      then show ?thesis using s(1) by simp
    qed
    let ?d = "d\<lparr>lastNeed := length q, lastTotal := ?T, lastChar := part @ drop (length part) (lastChar d)\<rparr>"
    have "copy_last (d\<lparr>lastNeed := length q, lastTotal := ?T\<rparr>) buf 0 ?e None = Inr ?d"
      using Buffer_copy_from [of ?e buf 0 "lastChar d"] lb lq(1) T4 f(3) db by (simp add: copy_last_def)
    moreover have "text_of Utf8 buf i (Some ?e) = Inr (dec Utf8 (encode_all ds))"
      using text_of_range [of Utf8 i ?e buf] assms(4) lb s(1) by simp
    moreover have "?T - length q = length part" using lq(1) by simp
    ultimately have t: "sd_text d buf i = Inr (dec Utf8 (encode_all ds), ?d)"
      using f ci lq(2) by (simp add: sd_text_def utf8Text_def)
    have "hd part = hd (encode_code_point c)" using q False by (metis hd_append2)
    then have "u8_pend ?d part"
      using bytesPerSequence_encode [OF scalar_less [OF sc]] False f lq T4 by (simp add: u8_pend_def kept_def)
    then show ?thesis using t s(1) l
      by - (rule exI [of _ "encode_all ds"], rule exI [of _ part], rule exI [of _ ?d], intro conjI)
  qed
qed

lemma u8_char:
  assumes "u8_pend d part" "part \<noteq> []" "u8_legal part (buf @ post)"
  shows "\<exists>c cs q. scalar_value c \<and> list_all scalar_value cs \<and> part @ q = encode_code_point c \<and> length q = lastNeed d
    \<and> buf @ post = q @ encode_all cs \<and> list_all continuation q"
proof -
  obtain c cs where c: "list_all scalar_value (c # cs)" "part @ buf @ post = encode_code_point c @ encode_all cs"
      "length part < length (encode_code_point c)"
    using assms(2,3) by (auto simp: u8_legal_def)
  define q where "q = drop (length part) (encode_code_point c)"
  have "take (length part) (part @ buf @ post) = part" "drop (length part) (part @ buf @ post) = buf @ post" by simp_all
  then have p: "take (length part) (encode_code_point c) = part" "q @ encode_all cs = buf @ post"
    using c(2,3) by (simp_all add: q_def)
  then have q: "part @ q = encode_code_point c" unfolding q_def by (metis append_take_drop_id)
  obtain b bs where e: "encode_code_point c = b # bs" "list_all continuation bs"
    using encode_shape [of c] c(1) scalar_less by auto
  have "list_all continuation q" using q e assms(2) by (cases part) auto
  moreover have "hd part = hd (encode_code_point c)" using q assms(2) by (metis hd_append2)
  then have "lastTotal d = length (encode_code_point c)"
    using assms(1,2) bytesPerSequence_encode [of c] c(1) scalar_less by (simp add: u8_pend_def)
  then have "length q = lastNeed d"
    using assms(1,2) arg_cong [OF q, of length] by (simp add: u8_pend_def kept_def)
  ultimately show ?thesis using c(1) q p(2)
    by - (rule exI [of _ c], rule exI [of _ cs], rule exI [of _ q], simp)
qed

lemma u8_extra:
  assumes "list_all continuation q" "length q = lastNeed d" "buf @ post = q @ rest" "buf \<noteq> []" "lastNeed d \<noteq> 0"
  shows "utf8CheckExtraBytes d buf p = (None, d)"
proof -
  have "continuation (buf ! j)" if "j < length buf" "j < lastNeed d" for j
  proof -
    have "buf ! j = q ! j" using that assms(2,3) by (metis nth_append)
    then show ?thesis using that(2) assms(1,2) by (simp add: list_all_length)
  qed
  then show ?thesis using assms(4,5) by (auto simp: utf8CheckExtraBytes_def)
qed

lemma u8_complete:
  assumes "u8_pend d part" "part \<noteq> []" "u8_legal part (buf @ post)" "buf \<noteq> []" "lastNeed d \<le> length buf"
  shows "\<exists>d'. sd_fill d buf = Inr (Some (dec Utf8 (part @ take (lastNeed d) buf)), d') \<and> lastNeed d' = lastNeed d
    \<and> fresh Utf8 (d'\<lparr>lastNeed := 0\<rparr>) \<and> u8_whole (part @ take (lastNeed d) buf) \<and> u8_legal [] (drop (lastNeed d) buf @ post)"
proof -
  obtain c cs q where c: "scalar_value c" "list_all scalar_value cs" "part @ q = encode_code_point c" "length q = lastNeed d"
      "buf @ post = q @ encode_all cs" "list_all continuation q"
    using u8_char [OF assms(1-3)] by blast
  have p: "kept d part" "sd_encoding d = Utf8" "length (lastChar d) = 4" using assms(1,2) by (simp_all add: u8_pend_def)
  have x: "utf8CheckExtraBytes d buf r = (None, d)" for r
    using u8_extra [OF c(6,4,5) assms(4)] p(1) by (simp add: kept_def)
  have t: "take (lastNeed d) buf = q" "drop (lastNeed d) buf @ post = encode_all cs"
    using arg_cong [OF c(5), of "take (lastNeed d)"] arg_cong [OF c(5), of "drop (lastNeed d)"] c(4) assms(5) by simp_all
  have "u8_whole (part @ q)" unfolding u8_whole_def c(3) using c(1) by (intro exI [of _ "[c]"]) simp
  moreover have "u8_legal [] (drop (lastNeed d) buf @ post)" using t(2) c(2) by (auto simp: u8_legal_def)
  ultimately show ?thesis using fillLast_complete [OF p(1) _ assms(5)] p x t(1)
    by (auto simp: sd_fill_def utf8FillLast_def fresh_def)
qed

lemma u8_partial:
  assumes "u8_pend d part" "part \<noteq> []" "u8_legal part (buf @ post)" "buf \<noteq> []" "length buf < lastNeed d"
  shows "\<exists>d'. sd_fill d buf = Inr (None, d') \<and> u8_pend d' (part @ buf) \<and> u8_legal (part @ buf) post"
proof -
  obtain c cs q where c: "scalar_value c" "list_all scalar_value cs" "part @ q = encode_code_point c" "length q = lastNeed d"
      "buf @ post = q @ encode_all cs" "list_all continuation q"
    using u8_char [OF assms(1-3)] by blast
  have p: "kept d part" "sd_encoding d = Utf8" "length (lastChar d) = 4" "lastTotal d = bytesPerSequence (hd part)"
    using assms(1,2) by (simp_all add: u8_pend_def)
  have x: "utf8CheckExtraBytes d buf r = (None, d)" for r
    using u8_extra [OF c(6,4,5) assms(4)] p(1) by (simp add: kept_def)
  obtain e where e: "fillLast d buf = Inr (None, e)" "kept e (part @ buf)" "sd_encoding e = Utf8"
      "lastTotal e = lastTotal d" "length (lastChar e) = 4"
    using fillLast_partial [OF p(1) assms(5)] p by auto
  have "u8_pend e (part @ buf)" using e p(4) assms(2) by (simp add: u8_pend_def)
  moreover have "length (encode_code_point c) = length part + lastNeed d"
    using arg_cong [OF c(3), of length] c(4) by simp
  then have "length (part @ buf) < length (encode_code_point c)" using assms(5) by simp
  moreover have "(part @ buf) @ post = encode_all (c # cs)" using c(3,5) by (metis append.assoc concat.simps(2) list.simps(9))
  ultimately have "u8_pend e (part @ buf)" "u8_legal (part @ buf) post"
    unfolding u8_legal_def using c(1,2) by (auto intro!: exI [of _ "c # cs"])
  then show ?thesis using e(1) p(2) x by (auto simp: sd_fill_def utf8FillLast_def)
qed

lemma utf8Slice_encode_all:
  "list_all scalar_value cps \<Longrightarrow> utf8Slice_loop (encode_all cps @ rest) = concat (map code_units cps) @ utf8Slice_loop rest"
  by (induction cps) (simp_all add: utf8Slice_loop_encode)

interpretation u8: chunked_text Utf8 u8_pend u8_whole u8_legal
proof (unfold_locales, goal_cases)
  case (2 a b)
  then obtain xs ys where "list_all scalar_value xs" "a = encode_all xs" "list_all scalar_value ys" "b = encode_all ys"
    by (auto simp: u8_whole_def)
  then show ?case unfolding u8_whole_def by (intro exI [of _ "xs @ ys"]) simp
next
  case (4 a b)
  then obtain xs where "list_all scalar_value xs" "a = encode_all xs" by (auto simp: u8_whole_def)
  then show ?case using utf8Slice_encode_all [of xs b] utf8Slice_encode_all [of xs "[]"] by simp
next
  case 7
  then show ?case by (rule u8_rest)
next
  case 8
  then show ?case by (rule u8_complete)
next
  case 9
  then show ?case by (rule u8_partial)
qed (auto simp: u8_pend_def u8_whole_def kept_def intro: exI [of _ "[]"])

section \<open>The whole text\<close>

lemma new_decoder:
  "multi k \<Longrightarrow> \<exists>d. new_StringDecoder (Some (enc_name k)) = Inr d \<and> fresh k d"
  by (auto simp: new_StringDecoder_def normalizeEncoding_def fresh_def)

lemma utf8_scalars: "wf_utf16 s \<Longrightarrow> \<exists>cps. list_all scalar_value cps \<and> utf8 s = encode_all cps"
proof (induction s rule: wf_utf16.induct)
  case 1
  show ?case by (intro exI [of _ "[]"]) simp
next
  case (2 c)
  then show ?case by (intro exI [of _ "[unat c]"]) (simp add: utf8_bmp scalar_bmp)
next
  case (3 c d rest)
  show ?case
  proof (cases "surrogate c")
    case True
    then obtain cps where "list_all scalar_value cps" "utf8 rest = encode_all cps" using "3.IH"(1) "3.prems" by auto
    then show ?thesis using True "3.prems" utf8_pair scalar_join
      by (intro exI [of _ "join_surrogates (unat c) (unat d) # cps"]) simp
  next
    case False
    then obtain cps where "list_all scalar_value cps" "utf8 (d # rest) = encode_all cps" using "3.IH"(2) "3.prems" by auto
    then show ?thesis using False by (intro exI [of _ "unat c # cps"]) (simp add: utf8_bmp scalar_bmp)
  qed
qed

text \<open>
  \<^bold>\<open>C24.\<close> Characters are never broken apart: for every well-formed string and every division of its UTF-8 bytes into
  chunks (empty ones, single bytes, cuts inside a character), the strings a decoder returns for the chunks
  and for the end, put together, are the string, without replacement characters.
\<close>

theorem utf8_decoder_chunks:
  assumes "wf_utf16 s" "concat chunks = utf8ToBytes s None" "int (length (utf8ToBytes s None)) < 2 ^ 31"
  shows "decode_all Utf8 chunks = Inr s"
proof -
  obtain d where d: "new_StringDecoder (Some (enc_name Utf8)) = Inr d" "fresh Utf8 d" using new_decoder [of Utf8] by auto
  have l: "u8_legal [] (concat chunks @ [])" using utf8_scalars [OF assms(1)] assms(2) by (auto simp: u8_legal_def)
  have "list_all small chunks" using small_chunks [of chunks] assms(2,3) by simp
  then obtain w part d' where w: "write_all d chunks = Inr (dec Utf8 w, d')" "u8_pend d' part" "concat chunks = w @ part"
      "u8_legal part []"
    using u8.writes_whole [of d "[]" chunks "[]"] d(2) l by (auto simp: u8_pend_def)
  have "part = []" using w(4) by (auto simp: u8_legal_def dest: arg_cong [of _ _ length])
  then have "sd_end d' [] = Inr ([], d')" "w = utf8 s" using w(2,3) assms(2) by (auto simp: sd_end_def u8_pend_def fresh_def)
  then show ?thesis using d(1) w(1) utf8_decode_encode [OF assms(1)] by (simp add: decode_all_def)
qed

theorem utf8_decoder_chunks_witness:
  "decode_all Utf8 [[0xE2], [], [0x82], [0xAC, 0x41, 0xF0, 0x9F], [0x98, 0x80]] = Inr [0x20AC, 0x41, 0xD83D, 0xDE00]"
proof -
  have w: "lead_surrogate 0xD83D" "trail_surrogate 0xDE00" "\<not> surrogate 0x20AC" "\<not> surrogate 0x41" "surrogate 0xD83D"
    by (simp_all add: surrogate_def lead_surrogate_def trail_surrogate_def)
  have "utf8ToBytes [0x20AC, 0x41, 0xD83D, 0xDE00] None = [0xE2, 0x82, 0xAC, 0x41, 0xF0, 0x9F, 0x98, 0x80]"
    using join_surrogates_eq [OF w(1,2)] by (simp add: utf8_bmp utf8_pair w encode_1 encode_3 encode_4)
  moreover have "wf_utf16 [0x20AC, 0x41, 0xD83D, 0xDE00]" by (simp add: w)
  ultimately show ?thesis using utf8_decoder_chunks [of "[0x20AC, 0x41, 0xD83D, 0xDE00]"] by simp
qed

lemma end_pending:
  assumes "k = Base64 \<and> b64_pend d part \<or> k = Ucs2 \<and> u16_pend d part"
  shows "\<exists>e. sd_end d [] = Inr (dec k part, e)"
proof (cases "part = []")
  case True
  then show ?thesis using assms by (auto simp: sd_end_def b64_pend_def u16_pend_def fresh_def)
next
  case False
  then have p: "kept d part" "sd_encoding d = k" "multi k" "k = Base64 \<longrightarrow> lastTotal d = 3" "k \<noteq> Utf8"
    using assms by (auto simp: b64_pend_def u16_pend_def)
  then have "text_of k (lastChar d) 0 (Some (length part)) = Inr (dec k part)"
    using text_of_range [of k 0 "length part" "lastChar d"] by (simp add: kept_def)
  moreover have "lastTotal d - lastNeed d = length part" "lastNeed d \<noteq> 0" using p(1) by (simp_all add: kept_def)
  moreover have "3 - lastNeed d = length part" if "k = Base64"
    using p(1,4) that unfolding kept_def by linarith
  ultimately show ?thesis using p(2) assms by (cases k) (simp_all add: sd_end_def)
qed

text \<open>
  \<^bold>\<open>C25.\<close> For base64 and UTF-16LE this holds for all bytes: however they are cut into chunks, the strings returned,
  put together, are what \<^verbatim>\<open>toString\<close> gives for all of them at once.
\<close>

theorem binary_decoder_chunks:
  assumes "int (length (concat chunks)) < 2 ^ 31"
  shows "decode_all Base64 chunks = Inr (fromByteArray (concat chunks))
    \<and> decode_all Ucs2 chunks = Inr (utf16_pairs (concat chunks))"
proof -
  have s: "list_all small chunks" using small_chunks [of chunks] assms by simp
  have "decode_all k chunks = Inr (dec k (concat chunks))" if k: "k = Base64 \<or> k = Ucs2" for k
  proof -
    obtain d where d: "new_StringDecoder (Some (enc_name k)) = Inr d" "fresh k d" using new_decoder [of k] k by auto
    obtain w part d' where w: "write_all d chunks = Inr (dec k w, d')" "concat chunks = w @ part"
        "k = Base64 \<and> b64_pend d' part \<or> k = Ucs2 \<and> u16_pend d' part" "dec k (w @ part) = dec k w @ dec k part"
      using k b64.writes_whole [OF _ _ s, of d "[]"] u16.writes_whole [OF _ _ s, of d "[]"] d(2) b64.dec_append u16.dec_append
      by (auto simp: b64.pend_Nil u16.pend_Nil)
    then show ?thesis using d(1) end_pending [OF w(3)] by (auto simp: decode_all_def)
  qed
  then show ?thesis by simp
qed

theorem binary_decoder_chunks_witness:
  "decode_all Base64 [[77], [97, 110, 33], [33]] = Inr (fromByteArray [77, 97, 110, 33, 33])
    \<and> decode_all Ucs2 [[77], [97, 110, 33], [33]] = Inr (utf16_pairs [77, 97, 110, 33, 33])"
  using binary_decoder_chunks [of "[[77], [97, 110, 33], [33]]"] by simp

end
