(* ===== verification/Readable_Stream.thy ===== *)
theory Readable_Stream
  imports String_Decoder Packet_Write
begin

text \<open>
  \<^verbatim>\<open>Readable\<close> of the bundled \<^verbatim>\<open>readable-stream\<close>: the reading half of the stream the client pipes into its parser.
  Chunks that \<^verbatim>\<open>push\<close> takes wait in a list until \<^verbatim>\<open>read\<close> or the flowing mode hands them on. Parameters: \<open>source\<close>, the
  chunks that the n-th call of \<^verbatim>\<open>_read\<close> pushes before it returns (\<^verbatim>\<open>null\<close> for the end), and \<open>full\<close>, whether the
  listener pauses the stream at the n-th chunk (for a piped stream: whether \<^verbatim>\<open>dest.write\<close> returns false). Other
  listeners are logged (one for \<^verbatim>\<open>error\<close> is there), and what they do is a later operation. The decoder gets Buffers only. A stream is piped to one destination at most; the
  linked list of chunks is a list.
\<close>

section \<open>State\<close>

datatype rtick = TReadable | TMore | TResume | TReadZero | TEnd | TPipeEnd bool

datatype revent =
    RData jsval | RReadable | REnd | RPause | RResume | RError string
  | RDestEnd                        \<comment> \<open>\<^verbatim>\<open>dest.end()\<close>\<close>

record rstate =
  r_objectMode :: bool
  r_highWaterMark :: int
  r_buffer :: "jsval list"
  r_length :: int
  r_flowing :: "bool option"        \<comment> \<open>\<open>None\<close> is \<^verbatim>\<open>null\<close>\<close>
  r_ended :: bool
  r_endEmitted :: bool
  r_reading :: bool
  r_sync :: bool
  r_needReadable :: bool
  r_emittedReadable :: bool
  r_readableListening :: bool
  r_resumeScheduled :: bool
  r_defaultEncoding :: jsstr
  r_awaitDrain :: nat
  r_readingMore :: bool
  r_decoder :: "decoder option"
  r_encoding :: "jsstr option"
  r_readable :: bool
  r_dest :: "bool option"           \<comment> \<open>the destination of \<^verbatim>\<open>pipe\<close>; true if it is to be ended\<close>
  r_dataListeners :: nat
  r_ticks :: "rtick list"
  r_calls :: nat                    \<comment> \<open>calls of \<^verbatim>\<open>_read\<close> so far\<close>
  r_emitted :: nat                  \<comment> \<open>\<^verbatim>\<open>data\<close> events so far\<close>
  r_in :: "jsval list"              \<comment> \<open>chunks taken, in stream order\<close>
  r_events :: "revent list"

record renv =
  source :: "nat \<Rightarrow> jsval list"
  full :: "nat \<Rightarrow> bool"

definition new_Readable :: "bool \<Rightarrow> int option \<Rightarrow> jsstr option \<Rightarrow> jsstr option \<Rightarrow> rstate result" where
  \<comment> \<open>\<^verbatim>\<open>objectMode\<close>, \<^verbatim>\<open>highWaterMark\<close>, \<^verbatim>\<open>defaultEncoding\<close>, \<^verbatim>\<open>encoding\<close>\<close>
  "new_Readable obj hwm denc enc =
     rbind (case enc of Some (c # e) \<Rightarrow> rbind (new_StringDecoder (Some (c # e))) (\<lambda>d. Inr (Some d)) | _ \<Rightarrow> Inr None) (\<lambda>decoder.
       Inr \<lparr>r_objectMode = obj, r_highWaterMark = to_int32 (case hwm of Some h \<Rightarrow> h | None \<Rightarrow> if obj then 16 else 16 * 1024),
         r_buffer = [], r_length = 0, r_flowing = None, r_ended = False, r_endEmitted = False, r_reading = False,
         r_sync = True, r_needReadable = False, r_emittedReadable = False, r_readableListening = False,
         r_resumeScheduled = False, r_defaultEncoding = (case denc of Some (c # e) \<Rightarrow> c # e | _ \<Rightarrow> js ''utf8''), r_awaitDrain = 0, r_readingMore = False,
         r_decoder = decoder, r_encoding = (if decoder = None then None else enc), r_readable = True, r_dest = None,
         r_dataListeners = 0, r_ticks = [], r_calls = 0, r_emitted = 0, r_in = [], r_events = []\<rparr>)"

fun datas :: "revent list \<Rightarrow> jsval list" where
  "datas [] = []"
| "datas (RData c # es) = c # datas es"
| "datas (_ # es) = datas es"

definition r_out :: "rstate \<Rightarrow> jsval list" where
  \<comment> \<open>the chunks handed on\<close>
  "r_out s = datas (r_events s)"

definition happens_r :: "revent \<Rightarrow> rstate \<Rightarrow> rstate" where
  "happens_r e s = s\<lparr>r_events := r_events s @ [e]\<rparr>"

definition later_r :: "rtick \<Rightarrow> rstate \<Rightarrow> rstate" where
  "later_r t s = s\<lparr>r_ticks := r_ticks s @ [t]\<rparr>"

text \<open>A computation may throw, and a loop may run out of fuel (\<open>None\<close>).\<close>

type_synonym 'a run = "'a result option"

definition andthen :: "'a run \<Rightarrow> ('a \<Rightarrow> 'b run) \<Rightarrow> 'b run" where
  "andthen m f = (case m of None \<Rightarrow> None | Some (Inl e) \<Rightarrow> Some (Inl e) | Some (Inr x) \<Rightarrow> f x)"

abbreviation done_with :: "'a \<Rightarrow> 'a run" where
  "done_with x \<equiv> Some (Inr x)"

section \<open>The list of chunks\<close>

fun chunk_length :: "jsval \<Rightarrow> int" where
  "chunk_length (JStr t) = int (length t)"
| "chunk_length (JBuf b) = int (length b)"
| "chunk_length _ = 0"

fun slice_chunk :: "nat \<Rightarrow> jsval \<Rightarrow> jsval \<times> jsval" where
  "slice_chunk n (JStr t) = (JStr (take n t), JStr (drop n t))"
| "slice_chunk n (JBuf b) = (JBuf (take n b), JBuf (drop n b))"
| "slice_chunk n v = (v, v)"

fun buf_bytes :: "jsval \<Rightarrow> buffer" where
  "buf_bytes (JBuf b) = b"
| "buf_bytes _ = []"

fun copy_from :: "nat \<Rightarrow> 'a list list \<Rightarrow> 'a list \<times> 'a list list" where
  \<comment> \<open>n elements over several chunks: what was copied and the chunks left\<close>
  "copy_from n [] = ([], [])"
| "copy_from n (p # ps) =
     (let nb = (if n > length p then length p else n) in
      if n - nb = 0 then (if nb = length p then (p, ps) else (take nb p, drop nb p # ps))
      else let (ret, rest) = copy_from (n - nb) ps in (p @ ret, rest))"

definition fill_from :: "nat \<Rightarrow> buffer \<Rightarrow> buffer result" where
  \<comment> \<open>a fresh buffer of n bytes into which bytes are copied\<close>
  "fill_from n bs = rbind (allocUnsafe (JNum (int n))) (\<lambda>ret. Inr (take n bs @ drop (length bs) ret))"

definition fromListPartial :: "nat \<Rightarrow> jsval list \<Rightarrow> bool \<Rightarrow> (jsval \<times> jsval list) result" where
  "fromListPartial n cs hasStrings =
     (case cs of
        [] \<Rightarrow> Inl (TypeError ''Cannot read property 'data' of null'')
      | h # rest \<Rightarrow>
          if int n < chunk_length h then (let (a, b) = slice_chunk n h in Inr (a, b # rest))
          else if int n = chunk_length h then Inr (h, rest)
          else if hasStrings then (let (r, l) = copy_from n (map to_str cs) in Inr (JStr r, map JStr l))
          else (let (r, l) = copy_from n (map buf_bytes cs) in rbind (fill_from n r) (\<lambda>r. Inr (JBuf r, map JBuf l))))"

text \<open>The length of a stream's data is taken to be below \<open>2 ^ 32\<close>, so that \<^verbatim>\<open>n >>> 0\<close> in \<^verbatim>\<open>concat\<close> is \<open>n\<close>.\<close>

definition fromList :: "int \<Rightarrow> rstate \<Rightarrow> (jsval option \<times> rstate) result" where
  \<comment> \<open>\<open>None\<close> is \<^verbatim>\<open>null\<close>\<close>
  "fromList n s =
     (if r_length s = 0 then Inr (None, s)
      else if r_objectMode s then
        Inr (case r_buffer s of [] \<Rightarrow> (Some JUndef, s) | c # cs \<Rightarrow> (Some c, s\<lparr>r_buffer := cs\<rparr>))
      else if n = 0 \<or> n \<ge> r_length s then
        rbind (if r_decoder s \<noteq> None then Inr (JStr (concat (map to_str (r_buffer s))))
               else case r_buffer s of
                 [] \<Rightarrow> Inr (JBuf [])
               | [c] \<Rightarrow> Inr c
               | cs \<Rightarrow> rbind (fill_from (nat (r_length s)) (concat (map buf_bytes cs))) (\<lambda>b. Inr (JBuf b)))
          (\<lambda>c. Inr (Some c, s\<lparr>r_buffer := []\<rparr>))
      else rbind (fromListPartial (nat n) (r_buffer s) (r_decoder s \<noteq> None))
             (\<lambda>(c, cs). Inr (Some c, s\<lparr>r_buffer := cs\<rparr>)))"

section \<open>Taking chunks\<close>

definition chunkInvalid :: "rstate \<Rightarrow> jsval \<Rightarrow> bool" where
  "chunkInvalid s chunk =
     (\<not> is_buffer chunk \<and> \<not> is_string chunk \<and> chunk \<noteq> JNull \<and> chunk \<noteq> JUndef \<and> \<not> r_objectMode s)"

definition needMoreData :: "rstate \<Rightarrow> bool" where
  "needMoreData s \<longleftrightarrow> \<not> r_ended s \<and> (r_needReadable s \<or> r_length s < r_highWaterMark s \<or> r_length s = 0)"

definition chunk_size :: "rstate \<Rightarrow> jsval \<Rightarrow> int" where
  "chunk_size s c = (if r_objectMode s then 1 else chunk_length c)"

definition emitReadable_with :: "(rstate \<Rightarrow> rstate run) \<Rightarrow> rstate \<Rightarrow> rstate run" where
  \<comment> \<open>the argument is what happens when the event is emitted at once\<close>
  "emitReadable_with now s0 =
     (let s = s0\<lparr>r_needReadable := False\<rparr> in
      if \<not> r_emittedReadable s then
        (let s1 = s\<lparr>r_emittedReadable := True\<rparr> in
         if r_sync s1 then done_with (later_r TReadable s1) else now s1)
      else done_with s)"

definition onEofChunk_with :: "(rstate \<Rightarrow> rstate run) \<Rightarrow> rstate \<Rightarrow> rstate run" where
  "onEofChunk_with now s =
     (if r_ended s then done_with s
      else
        andthen (case r_decoder s of
            None \<Rightarrow> done_with s
          | Some d \<Rightarrow>
              (case sd_end d [] of
                 Inl e \<Rightarrow> Some (Inl e)
               | Inr (chunk, d') \<Rightarrow>
                   done_with (if chunk \<noteq> []
                     then s\<lparr>r_decoder := Some d', r_length := r_length s + chunk_size s (JStr chunk),
                            r_buffer := r_buffer s @ [JStr chunk], r_in := r_in s @ [JStr chunk]\<rparr>
                     else s\<lparr>r_decoder := Some d'\<rparr>)))
          (\<lambda>s1. emitReadable_with now (s1\<lparr>r_ended := True\<rparr>)))"

definition maybeReadMore :: "rstate \<Rightarrow> rstate" where
  "maybeReadMore s = (if \<not> r_readingMore s then later_r TMore (s\<lparr>r_readingMore := True\<rparr>) else s)"

definition decode_chunk :: "rstate \<Rightarrow> jsval \<Rightarrow> jsstr \<Rightarrow> bool \<Rightarrow> (jsval \<times> bool \<times> rstate) result" where
  \<comment> \<open>the chunk to add, whether it is skipped, and the state with the decoder after it\<close>
  "decode_chunk s chunk encoding addToFront =
     (case r_decoder s of
        Some d \<Rightarrow>
          if \<not> addToFront \<and> encoding = [] then
            rbind (sd_write d (buf_bytes chunk)) (\<lambda>(t, d').
              Inr (JStr t, \<not> r_objectMode s \<and> t = [], s\<lparr>r_decoder := Some d'\<rparr>))
          else Inr (chunk, False, s)
      | None \<Rightarrow> Inr (chunk, False, s))"

definition put_chunk_with ::
  "(jsval \<Rightarrow> rstate \<Rightarrow> rstate run) \<Rightarrow> (rstate \<Rightarrow> rstate run) \<Rightarrow> jsval \<Rightarrow> bool \<Rightarrow> rstate \<Rightarrow> rstate run" where
  "put_chunk_with direct now chunk addToFront s =
     (if r_flowing s = Some True \<and> r_length s = 0 \<and> \<not> r_sync s
      then direct chunk (s\<lparr>r_in := r_in s @ [chunk]\<rparr>)
      else
        (let s1 = s\<lparr>r_length := r_length s + chunk_size s chunk,
                    r_buffer := (if addToFront then chunk # r_buffer s else r_buffer s @ [chunk]),
                    r_in := (if addToFront then r_out s @ chunk # r_buffer s else r_in s @ [chunk])\<rparr>
         in if r_needReadable s1 then emitReadable_with now s1 else done_with s1))"

definition add_chunk_with ::
  "(jsval \<Rightarrow> rstate \<Rightarrow> rstate run) \<Rightarrow> (rstate \<Rightarrow> rstate run) \<Rightarrow> jsval \<Rightarrow> jsstr \<Rightarrow> bool \<Rightarrow> rstate \<Rightarrow> (bool \<times> rstate) run" where
  \<comment> \<open>\<^verbatim>\<open>readableAddChunk\<close>; the first argument emits a chunk at once, the second is as above\<close>
  "add_chunk_with direct now chunk encoding addToFront s =
     andthen
       (if chunkInvalid s chunk then done_with (happens_r (RError ''Invalid non-string/buffer chunk'') s)
        else if chunk = JNull then onEofChunk_with now (s\<lparr>r_reading := False\<rparr>)
        else if r_objectMode s \<or> chunk_length chunk > 0 then
          (if r_ended s \<and> \<not> addToFront then done_with (happens_r (RError ''stream.push() after EOF'') s)
           else if r_endEmitted s \<and> addToFront then
             done_with (happens_r (RError ''stream.unshift() after end event'') s)
           else case decode_chunk s chunk encoding addToFront of
             Inl e \<Rightarrow> Some (Inl e)
           | Inr (chunk, skipAdd, s1) \<Rightarrow>
               (let s2 = (if \<not> addToFront then s1\<lparr>r_reading := False\<rparr> else s1) in
                andthen
                  (if skipAdd then done_with s2 else put_chunk_with direct now chunk addToFront s2)
                  (\<lambda>s4. done_with (maybeReadMore s4))))
        else done_with (if \<not> addToFront then s\<lparr>r_reading := False\<rparr> else s))
       (\<lambda>s'. done_with (needMoreData s', s'))"

definition push_with ::
  "(jsval \<Rightarrow> rstate \<Rightarrow> rstate run) \<Rightarrow> (rstate \<Rightarrow> rstate run) \<Rightarrow> jsval \<Rightarrow> jsstr option \<Rightarrow> rstate \<Rightarrow> (bool \<times> rstate) run" where
  "push_with direct now chunk encoding s =
     (case chunk of
        JStr t \<Rightarrow>
          if \<not> r_objectMode s then
            (let enc = (case encoding of Some (c # e) \<Rightarrow> c # e | _ \<Rightarrow> r_defaultEncoding s) in
             if Some enc \<noteq> r_encoding s then
               (case fromString t (Some enc) of
                  Inl e \<Rightarrow> Some (Inl e)
                | Inr b \<Rightarrow> add_chunk_with direct now (JBuf b) [] False s)
             else add_chunk_with direct now chunk enc False s)
          else add_chunk_with direct now chunk (case encoding of Some e \<Rightarrow> e | None \<Rightarrow> []) False s
      | _ \<Rightarrow> add_chunk_with direct now chunk (case encoding of Some e \<Rightarrow> e | None \<Rightarrow> []) False s)"

section \<open>Reading\<close>

definition MAX_HWM :: int where
  "MAX_HWM = 0x800000"

definition computeNewHighWaterMark :: "int \<Rightarrow> int" where
  "computeNewHighWaterMark n =
     (if n \<ge> MAX_HWM then MAX_HWM
      else
        (let n = n - 1; n = n OR drop_bit 1 n; n = n OR drop_bit 2 n; n = n OR drop_bit 4 n;
             n = n OR drop_bit 8 n; n = n OR drop_bit 16 n
         in n + 1))"

text \<open>The number asked for is \<open>None\<close> when it is NaN, as for \<^verbatim>\<open>read()\<close>.\<close>

definition howMuchToRead :: "int option \<Rightarrow> rstate \<Rightarrow> int \<times> rstate" where
  "howMuchToRead n s =
     (if (case n of Some k \<Rightarrow> k \<le> 0 | None \<Rightarrow> False) \<or> r_length s = 0 \<and> r_ended s then (0, s)
      else if r_objectMode s then (1, s)
      else case n of
        None \<Rightarrow>
          (if r_flowing s = Some True \<and> r_length s \<noteq> 0
           then (case r_buffer s of c # _ \<Rightarrow> chunk_length c | [] \<Rightarrow> 0, s) else (r_length s, s))
      | Some k \<Rightarrow>
          (let s1 = (if k > r_highWaterMark s then s\<lparr>r_highWaterMark := computeNewHighWaterMark k\<rparr> else s) in
           if k \<le> r_length s1 then (k, s1)
           else if \<not> r_ended s1 then (0, s1\<lparr>r_needReadable := True\<rparr>)
           else (r_length s1, s1)))"

definition endReadable :: "rstate \<Rightarrow> rstate result" where
  "endReadable s =
     (if r_length s > 0 then Inl (JsError ''\"endReadable()\" called on non-empty stream'')
      else if \<not> r_endEmitted s then Inr (later_r TEnd (s\<lparr>r_ended := True\<rparr>)) else Inr s)"

definition pause :: "rstate \<Rightarrow> rstate" where
  "pause s = (if r_flowing s \<noteq> Some False then happens_r RPause (s\<lparr>r_flowing := Some False\<rparr>) else s)"

definition emit_data :: "renv \<Rightarrow> jsval \<Rightarrow> rstate \<Rightarrow> rstate" where
  \<comment> \<open>the \<^verbatim>\<open>data\<close> event and \<^verbatim>\<open>ondata\<close> of \<^verbatim>\<open>pipe\<close>\<close>
  "emit_data env chunk s =
     (let s1 = happens_r (RData chunk) (s\<lparr>r_emitted := Suc (r_emitted s)\<rparr>) in
      if full env (r_emitted s)
      then pause (if r_dest s1 \<noteq> None then s1\<lparr>r_awaitDrain := Suc (r_awaitDrain s1)\<rparr> else s1)
      else s1)"

text \<open>
  While \<^verbatim>\<open>_read\<close> runs, \<open>sync\<close> is set: a chunk is neither emitted at once nor is \<^verbatim>\<open>readable\<close>, so the continuations
  of these cases are never used.
\<close>

fun push_all :: "jsval list \<Rightarrow> rstate \<Rightarrow> rstate run" where
  "push_all [] s = done_with s"
| "push_all (c # cs) s =
     andthen (push_with (\<lambda>_. done_with) done_with c None s) (\<lambda>(_, s'). push_all cs s')"

definition call_read :: "renv \<Rightarrow> rstate \<Rightarrow> rstate run" where
  "call_read env s =
     andthen (push_all (source env (r_calls s)) (s\<lparr>r_calls := Suc (r_calls s), r_sync := True\<rparr>))
       (\<lambda>s'. done_with (s'\<lparr>r_sync := False\<rparr>))"

text \<open>\<^verbatim>\<open>read\<close> after its first case.\<close>

definition read_take :: "renv \<Rightarrow> int option \<Rightarrow> int \<Rightarrow> rstate \<Rightarrow> (jsval option \<times> rstate) run" where
  \<comment> \<open>the end of \<^verbatim>\<open>read\<close>: n units are taken\<close>
  "read_take env nOrig n s =
     (case (if n > 0 then fromList n s else Inr (None, s)) of
        Inl e \<Rightarrow> Some (Inl e)
      | Inr (ret, s1) \<Rightarrow>
          let (n, s2) = (case ret of None \<Rightarrow> (0, s1\<lparr>r_needReadable := True\<rparr>)
                                   | Some _ \<Rightarrow> (n, s1\<lparr>r_length := r_length s1 - n\<rparr>));
              s3 = (if r_length s2 = 0 \<and> \<not> r_ended s2 then s2\<lparr>r_needReadable := True\<rparr> else s2)
          in case (if r_length s3 = 0 \<and> nOrig \<noteq> Some n \<and> r_ended s3 then endReadable s3 else Inr s3) of
               Inl e \<Rightarrow> Some (Inl e)
             | Inr s4 \<Rightarrow> done_with (ret, case ret of Some c \<Rightarrow> emit_data env c s4 | None \<Rightarrow> s4))"

definition read_some :: "renv \<Rightarrow> int option \<Rightarrow> rstate \<Rightarrow> (jsval option \<times> rstate) run" where
  "read_some env nOrig s0 =
     (let (n, s1) = howMuchToRead nOrig s0 in
      if n = 0 \<and> r_ended s1 then
        (if r_length s1 = 0 then (case endReadable s1 of Inl e \<Rightarrow> Some (Inl e) | Inr s2 \<Rightarrow> done_with (None, s2))
         else done_with (None, s1))
      else
        let doRead = (r_needReadable s1 \<or> r_length s1 = 0 \<or> r_length s1 - n < r_highWaterMark s1) in
        andthen
          (if r_ended s1 \<or> r_reading s1 \<or> \<not> doRead then done_with (n, s1)
           else
             andthen (call_read env (s1\<lparr>r_reading := True, r_needReadable := r_length s1 = 0 \<or> r_needReadable s1\<rparr>))
               (\<lambda>s2. done_with (if \<not> r_reading s2 then howMuchToRead nOrig s2 else (n, s2))))
          (\<lambda>(n, s3). read_take env nOrig n s3))"

fun flow :: "renv \<Rightarrow> nat \<Rightarrow> rstate \<Rightarrow> rstate run" where
  "flow env 0 s = (if r_flowing s = Some True then None else done_with s)"
| "flow env (Suc fuel) s =
     (if r_flowing s = Some True then
        andthen (read_some env None (s\<lparr>r_emittedReadable := False\<rparr>)) (\<lambda>(ret, s').
          if ret = None then done_with s' else flow env fuel s')
      else done_with s)"

definition emitReadable_now :: "renv \<Rightarrow> nat \<Rightarrow> rstate \<Rightarrow> rstate run" where
  \<comment> \<open>\<^verbatim>\<open>emitReadable_\<close>\<close>
  "emitReadable_now env fuel s = flow env fuel (happens_r RReadable s)"

definition r_read :: "renv \<Rightarrow> nat \<Rightarrow> int option \<Rightarrow> rstate \<Rightarrow> (jsval option \<times> rstate) run" where
  "r_read env fuel n s0 =
     (let s = (if n \<noteq> Some 0 then s0\<lparr>r_emittedReadable := False\<rparr> else s0) in
      if n = Some 0 \<and> r_needReadable s \<and> (r_length s \<ge> r_highWaterMark s \<or> r_ended s) then
        (if r_length s = 0 \<and> r_ended s
         then (case endReadable s of Inl e \<Rightarrow> Some (Inl e) | Inr s1 \<Rightarrow> done_with (None, s1))
         else andthen (emitReadable_with (emitReadable_now env fuel) s) (\<lambda>s1. done_with (None, s1)))
      else read_some env n s)"

definition read_zero :: "renv \<Rightarrow> nat \<Rightarrow> rstate \<Rightarrow> rstate run" where
  "read_zero env fuel s = andthen (r_read env fuel (Some 0) s) (\<lambda>(_, s'). done_with s')"

definition emit_direct :: "renv \<Rightarrow> nat \<Rightarrow> jsval \<Rightarrow> rstate \<Rightarrow> rstate run" where
  "emit_direct env fuel chunk s = read_zero env fuel (emit_data env chunk s)"

definition r_push :: "renv \<Rightarrow> nat \<Rightarrow> jsval \<Rightarrow> jsstr option \<Rightarrow> rstate \<Rightarrow> (bool \<times> rstate) run" where
  "r_push env fuel = push_with (emit_direct env fuel) (emitReadable_now env fuel)"

definition r_unshift :: "renv \<Rightarrow> nat \<Rightarrow> jsval \<Rightarrow> rstate \<Rightarrow> (bool \<times> rstate) run" where
  "r_unshift env fuel chunk = add_chunk_with (emit_direct env fuel) (emitReadable_now env fuel) chunk [] True"

section \<open>Flowing and piping\<close>

definition resume :: "rstate \<Rightarrow> rstate" where
  "resume s =
     (if r_flowing s \<noteq> Some True then
        (let s1 = s\<lparr>r_flowing := Some True\<rparr> in
         if \<not> r_resumeScheduled s1 then later_r TResume (s1\<lparr>r_resumeScheduled := True\<rparr>) else s1)
      else s)"

definition resume_now :: "renv \<Rightarrow> nat \<Rightarrow> rstate \<Rightarrow> rstate run" where
  \<comment> \<open>\<^verbatim>\<open>resume_\<close>\<close>
  "resume_now env fuel s =
     andthen (if \<not> r_reading s then read_zero env fuel s else done_with s) (\<lambda>s1.
     andthen (flow env fuel (happens_r RResume (s1\<lparr>r_resumeScheduled := False, r_awaitDrain := 0\<rparr>))) (\<lambda>s2.
       if r_flowing s2 = Some True \<and> \<not> r_reading s2 then read_zero env fuel s2 else done_with s2))"

fun read_more :: "renv \<Rightarrow> nat \<Rightarrow> nat \<Rightarrow> rstate \<Rightarrow> rstate run" where
  \<comment> \<open>the loop of \<^verbatim>\<open>maybeReadMore_\<close>\<close>
  "read_more env fuel 0 s = None"
| "read_more env fuel (Suc k) s =
     (if \<not> r_reading s \<and> r_flowing s \<noteq> Some True \<and> \<not> r_ended s \<and> r_length s < r_highWaterMark s then
        andthen (read_zero env fuel s) (\<lambda>s'. if r_length s = r_length s' then done_with s' else read_more env fuel k s')
      else done_with s)"

definition pipe_end :: "bool \<Rightarrow> rstate \<Rightarrow> rstate" where
  \<comment> \<open>\<^verbatim>\<open>onend\<close>, or \<^verbatim>\<open>cleanup\<close>; the \<^verbatim>\<open>ondrain\<close> that \<^verbatim>\<open>cleanup\<close> may call is an operation after it\<close>
  "pipe_end doEnd s = (if doEnd then happens_r RDestEnd s else s\<lparr>r_dataListeners := r_dataListeners s - 1\<rparr>)"

definition end_now :: "rstate \<Rightarrow> rstate" where
  \<comment> \<open>\<^verbatim>\<open>endReadableNT\<close>\<close>
  "end_now s =
     (if \<not> r_endEmitted s \<and> r_length s = 0 then
        (let s1 = happens_r REnd (s\<lparr>r_endEmitted := True, r_readable := False\<rparr>) in
         case r_dest s1 of Some d \<Rightarrow> pipe_end d s1 | None \<Rightarrow> s1)
      else s)"

fun run_rtick :: "renv \<Rightarrow> nat \<Rightarrow> rtick \<Rightarrow> rstate \<Rightarrow> rstate run" where
  "run_rtick env fuel TReadable s = emitReadable_now env fuel s"
| "run_rtick env fuel TMore s = andthen (read_more env fuel fuel s) (\<lambda>s'. done_with (s'\<lparr>r_readingMore := False\<rparr>))"
| "run_rtick env fuel TResume s = resume_now env fuel s"
| "run_rtick env fuel TReadZero s = read_zero env fuel s"
| "run_rtick env fuel TEnd s = done_with (end_now s)"
| "run_rtick env fuel (TPipeEnd doEnd) s = done_with (pipe_end doEnd s)"

definition on_data :: "rstate \<Rightarrow> rstate" where
  "on_data s =
     (let s1 = s\<lparr>r_dataListeners := Suc (r_dataListeners s)\<rparr> in
      if r_flowing s1 \<noteq> Some False then resume s1 else s1)"

definition on_readable :: "renv \<Rightarrow> nat \<Rightarrow> rstate \<Rightarrow> rstate run" where
  "on_readable env fuel s =
     (if \<not> r_endEmitted s \<and> \<not> r_readableListening s then
        (let s1 = s\<lparr>r_readableListening := True, r_needReadable := True, r_emittedReadable := False\<rparr> in
         if \<not> r_reading s1 then done_with (later_r TReadZero s1)
         else if r_length s1 \<noteq> 0 then emitReadable_with (emitReadable_now env fuel) s1
         else done_with s1)
      else done_with s)"

text \<open>\<^verbatim>\<open>pipe\<close> to the first destination; one that is piped to after the end is told so in a tick of its own.\<close>

definition pipe :: "bool \<Rightarrow> rstate \<Rightarrow> rstate" where
  "pipe doEnd s =
     (let s0 = s\<lparr>r_dest := Some doEnd\<rparr>;
          s1 = on_data (if r_endEmitted s0 then later_r (TPipeEnd doEnd) s0 else s0) in
      if r_flowing s1 \<noteq> Some True then resume s1 else s1)"

definition pipeOnDrain :: "renv \<Rightarrow> nat \<Rightarrow> rstate \<Rightarrow> rstate run" where
  "pipeOnDrain env fuel s =
     (let s1 = s\<lparr>r_awaitDrain := r_awaitDrain s - 1\<rparr> in
      if r_awaitDrain s1 = 0 \<and> r_dataListeners s1 > 0 then flow env fuel (s1\<lparr>r_flowing := Some True\<rparr>)
      else done_with s1)"

text \<open>\<^verbatim>\<open>unpipe\<close> and the \<^verbatim>\<open>cleanup\<close> it leads to; the argument is \<^verbatim>\<open>needDrain\<close> of the destination.\<close>

definition unpipe :: "renv \<Rightarrow> nat \<Rightarrow> bool \<Rightarrow> rstate \<Rightarrow> rstate run" where
  "unpipe env fuel needDrain s =
     (if r_dest s = None then done_with s
      else
        let s1 = s\<lparr>r_dest := None, r_flowing := Some False, r_dataListeners := r_dataListeners s - 1\<rparr> in
        if r_awaitDrain s1 > 0 \<and> needDrain then pipeOnDrain env fuel s1 else done_with s1)"

definition isPaused :: "rstate \<Rightarrow> bool" where
  "isPaused s = (r_flowing s = Some False)"

definition setEncoding :: "jsstr \<Rightarrow> rstate \<Rightarrow> rstate result" where
  "setEncoding enc s =
     rbind (new_StringDecoder (Some enc)) (\<lambda>d. Inr (s\<lparr>r_decoder := Some d, r_encoding := Some enc\<rparr>))"

datatype rop =
    RPush jsval "jsstr option" | RUnshift jsval | RRead "int option" | RPauseOp | RResumeOp
  | RSetEncoding jsstr | ROnData | ROnReadable | RPipe bool | RDrain | RUnpipe bool | RTick

definition drop_value :: "('a \<times> rstate) run \<Rightarrow> rstate run" where
  "drop_value m = andthen m (\<lambda>(_, s). done_with s)"

fun r_step :: "renv \<Rightarrow> nat \<Rightarrow> rop \<Rightarrow> rstate \<Rightarrow> rstate run" where
  "r_step env fuel (RPush c enc) s = drop_value (r_push env fuel c enc s)"
| "r_step env fuel (RUnshift c) s = drop_value (r_unshift env fuel c s)"
| "r_step env fuel (RRead n) s = drop_value (r_read env fuel n s)"
| "r_step env fuel RPauseOp s = done_with (pause s)"
| "r_step env fuel RResumeOp s = done_with (resume s)"
| "r_step env fuel (RSetEncoding enc) s = Some (setEncoding enc s)"
| "r_step env fuel ROnData s = done_with (on_data s)"
| "r_step env fuel ROnReadable s = on_readable env fuel s"
| "r_step env fuel (RPipe doEnd) s = done_with (if r_dest s = None then pipe doEnd s else s)"
| "r_step env fuel RDrain s = pipeOnDrain env fuel s"
| "r_step env fuel (RUnpipe needDrain) s = unpipe env fuel needDrain s"
| "r_step env fuel RTick s = (case r_ticks s of [] \<Rightarrow> done_with s | t # ts \<Rightarrow> run_rtick env fuel t (s\<lparr>r_ticks := ts\<rparr>))"

text \<open>
  Reachable states. A chunk given back by \<^verbatim>\<open>unshift\<close> has to be of the kind that \<^verbatim>\<open>read\<close> returns, a Buffer is pushed
  without an encoding, and the encoding is set before there are chunks (those that wait are not decoded).
\<close>

definition right_kind :: "rstate \<Rightarrow> jsval \<Rightarrow> bool" where
  "right_kind s c \<longleftrightarrow> r_objectMode s \<or> (if r_decoder s \<noteq> None then is_string c else is_buffer c)"

fun op_ok :: "rop \<Rightarrow> rstate \<Rightarrow> bool" where
  "op_ok (RPush c enc) s = (is_buffer c \<longrightarrow> enc = None)"
| "op_ok (RUnshift c) s = (right_kind s c \<or> c = JNull)"
| "op_ok (RSetEncoding enc) s = (r_buffer s = [])"
| "op_ok _ s = True"

inductive r_reach :: "renv \<Rightarrow> rstate \<Rightarrow> bool" for env where
  created: "new_Readable obj hwm denc enc = Inr s \<Longrightarrow> r_reach env s"
| stepped: "r_reach env s \<Longrightarrow> op_ok oper s \<Longrightarrow> r_step env fuel oper s = done_with s' \<Longrightarrow> r_reach env s'"

section \<open>The invariant\<close>

fun units :: "jsval \<Rightarrow> int list" where
  "units (JStr t) = map uint t"
| "units (JBuf b) = map uint b"
| "units _ = []"

definition all_units :: "jsval list \<Rightarrow> int list" where
  "all_units cs = concat (map units cs)"

definition content :: "rstate \<Rightarrow> bool" where
  "content s \<longleftrightarrow>
     (if r_objectMode s then r_in s = r_out s @ r_buffer s \<and> r_length s = int (length (r_buffer s))
      else all_units (r_in s) = all_units (r_out s) @ all_units (r_buffer s)
         \<and> r_length s = int (length (all_units (r_buffer s)))
         \<and> (\<forall>c \<in> set (r_buffer s). right_kind s c \<and> units c \<noteq> []))"

fun is_data :: "revent \<Rightarrow> bool" where
  "is_data (RData c) = True"
| "is_data _ = False"

fun after_end :: "bool \<Rightarrow> revent list \<Rightarrow> bool" where
  \<comment> \<open>\<^verbatim>\<open>end\<close> at most once and no data after it; the flag tells whether it has come\<close>
  "after_end ended [] = True"
| "after_end ended (e # es) = ((ended \<longrightarrow> e \<noteq> REnd \<and> \<not> is_data e) \<and> after_end (ended \<or> e = REnd) es)"

definition end_ok :: "rstate \<Rightarrow> bool" where
  "end_ok s \<longleftrightarrow> after_end False (r_events s) \<and> (r_endEmitted s \<longleftrightarrow> REnd \<in> set (r_events s))
     \<and> (r_endEmitted s \<longrightarrow> r_ended s \<and> r_length s = 0) \<and> (TEnd \<in> set (r_ticks s) \<longrightarrow> r_ended s)"

definition enc_ok :: "rstate \<Rightarrow> bool" where
  "enc_ok s \<longleftrightarrow> (r_encoding s \<noteq> None \<longrightarrow> r_decoder s \<noteq> None) \<and> r_defaultEncoding s \<noteq> []"

definition r_inv :: "rstate \<Rightarrow> bool" where
  "r_inv s \<longleftrightarrow> content s \<and> end_ok s \<and> enc_ok s"

lemma all_units_simps [simp]:
  "all_units [] = []" "all_units (c # cs) = units c @ all_units cs" "all_units (cs @ ds) = all_units cs @ all_units ds"
  by (simp_all add: all_units_def)

lemma after_end_append: "after_end b (xs @ ys) \<longleftrightarrow> after_end b xs \<and> after_end (b \<or> REnd \<in> set xs) ys"
  by (induction xs arbitrary: b) (auto simp: disj_commute eq_commute [of REnd])

lemma length_units: "int (length (units c)) = chunk_length c"
  by (cases c) auto

lemma datas_append [simp]: "datas (xs @ ys) = datas xs @ datas ys"
  by (induction xs rule: datas.induct) auto

lemma datas_other: "\<not> is_data e \<Longrightarrow> datas [e] = []"
  by (cases e) auto

lemmas inv_defs = r_out_def r_inv_def content_def end_ok_def enc_ok_def right_kind_def

lemma r_inv_update [simp]:
  "r_inv (s\<lparr>r_highWaterMark := x1\<rparr>) = r_inv s" "r_inv (s\<lparr>r_flowing := x2\<rparr>) = r_inv s" "r_inv (s\<lparr>r_reading := x3\<rparr>) = r_inv s"
  "r_inv (s\<lparr>r_sync := x4\<rparr>) = r_inv s" "r_inv (s\<lparr>r_needReadable := x5\<rparr>) = r_inv s" "r_inv (s\<lparr>r_emittedReadable := x6\<rparr>) = r_inv s"
  "r_inv (s\<lparr>r_readableListening := x7\<rparr>) = r_inv s" "r_inv (s\<lparr>r_resumeScheduled := x8\<rparr>) = r_inv s"
  "r_inv (s\<lparr>r_awaitDrain := x9\<rparr>) = r_inv s" "r_inv (s\<lparr>r_readingMore := x10\<rparr>) = r_inv s"
  "r_inv (s\<lparr>r_readable := x12\<rparr>) = r_inv s" "r_inv (s\<lparr>r_dest := x13\<rparr>) = r_inv s" "r_inv (s\<lparr>r_dataListeners := x14\<rparr>) = r_inv s"
  "r_inv (s\<lparr>r_calls := x16\<rparr>) = r_inv s" "r_inv (s\<lparr>r_emitted := x17\<rparr>) = r_inv s"
  "t \<noteq> TEnd \<Longrightarrow> r_inv (later_r t s) = r_inv s" "r_ended s \<Longrightarrow> r_inv (later_r t s) = r_inv s"
  "r_ticks s = t # ts \<Longrightarrow> r_inv s \<Longrightarrow> r_inv (s\<lparr>r_ticks := ts\<rparr>)"
  by (auto simp: inv_defs later_r_def)

lemma r_inv_ended [simp]: "r_inv s \<Longrightarrow> r_inv (s\<lparr>r_ended := True\<rparr>)"
  by (auto simp: inv_defs)

lemma r_inv_event [simp]: "e \<noteq> REnd \<Longrightarrow> \<not> is_data e \<Longrightarrow> r_inv (happens_r e s) = r_inv s"
  by (auto simp: inv_defs happens_r_def after_end_append datas_other)

section \<open>Taking chunks off the list\<close>

definition kind_ok :: "bool \<Rightarrow> jsval \<Rightarrow> bool" where
  "kind_ok strings c \<longleftrightarrow> (if strings then is_string c else is_buffer c) \<and> units c \<noteq> []"

lemma kind_okE:
  assumes "kind_ok strings c"
  obtains t where "strings" "c = JStr t" "t \<noteq> []" | b where "\<not> strings" "c = JBuf b" "b \<noteq> []"
  using assms by (cases c) (auto simp: kind_ok_def split: if_splits)

lemma strings_of:
  assumes "\<forall>c \<in> set cs. kind_ok True c"
  obtains ts where "cs = map JStr ts" "\<forall>t \<in> set ts. t \<noteq> []"
proof -
  have "cs = map JStr (map to_str cs)" using assms by (induction cs) (auto elim!: kind_okE)
  moreover have "\<forall>t \<in> set (map to_str cs). t \<noteq> []" using assms by (auto elim!: kind_okE)
  ultimately show thesis using that by blast
qed

lemma buffers_of:
  assumes "\<forall>c \<in> set cs. kind_ok False c"
  obtains bs where "cs = map JBuf bs" "\<forall>b \<in> set bs. b \<noteq> []"
proof -
  have "cs = map JBuf (map buf_bytes cs)" using assms by (induction cs) (auto elim!: kind_okE)
  moreover have "\<forall>b \<in> set (map buf_bytes cs). b \<noteq> []" using assms by (auto elim!: kind_okE)
  ultimately show thesis using that by blast
qed

lemma units_strings [simp]: "all_units (map JStr ts) = map uint (concat ts)"
  by (induction ts) auto

lemma units_buffers [simp]: "all_units (map JBuf bs) = map uint (concat bs)"
  by (induction bs) auto

lemma copy_from_spec:
  assumes "\<forall>p \<in> set ps. p \<noteq> []" "n \<le> length (concat ps)" "n > 0"
  shows "fst (copy_from n ps) = take n (concat ps) \<and> concat (snd (copy_from n ps)) = drop n (concat ps)
    \<and> (\<forall>p \<in> set (snd (copy_from n ps)). p \<noteq> [])"
  using assms
proof (induction n ps rule: copy_from.induct)
  case (2 n p ps)
  show ?case
  proof (cases "n > length p")
    case True
    then have "n - length p \<le> length (concat ps)" "n - length p > 0" using 2 by auto
    moreover have "n - length p \<noteq> 0" using True by simp
    ultimately show ?thesis using 2 True by (auto simp: Let_def split: prod.splits)
  qed (use 2 in \<open>auto simp: Let_def\<close>)
qed simp

lemma fill_from_ok: "fill_from n bs = Inr r \<Longrightarrow> length bs = n \<Longrightarrow> r = bs"
proof (cases "int n < K_MAX_LENGTH")
  case True
  assume "fill_from n bs = Inr r" "length bs = n"
  then show "r = bs" unfolding fill_from_def allocUnsafe_nat [OF True] by simp
qed (simp add: fill_from_def allocUnsafe_def checked_def)

lemma partial_first:
  assumes "kind_ok strings h" "\<forall>c \<in> set rest. kind_ok strings c" "n > 0" "int n \<le> chunk_length h"
  shows "\<exists>c cs. fromListPartial n (h # rest) strings = Inr (c, cs) \<and> units c = take n (all_units (h # rest))
    \<and> all_units cs = drop n (all_units (h # rest)) \<and> (\<forall>c \<in> set cs. kind_ok strings c)"
  using assms(1)
proof (cases rule: kind_okE)
  case (1 t)
  then show ?thesis using assms(2-4) by (auto simp: fromListPartial_def kind_ok_def take_map drop_map)
next
  case (2 b)
  then show ?thesis using assms(2-4) by (auto simp: fromListPartial_def kind_ok_def take_map drop_map)
qed

lemma fromListPartial_spec:
  assumes "fromListPartial n cs strings = Inr (c, cs')" "\<forall>c \<in> set cs. kind_ok strings c"
    and "n > 0" "n \<le> length (all_units cs)"
  shows "units c = take n (all_units cs)" "all_units cs' = drop n (all_units cs)" "\<forall>c \<in> set cs'. kind_ok strings c"
proof -
  obtain h rest where cs: "cs = h # rest" using assms(3,4) by (cases cs) auto
  have "units c = take n (all_units cs) \<and> all_units cs' = drop n (all_units cs) \<and> (\<forall>c \<in> set cs'. kind_ok strings c)"
  proof (cases "int n \<le> chunk_length h")
    case True
    then show ?thesis using partial_first [of strings h rest n] assms cs by auto
  next
    case False
    then have F: "fromListPartial n cs strings =
        (if strings then (let (r, l) = copy_from n (map to_str cs) in Inr (JStr r, map JStr l))
         else (let (r, l) = copy_from n (map buf_bytes cs) in rbind (fill_from n r) (\<lambda>r. Inr (JBuf r, map JBuf l))))"
      by (simp add: fromListPartial_def cs)
    show ?thesis
    proof (cases strings)
      case True
      then obtain ts where ts: "cs = map JStr ts" "\<forall>t \<in> set ts. t \<noteq> []" using assms(2) strings_of [of cs] by auto
      have "map to_str cs = ts" unfolding ts(1) by (simp add: comp_def)
      moreover have "n \<le> length (concat ts)" using assms(4) ts(1) by simp
      ultimately show ?thesis using copy_from_spec [of ts n] F True assms(1,3) ts
        by (auto simp: kind_ok_def take_map drop_map split: prod.splits)
    next
      case False
      then obtain bs where bs: "cs = map JBuf bs" "\<forall>b \<in> set bs. b \<noteq> []" using assms(2) buffers_of [of cs] by auto
      have "map buf_bytes cs = bs" unfolding bs(1) by (simp add: comp_def)
      moreover have "n \<le> length (concat bs)" using assms(4) bs(1) by simp
      ultimately show ?thesis using copy_from_spec [of bs n] F False assms(1,3) bs
        by (auto simp: kind_ok_def take_map drop_map rbind_eq_Inr dest!: fill_from_ok split: prod.splits)
    qed
  qed
  then show "units c = take n (all_units cs)" "all_units cs' = drop n (all_units cs)" "\<forall>c \<in> set cs'. kind_ok strings c"
    by auto
qed

section \<open>Every operation keeps the invariant\<close>

lemma andthen_done: "andthen m f = done_with y \<longleftrightarrow> (\<exists>x. m = done_with x \<and> f x = done_with y)"
  by (auto simp: andthen_def split: option.splits sum.splits)

lemma content_kinds:
  "r_inv s \<Longrightarrow> \<not> r_objectMode s \<Longrightarrow>
     r_length s = int (length (all_units (r_buffer s))) \<and> (\<forall>c \<in> set (r_buffer s). kind_ok (r_decoder s \<noteq> None) c)"
  by (auto simp: inv_defs kind_ok_def)

lemma r_length_nonneg: "r_inv s \<Longrightarrow> r_length s \<ge> 0"
  by (auto simp: inv_defs split: if_splits)

lemma chunk_positive: "units c \<noteq> [] \<Longrightarrow> chunk_length c > 0"
  using length_units [of c] by (cases "units c") auto

lemma r_length_zero: "r_inv s \<Longrightarrow> r_length s = 0 \<longleftrightarrow> r_buffer s = []"
proof (cases "r_objectMode s")
  case False
  assume "r_inv s"
  moreover have "all_units cs = [] \<longleftrightarrow> cs = []" if "\<forall>c \<in> set cs. kind_ok k c" for cs k
    using that by (cases cs) (auto simp: kind_ok_def)
  ultimately show "r_length s = 0 \<longleftrightarrow> r_buffer s = []" using content_kinds [of s] False by (metis length_0_conv of_nat_eq_0_iff)
qed (simp add: r_inv_def content_def)

definition owes :: "jsval \<Rightarrow> rstate \<Rightarrow> bool" where
  \<comment> \<open>the invariant holds once the chunk has been handed on\<close>
  "owes c s \<longleftrightarrow> r_inv (happens_r (RData c) s) \<and> \<not> r_endEmitted s"

lemma owes_update [simp]:
  "owes c (s\<lparr>r_needReadable := x1\<rparr>) = owes c s"
  "r_ended s \<Longrightarrow> owes c (later_r t s) = owes c s" "owes c s \<Longrightarrow> owes c (s\<lparr>r_ended := True\<rparr>)"
  by (auto simp: owes_def inv_defs later_r_def happens_r_def)

lemma emit_data_inv: "owes c s \<Longrightarrow> r_inv (emit_data env c s)"
proof -
  assume "owes c s"
  then have "r_inv (happens_r (RData c) (s\<lparr>r_emitted := Suc (r_emitted s)\<rparr>))"
    by (auto simp: owes_def inv_defs happens_r_def split: if_splits)
  then show ?thesis by (simp add: emit_data_def Let_def pause_def)
qed

lemma howMuchToRead_spec:
  assumes "howMuchToRead n s = (k, s')" "r_inv s"
  shows "\<exists>h b. s' = s\<lparr>r_highWaterMark := h, r_needReadable := b\<rparr>" "k \<ge> 0"
    "if r_objectMode s then k \<le> 1 else k \<le> r_length s"
proof -
  have h: "chunk_length c \<le> int (length (all_units (c # cs)))" "chunk_length c \<ge> 0" for c cs
    using length_units [of c] by simp_all
  have same: "\<exists>h b. s = s\<lparr>r_highWaterMark := h, r_needReadable := b\<rparr>"
    by (rule exI [of _ "r_highWaterMark s"], rule exI [of _ "r_needReadable s"]) simp
  have hwm: "\<exists>h' b. s\<lparr>r_highWaterMark := h\<rparr> = s\<lparr>r_highWaterMark := h', r_needReadable := b\<rparr>" for h
    by (rule exI [of _ h], rule exI [of _ "r_needReadable s"]) simp
  have need: "\<exists>h b'. s\<lparr>r_needReadable := b\<rparr> = s\<lparr>r_highWaterMark := h, r_needReadable := b'\<rparr>" for b
    by (rule exI [of _ "r_highWaterMark s"], rule exI [of _ b]) simp
  show "\<exists>h b. s' = s\<lparr>r_highWaterMark := h, r_needReadable := b\<rparr>"
    using assms(1) same hwm need by (auto simp: howMuchToRead_def Let_def split: if_splits option.splits)
  show "k \<ge> 0" using assms r_length_nonneg [OF assms(2)] h(2)
    by (auto simp: howMuchToRead_def Let_def split: if_splits option.splits list.splits)
  show "if r_objectMode s then k \<le> 1 else k \<le> r_length s"
    using assms r_length_nonneg [OF assms(2)] content_kinds [OF assms(2)] h(1)
    by (auto simp: howMuchToRead_def Let_def split: if_splits option.splits list.splits)
qed

lemma fromList_taken:
  assumes "r_inv s" "\<not> r_objectMode s" "r_length s \<noteq> 0" "0 < n" "n \<le> r_length s"
    and "units c = take (nat n) (all_units (r_buffer s))" "all_units cs = drop (nat n) (all_units (r_buffer s))"
    and "\<forall>c \<in> set cs. kind_ok (r_decoder s \<noteq> None) c"
  shows "owes c (s\<lparr>r_buffer := cs, r_length := r_length s - n\<rparr>)"
proof -
  have "all_units (r_buffer s) = units c @ all_units cs" using assms(6,7) by simp
  moreover have "int (length (all_units cs)) = r_length s - n"
    using assms(5,7) assms(4) content_kinds [OF assms(1,2)] by simp
  moreover have "\<not> r_endEmitted s" using assms(1,3) by (auto simp: inv_defs)
  ultimately show ?thesis using assms(1,2,8) by (auto simp: owes_def inv_defs kind_ok_def happens_r_def after_end_append)
qed

lemma joined_units:
  assumes "\<forall>c \<in> set cs. kind_ok True c"
  shows "units (JStr (concat (map to_str cs))) = all_units cs"
  using assms by (induction cs) (auto elim!: kind_okE)

lemma concat_units:
  assumes "\<forall>c \<in> set cs. kind_ok False c"
  shows "map uint (concat (map buf_bytes cs)) = all_units cs"
  using assms by (induction cs) (auto elim!: kind_okE)

lemma fromList_whole:
  assumes "fromList n s = Inr (ret, s')" "r_inv s" "\<not> r_objectMode s" "r_length s \<noteq> 0" "r_length s \<le> n"
  shows "\<exists>c. ret = Some c \<and> s' = s\<lparr>r_buffer := []\<rparr> \<and> units c = all_units (r_buffer s)"
proof -
  note k = content_kinds [OF assms(2,3)]
  show ?thesis
  proof (cases "r_decoder s = None")
    case False
    then show ?thesis using assms k joined_units [of "r_buffer s"] by (auto simp: fromList_def)
  next
    case True
    have len: "length (concat (map buf_bytes (r_buffer s))) = nat (r_length s)"
      using arg_cong [OF concat_units [of "r_buffer s"], of length] k True by simp
    show ?thesis
    proof (cases "length (r_buffer s) \<le> 1")
      case False
      then obtain c d cs where "r_buffer s = c # d # cs"
        by (cases "r_buffer s"; cases "tl (r_buffer s)") auto
      then show ?thesis using assms k True concat_units [of "r_buffer s"] fill_from_ok [OF _ len]
        by (auto simp: fromList_def rbind_eq_Inr)
    next
      case one: True
      then show ?thesis using assms k True
        by (cases "r_buffer s") (auto simp: fromList_def)
    qed
  qed
qed

lemma fromList_inv:
  assumes "fromList n s = Inr (ret, s')" "r_inv s" "n > 0" "if r_objectMode s then n \<le> 1 else n \<le> r_length s"
  shows "(r_length s = 0 \<and> ret = None \<and> s' = s) \<or>
    (\<exists>c cs. ret = Some c \<and> s' = s\<lparr>r_buffer := cs\<rparr> \<and> owes c (s\<lparr>r_buffer := cs, r_length := r_length s - n\<rparr>))"
proof (cases "r_length s = 0")
  case True
  then show ?thesis using assms(1) by (simp add: fromList_def)
next
  case False
  show ?thesis
  proof (cases "r_objectMode s")
    case True
    then obtain c cs where "r_buffer s = c # cs" using False assms(2) by (cases "r_buffer s") (auto simp: inv_defs)
    moreover have "n = 1" using assms(3,4) True by simp
    moreover have "\<not> r_endEmitted s" using False assms(2) by (auto simp: inv_defs)
    ultimately show ?thesis using assms(1,2) True False by (auto simp: fromList_def owes_def inv_defs happens_r_def after_end_append)
  next
    case F: False
    note k = content_kinds [OF assms(2) F]
    have n: "n \<le> r_length s" using assms(4) F by simp
    have "\<exists>c cs. ret = Some c \<and> s' = s\<lparr>r_buffer := cs\<rparr> \<and> units c = take (nat n) (all_units (r_buffer s))
      \<and> all_units cs = drop (nat n) (all_units (r_buffer s)) \<and> (\<forall>c \<in> set cs. kind_ok (r_decoder s \<noteq> None) c)"
    proof (cases "n \<ge> r_length s")
      case True
      then obtain c where "ret = Some c" "s' = s\<lparr>r_buffer := []\<rparr>" "units c = all_units (r_buffer s)"
        using fromList_whole [OF assms(1,2) F False] by blast
      then show ?thesis using k True by (intro exI [of _ c] exI [of _ "[]"]) simp
    next
      case lt: False
      then obtain c cs where "fromListPartial (nat n) (r_buffer s) (r_decoder s \<noteq> None) = Inr (c, cs)"
        "ret = Some c" "s' = s\<lparr>r_buffer := cs\<rparr>"
        using assms(1,3) False F by (auto simp: fromList_def rbind_eq_Inr)
      moreover have "nat n > 0" "nat n \<le> length (all_units (r_buffer s))" using assms(3) n k by auto
      ultimately show ?thesis using fromListPartial_spec k by blast
    qed
    then show ?thesis using fromList_taken [OF assms(2) F False assms(3) n] by blast
  qed
qed

text \<open>Adding a chunk, when what happens at once is known to keep the invariant, or does not happen (\<^verbatim>\<open>sync\<close>).\<close>

definition keeps :: "(rstate \<Rightarrow> rstate run) \<Rightarrow> bool" where
  "keeps f \<longleftrightarrow> (\<forall>s s'. r_inv s \<longrightarrow> f s = done_with s' \<longrightarrow> r_inv s')"

definition keeps_direct :: "(jsval \<Rightarrow> rstate \<Rightarrow> rstate run) \<Rightarrow> bool" where
  "keeps_direct f \<longleftrightarrow> (\<forall>c s s'. owes c s \<longrightarrow> f c s = done_with s' \<longrightarrow> r_inv s')"

lemma keepsD: "keeps f \<Longrightarrow> f s = done_with s' \<Longrightarrow> r_inv s \<Longrightarrow> r_inv s'"
  by (auto simp: keeps_def)

lemma emitReadable_inv:
  assumes "emitReadable_with now s = done_with s'" "r_inv s" "keeps now"
  shows "r_inv s'"
  using assms keepsD [OF assms(3)] by (auto simp: emitReadable_with_def Let_def split: if_splits)

lemma emitReadable_sync:
  assumes "emitReadable_with now s = done_with s'" "r_sync s"
  shows "r_sync s' \<and> r_length s' = r_length s \<and> r_objectMode s' = r_objectMode s"
  using assms by (auto simp: emitReadable_with_def later_r_def Let_def split: if_splits)

lemma r_inv_added:
  assumes "r_inv s" "\<not> r_ended s" "r_objectMode s \<or> kind_ok (r_decoder s \<noteq> None) c"
  shows "r_inv (s\<lparr>r_length := r_length s + chunk_size s c, r_buffer := r_buffer s @ [c], r_in := r_in s @ [c]\<rparr>)"
  using assms by (auto simp: inv_defs chunk_size_def kind_ok_def length_units [symmetric])

lemma r_inv_fronted:
  assumes "r_inv s" "\<not> r_endEmitted s" "r_objectMode s \<or> kind_ok (r_decoder s \<noteq> None) c"
  shows "r_inv (s\<lparr>r_length := r_length s + chunk_size s c, r_buffer := c # r_buffer s, r_in := r_out s @ c # r_buffer s\<rparr>)"
  using assms by (auto simp: inv_defs chunk_size_def kind_ok_def length_units [symmetric])

lemma r_inv_decoder: "r_inv s \<Longrightarrow> r_decoder s \<noteq> None \<Longrightarrow> r_inv (s\<lparr>r_decoder := Some d\<rparr>)"
  by (auto simp: inv_defs)

lemma onEof_inv:
  assumes "onEofChunk_with now s = done_with s'" "r_inv s" "keeps now"
  shows "r_inv s'"
proof (cases "r_ended s")
  case False
  then obtain s1 where s1: "emitReadable_with now (s1\<lparr>r_ended := True\<rparr>) = done_with s'"
    and s: "(case r_decoder s of None \<Rightarrow> done_with s | Some d \<Rightarrow>
              (case sd_end d [] of Inl e \<Rightarrow> Some (Inl e)
               | Inr (chunk, d') \<Rightarrow>
                   done_with (if chunk \<noteq> []
                     then s\<lparr>r_decoder := Some d', r_length := r_length s + chunk_size s (JStr chunk),
                            r_buffer := r_buffer s @ [JStr chunk], r_in := r_in s @ [JStr chunk]\<rparr>
                     else s\<lparr>r_decoder := Some d'\<rparr>))) = done_with s1"
    using assms(1) by (auto simp: onEofChunk_with_def andthen_done)
  have "r_inv s1"
  proof (cases "r_decoder s")
    case (Some d)
    then obtain chunk d' where e: "sd_end d [] = Inr (chunk, d')" using s by (auto split: sum.splits)
    have i: "r_inv (s\<lparr>r_decoder := Some d'\<rparr>)" using r_inv_decoder assms(2) Some by simp
    have "r_objectMode s \<or> chunk = [] \<or> kind_ok True (JStr chunk)" by (simp add: kind_ok_def)
    then show ?thesis using r_inv_added [OF i, of "JStr chunk"] s e i Some False
      by (auto simp: chunk_size_def kind_ok_def split: if_splits)
  qed (use s assms(2) in simp)
  then show ?thesis using emitReadable_inv [OF s1 _ assms(3)] by simp
qed (use assms in \<open>simp add: onEofChunk_with_def\<close>)

definition chunk_ok :: "rstate \<Rightarrow> jsval \<Rightarrow> jsstr \<Rightarrow> bool \<Rightarrow> bool" where
  "chunk_ok s c encoding addToFront \<longleftrightarrow> r_objectMode s
     \<or> (is_buffer c \<and> encoding = [] \<and> (addToFront \<longrightarrow> r_decoder s = None))
     \<or> (is_string c \<and> r_decoder s \<noteq> None \<and> (encoding \<noteq> [] \<or> addToFront)) \<or> (\<not> is_string c \<and> \<not> is_buffer c)"

lemma decode_chunk_inv:
  assumes "decode_chunk s c encoding addToFront = Inr (c', skip, s1)" "r_inv s" "chunk_ok s c encoding addToFront"
    and "r_objectMode s \<or> chunk_length c > 0"
  shows "r_inv s1" "skip \<or> r_objectMode s1 \<or> kind_ok (r_decoder s1 \<noteq> None) c'"
    "r_ended s1 = r_ended s" "r_endEmitted s1 = r_endEmitted s" "r_sync s1 = r_sync s" "r_length s1 = r_length s"
proof -
  have k: "chunk_length c > 0 \<Longrightarrow> is_string c \<or> is_buffer c" "chunk_length c > 0 \<Longrightarrow> units c \<noteq> []"
    by (cases c; auto)+
  show "r_inv s1" using assms(1,2) by (auto simp: decode_chunk_def rbind_eq_Inr intro!: r_inv_decoder split: option.splits if_splits)
  show "skip \<or> r_objectMode s1 \<or> kind_ok (r_decoder s1 \<noteq> None) c'"
    using assms k by (auto simp: decode_chunk_def rbind_eq_Inr chunk_ok_def kind_ok_def split: option.splits if_splits)
  show "r_ended s1 = r_ended s" "r_endEmitted s1 = r_endEmitted s" "r_sync s1 = r_sync s" "r_length s1 = r_length s"
    using assms(1) by (auto simp: decode_chunk_def rbind_eq_Inr split: option.splits if_splits)
qed

lemma maybeReadMore_inv [simp]: "r_inv (maybeReadMore s) = r_inv s"
  by (simp add: maybeReadMore_def)

lemma owes_direct: "r_inv s \<Longrightarrow> r_length s = 0 \<Longrightarrow> \<not> r_endEmitted s \<Longrightarrow> owes c (s\<lparr>r_in := r_in s @ [c]\<rparr>)"
  by (auto simp: owes_def inv_defs happens_r_def after_end_append)

lemma put_chunk_inv:
  assumes "put_chunk_with direct now c front s = done_with s'" "r_inv s" "\<not> r_endEmitted s" "front \<or> \<not> r_ended s"
    and "r_objectMode s \<or> kind_ok (r_decoder s \<noteq> None) c" "keeps now" "r_sync s \<or> keeps_direct direct"
  shows "r_inv s'"
proof (cases "r_flowing s = Some True \<and> r_length s = 0 \<and> \<not> r_sync s")
  case True
  then show ?thesis using assms(1,7) owes_direct [OF assms(2) _ assms(3)]
    by (auto simp: put_chunk_with_def keeps_direct_def)
next
  case False
  define s3 where "s3 = s\<lparr>r_length := r_length s + chunk_size s c,
    r_buffer := (if front then c # r_buffer s else r_buffer s @ [c]),
    r_in := (if front then r_out s @ c # r_buffer s else r_in s @ [c])\<rparr>"
  have "r_inv s3" using r_inv_added [OF assms(2)] r_inv_fronted [OF assms(2)] assms(3-5) by (auto simp: s3_def)
  moreover have "(if r_needReadable s3 then emitReadable_with now s3 else done_with s3) = done_with s'"
    using assms(1) False by (simp add: put_chunk_with_def Let_def s3_def [symmetric])
  ultimately show ?thesis using emitReadable_inv [OF _ _ assms(6)] by (auto split: if_splits)
qed

lemma put_chunk_sync:
  assumes "put_chunk_with direct now c front s = done_with s'" "r_sync s"
  shows "r_sync s' \<and> r_length s' \<ge> r_length s \<and> r_objectMode s' = r_objectMode s"
proof -
  have "chunk_size s c \<ge> 0" using length_units [of c, symmetric] by (simp add: chunk_size_def)
  then show ?thesis using assms emitReadable_sync by (fastforce simp: put_chunk_with_def Let_def split: if_splits)
qed

lemma add_chunk_cases:
  assumes "add_chunk_with direct now c encoding front s = done_with (b, s')"
  obtains e where "s' = happens_r (RError e) s"
  | "onEofChunk_with now (s\<lparr>r_reading := False\<rparr>) = done_with s'"
  | "s' = s" | "s' = s\<lparr>r_reading := False\<rparr>"
  | c' skip s1 s2 s4 where "r_objectMode s \<or> chunk_length c > 0" "front \<or> \<not> r_ended s" "\<not> front \<or> \<not> r_endEmitted s"
      "decode_chunk s c encoding front = Inr (c', skip, s1)" "s2 = (if \<not> front then s1\<lparr>r_reading := False\<rparr> else s1)"
      "(if skip then done_with s2 else put_chunk_with direct now c' front s2) = done_with s4" "s' = maybeReadMore s4"
proof -
  consider "chunkInvalid s c" | "\<not> chunkInvalid s c" "c = JNull"
    | "\<not> chunkInvalid s c" "c \<noteq> JNull" "\<not> (r_objectMode s \<or> chunk_length c > 0)"
    | "\<not> chunkInvalid s c" "c \<noteq> JNull" "r_objectMode s \<or> chunk_length c > 0" "r_ended s \<and> \<not> front \<or> r_endEmitted s \<and> front"
    | "\<not> chunkInvalid s c" "c \<noteq> JNull" "r_objectMode s \<or> chunk_length c > 0"
      "\<not> (r_ended s \<and> \<not> front)" "\<not> (r_endEmitted s \<and> front)" by blast
  then show thesis
  proof cases
    case 1
    then show thesis using assms that(1) by (auto simp: add_chunk_with_def andthen_done)
  next
    case 2
    then show thesis using assms that(2) by (auto simp: add_chunk_with_def andthen_done)
  next
    case 3
    then show thesis using assms that(3,4) by (cases front) (auto simp: add_chunk_with_def andthen_done)
  next
    case 4
    then show thesis using assms that(1) by (cases "r_ended s \<and> \<not> front") (auto simp: add_chunk_with_def andthen_done)
  next
    case 5
    obtain c' skip s1 where d: "decode_chunk s c encoding front = Inr (c', skip, s1)"
      using assms 5 by (cases "decode_chunk s c encoding front") (simp_all add: add_chunk_with_def andthen_done, metis prod_cases3)
    define s2 where "s2 = (if \<not> front then s1\<lparr>r_reading := False\<rparr> else s1)"
    obtain s4 where "(if skip then done_with s2 else put_chunk_with direct now c' front s2) = done_with s4" "s' = maybeReadMore s4"
      using assms 5 d by (simp only: add_chunk_with_def andthen_done if_False if_True sum.case prod.case Let_def s2_def [symmetric]) auto
    then show thesis using that(5) 5 d s2_def by blast
  qed
qed

lemma add_chunk_inv:
  assumes "add_chunk_with direct now c encoding front s = done_with (b, s')" "r_inv s" "chunk_ok s c encoding front"
    and "keeps now" "r_sync s \<or> keeps_direct direct"
  shows "r_inv s'"
  using assms(1)
proof (cases rule: add_chunk_cases)
  case (5 c' skip s1 s2 s4)
  note k = decode_chunk_inv [OF 5(4) assms(2,3) 5(1)]
  have "r_inv s2" "skip \<or> r_objectMode s2 \<or> kind_ok (r_decoder s2 \<noteq> None) c'" "r_sync s2 \<or> keeps_direct direct"
    using k 5(5) assms(5) by simp_all
  moreover have "\<not> r_endEmitted s2" "front \<or> \<not> r_ended s2" using k(3,4) 5(2,3,5) assms(2) by (auto simp: inv_defs)
  ultimately have "r_inv s4" using 5(6) put_chunk_inv [OF _ _ _ _ _ assms(4)] by (cases skip) auto
  then show ?thesis using 5(7) by simp
qed (use assms(2,4) onEof_inv in auto)

lemma onEof_sync:
  assumes "onEofChunk_with now s = done_with s'" "r_sync s"
  shows "r_sync s' \<and> r_length s' \<ge> r_length s \<and> r_objectMode s' = r_objectMode s"
  using assms emitReadable_sync
  by (fastforce simp: onEofChunk_with_def andthen_done chunk_size_def split: option.splits sum.splits if_splits)

lemma add_chunk_sync:
  assumes "add_chunk_with direct now c encoding front s = done_with (b, s')" "r_inv s" "r_sync s"
  shows "r_sync s' \<and> r_length s' \<ge> r_length s \<and> r_objectMode s' = r_objectMode s"
  using assms(1)
proof (cases rule: add_chunk_cases)
  case (5 c' skip s1 s2 s4)
  have "r_sync s2 \<and> r_length s2 = r_length s \<and> r_objectMode s2 = r_objectMode s"
    using 5(4,5) assms(3) by (auto simp: decode_chunk_def rbind_eq_Inr split: option.splits if_splits)
  then have "r_sync s4 \<and> r_length s4 \<ge> r_length s \<and> r_objectMode s4 = r_objectMode s" using 5(6) put_chunk_sync by (cases skip) fastforce+
  then show ?thesis using 5(7) by (simp add: maybeReadMore_def later_r_def)
qed (use assms(3) onEof_sync in \<open>auto simp: happens_r_def dest: onEof_sync\<close>)

lemma push_added:
  assumes "push_with direct now c enc s = done_with (b, s')" "r_inv s" "is_buffer c \<longrightarrow> enc = None"
  obtains c' enc' where "add_chunk_with direct now c' enc' False s = done_with (b, s')" "chunk_ok s c' enc' False"
proof (cases "r_objectMode s")
  case True
  then have "add_chunk_with direct now c (case enc of Some e \<Rightarrow> e | None \<Rightarrow> []) False s = done_with (b, s')"
    using assms(1) by (cases c) (simp_all add: push_with_def)
  then show thesis using that True by (simp add: chunk_ok_def)
next
  case False
  show thesis
  proof (cases c)
    case (JStr t)
    define e where "e = (case enc of Some (c # e) \<Rightarrow> c # e | _ \<Rightarrow> r_defaultEncoding s)"
    have e: "e \<noteq> []" using assms(2) by (auto simp: e_def inv_defs split: option.splits list.splits)
    show thesis
    proof (cases "Some e = r_encoding s")
      case True
      then show thesis using that [of c e] assms(1,2) False JStr e
        by (auto simp: push_with_def e_def [symmetric] chunk_ok_def inv_defs)
    next
      case ne: False
      then obtain buf where "add_chunk_with direct now (JBuf buf) [] False s = done_with (b, s')"
        using assms(1) False JStr by (auto simp: push_with_def Let_def e_def [symmetric] split: sum.splits)
      then show thesis using that by (simp add: chunk_ok_def)
    qed
  qed (use assms(1,3) False that in \<open>auto simp: push_with_def chunk_ok_def\<close>)
qed

lemma push_inv:
  assumes "push_with direct now c enc s = done_with (b, s')" "r_inv s" "is_buffer c \<longrightarrow> enc = None"
    and "keeps now" "r_sync s \<or> keeps_direct direct"
  shows "r_inv s'"
  using push_added [OF assms(1-3)] add_chunk_inv [OF _ assms(2) _ assms(4,5)] by metis

lemma push_sync:
  assumes "push_with direct now c enc s = done_with (b, s')" "r_inv s" "is_buffer c \<longrightarrow> enc = None" "r_sync s"
  shows "r_sync s' \<and> r_length s' \<ge> r_length s \<and> r_objectMode s' = r_objectMode s"
  using push_added [OF assms(1-3)] add_chunk_sync [OF _ assms(2,4)] by metis

lemma push_all_inv:
  assumes "push_all cs s = done_with s'" "r_inv s" "r_sync s"
  shows "r_inv s' \<and> r_length s' \<ge> r_length s \<and> r_objectMode s' = r_objectMode s"
  using assms
proof (induction cs arbitrary: s)
  case (Cons c cs)
  then obtain b s1 where p: "push_with (\<lambda>_. done_with) done_with c None s = done_with (b, s1)" "push_all cs s1 = done_with s'"
    by (auto simp: andthen_done)
  have "keeps done_with" by (simp add: keeps_def)
  then have "r_inv s1" using push_inv [OF p(1)] Cons.prems by simp
  moreover have "r_sync s1 \<and> r_length s1 \<ge> r_length s \<and> r_objectMode s1 = r_objectMode s" using push_sync [OF p(1)] Cons.prems by simp
  ultimately show ?case using Cons.IH [OF p(2)] by simp
qed simp

lemma call_read_inv:
  assumes "call_read env s = done_with s'" "r_inv s"
  shows "r_inv s'" "r_length s' \<ge> r_length s" "r_objectMode s' = r_objectMode s"
  using assms(1) push_all_inv [of "source env (r_calls s)" "s\<lparr>r_calls := Suc (r_calls s), r_sync := True\<rparr>"] assms(2)
  by (auto simp: call_read_def andthen_done)

lemma endReadable_inv: "endReadable s = Inr s' \<Longrightarrow> r_inv s \<Longrightarrow> r_inv s'"
  by (auto simp: endReadable_def split: if_splits)

lemma endReadable_owes: "endReadable s = Inr s' \<Longrightarrow> owes c s \<Longrightarrow> owes c s'"
  by (auto simp: endReadable_def split: if_splits)

text \<open>The second half of \<^verbatim>\<open>read\<close>.\<close>

lemma read_take_inv:
  assumes "read_take env nOrig n s = done_with (ret, s')" "r_inv s" "n \<ge> 0" "if r_objectMode s then n \<le> 1 else n \<le> r_length s"
  shows "r_inv s'"
proof -
  obtain s4 where f: "(if n > 0 then fromList n s else Inr (None, s)) = Inr (ret, s4)"
    using assms(1) by (auto simp: read_take_def Let_def split: sum.splits prod.splits option.splits if_splits)
  show ?thesis
  proof (cases ret)
    case None
    then have "s4 = s" using f fromList_inv [OF _ assms(2) _ assms(4)] assms(3) by (auto split: if_splits)
    then show ?thesis using assms(1,2) None f
      by (auto simp: read_take_def Let_def dest: endReadable_inv split: sum.splits if_splits)
  next
    case (Some c)
    then have "n > 0" using f by (auto split: if_splits)
    then obtain cs where s4: "s4 = s\<lparr>r_buffer := cs\<rparr>" and o: "owes c (s\<lparr>r_buffer := cs, r_length := r_length s - n\<rparr>)"
      using fromList_inv [OF _ assms(2) _ assms(4)] f Some by auto
    show ?thesis using assms(1) f Some o unfolding s4
      by (auto simp: read_take_def Let_def dest!: endReadable_owes [where c = c] intro!: emit_data_inv split: sum.splits if_splits)
  qed
qed

lemma read_some_inv:
  assumes "read_some env nOrig s = done_with (ret, s')" "r_inv s"
  shows "r_inv s'"
proof -
  obtain n s1 where h: "howMuchToRead nOrig s = (n, s1)" by force
  note k = howMuchToRead_spec [OF h assms(2)]
  have s1: "r_inv s1" "r_length s1 = r_length s" "r_objectMode s1 = r_objectMode s" using k(1) assms(2) by auto
  show ?thesis
  proof (cases "n = 0 \<and> r_ended s1")
    case True
    then show ?thesis using assms(1) s1(1) h
      by (auto simp: read_some_def dest: endReadable_inv split: if_splits sum.splits)
  next
    case False
    then obtain m s3 where t: "read_take env nOrig m s3 = done_with (ret, s')"
      and m: "(if r_ended s1 \<or> r_reading s1 \<or> \<not> (r_needReadable s1 \<or> r_length s1 = 0 \<or> r_length s1 - n < r_highWaterMark s1)
               then done_with (n, s1)
               else andthen (call_read env (s1\<lparr>r_reading := True, r_needReadable := r_length s1 = 0 \<or> r_needReadable s1\<rparr>))
                 (\<lambda>s2. done_with (if \<not> r_reading s2 then howMuchToRead nOrig s2 else (n, s2)))) = done_with (m, s3)"
      using assms(1) h by (auto simp: read_some_def Let_def andthen_done)
    have "r_inv s3 \<and> m \<ge> 0 \<and> (if r_objectMode s3 then m \<le> 1 else m \<le> r_length s3)"
    proof (cases "r_ended s1 \<or> r_reading s1 \<or> \<not> (r_needReadable s1 \<or> r_length s1 = 0 \<or> r_length s1 - n < r_highWaterMark s1)")
      case True
      then show ?thesis using m k(2,3) s1 by auto
    next
      case reads: False
      then obtain s2 where c: "call_read env (s1\<lparr>r_reading := True, r_needReadable := r_length s1 = 0 \<or> r_needReadable s1\<rparr>) = done_with s2"
        and s3: "(if \<not> r_reading s2 then howMuchToRead nOrig s2 else (n, s2)) = (m, s3)"
        using m by (simp only: if_False andthen_done) auto
      note s2 = call_read_inv [OF c]
      show ?thesis
      proof (cases "r_reading s2")
        case True
        then show ?thesis using s3 s2 s1 k(2,3) by (auto split: if_splits)
      next
        case False
        then have h2: "howMuchToRead nOrig s2 = (m, s3)" using s3 by simp
        have "r_inv s2" using s2(1) s1(1) by simp
        from howMuchToRead_spec [OF h2 this] this show ?thesis by auto
      qed
    qed
    then show ?thesis using read_take_inv [OF t] by blast
  qed
qed

lemma flow_inv: "flow env fuel s = done_with s' \<Longrightarrow> r_inv s \<Longrightarrow> r_inv s'"
proof (induction fuel arbitrary: s)
  case (Suc fuel)
  show ?case
  proof (cases "r_flowing s = Some True")
    case True
    then obtain ret s1 where r: "read_some env None (s\<lparr>r_emittedReadable := False\<rparr>) = done_with (ret, s1)"
      "(if ret = None then done_with s1 else flow env fuel s1) = done_with s'"
      using Suc.prems(1) by (auto simp: andthen_done)
    moreover have "r_inv s1" using read_some_inv [OF r(1)] Suc.prems(2) by simp
    ultimately show ?thesis using Suc.IH by (auto split: if_splits)
  qed (use Suc.prems in simp)
qed (simp split: if_splits)

lemma emitReadable_now_keeps: "keeps (emitReadable_now env fuel)"
  using flow_inv by (auto simp: keeps_def emitReadable_now_def)

lemma r_read_inv:
  assumes "r_read env fuel n s = done_with (ret, s')" "r_inv s"
  shows "r_inv s'"
proof -
  define s0 where "s0 = (if n \<noteq> Some 0 then s\<lparr>r_emittedReadable := False\<rparr> else s)"
  have "r_inv s0" using assms(2) by (simp add: s0_def)
  then show ?thesis using assms(1) emitReadable_inv [OF _ _ emitReadable_now_keeps] read_some_inv endReadable_inv
    unfolding r_read_def s0_def [symmetric] Let_def
    by (fastforce simp: andthen_done split: if_splits sum.splits)
qed

lemma read_zero_inv: "read_zero env fuel s = done_with s' \<Longrightarrow> r_inv s \<Longrightarrow> r_inv s'"
  using r_read_inv by (fastforce simp: read_zero_def andthen_done)

lemma emit_direct_keeps: "keeps_direct (emit_direct env fuel)"
  using read_zero_inv emit_data_inv by (auto simp: keeps_direct_def emit_direct_def)

lemma r_push_inv: "r_push env fuel c enc s = done_with (b, s') \<Longrightarrow> r_inv s \<Longrightarrow> is_buffer c \<longrightarrow> enc = None \<Longrightarrow> r_inv s'"
  unfolding r_push_def using push_inv emitReadable_now_keeps emit_direct_keeps by blast

lemma r_unshift_inv:
  assumes "r_unshift env fuel c s = done_with (b, s')" "r_inv s" "right_kind s c \<or> c = JNull"
  shows "r_inv s'"
proof -
  have "chunk_ok s c [] True" using assms(3) by (cases c) (auto simp: chunk_ok_def right_kind_def split: if_splits)
  then show ?thesis using add_chunk_inv [OF _ assms(2) _ emitReadable_now_keeps] emit_direct_keeps assms(1)
    by (auto simp: r_unshift_def)
qed

lemma resume_inv [simp]: "r_inv (resume s) = r_inv s"
  by (simp add: resume_def Let_def)

lemma on_data_inv [simp]: "r_inv (on_data s) = r_inv s"
  by (simp add: on_data_def Let_def)

lemma resume_now_inv: "resume_now env fuel s = done_with s' \<Longrightarrow> r_inv s \<Longrightarrow> r_inv s'"
  unfolding resume_now_def andthen_done using read_zero_inv flow_inv by (fastforce split: if_splits)

lemma read_more_inv: "read_more env fuel k s = done_with s' \<Longrightarrow> r_inv s \<Longrightarrow> r_inv s'"
proof (induction k arbitrary: s)
  case (Suc k)
  then show ?case using read_zero_inv by (fastforce simp: andthen_done split: if_splits)
qed simp

lemma end_now_inv: "r_inv s \<Longrightarrow> r_ended s \<Longrightarrow> r_inv (end_now s)"
  by (auto simp: end_now_def Let_def pipe_end_def inv_defs happens_r_def after_end_append split: option.splits)

lemma run_rtick_inv:
  assumes "run_rtick env fuel t (s\<lparr>r_ticks := ts\<rparr>) = done_with s'" "r_inv s" "r_ticks s = t # ts"
  shows "r_inv s'"
proof -
  have i: "r_inv (s\<lparr>r_ticks := ts\<rparr>)" using assms(2,3) by simp
  show ?thesis
  proof (cases t)
    case TReadable
    then show ?thesis using assms(1) i keepsD [OF emitReadable_now_keeps] by simp
  next
    case TMore
    then show ?thesis using assms(1) i read_more_inv by (fastforce simp: andthen_done)
  next
    case TResume
    then show ?thesis using assms(1) i resume_now_inv by simp
  next
    case TReadZero
    then show ?thesis using assms(1) i read_zero_inv by simp
  next
    case TEnd
    then have "r_ended s" using assms(2,3) by (auto simp: inv_defs)
    then show ?thesis using assms(1) TEnd end_now_inv [OF i] by auto
  next
    case (TPipeEnd d)
    then show ?thesis using assms(1) i by (auto simp: pipe_end_def split: if_splits)
  qed
qed

lemma pipeOnDrain_inv: "pipeOnDrain env fuel s = done_with s' \<Longrightarrow> r_inv s \<Longrightarrow> r_inv s'"
  using flow_inv by (fastforce simp: pipeOnDrain_def Let_def split: if_splits)

lemma r_step_inv:
  assumes "r_step env fuel oper s = done_with s'" "r_inv s" "op_ok oper s"
  shows "r_inv s'"
proof (cases oper)
  case (RPush c enc)
  then show ?thesis using assms r_push_inv by (auto simp: drop_value_def andthen_done)
next
  case (RUnshift c)
  then show ?thesis using assms r_unshift_inv by (auto simp: drop_value_def andthen_done)
next
  case (RRead n)
  then show ?thesis using assms r_read_inv by (auto simp: drop_value_def andthen_done)
next
  case RPauseOp
  then show ?thesis using assms by (auto simp: pause_def)
next
  case (RSetEncoding enc)
  then obtain d where "s' = s\<lparr>r_decoder := Some d, r_encoding := Some enc\<rparr>" using assms(1)
    by (auto simp: setEncoding_def rbind_eq_Inr)
  then show ?thesis using assms(2,3) RSetEncoding by (simp add: inv_defs split: if_splits)
next
  case ROnReadable
  then show ?thesis using assms emitReadable_inv [OF _ _ emitReadable_now_keeps]
    by (fastforce simp: on_readable_def Let_def split: if_splits)
next
  case (RPipe d)
  then show ?thesis using assms by (auto simp: pipe_def Let_def split: if_splits)
next
  case RDrain
  then show ?thesis using assms pipeOnDrain_inv by simp
next
  case (RUnpipe d)
  then show ?thesis using assms pipeOnDrain_inv by (fastforce simp: unpipe_def Let_def split: if_splits)
next
  case RTick
  then show ?thesis using assms run_rtick_inv by (auto split: list.splits)
next
  case RResumeOp
  then show ?thesis using assms(1,2) by auto
next
  case ROnData
  then show ?thesis using assms(1,2) by auto
qed

lemma new_Readable_inv: "new_Readable obj hwm denc enc = Inr s \<Longrightarrow> r_inv s"
  by (auto simp: new_Readable_def rbind_eq_Inr inv_defs js_def split: option.splits list.splits)

lemma r_reach_inv: "r_reach env s \<Longrightarrow> r_inv s"
  by (induction rule: r_reach.induct) (auto intro: new_Readable_inv r_step_inv)

section \<open>Order, the end, and draining\<close>

text \<open>
  \<^bold>\<open>C34.\<close> What a listener or a destination has got so far, followed by the chunks that wait, is what was pushed, in the
  same order: chunk by chunk in object mode, byte by byte (or code unit by code unit) otherwise. Asking for any
  number of bytes, pausing, piping, flowing and giving chunks back with \<^verbatim>\<open>unshift\<close> neither lose, repeat nor reorder any.
\<close>

theorem readable_in_order:
  assumes "r_reach env s"
  shows "if r_objectMode s then r_in s = r_out s @ r_buffer s
         else all_units (r_in s) = all_units (r_out s) @ all_units (r_buffer s)"
  using r_reach_inv [OF assms] by (simp add: r_inv_def content_def split: if_splits)


text \<open>A source that pushes later, not while \<^verbatim>\<open>_read\<close> runs: each turn of \<^verbatim>\<open>flow\<close> hands on the first chunk.\<close>

lemma fromList_first:
  assumes "r_inv s" "r_buffer s = c # cs" "k = (if r_objectMode s then 1 else chunk_length c)"
  shows "fromList k s = Inr (Some c, s\<lparr>r_buffer := cs\<rparr>)"
proof (cases "r_objectMode s")
  case True
  then show ?thesis using assms by (auto simp: fromList_def inv_defs)
next
  case False
  have k: "kind_ok (r_decoder s \<noteq> None) c" "\<forall>c \<in> set cs. kind_ok (r_decoder s \<noteq> None) c"
    "r_length s = chunk_length c + int (length (all_units cs))" "chunk_length c > 0"
    using content_kinds [OF assms(1) False] assms(2) length_units [of c] chunk_positive [of c]
    by (auto simp: kind_ok_def)
  show ?thesis
  proof (cases "cs = []")
    case True
    then show ?thesis using k assms(2,3) False by (auto simp: fromList_def elim!: kind_okE)
  next
    case more: False
    then have "all_units cs \<noteq> []" using k(2) by (cases cs) (auto simp: kind_ok_def)
    then have "k < r_length s" using k(3) assms(3) False by simp
    then show ?thesis using k(3,4) assms(2,3) False by (simp add: fromList_def fromListPartial_def)
  qed
qed

lemma quiet_call:
  assumes "\<forall>n. source env n = []"
  shows "call_read env s = done_with (s\<lparr>r_calls := Suc (r_calls s), r_sync := False\<rparr>)"
  using assms by (simp add: call_read_def andthen_def)

lemma emit_data_simps [simp]:
  "r_buffer (emit_data env c s) = r_buffer s" "r_length (emit_data env c s) = r_length s"
  by (simp_all add: emit_data_def happens_r_def pause_def Let_def)

lemma emit_data_flowing: "\<forall>n. \<not> full env n \<Longrightarrow> r_flowing (emit_data env c s) = r_flowing s"
  by (simp add: emit_data_def happens_r_def)

lemma endReadable_zero:
  "r_length s = 0 \<Longrightarrow> \<exists>s'. endReadable s = Inr s' \<and> r_buffer s' = r_buffer s \<and> r_flowing s' = r_flowing s"
  by (auto simp: endReadable_def later_r_def)

lemma read_take_first:
  assumes "r_inv s" "r_buffer s = c # cs" "k = (if r_objectMode s then 1 else chunk_length c)"
  shows "\<exists>s'. read_take env None k s = done_with (Some c, s') \<and> r_buffer s' = cs
    \<and> ((\<forall>n. \<not> full env n) \<longrightarrow> r_flowing s' = r_flowing s)"
proof -
  have "k > 0" using assms by (auto simp: inv_defs chunk_positive)
  define s1 where "s1 = s\<lparr>r_buffer := cs, r_length := r_length s - k\<rparr>"
  define s2 where "s2 = (if r_length s1 = 0 \<and> \<not> r_ended s1 then s1\<lparr>r_needReadable := True\<rparr> else s1)"
  have "\<exists>s3. (if r_length s2 = 0 \<and> r_ended s2 then endReadable s2 else Inr s2) = Inr s3
      \<and> r_buffer s3 = cs \<and> r_flowing s3 = r_flowing s"
    using endReadable_zero [of s2] by (auto simp: s2_def s1_def)
  then obtain s3 where "(if r_length s2 = 0 \<and> r_ended s2 then endReadable s2 else Inr s2) = Inr s3" "r_buffer s3 = cs"
    "r_flowing s3 = r_flowing s"
    by blast
  moreover have "read_take env None k s =
      (case (if r_length s2 = 0 \<and> r_ended s2 then endReadable s2 else Inr s2) of
         Inl e \<Rightarrow> Some (Inl e) | Inr s4 \<Rightarrow> done_with (Some c, emit_data env c s4))"
    using \<open>k > 0\<close> fromList_first [OF assms] by (simp add: read_take_def Let_def s1_def s2_def split: sum.splits)
  ultimately show ?thesis using emit_data_flowing by simp
qed

lemma quiet_read:
  assumes "\<forall>n. source env n = []" "r_inv s" "r_flowing s = Some True" "r_buffer s = c # cs"
  shows "\<exists>s'. read_some env None s = done_with (Some c, s') \<and> r_buffer s' = cs
    \<and> ((\<forall>n. \<not> full env n) \<longrightarrow> r_flowing s' = r_flowing s)"
proof -
  define k where "k = (if r_objectMode s then 1 else chunk_length c)"
  have l: "r_length s \<noteq> 0" using r_length_zero [OF assms(2)] assms(4) by simp
  have h: "howMuchToRead None s = (k, s)" using l assms(3,4) by (simp add: howMuchToRead_def k_def)
  have "k > 0" using assms(2,4) by (auto simp: k_def inv_defs chunk_positive)
  define s1 where "s1 = s\<lparr>r_reading := True, r_needReadable := r_length s = 0 \<or> r_needReadable s,
    r_calls := Suc (r_calls s), r_sync := False\<rparr>"
  have "\<exists>s'. read_take env None k s1 = done_with (Some c, s') \<and> r_buffer s' = cs
    \<and> ((\<forall>n. \<not> full env n) \<longrightarrow> r_flowing s' = r_flowing s)"
    using read_take_first [of s1 c cs k env] assms(2,4) by (simp add: s1_def k_def)
  moreover have "\<exists>s'. read_take env None k s = done_with (Some c, s') \<and> r_buffer s' = cs
    \<and> ((\<forall>n. \<not> full env n) \<longrightarrow> r_flowing s' = r_flowing s)"
    by (rule read_take_first [OF assms(2,4)]) (simp add: k_def)
  moreover have "read_some env None s = read_take env None k s \<or> read_some env None s = read_take env None k s1"
    using \<open>k > 0\<close> l by (auto simp: read_some_def h quiet_call [OF assms(1)] andthen_def s1_def)
  ultimately show ?thesis by metis
qed

lemma quiet_read_empty:
  assumes "\<forall>n. source env n = []" "r_inv s" "r_buffer s = []"
  shows "\<exists>s'. read_some env None s = done_with (None, s') \<and> r_buffer s' = [] \<and> r_flowing s' = r_flowing s"
proof -
  have l: "r_length s = 0" using r_length_zero [OF assms(2)] assms(3) by simp
  have h: "howMuchToRead None s = (if r_ended s \<or> \<not> r_objectMode s then 0 else 1, s)"
    using l by (simp add: howMuchToRead_def)
  have "fromList 1 s' = Inr (None, s')" if "r_length s' = 0" for s' using that by (simp add: fromList_def)
  then show ?thesis using l assms(3) endReadable_zero [OF l]
    by (auto simp: read_some_def h quiet_call [OF assms(1)] andthen_def read_take_def Let_def)
qed

lemma quiet_flow:
  assumes "\<forall>n. source env n = []" "r_inv s" "length (r_buffer s) < fuel"
  shows "\<exists>s'. flow env fuel s = done_with s' \<and> (r_flowing s' = Some True \<longrightarrow> r_buffer s' = [])
    \<and> ((\<forall>n. \<not> full env n) \<longrightarrow> r_flowing s' = r_flowing s)"
  using assms(2,3)
proof (induction fuel arbitrary: s)
  case (Suc fuel)
  show ?case
  proof (cases "r_flowing s = Some True")
    case True
    let ?s = "s\<lparr>r_emittedReadable := False\<rparr>"
    show ?thesis
    proof (cases "r_buffer s")
      case Nil
      then show ?thesis using quiet_read_empty [OF assms(1), of ?s] Suc.prems(1) True by (auto simp: andthen_def)
    next
      case (Cons c cs)
      then obtain s1 where s1: "read_some env None ?s = done_with (Some c, s1)" "r_buffer s1 = cs"
        "(\<forall>n. \<not> full env n) \<longrightarrow> r_flowing s1 = r_flowing s"
        using quiet_read [OF assms(1), of ?s c cs] Suc.prems(1) True by auto
      have "r_inv s1" using read_some_inv [OF s1(1)] Suc.prems(1) by simp
      then show ?thesis using Suc.IH [of s1] Suc.prems(2) s1 Cons True by (auto simp: andthen_def)
    qed
  qed simp
qed simp

text \<open>
  \<^bold>\<open>C36.\<close> With a source that pushes later, and not while \<^verbatim>\<open>_read\<close> runs, the loop of \<^verbatim>\<open>flow\<close> ends after one turn more
  than there are chunks, without an error. It leaves no chunk behind unless a listener (or a full destination) paused
  the stream.
\<close>

theorem readable_drains:
  assumes "r_reach env s" "\<forall>n. source env n = []"
  shows "\<exists>s'. flow env (Suc (length (r_buffer s))) s = done_with s'
    \<and> (r_flowing s' = Some True \<longrightarrow> r_buffer s' = [] \<and> all_units (r_in s') = all_units (r_out s'))
    \<and> ((\<forall>n. \<not> full env n) \<longrightarrow> r_flowing s' = r_flowing s)"
proof -
  have i: "r_inv s" by (rule r_reach_inv [OF assms(1)])
  then obtain s' where s': "flow env (Suc (length (r_buffer s))) s = done_with s'"
    "r_flowing s' = Some True \<longrightarrow> r_buffer s' = []" "(\<forall>n. \<not> full env n) \<longrightarrow> r_flowing s' = r_flowing s"
    using quiet_flow [OF assms(2) i, of "Suc (length (r_buffer s))"] by auto
  have "r_buffer s' = [] \<Longrightarrow> all_units (r_in s') = all_units (r_out s')"
    using flow_inv [OF s'(1) i] by (simp add: r_inv_def content_def split: if_splits)
  then show ?thesis using s' by auto
qed

text \<open>Runs of operations, evaluated.\<close>

fun r_ops :: "renv \<Rightarrow> nat \<Rightarrow> rop list \<Rightarrow> rstate \<Rightarrow> rstate run" where
  "r_ops env fuel [] s = done_with s"
| "r_ops env fuel (p # ps) s = (if op_ok p s then andthen (r_step env fuel p s) (r_ops env fuel ps) else None)"

lemma r_ops_reach: "r_ops env fuel ps s = done_with s' \<Longrightarrow> r_reach env s \<Longrightarrow> r_reach env s'"
  by (induction ps arbitrary: s) (auto simp: andthen_done split: if_splits intro: r_reach.stepped)

definition later_source :: renv where
  "later_source = \<lparr>source = \<lambda>_. [], full = \<lambda>_. False\<rparr>"

definition sample_run :: "rop list \<Rightarrow> rstate run" where
  "sample_run ops = andthen (Some (new_Readable False None None None)) (r_ops later_source 4 ops)"

definition sample_pushes :: "rop list" where
  "sample_pushes = [RPush (JBuf [1, 2]) None, RPush (JBuf [3]) None, RPush JNull None, RResumeOp]"

lemma sample_run_reach: "sample_run ops = done_with s \<Longrightarrow> r_reach later_source s"
  unfolding sample_run_def andthen_done using r_ops_reach r_reach.created by blast

lemma sample_read:
  "case sample_run (sample_pushes @ [RRead (Some 1)]) of
     Some (Inr s) \<Rightarrow> \<not> r_objectMode s \<and> r_out s = [JBuf [1]] \<and> r_buffer s = [JBuf [2], JBuf [3]] | _ \<Rightarrow> False"
  by code_simp

lemma sample_end:
  "case sample_run (sample_pushes @ [RTick, RTick, RTick, RTick]) of
     Some (Inr s) \<Rightarrow> \<not> r_objectMode s \<and> REnd \<in> set (r_events s) \<and> r_out s = [JBuf [1, 2], JBuf [3]] | _ \<Rightarrow> False"
  by code_simp

lemma sample_flow:
  "case sample_run sample_pushes of
     Some (Inr s) \<Rightarrow> r_flowing s = Some True \<and> r_buffer s = [JBuf [1, 2], JBuf [3]] | _ \<Rightarrow> False"
  by code_simp

theorem readable_in_order_witness:
  "\<exists>s. r_reach later_source s \<and> r_out s = [JBuf [1]] \<and> all_units (r_in s) = [1, 2, 3]"
proof -
  obtain s where s: "sample_run (sample_pushes @ [RRead (Some 1)]) = done_with s" "\<not> r_objectMode s"
    "r_out s = [JBuf [1]]" "r_buffer s = [JBuf [2], JBuf [3]]"
    using sample_read by (auto split: option.splits sum.splits)
  show ?thesis using readable_in_order [OF sample_run_reach [OF s(1)]] sample_run_reach [OF s(1)] s(2-4) by auto
qed


theorem readable_drains_witness:
  "\<exists>s s'. r_reach later_source s \<and> r_buffer s = [JBuf [1, 2], JBuf [3]] \<and> flow later_source 3 s = done_with s'
     \<and> r_buffer s' = [] \<and> all_units (r_in s') = all_units (r_out s')"
proof -
  obtain s where s: "sample_run sample_pushes = done_with s" "r_flowing s = Some True" "r_buffer s = [JBuf [1, 2], JBuf [3]]"
    using sample_flow by (auto split: option.splits sum.splits)
  have "\<forall>n. source later_source n = []" "\<forall>n. \<not> full later_source n" by (simp_all add: later_source_def)
  then show ?thesis using readable_drains [OF sample_run_reach [OF s(1)]] sample_run_reach [OF s(1)] s(2,3)
    by (auto simp: eval_nat_numeral)
qed

end
