(* ===== verification/Writable_Stream.thy ===== *)
theory Writable_Stream
  imports Js_Text
begin

text \<open>
  \<^verbatim>\<open>Writable\<close> of the bundled \<^verbatim>\<open>readable-stream\<close>: the base of every stream the client writes to and of the one that
  feeds its parser. Chunks are handed to \<^verbatim>\<open>_write\<close> one at a time (or together to \<^verbatim>\<open>_writev\<close>), the others wait in a
  buffer; \<^verbatim>\<open>cork\<close> holds chunks back, \<^verbatim>\<open>drain\<close> and \<^verbatim>\<open>finish\<close> report progress. What \<^verbatim>\<open>_write\<close> does is the parameter
  \<open>sink\<close>: at its n-th call it calls back at once or later. The linked list of requests is a list. Callbacks and
  listeners are logged; what they do to the stream is a later operation. A callback is named by a number, and 0 is
  \<^verbatim>\<open>nop\<close>, which stands for a callback that was not given.
\<close>

section \<open>State\<close>

record req =
  r_chunk :: jsval
  r_len :: nat
  r_cb :: nat

datatype wcb = CbWrite nat | CbFinish "req list"   \<comment> \<open>\<^verbatim>\<open>holder.finish\<close> of a \<^verbatim>\<open>CorkedRequest\<close>\<close>

datatype tick = TAfter bool wcb | TError wcb string | TEnd nat

datatype wevent =
    WCalled nat "string option"     \<comment> \<open>callback of a write\<close>
  | WDrain | WPrefinish | WFinish
  | WError string
  | WEnded nat                      \<comment> \<open>callback of \<^verbatim>\<open>end\<close>\<close>

record wstate =
  w_objectMode :: bool
  w_highWaterMark :: int
  w_decodeStrings :: bool
  w_defaultEncoding :: jsstr
  w_writev :: bool                  \<comment> \<open>the stream has a \<^verbatim>\<open>_writev\<close>\<close>
  needDrain :: bool
  ending :: bool
  ended :: bool
  finished :: bool
  w_length :: nat
  writing :: bool
  corked :: nat
  sync :: bool
  bufferProcessing :: bool
  writecb :: "wcb option"
  writelen :: nat
  w_buffer :: "req list"            \<comment> \<open>from \<^verbatim>\<open>bufferedRequest\<close> to \<^verbatim>\<open>lastBufferedRequest\<close>\<close>
  pendingcb :: nat
  prefinished :: bool
  errorEmitted :: bool
  finish_cbs :: "nat list"          \<comment> \<open>\<^verbatim>\<open>once('finish')\<close>\<close>
  w_ticks :: "tick list"
  w_calls :: nat                    \<comment> \<open>calls of \<^verbatim>\<open>_write\<close> and \<^verbatim>\<open>_writev\<close> so far\<close>
  w_accepted :: "jsval list"        \<comment> \<open>chunks that \<^verbatim>\<open>write\<close> took, in order\<close>
  w_sent :: "jsval list"            \<comment> \<open>chunks handed over, in order\<close>
  w_events :: "wevent list"

datatype response = Later | Now "string option"

type_synonym sink = "nat \<Rightarrow> response"

definition new_Writable :: "bool \<Rightarrow> int option \<Rightarrow> bool \<Rightarrow> jsstr \<Rightarrow> bool \<Rightarrow> wstate" where
  "new_Writable objectMode hwm decodeStrings enc writev =
     \<lparr>w_objectMode = objectMode,
      w_highWaterMark = to_int32 (case hwm of Some h \<Rightarrow> h | None \<Rightarrow> if objectMode then 16 else 16 * 1024),
      w_decodeStrings = decodeStrings, w_defaultEncoding = (if enc = [] then js ''utf8'' else enc), w_writev = writev,
      needDrain = False, ending = False, ended = False, finished = False, w_length = 0, writing = False, corked = 0,
      sync = True, bufferProcessing = False, writecb = None, writelen = 0, w_buffer = [], pendingcb = 0,
      prefinished = False, errorEmitted = False, finish_cbs = [], w_ticks = [], w_calls = 0, w_accepted = [],
      w_sent = [], w_events = []\<rparr>"

abbreviation happens :: "wevent \<Rightarrow> wstate \<Rightarrow> wstate" where
  "happens e s \<equiv> s\<lparr>w_events := w_events s @ [e]\<rparr>"

abbreviation later :: "tick \<Rightarrow> wstate \<Rightarrow> wstate" where
  "later t s \<equiv> s\<lparr>w_ticks := w_ticks s @ [t]\<rparr>"

section \<open>Finishing\<close>

definition needFinish :: "wstate \<Rightarrow> bool" where
  "needFinish s \<longleftrightarrow> ending s \<and> w_length s = 0 \<and> w_buffer s = [] \<and> \<not> finished s \<and> \<not> writing s"

definition prefinish :: "wstate \<Rightarrow> wstate" where
  "prefinish s = (if \<not> prefinished s then happens WPrefinish (s\<lparr>prefinished := True\<rparr>) else s)"

definition finishMaybe :: "wstate \<Rightarrow> wstate" where
  "finishMaybe s =
     (if needFinish s then
        (if pendingcb s = 0 then
           (let s1 = happens WFinish ((prefinish s)\<lparr>finished := True\<rparr>) in
            s1\<lparr>w_events := w_events s1 @ map WEnded (finish_cbs s1), finish_cbs := []\<rparr>)
         else prefinish s)
      else s)"

definition endWritable :: "nat option \<Rightarrow> wstate \<Rightarrow> wstate" where
  "endWritable cb s =
     (let s1 = finishMaybe (s\<lparr>ending := True\<rparr>);
          s2 = (case cb of
                  None \<Rightarrow> s1
                | Some f \<Rightarrow> if finished s1 then later (TEnd f) s1 else s1\<lparr>finish_cbs := finish_cbs s1 @ [f]\<rparr>)
      in s2\<lparr>ended := True\<rparr>)"

section \<open>Completion of a write\<close>

definition onwriteDrain :: "wstate \<Rightarrow> wstate" where
  "onwriteDrain s = (if w_length s = 0 \<and> needDrain s then happens WDrain (s\<lparr>needDrain := False\<rparr>) else s)"

fun call_cb :: "wcb \<Rightarrow> string option \<Rightarrow> wstate \<Rightarrow> wstate" where
  "call_cb (CbWrite f) er s = happens (WCalled f er) s"
| "call_cb (CbFinish rs) er s =
     s\<lparr>w_events := w_events s @ map (\<lambda>r. WCalled (r_cb r) er) rs, pendingcb := pendingcb s - length rs\<rparr>"

definition afterWrite :: "bool \<Rightarrow> wcb \<Rightarrow> wstate \<Rightarrow> wstate" where
  "afterWrite fin cb s =
     (let s1 = (if \<not> fin then onwriteDrain s else s);
          s2 = call_cb cb None (s1\<lparr>pendingcb := pendingcb s1 - 1\<rparr>)
      in finishMaybe s2)"

definition onwriteStateUpdate :: "wstate \<Rightarrow> wstate" where
  "onwriteStateUpdate s =
     s\<lparr>writing := False, writecb := None, w_length := w_length s - writelen s, writelen := 0\<rparr>"

definition onwriteError :: "bool \<Rightarrow> string \<Rightarrow> wcb \<Rightarrow> wstate \<Rightarrow> wstate" where
  "onwriteError sy er cb s =
     (let s1 = s\<lparr>pendingcb := pendingcb s - 1\<rparr>;
          s2 = (if sy then later (TError cb er) s1 else call_cb cb (Some er) s1)
      in happens (WError er) (s2\<lparr>errorEmitted := True\<rparr>))"

text \<open>\<open>clear\<close> is \<^verbatim>\<open>clearBuffer\<close>; while it runs, the flag \<^verbatim>\<open>bufferProcessing\<close> keeps completions from calling it.\<close>

definition onwrite_with :: "(wstate \<Rightarrow> wstate) \<Rightarrow> string option \<Rightarrow> wstate \<Rightarrow> wstate" where
  "onwrite_with clear er s =
     (let sy = sync s; cb = the (writecb s); s1 = onwriteStateUpdate s in
      case er of
        Some e \<Rightarrow> onwriteError sy e cb s1
      | None \<Rightarrow>
          (let fin = needFinish s1;
               s2 = (if \<not> fin \<and> corked s1 = 0 \<and> \<not> bufferProcessing s1 \<and> w_buffer s1 \<noteq> [] then clear s1 else s1)
           in if sy then later (TAfter fin cb) s2 else afterWrite fin cb s2))"

definition doWrite_with :: "(wstate \<Rightarrow> wstate) \<Rightarrow> sink \<Rightarrow> nat \<Rightarrow> jsval list \<Rightarrow> wcb \<Rightarrow> wstate \<Rightarrow> wstate" where
  "doWrite_with clear sink len chunks cb s =
     (let s1 = s\<lparr>writelen := len, writecb := Some cb, writing := True, sync := True,
                 w_sent := w_sent s @ chunks, w_calls := Suc (w_calls s)\<rparr>;
          s2 = (case sink (w_calls s) of Later \<Rightarrow> s1 | Now er \<Rightarrow> onwrite_with clear er s1)
      in s2\<lparr>sync := False\<rparr>)"

fun clear_loop :: "sink \<Rightarrow> req list \<Rightarrow> wstate \<Rightarrow> req list \<times> wstate" where
  \<comment> \<open>the slow case: the requests left when a write does not call back at once\<close>
  "clear_loop sink [] s = ([], s)"
| "clear_loop sink (r # rs) s =
     (let s1 = doWrite_with id sink (r_len r) [r_chunk r] (CbWrite (r_cb r)) s in
      if writing s1 then (rs, s1) else clear_loop sink rs s1)"

definition clearBuffer :: "sink \<Rightarrow> wstate \<Rightarrow> wstate" where
  "clearBuffer sink s0 =
     (let s = s0\<lparr>bufferProcessing := True\<rparr>; rs = w_buffer s;
          (rest, s1) =
            (if w_writev s \<and> length rs > 1 then
               (let s1 = doWrite_with id sink (w_length s) (map r_chunk rs) (CbFinish rs) s
                in ([], s1\<lparr>pendingcb := pendingcb s1 + 1\<rparr>))
             else clear_loop sink rs s)
      in s1\<lparr>w_buffer := rest, bufferProcessing := False\<rparr>)"

abbreviation doWrite :: "sink \<Rightarrow> nat \<Rightarrow> jsval list \<Rightarrow> wcb \<Rightarrow> wstate \<Rightarrow> wstate" where
  "doWrite sink \<equiv> doWrite_with (clearBuffer sink) sink"

definition onwrite :: "sink \<Rightarrow> string option \<Rightarrow> wstate \<Rightarrow> wstate" where
  "onwrite sink = onwrite_with (clearBuffer sink)"

section \<open>Operations\<close>

definition decodeChunk :: "wstate \<Rightarrow> jsval \<Rightarrow> jsstr \<Rightarrow> jsval result" where
  "decodeChunk s chunk enc =
     (case chunk of
        JStr t \<Rightarrow> if \<not> w_objectMode s \<and> w_decodeStrings s then rbind (fromString t (Some enc)) (\<lambda>b. Inr (JBuf b)) else Inr chunk
      | _ \<Rightarrow> Inr chunk)"

definition chunk_len :: "wstate \<Rightarrow> jsval \<Rightarrow> nat result" where
  "chunk_len s chunk =
     (if w_objectMode s then Inr 1
      else case chunk of
        JBuf b \<Rightarrow> Inr (length b)
      | JStr t \<Rightarrow> Inr (length t)
      | _ \<Rightarrow> Inl (TypeError ''Cannot read property length of undefined''))"

definition writeOrBuffer :: "sink \<Rightarrow> jsval \<Rightarrow> jsstr \<Rightarrow> nat \<Rightarrow> wstate \<Rightarrow> (bool \<times> wstate) result" where
  "writeOrBuffer sink chunk0 enc cb s0 =
     rbind (decodeChunk s0 chunk0 enc) (\<lambda>chunk.
     rbind (chunk_len s0 chunk) (\<lambda>len.
       let s1 = s0\<lparr>w_length := w_length s0 + len, w_accepted := w_accepted s0 @ [chunk]\<rparr>;
           ret = (int (w_length s1) < w_highWaterMark s1);
           s2 = (if \<not> ret then s1\<lparr>needDrain := True\<rparr> else s1)
       in Inr (ret,
            if writing s2 \<or> corked s2 > 0
            then s2\<lparr>w_buffer := w_buffer s2 @ [\<lparr>r_chunk = chunk, r_len = len, r_cb = cb\<rparr>]\<rparr>
            else doWrite sink len [chunk] (CbWrite cb) s2)))"

definition writeAfterEnd :: "nat \<Rightarrow> wstate \<Rightarrow> wstate" where
  "writeAfterEnd cb s = later (TError (CbWrite cb) ''write after end'') (happens (WError ''write after end'') s)"

definition validChunk :: "wstate \<Rightarrow> jsval \<Rightarrow> string option" where
  \<comment> \<open>the error, if there is one\<close>
  "validChunk s chunk =
     (if chunk = JNull then Some ''May not write null values to stream''
      else if \<not> is_string chunk \<and> chunk \<noteq> JUndef \<and> \<not> w_objectMode s then Some ''Invalid non-string/buffer chunk''
      else None)"

definition w_write :: "sink \<Rightarrow> jsval \<Rightarrow> jsstr option \<Rightarrow> nat \<Rightarrow> wstate \<Rightarrow> (bool \<times> wstate) result" where
  "w_write sink chunk enc cb s =
     (if ended s then Inr (False, writeAfterEnd cb s)
      else case (if is_buffer chunk then None else validChunk s chunk) of
        Some e \<Rightarrow> Inr (False, later (TError (CbWrite cb) e) (happens (WError e) s))
      | None \<Rightarrow>
          writeOrBuffer sink chunk (case enc of Some e \<Rightarrow> e | None \<Rightarrow> w_defaultEncoding s) cb
            (s\<lparr>pendingcb := pendingcb s + 1\<rparr>))"

definition cork :: "wstate \<Rightarrow> wstate" where
  "cork s = s\<lparr>corked := corked s + 1\<rparr>"

definition w_uncork :: "sink \<Rightarrow> wstate \<Rightarrow> wstate" where
  "w_uncork sink s =
     (if corked s > 0 then
        (let s1 = s\<lparr>corked := corked s - 1\<rparr> in
         if \<not> writing s1 \<and> corked s1 = 0 \<and> \<not> finished s1 \<and> \<not> bufferProcessing s1 \<and> w_buffer s1 \<noteq> []
         then clearBuffer sink s1 else s1)
      else s)"

definition w_end :: "sink \<Rightarrow> jsval \<Rightarrow> jsstr option \<Rightarrow> nat option \<Rightarrow> wstate \<Rightarrow> wstate result" where
  "w_end sink chunk enc cb s =
     rbind (if chunk \<noteq> JNull \<and> chunk \<noteq> JUndef then w_write sink chunk enc 0 s else Inr (True, s)) (\<lambda>(_, s1).
       let s2 = (if corked s1 > 0 then w_uncork sink (s1\<lparr>corked := 1\<rparr>) else s1)
       in Inr (if \<not> ending s2 \<and> \<not> finished s2 then endWritable cb s2 else s2))"

fun run_tick :: "tick \<Rightarrow> wstate \<Rightarrow> wstate" where
  "run_tick (TAfter fin cb) s = afterWrite fin cb s"
| "run_tick (TError cb er) s = call_cb cb (Some er) s"
| "run_tick (TEnd f) s = happens (WEnded f) s"

datatype wop =
    OpWrite jsval "jsstr option" nat
  | OpCork
  | OpUncork
  | OpEnd jsval "jsstr option" "nat option"
  | OpDone "string option"       \<comment> \<open>\<^verbatim>\<open>_write\<close> calls back later\<close>
  | OpTick

fun w_step :: "sink \<Rightarrow> wop \<Rightarrow> wstate \<Rightarrow> wstate result" where
  "w_step sink (OpWrite chunk enc cb) s = rbind (w_write sink chunk enc cb s) (\<lambda>(_, s'). Inr s')"
| "w_step sink OpCork s = Inr (cork s)"
| "w_step sink OpUncork s = Inr (w_uncork sink s)"
| "w_step sink (OpEnd chunk enc cb) s = w_end sink chunk enc cb s"
| "w_step sink (OpDone er) s = Inr (if writing s then onwrite sink er s else s)"
| "w_step sink OpTick s = Inr (case w_ticks s of [] \<Rightarrow> s | t # ts \<Rightarrow> run_tick t (s\<lparr>w_ticks := ts\<rparr>))"

text \<open>Reachable states of a stream whose \<^verbatim>\<open>_write\<close> reports no error.\<close>

inductive w_reach :: "sink \<Rightarrow> wstate \<Rightarrow> bool" for sink where
  created: "w_reach sink (new_Writable obj hwm dec enc wv)"
| stepped: "w_reach sink s \<Longrightarrow> w_step sink oper s = Inr s' \<Longrightarrow> (\<And>e. oper \<noteq> OpDone (Some e)) \<Longrightarrow> w_reach sink s'"

definition quiet :: "sink \<Rightarrow> bool" where
  "quiet sink \<longleftrightarrow> (\<forall>n e. sink n \<noteq> Now (Some e))"

section \<open>The invariant\<close>

fun cb_weight :: "wcb \<Rightarrow> nat" where
  "cb_weight (CbWrite f) = 1"
| "cb_weight (CbFinish rs) = Suc (length rs)"

fun cb_count :: "wcb \<Rightarrow> nat" where
  "cb_count (CbWrite f) = 1"
| "cb_count (CbFinish rs) = length rs"

fun tick_weight :: "tick \<Rightarrow> nat" where
  "tick_weight (TAfter fin cb) = cb_weight cb"
| "tick_weight _ = 0"

fun tick_count :: "tick \<Rightarrow> nat" where
  "tick_count (TAfter fin cb) = cb_count cb"
| "tick_count _ = 0"

fun tick_ok :: "bool \<Rightarrow> tick \<Rightarrow> bool" where
  "tick_ok e (TAfter fin cb) = (fin \<longrightarrow> e)"
| "tick_ok e (TError (CbWrite f) er) = True"
| "tick_ok e (TError (CbFinish rs) er) = False"
| "tick_ok e (TEnd f) = True"

fun after_tick :: "tick \<Rightarrow> bool" where
  "after_tick (TAfter fin cb) = True"
| "after_tick _ = False"

fun completed :: "wevent \<Rightarrow> bool" where
  "completed (WCalled f None) = True"
| "completed _ = False"

definition opt_sum :: "(wcb \<Rightarrow> nat) \<Rightarrow> wcb option \<Rightarrow> nat" where
  "opt_sum f o' = (case o' of None \<Rightarrow> 0 | Some cb \<Rightarrow> f cb)"

lemma opt_sum_simps [simp]: "opt_sum f None = 0" "opt_sum f (Some cb) = f cb"
  by (simp_all add: opt_sum_def)

definition base_inv :: "tick list \<Rightarrow> wstate \<Rightarrow> bool" where
  \<comment> \<open>\<open>hs\<close>: completions that are being processed\<close>
  "base_inv hs s \<longleftrightarrow>
     w_sent s @ map r_chunk (w_buffer s) = w_accepted s
   \<and> w_length s = writelen s + sum_list (map r_len (w_buffer s))
   \<and> (\<not> writing s \<longrightarrow> writelen s = 0) \<and> (writing s \<longleftrightarrow> writecb s \<noteq> None)
   \<and> pendingcb s = length (w_buffer s) + opt_sum cb_weight (writecb s) + sum_list (map tick_weight (hs @ w_ticks s))
   \<and> length (filter completed (w_events s)) + length (w_buffer s) + opt_sum cb_count (writecb s)
       + sum_list (map tick_count (hs @ w_ticks s)) = length (w_accepted s)
   \<and> (finished s \<longrightarrow> ending s \<and> w_buffer s = [] \<and> \<not> writing s \<and> pendingcb s = 0)
   \<and> list_all (tick_ok (ending s)) (hs @ w_ticks s)
   \<and> length (filter (\<lambda>e. e = WFinish) (w_events s)) = (if finished s then 1 else 0)
   \<and> (needDrain s \<and> \<not> ending s \<longrightarrow> writing s \<or> w_buffer s \<noteq> [] \<or> list_ex after_tick (hs @ w_ticks s))"

definition w_inv :: "wstate \<Rightarrow> bool" where
  "w_inv s \<longleftrightarrow> base_inv [] s \<and> \<not> bufferProcessing s \<and> (\<not> writing s \<and> corked s = 0 \<longrightarrow> w_buffer s = [])
     \<and> (ending s \<longleftrightarrow> ended s)"

lemma quietD: "quiet sink \<Longrightarrow> sink n = Later \<or> sink n = Now None"
  unfolding quiet_def by (cases "sink n") (auto, metis not_None_eq)

lemma base_inv_irrelevant [simp]:
  "base_inv hs (s\<lparr>bufferProcessing := b\<rparr>) = base_inv hs s" "base_inv hs (s\<lparr>corked := n\<rparr>) = base_inv hs s"
  "base_inv hs (s\<lparr>sync := c\<rparr>) = base_inv hs s" "base_inv hs (s\<lparr>ended := e\<rparr>) = base_inv hs s"
  "base_inv hs (s\<lparr>prefinished := p\<rparr>) = base_inv hs s" "base_inv hs (s\<lparr>finish_cbs := fs\<rparr>) = base_inv hs s"
  by (simp_all add: base_inv_def)

subsection \<open>Emptying the buffer\<close>

lemma doWrite_inner:
  assumes "quiet sink" "bufferProcessing s" "w_buffer s \<noteq> []"
  shows "doWrite_with id sink len chunks cb s =
    (if sink (w_calls s) = Later
     then s\<lparr>writelen := len, writecb := Some cb, writing := True, sync := False, w_sent := w_sent s @ chunks, w_calls := Suc (w_calls s)\<rparr>
     else s\<lparr>writelen := 0, writecb := None, writing := False, sync := False, w_sent := w_sent s @ chunks, w_calls := Suc (w_calls s),
            w_length := w_length s - len, w_ticks := w_ticks s @ [TAfter False cb]\<rparr>)"
  using quietD [OF assms(1), of "w_calls s"] assms(2,3)
  by (auto simp: doWrite_with_def Let_def onwrite_with_def onwriteStateUpdate_def needFinish_def)

lemma clear_loop_inv:
  assumes "quiet sink"
  shows "bufferProcessing s \<Longrightarrow> w_buffer s \<noteq> [] \<Longrightarrow> \<not> writing s \<Longrightarrow> base_inv hs (s\<lparr>w_buffer := rs\<rparr>) \<Longrightarrow>
    clear_loop sink rs s = (rest, s') \<Longrightarrow>
    base_inv hs (s'\<lparr>w_buffer := rest\<rparr>) \<and> (\<not> writing s' \<longrightarrow> rest = []) \<and> ending s' = ending s \<and> ended s' = ended s
    \<and> corked s' = corked s \<and> finished s' = finished s"
proof (induction rs arbitrary: s)
  case Nil
  then show ?case by auto
next
  case (Cons r rs)
  let ?s1 = "doWrite_with id sink (r_len r) [r_chunk r] (CbWrite (r_cb r)) s"
  note d = doWrite_inner [OF assms Cons.prems(1,2), of "r_len r" "[r_chunk r]" "CbWrite (r_cb r)"]
  show ?case
  proof (cases "sink (w_calls s) = Later")
    case True
    then have "rest = rs" "s' = ?s1" using Cons.prems(5) d by auto
    then show ?thesis using True Cons.prems(3,4) d by (auto simp: base_inv_def)
  next
    case False
    have b: "base_inv hs (?s1\<lparr>w_buffer := rs\<rparr>)" using False Cons.prems(3,4) d by (auto simp: base_inv_def)
    have "clear_loop sink rs ?s1 = (rest, s')" using False Cons.prems(5) d by (auto simp: Let_def)
    then have "base_inv hs (s'\<lparr>w_buffer := rest\<rparr>) \<and> (\<not> writing s' \<longrightarrow> rest = []) \<and> ending s' = ending ?s1 \<and> ended s' = ended ?s1
        \<and> corked s' = corked ?s1 \<and> finished s' = finished ?s1"
      using b False Cons.prems(1,2) d by (intro Cons.IH) auto
    then show ?thesis using False d by auto
  qed
qed

lemma clearBuffer_inv:
  assumes "quiet sink" "base_inv hs s" "\<not> writing s" "w_buffer s \<noteq> []" "\<not> bufferProcessing s"
  shows "base_inv hs (clearBuffer sink s) \<and> \<not> bufferProcessing (clearBuffer sink s)
    \<and> (\<not> writing (clearBuffer sink s) \<longrightarrow> w_buffer (clearBuffer sink s) = [])
    \<and> ending (clearBuffer sink s) = ending s \<and> ended (clearBuffer sink s) = ended s
    \<and> corked (clearBuffer sink s) = corked s \<and> finished (clearBuffer sink s) = finished s"
proof (cases "w_writev s \<and> length (w_buffer s) > 1")
  case True
  let ?s = "s\<lparr>bufferProcessing := True\<rparr>"
  have "writelen s = 0" "writecb s = None" "w_length s = sum_list (map r_len (w_buffer s))"
    using assms(2,3) by (auto simp: base_inv_def)
  then show ?thesis
    using True assms doWrite_inner [OF assms(1), of ?s "w_length s" "map r_chunk (w_buffer s)" "CbFinish (w_buffer s)"]
    by (auto simp: clearBuffer_def Let_def base_inv_def)
next
  case False
  let ?s = "s\<lparr>bufferProcessing := True\<rparr>"
  obtain rest s' where c: "clear_loop sink (w_buffer s) ?s = (rest, s')" by (cases "clear_loop sink (w_buffer s) ?s")
  have "?s\<lparr>w_buffer := w_buffer s\<rparr> = ?s" by simp
  then have b: "base_inv hs (?s\<lparr>w_buffer := w_buffer s\<rparr>)" using assms(2) by simp
  have "base_inv hs (s'\<lparr>w_buffer := rest\<rparr>) \<and> (\<not> writing s' \<longrightarrow> rest = []) \<and> ending s' = ending ?s \<and> ended s' = ended ?s
        \<and> corked s' = corked ?s \<and> finished s' = finished ?s"
    using clear_loop_inv [OF assms(1), of ?s hs "w_buffer s" rest s'] assms b c by auto
  moreover have "clearBuffer sink s = s'\<lparr>w_buffer := rest, bufferProcessing := False\<rparr>"
    using False c by (auto simp: clearBuffer_def Let_def)
  moreover have "base_inv hs (s'\<lparr>w_buffer := rest, bufferProcessing := False\<rparr>) = base_inv hs (s'\<lparr>w_buffer := rest\<rparr>)" by simp
  ultimately show ?thesis by simp
qed

subsection \<open>Completions\<close>

lemma base_inv_finishMaybe:
  assumes "base_inv hs s"
  shows "base_inv hs (finishMaybe s)"
proof (cases "needFinish s")
  case True
  then have n: "ending s" "w_buffer s = []" "\<not> writing s" "\<not> finished s" by (simp_all add: needFinish_def)
  then have "writecb s = None" using assms by (simp add: base_inv_def)
  then show ?thesis using assms True n
    by (cases "pendingcb s = 0") (simp_all add: finishMaybe_def prefinish_def Let_def base_inv_def filter_empty_conv)
next
  case False
  then show ?thesis using assms by (simp add: finishMaybe_def)
qed

lemma finishMaybe_frame:
  "writing (finishMaybe s) = writing s" "corked (finishMaybe s) = corked s" "w_buffer (finishMaybe s) = w_buffer s"
  "ending (finishMaybe s) = ending s" "ended (finishMaybe s) = ended s" "bufferProcessing (finishMaybe s) = bufferProcessing s"
  by (simp_all add: finishMaybe_def prefinish_def Let_def)

lemma base_inv_completed:
  assumes "base_inv (TAfter fin cb # hs) s"
  shows "base_inv hs (call_cb cb None ((if \<not> fin then onwriteDrain s else s)\<lparr>pendingcb := pendingcb s - 1\<rparr>))"
  using assms by (cases cb) (auto simp: base_inv_def onwriteDrain_def sum_list_replicate filter_map comp_def)

lemma base_inv_afterWrite: "base_inv (TAfter fin cb # hs) s \<Longrightarrow> base_inv hs (afterWrite fin cb s)"
  using base_inv_finishMaybe [OF base_inv_completed, of fin cb hs s]
  by (auto simp: afterWrite_def Let_def onwriteDrain_def split: if_splits)

lemma afterWrite_frame:
  "writing (afterWrite fin cb s) = writing s" "corked (afterWrite fin cb s) = corked s" "w_buffer (afterWrite fin cb s) = w_buffer s"
  "ending (afterWrite fin cb s) = ending s" "ended (afterWrite fin cb s) = ended s"
  "bufferProcessing (afterWrite fin cb s) = bufferProcessing s"
  by (cases cb; simp add: afterWrite_def Let_def onwriteDrain_def finishMaybe_frame)+

lemma base_inv_later: "base_inv [TAfter fin cb] s \<Longrightarrow> base_inv [] (later (TAfter fin cb) s)"
  by (auto simp: base_inv_def)

subsection \<open>Operations\<close>

lemma w_inv_onwrite:
  assumes "quiet sink" "w_inv s" "writing s"
  shows "w_inv (onwrite sink None s)"
proof -
  obtain cb where cb: "writecb s = Some cb" using assms(2,3) by (auto simp: w_inv_def base_inv_def)
  let ?s1 = "onwriteStateUpdate s"
  let ?fin = "needFinish ?s1"
  let ?s2 = "if \<not> ?fin \<and> corked ?s1 = 0 \<and> \<not> bufferProcessing ?s1 \<and> w_buffer ?s1 \<noteq> [] then clearBuffer sink ?s1 else ?s1"
  have i: "base_inv [] s" "\<not> bufferProcessing s" "ending s = ended s" using assms(2) by (simp_all add: w_inv_def)
  have "?fin \<longrightarrow> ending s" by (simp add: needFinish_def onwriteStateUpdate_def)
  then have b: "base_inv [TAfter ?fin cb] ?s1"
    using i(1) assms(3) cb by (simp add: base_inv_def onwriteStateUpdate_def)
  have u: "\<not> writing ?s1" "\<not> bufferProcessing ?s1" "corked ?s1 = corked s" "w_buffer ?s1 = w_buffer s" "ending ?s1 = ended ?s1"
    using i by (simp_all add: onwriteStateUpdate_def)
  have "?fin \<longrightarrow> w_buffer ?s1 = []" by (simp add: needFinish_def)
  then have s2: "base_inv [TAfter ?fin cb] ?s2" "\<not> bufferProcessing ?s2"
      "\<not> writing ?s2 \<and> corked ?s2 = 0 \<longrightarrow> w_buffer ?s2 = []" "ending ?s2 = ended ?s2"
    using clearBuffer_inv [OF assms(1) b u(1) _ u(2)] b u by auto
  have "w_inv (later (TAfter ?fin cb) ?s2)" "w_inv (afterWrite ?fin cb ?s2)"
    using base_inv_later [OF s2(1)] base_inv_afterWrite [OF s2(1)] s2(2-4) by (simp_all add: w_inv_def afterWrite_frame)
  then show ?thesis using cb by (simp add: onwrite_def onwrite_with_def Let_def)
qed

lemma doWrite_outer:
  assumes "quiet sink" "w_buffer s = []" "\<not> ending s"
  shows "doWrite_with clear sink len chunks cb s =
    (if sink (w_calls s) = Later
     then s\<lparr>writelen := len, writecb := Some cb, writing := True, sync := False, w_sent := w_sent s @ chunks, w_calls := Suc (w_calls s)\<rparr>
     else s\<lparr>writelen := 0, writecb := None, writing := False, sync := False, w_sent := w_sent s @ chunks, w_calls := Suc (w_calls s),
            w_length := w_length s - len, w_ticks := w_ticks s @ [TAfter False cb]\<rparr>)"
  using quietD [OF assms(1), of "w_calls s"] assms(2,3)
  by (auto simp: doWrite_with_def Let_def onwrite_with_def onwriteStateUpdate_def needFinish_def)

lemma base_inv_buffered:
  assumes "base_inv [] s" "\<not> ending s"
  shows "base_inv [] (s\<lparr>pendingcb := pendingcb s + 1, w_length := w_length s + r_len r, w_accepted := w_accepted s @ [r_chunk r],
    needDrain := nd, w_buffer := w_buffer s @ [r]\<rparr>)"
  using assms by (simp add: base_inv_def)

lemma base_inv_handed:
  assumes "base_inv [] s" "\<not> ending s" "w_buffer s = []" "\<not> writing s"
  shows "base_inv [] (s\<lparr>pendingcb := pendingcb s + 1, w_length := w_length s + len, w_accepted := w_accepted s @ [c], needDrain := nd,
      writelen := len, writecb := Some (CbWrite cb), writing := True, sync := False, w_sent := w_sent s @ [c]\<rparr>)"
    and "base_inv [] (s\<lparr>pendingcb := pendingcb s + 1, w_accepted := w_accepted s @ [c], needDrain := nd,
      writelen := 0, writecb := None, writing := False, sync := False, w_sent := w_sent s @ [c], w_calls := Suc (w_calls s), w_ticks := w_ticks s @ [TAfter False (CbWrite cb)]\<rparr>)"
proof -
  have "writecb s = None" "writelen s = 0" using assms by (auto simp: base_inv_def)
  then show "base_inv [] (s\<lparr>pendingcb := pendingcb s + 1, w_length := w_length s + len, w_accepted := w_accepted s @ [c], needDrain := nd,
      writelen := len, writecb := Some (CbWrite cb), writing := True, sync := False, w_sent := w_sent s @ [c]\<rparr>)"
    and "base_inv [] (s\<lparr>pendingcb := pendingcb s + 1, w_accepted := w_accepted s @ [c], needDrain := nd,
      writelen := 0, writecb := None, writing := False, sync := False, w_sent := w_sent s @ [c], w_calls := Suc (w_calls s), w_ticks := w_ticks s @ [TAfter False (CbWrite cb)]\<rparr>)"
    using assms by (simp_all add: base_inv_def)
qed

lemma base_inv_calls [simp]: "base_inv hs (s\<lparr>w_calls := n\<rparr>) = base_inv hs s"
  by (simp add: base_inv_def)

lemma w_inv_writeOrBuffer:
  assumes "quiet sink" "w_inv s" "\<not> ended s"
    and "writeOrBuffer sink chunk enc cb (s\<lparr>pendingcb := pendingcb s + 1\<rparr>) = Inr (r, s')"
  shows "w_inv s'"
proof -
  have i: "base_inv [] s" "\<not> bufferProcessing s" "\<not> ending s" "\<not> writing s \<and> corked s = 0 \<longrightarrow> w_buffer s = []"
    using assms(2,3) by (simp_all add: w_inv_def)
  obtain c len where c: "decodeChunk (s\<lparr>pendingcb := pendingcb s + 1\<rparr>) chunk enc = Inr c"
      "chunk_len (s\<lparr>pendingcb := pendingcb s + 1\<rparr>) c = Inr len"
    using assms(4) by (auto simp: writeOrBuffer_def rbind_eq_Inr)
  define nd where "nd = (if int (w_length s + len) < w_highWaterMark s then needDrain s else True)"
  define s2 where "s2 = s\<lparr>pendingcb := pendingcb s + 1, w_length := w_length s + len, w_accepted := w_accepted s @ [c], needDrain := nd\<rparr>"
  have s2: "s' = (if writing s \<or> corked s > 0 then s2\<lparr>w_buffer := w_buffer s @ [\<lparr>r_chunk = c, r_len = len, r_cb = cb\<rparr>]\<rparr>
      else doWrite sink len [c] (CbWrite cb) s2)"
    using assms(4) c by (auto simp: writeOrBuffer_def Let_def s2_def nd_def)
  show ?thesis
  proof (cases "writing s \<or> corked s > 0")
    case True
    then show ?thesis using s2 i assms(3) base_inv_buffered [OF i(1,3), of "\<lparr>r_chunk = c, r_len = len, r_cb = cb\<rparr>" nd]
      by (auto simp: w_inv_def s2_def)
  next
    case False
    then have n: "w_buffer s = []" "\<not> writing s" using i by auto
    have "base_inv [] s'"
      using s2 False n i(3) base_inv_handed(1) [OF i(1,3) n, where len = len and c = c and nd = nd and cb = cb]
        base_inv_handed(2) [OF i(1,3) n, where c = c and nd = nd and cb = cb]
      by (cases "sink (w_calls s2) = Later") (simp_all add: doWrite_outer [OF assms(1)] s2_def)
    then show ?thesis using s2 False n i assms(3)
      by (auto simp: doWrite_outer [OF assms(1)] s2_def w_inv_def)
  qed
qed

lemma base_inv_event: "\<not> completed e \<Longrightarrow> e \<noteq> WFinish \<Longrightarrow> base_inv hs (happens e s) = base_inv hs s"
  by (simp add: base_inv_def)

lemma base_inv_tick:
  "tick_weight t = 0 \<Longrightarrow> tick_count t = 0 \<Longrightarrow> tick_ok (ending s) t \<Longrightarrow> \<not> after_tick t \<Longrightarrow> base_inv hs (later t s) = base_inv hs s"
  by (simp add: base_inv_def)

lemma w_inv_errors:
  assumes "w_inv s"
  shows "w_inv (s\<lparr>w_events := w_events s @ [WError e'], w_ticks := w_ticks s @ [TError (CbWrite cb) e]\<rparr>)"
  using assms base_inv_tick [of "TError (CbWrite cb) e" "happens (WError e') s" "[]"] base_inv_event [of "WError e'" "[]" s]
  by (simp add: w_inv_def)

lemma w_inv_write: "quiet sink \<Longrightarrow> w_inv s \<Longrightarrow> w_write sink chunk enc cb s = Inr (r, s') \<Longrightarrow> w_inv s'"
  by (auto simp: w_write_def writeAfterEnd_def w_inv_errors split: if_splits option.splits intro: w_inv_writeOrBuffer)

lemma w_inv_corked: "w_inv s \<Longrightarrow> 0 < corked s \<Longrightarrow> w_inv (s\<lparr>corked := Suc n\<rparr>)"
  by (auto simp: w_inv_def)

lemma w_inv_uncork:
  assumes "quiet sink" "w_inv s"
  shows "w_inv (w_uncork sink s)"
proof (cases "corked s > 0")
  case True
  let ?s = "s\<lparr>corked := corked s - 1\<rparr>"
  have i: "base_inv [] ?s" "\<not> bufferProcessing ?s" "ending ?s = ended ?s" "finished ?s \<longrightarrow> w_buffer ?s = []"
    using assms(2) by (auto simp: w_inv_def base_inv_def)
  show ?thesis
  proof (cases "\<not> writing ?s \<and> corked ?s = 0 \<and> w_buffer ?s \<noteq> []")
    case c: True
    then have "w_uncork sink s = clearBuffer sink ?s" using True i by (auto simp: w_uncork_def Let_def)
    then show ?thesis using clearBuffer_inv [OF assms(1) i(1) _ _ i(2)] c i(3) by (simp add: w_inv_def)
  next
    case c: False
    then have "w_uncork sink s = ?s" using True by (auto simp: w_uncork_def Let_def)
    then show ?thesis using i c by (auto simp: w_inv_def)
  qed
next
  case False
  then show ?thesis using assms(2) by (simp add: w_uncork_def)
qed

lemma w_inv_endWritable:
  assumes "w_inv s" "\<not> ending s" "\<not> finished s"
  shows "w_inv (endWritable cb s)"
proof -
  have "list_all (tick_ok True) ts" if "list_all (tick_ok b) ts" for b ts
    using that by (induction ts) (auto elim!: tick_ok.elims)
  then have "base_inv [] (s\<lparr>ending := True\<rparr>)" using assms by (auto simp: w_inv_def base_inv_def)
  then have b: "base_inv [] (finishMaybe (s\<lparr>ending := True\<rparr>))" by (rule base_inv_finishMaybe)
  then have "base_inv [] (later (TEnd f) (finishMaybe (s\<lparr>ending := True\<rparr>)))" for f by (simp add: base_inv_tick)
  then show ?thesis using assms(1) b
    by (auto simp: endWritable_def Let_def w_inv_def finishMaybe_frame split: option.split)
qed

lemma w_inv_end: "quiet sink \<Longrightarrow> w_inv s \<Longrightarrow> w_end sink chunk enc cb s = Inr s' \<Longrightarrow> w_inv s'"
  by (auto simp: w_end_def rbind_eq_Inr Let_def split: if_splits
      intro!: w_inv_endWritable w_inv_uncork w_inv_corked [of _ 0, simplified] intro: w_inv_write)

lemma base_inv_pop: "w_ticks s = hs @ ts \<Longrightarrow> base_inv hs (s\<lparr>w_ticks := ts\<rparr>) = base_inv [] s"
  by (simp add: base_inv_def)

lemma base_inv_drop:
  "tick_weight t = 0 \<Longrightarrow> tick_count t = 0 \<Longrightarrow> \<not> after_tick t \<Longrightarrow> base_inv (t # hs) s \<Longrightarrow> base_inv hs s"
  unfolding base_inv_def by (elim conjE, intro conjI) simp_all

lemma w_inv_tick:
  assumes "w_inv s" "w_ticks s = t # ts"
  shows "w_inv (run_tick t (s\<lparr>w_ticks := ts\<rparr>))"
proof -
  let ?s = "s\<lparr>w_ticks := ts\<rparr>"
  have b: "base_inv [t] ?s" using assms base_inv_pop [of s "[t]" ts] by (simp add: w_inv_def)
  show ?thesis
  proof (cases t)
    case (TAfter fin cb)
    then show ?thesis using base_inv_afterWrite [of fin cb "[]" ?s] b assms(1) by (simp add: w_inv_def afterWrite_frame)
  next
    case (TError cb er)
    then obtain f where f: "cb = CbWrite f" using b by (cases cb) (auto simp: base_inv_def)
    have "base_inv [] ?s" by (rule base_inv_drop [OF _ _ _ b]) (simp_all add: TError)
    then have "base_inv [] (happens (WCalled f (Some er)) ?s)" using base_inv_event [of "WCalled f (Some er)" "[]" ?s] by simp
    then show ?thesis using assms(1) TError f by (simp add: w_inv_def)
  next
    case (TEnd f)
    have "base_inv [] ?s" by (rule base_inv_drop [OF _ _ _ b]) (simp_all add: TEnd)
    then have "base_inv [] (happens (WEnded f) ?s)" using base_inv_event [of "WEnded f" "[]" ?s] by simp
    then show ?thesis using assms(1) TEnd by (simp add: w_inv_def)
  qed
qed

lemma w_reach_inv:
  assumes "w_reach sink s" "quiet sink"
  shows "w_inv s"
  using assms(1)
proof induction
  case (created obj hwm dec enc wv)
  show ?case by (simp add: w_inv_def base_inv_def new_Writable_def)
next
  case (stepped s oper s')
  show ?case
  proof (cases oper)
    case (OpDone er)
    then have "er = None" using stepped.hyps(3) by (cases er) auto
    then show ?thesis using stepped OpDone w_inv_onwrite [OF assms(2)] by auto
  qed (use stepped assms(2) in \<open>auto simp: cork_def rbind_eq_Inr w_inv_tick w_inv_uncork w_inv_corked split: list.splits
         intro: w_inv_write w_inv_end; auto simp: w_inv_def\<close>)+
qed

section \<open>What the stream promises\<close>

text \<open>
  \<^bold>\<open>C27.\<close> First in, first out. In every reachable state of a stream whose \<^verbatim>\<open>_write\<close> reports no errors, whatever the
  order of writes, corking, completions now or later, and whether \<^verbatim>\<open>_writev\<close> is used, the chunks handed to
  \<^verbatim>\<open>_write\<close> followed by the buffered ones are the chunks accepted, in order and each once; and a stream that
  is neither writing nor corked has handed over everything.
\<close>

theorem writable_fifo:
  assumes "w_reach sink s" "quiet sink"
  shows "w_sent s @ map r_chunk (w_buffer s) = w_accepted s \<and> (\<not> writing s \<and> corked s = 0 \<longrightarrow> w_sent s = w_accepted s)"
  using w_reach_inv [OF assms] unfolding w_inv_def base_inv_def by (elim conjE) auto

definition sample_sink :: sink where
  "sample_sink n = (if n = 0 then Later else Now None)"

definition sample_steps :: "wop list" where
  "sample_steps = [OpCork, OpWrite (JBuf [1]) None 1, OpWrite (JBuf [2]) None 2, OpUncork, OpWrite (JBuf [3]) None 3, OpEnd JUndef None None,
     OpDone None, OpTick, OpTick]"

fun w_steps :: "sink \<Rightarrow> wop list \<Rightarrow> wstate \<Rightarrow> wstate result" where
  "w_steps sink [] s = Inr s"
| "w_steps sink (oper # ops) s = rbind (w_step sink oper s) (w_steps sink ops)"

lemma w_reach_steps:
  "w_reach sink s \<Longrightarrow> w_steps sink ops s = Inr s' \<Longrightarrow> list_all (\<lambda>oper. \<forall>e. oper \<noteq> OpDone (Some e)) ops \<Longrightarrow> w_reach sink s'"
proof (induction ops arbitrary: s)
  case (Cons oper ops)
  then show ?case by (auto simp: rbind_eq_Inr intro: w_reach.stepped)
qed simp

lemmas w_eval = new_Writable_def cork_def w_write_def writeOrBuffer_def decodeChunk_def chunk_len_def w_uncork_def clearBuffer_def
  doWrite_with_def onwrite_with_def onwriteStateUpdate_def needFinish_def w_end_def endWritable_def finishMaybe_def prefinish_def
  onwrite_def afterWrite_def onwriteDrain_def Let_def

lemma sample_run:
  "\<exists>s. w_steps sample_sink sample_steps (new_Writable False None True [] False) = Inr s
     \<and> w_accepted s = [JBuf [1], JBuf [2], JBuf [3]] \<and> finished s \<and> w_reach sample_sink s \<and> writing s = False \<and> corked s = 0"
proof -
  obtain s where s: "w_steps sample_sink sample_steps (new_Writable False None True [] False) = Inr s"
      "w_accepted s = [JBuf [1], JBuf [2], JBuf [3]]" "finished s" "writing s = False" "corked s = 0"
    by (simp add: sample_steps_def sample_sink_def w_eval)
  have "w_reach sample_sink s" by (rule w_reach_steps [OF w_reach.created s(1)]) (simp add: sample_steps_def)
  then show ?thesis using s by blast
qed

lemma quiet_sample: "quiet sample_sink"
  by (simp add: quiet_def sample_sink_def)

theorem writable_fifo_witness:
  "\<exists>s. w_reach sample_sink s \<and> w_accepted s = [JBuf [1], JBuf [2], JBuf [3]] \<and> w_sent s = [JBuf [1], JBuf [2], JBuf [3]]"
proof -
  obtain s where s: "w_accepted s = [JBuf [1], JBuf [2], JBuf [3]]" "w_reach sample_sink s" "writing s = False" "corked s = 0"
    using sample_run by blast
  then show ?thesis using writable_fifo [OF s(2) quiet_sample] by auto
qed





definition plain_state :: "wstate \<Rightarrow> bool" where
  "plain_state s \<longleftrightarrow> \<not> ended s \<and> corked s = 0 \<and> \<not> w_objectMode s"

lemma write_step_later:
  assumes "plain_state s"
  shows "\<exists>s'. w_step (\<lambda>_. Later) (OpWrite (JBuf b) None cb) s = Inr s' \<and> plain_state s' \<and> writing s'
    \<and> (writing s' \<longrightarrow> writecb s' = (if writing s then writecb s else Some (CbWrite cb)))
    \<and> w_accepted s' = w_accepted s @ [JBuf b] \<and> w_sent s' = (if writing s then w_sent s else w_sent s @ [JBuf b])
    \<and> map r_chunk (w_buffer s') = (if writing s then map r_chunk (w_buffer s) @ [JBuf b] else map r_chunk (w_buffer s))"
  using assms
  by (simp add: plain_state_def w_write_def writeOrBuffer_def decodeChunk_def chunk_len_def doWrite_with_def Let_def)

lemma failed_step:
  assumes "plain_state s" "writing s" "writecb s = Some (CbWrite cb)"
  shows "\<exists>s'. w_step sink (OpDone (Some e)) s = Inr s' \<and> plain_state s' \<and> \<not> writing s' \<and> w_accepted s' = w_accepted s
    \<and> w_sent s' = w_sent s \<and> w_buffer s' = w_buffer s"
  using assms by (simp add: plain_state_def onwrite_def onwrite_with_def onwriteStateUpdate_def onwriteError_def Let_def)

text \<open>
  \<^bold>\<open>C30.\<close> After an error the order is lost: when \<^verbatim>\<open>_write\<close> reports an error later, the chunks buffered meanwhile stay
  buffered, and the next chunk written is handed over ahead of them.
\<close>

theorem failed_write_overtaken:
  "\<exists>s. w_steps (\<lambda>_. Later) [OpWrite (JBuf a) None 1, OpWrite (JBuf b) None 2, OpDone (Some e), OpWrite (JBuf c) None 3]
       (new_Writable False hwm True enc wv) = Inr s
     \<and> w_accepted s = [JBuf a, JBuf b, JBuf c] \<and> w_sent s = [JBuf a, JBuf c] \<and> map r_chunk (w_buffer s) = [JBuf b]"
proof -
  let ?s0 = "new_Writable False hwm True enc wv" and ?sink = "\<lambda>_. Later"
  have s0: "plain_state ?s0" "\<not> writing ?s0" "w_accepted ?s0 = []" "w_sent ?s0 = []" "w_buffer ?s0 = []"
    by (simp_all add: new_Writable_def plain_state_def)
  obtain s1 where s1: "w_step ?sink (OpWrite (JBuf a) None 1) ?s0 = Inr s1" "plain_state s1" "writing s1"
      "writecb s1 = Some (CbWrite 1)" "w_accepted s1 = [JBuf a]" "w_sent s1 = [JBuf a]" "map r_chunk (w_buffer s1) = []"
    using write_step_later [OF s0(1), of a 1] s0 by auto
  obtain s2 where s2: "w_step ?sink (OpWrite (JBuf b) None 2) s1 = Inr s2" "plain_state s2" "writing s2"
      "writecb s2 = Some (CbWrite 1)" "w_accepted s2 = [JBuf a, JBuf b]" "w_sent s2 = [JBuf a]" "map r_chunk (w_buffer s2) = [JBuf b]"
    using write_step_later [OF s1(2), of b 2] s1 by auto
  obtain s3 where s3: "w_step ?sink (OpDone (Some e)) s2 = Inr s3" "plain_state s3" "\<not> writing s3" "w_accepted s3 = w_accepted s2"
      "w_sent s3 = w_sent s2" "w_buffer s3 = w_buffer s2"
    using failed_step [OF s2(2-4), of ?sink e] by blast
  obtain s4 where s4: "w_step ?sink (OpWrite (JBuf c) None 3) s3 = Inr s4" "w_accepted s4 = w_accepted s3 @ [JBuf c]"
      "w_sent s4 = w_sent s3 @ [JBuf c]" "map r_chunk (w_buffer s4) = map r_chunk (w_buffer s3)"
    using write_step_later [OF s3(2), of c 3] s3(3) by auto
  show ?thesis using s1(1) s2 s3 s4 by (simp del: w_step.simps)
qed

end
