(* ===== verification/Duplexify.thy ===== *)
theory Duplexify
  imports Js_Prelude
begin

text \<open>
  \<^verbatim>\<open>duplexify\<close> with \<^verbatim>\<open>end-of-stream\<close>: the stream that \<^verbatim>\<open>websocket-stream\<close> gives to the client before the socket is
  open. It starts corked; \<^verbatim>\<open>setWritable\<close> and \<^verbatim>\<open>setReadable\<close> attach the streams it stands for. Its own \<^verbatim>\<open>Writable\<close>
  and \<^verbatim>\<open>Readable\<close> halves (\<open>Writable_Stream\<close>, \<open>Readable_Stream\<close>) are its callers: what it asks of them is logged, and
  their calls of \<^verbatim>\<open>_write\<close> and \<^verbatim>\<open>_read\<close> are operations, a write only after the callback of the one before. The
  attached streams are named by numbers; parameters are whether the n-th write to them is accepted without
  pressure, and whether the n-th \<^verbatim>\<open>push\<close> wants more. A function that waits is a value. Listeners of the
  application act later. An attached stream has the states of \<^verbatim>\<open>readable-stream\<close>.
\<close>

section \<open>end-of-stream\<close>

record eos =
  e_readable :: bool
  e_writable :: bool
  e_called :: bool                  \<comment> \<open>\<^verbatim>\<open>once\<close>\<close>

datatype eos_event =
    EEnd | EFinish | EError string
  | EClose bool bool                \<comment> \<open>\<^verbatim>\<open>rs && rs.ended\<close>, \<^verbatim>\<open>ws && ws.ended\<close>\<close>

definition new_eos :: "bool option \<Rightarrow> bool option \<Rightarrow> bool \<Rightarrow> bool \<Rightarrow> eos" where
  \<comment> \<open>\<^verbatim>\<open>opts.readable\<close>, \<^verbatim>\<open>opts.writable\<close>, \<^verbatim>\<open>stream.readable\<close>, \<^verbatim>\<open>stream.writable\<close>\<close>
  "new_eos r w sr sw =
     \<lparr>e_readable = (r = Some True \<or> r \<noteq> Some False \<and> sr), e_writable = (w = Some True \<or> w \<noteq> Some False \<and> sw), e_called = False\<rparr>"

definition eos_call :: "string option \<Rightarrow> eos \<Rightarrow> string option option \<times> eos" where
  "eos_call er e = (if e_called e then (None, e) else (Some er, e\<lparr>e_called := True\<rparr>))"

fun on_eos :: "eos_event \<Rightarrow> eos \<Rightarrow> string option option \<times> eos" where
  \<comment> \<open>the call of the callback, if there is one, with its error\<close>
  "on_eos EEnd e0 = (let e = e0\<lparr>e_readable := False\<rparr> in if \<not> e_writable e then eos_call None e else (None, e))"
| "on_eos EFinish e0 = (let e = e0\<lparr>e_writable := False\<rparr> in if \<not> e_readable e then eos_call None e else (None, e))"
| "on_eos (EError er) e = eos_call (Some er) e"
| "on_eos (EClose rsEnded wsEnded) e =
     (if e_readable e \<and> \<not> rsEnded then eos_call (Some ''premature close'') e
      else if e_writable e \<and> \<not> wsEnded then eos_call (Some ''premature close'') e
      else (None, e))"

section \<open>State\<close>

datatype ddata = Data jsval | Flush    \<comment> \<open>\<open>Flush\<close> is the buffer \<^verbatim>\<open>SIGNAL_FLUSH\<close>, which is told apart by identity\<close>

datatype dwait =
    WWrite ddata nat                \<comment> \<open>\<^verbatim>\<open>_write\<close> with its callback\<close>
  | WEnding nat                     \<comment> \<open>the function of \<^verbatim>\<open>_finish\<close>\<close>
  | WCall nat

datatype dtick = DDestroyTick "string option" | DDrainTick

datatype devent =
    Wrote nat jsval                 \<comment> \<open>to the attached stream\<close>
  | Dropped jsval                   \<comment> \<open>\<^verbatim>\<open>cb()\<close> without a write\<close>
  | Called nat "string option"      \<comment> \<open>callback of \<^verbatim>\<open>_write\<close>\<close>
  | InnerEnd nat | InnerDestroy nat
  | Pushed jsval | PushedEnd | OwnResume
  | OwnWrite ddata | OwnEnd "nat option"
  | DCorked | DUncorked | Preend | Prefinish | DClose | DError string

record dstate =
  dx_writable :: "nat option"
  dx_readable :: "nat option"
  forwardDestroy :: bool
  forwardEnd :: bool
  dx_corked :: nat
  dx_ondrain :: "nat option"
  dx_drained :: bool
  dx_forwarding :: bool
  dx_unwrite :: bool
  write_eos :: "eos option"         \<comment> \<open>listeners on the attached writable stream\<close>
  read_eos :: "eos option"
  dx_ended :: bool
  dx_destroyed :: bool
  own_ending :: bool
  own_prefinished :: bool
  inner_finished :: "nat list"      \<comment> \<open>streams that have emitted \<^verbatim>\<open>finish\<close>\<close>
  enders :: "(nat \<times> nat) list"     \<comment> \<open>streams and the callbacks given to their \<^verbatim>\<open>end\<close>\<close>
  inbox :: "jsval list"             \<comment> \<open>chunks of the attached readable stream, one for each \<^verbatim>\<open>shift\<close>\<close>
  waiting_uncork :: "dwait list"    \<comment> \<open>\<^verbatim>\<open>once('uncork')\<close>\<close>
  dx_ticks :: "dtick list"
  dx_given :: "(ddata \<times> nat) list"  \<comment> \<open>calls of \<^verbatim>\<open>_write\<close>\<close>
  dx_writes :: nat
  dx_pushes :: nat
  dx_events :: "devent list"

record denv =
  accepts :: "nat \<Rightarrow> bool"
  wants_more :: "nat \<Rightarrow> bool"

definition d_happens :: "devent \<Rightarrow> dstate \<Rightarrow> dstate" where
  "d_happens e s = s\<lparr>dx_events := dx_events s @ [e]\<rparr>"

definition d_later :: "dtick \<Rightarrow> dstate \<Rightarrow> dstate" where
  "d_later t s = s\<lparr>dx_ticks := dx_ticks s @ [t]\<rparr>"

section \<open>Writing\<close>

definition onuncork :: "dwait \<Rightarrow> (dstate \<Rightarrow> dstate) \<Rightarrow> dstate \<Rightarrow> dstate" where
  \<comment> \<open>the function is given as a value and as what it does when called at once\<close>
  "onuncork w now s = (if dx_corked s > 0 then s\<lparr>waiting_uncork := waiting_uncork s @ [w]\<rparr> else now s)"

definition call_back :: "nat \<Rightarrow> dstate \<Rightarrow> dstate" where
  "call_back k = d_happens (Called k None)"

definition finished_fn :: "nat \<Rightarrow> dstate \<Rightarrow> dstate" where
  \<comment> \<open>the function that \<^verbatim>\<open>_finish\<close> gives to \<^verbatim>\<open>end\<close>\<close>
  "finished_fn k s = onuncork (WCall k) (call_back k) (d_happens Prefinish (s\<lparr>own_prefinished := True\<rparr>))"

definition end_inner :: "nat \<Rightarrow> dstate \<Rightarrow> dstate" where
  \<comment> \<open>\<^verbatim>\<open>end\<close> of the attached stream\<close>
  "end_inner k s =
     (case (if forwardEnd s then dx_writable s else None) of
        None \<Rightarrow> finished_fn k s
      | Some w \<Rightarrow> if w \<in> set (inner_finished s) then finished_fn k s
                  else d_happens (InnerEnd w) (s\<lparr>enders := enders s @ [(w, k)]\<rparr>))"

definition finish :: "nat \<Rightarrow> dstate \<Rightarrow> dstate" where
  "finish k s = onuncork (WEnding k) (end_inner k) (d_happens Preend s)"

fun drop_data :: "ddata \<Rightarrow> dstate \<Rightarrow> dstate" where
  "drop_data (Data c) s = d_happens (Dropped c) s"
| "drop_data Flush s = s"

definition dx_write :: "denv \<Rightarrow> ddata \<Rightarrow> nat \<Rightarrow> dstate \<Rightarrow> dstate" where
  \<comment> \<open>\<^verbatim>\<open>_write\<close>\<close>
  "dx_write env data k s =
     (if dx_destroyed s then call_back k (drop_data data s)
      else if dx_corked s > 0 then s\<lparr>waiting_uncork := waiting_uncork s @ [WWrite data k]\<rparr>
      else case data of
        Flush \<Rightarrow> finish k s
      | Data c \<Rightarrow>
          (case dx_writable s of
             None \<Rightarrow> call_back k (drop_data data s)
           | Some w \<Rightarrow>
               (let s1 = d_happens (Wrote w c) (s\<lparr>dx_writes := Suc (dx_writes s)\<rparr>) in
                if \<not> accepts env (dx_writes s) then s1\<lparr>dx_ondrain := Some k\<rparr> else call_back k s1)))"

fun run_wait :: "denv \<Rightarrow> dwait \<Rightarrow> dstate \<Rightarrow> dstate" where
  "run_wait env (WWrite data k) s = dx_write env data k s"
| "run_wait env (WEnding k) s = end_inner k s"
| "run_wait env (WCall k) s = call_back k s"

definition d_cork :: "dstate \<Rightarrow> dstate" where
  "d_cork s = (let s1 = s\<lparr>dx_corked := Suc (dx_corked s)\<rparr> in if dx_corked s1 = 1 then d_happens DCorked s1 else s1)"

definition d_uncork :: "denv \<Rightarrow> dstate \<Rightarrow> dstate" where
  "d_uncork env s =
     (if dx_corked s > 0 then
        (let s1 = s\<lparr>dx_corked := dx_corked s - 1\<rparr> in
         if dx_corked s1 = 0
         then fold (run_wait env) (waiting_uncork s1) (d_happens DUncorked (s1\<lparr>waiting_uncork := []\<rparr>))
         else s1)
      else s)"

definition own_end :: "jsval \<Rightarrow> nat option \<Rightarrow> dstate \<Rightarrow> dstate" where
  \<comment> \<open>\<^verbatim>\<open>Duplexify.prototype.end\<close>\<close>
  "own_end data cb s =
     (let s1 = s\<lparr>dx_ended := True\<rparr>;
          s2 = (if truthy data then d_happens (OwnWrite (Data data)) s1 else s1);
          s3 = (if \<not> own_ending s2 then d_happens (OwnWrite Flush) s2 else s2)
      in d_happens (OwnEnd cb) (s3\<lparr>own_ending := True\<rparr>))"

definition d_destroy :: "string option \<Rightarrow> dstate \<Rightarrow> dstate" where
  "d_destroy er s = (if dx_destroyed s then s else d_later (DDestroyTick er) (s\<lparr>dx_destroyed := True\<rparr>))"

definition destroy_now :: "string option \<Rightarrow> dstate \<Rightarrow> dstate" where
  \<comment> \<open>\<^verbatim>\<open>_destroy\<close>\<close>
  "destroy_now er s =
     (let s1 = (case er of
                  None \<Rightarrow> s
                | Some e \<Rightarrow>
                    (case dx_ondrain s of
                       Some k \<Rightarrow> d_happens (Called k (Some e)) (s\<lparr>dx_ondrain := None\<rparr>)
                     | None \<Rightarrow> d_happens (DError e) s));
          s2 = (if forwardDestroy s1 then
                  (let s3 = (case dx_readable s1 of Some r \<Rightarrow> d_happens (InnerDestroy r) s1 | None \<Rightarrow> s1) in
                   case dx_writable s3 of Some w \<Rightarrow> d_happens (InnerDestroy w) s3 | None \<Rightarrow> s3)
                else s1)
      in d_happens DClose s2)"

definition destroyer :: "bool \<Rightarrow> string option \<Rightarrow> dstate \<Rightarrow> dstate" where
  "destroyer doEnd er s =
     (case er of
        Some e \<Rightarrow> d_destroy (if e = ''premature close'' then None else Some e) s
      | None \<Rightarrow> if doEnd \<and> \<not> dx_ended s then own_end JUndef None s else s)"

definition d_ondrain :: "dstate \<Rightarrow> dstate" where
  \<comment> \<open>\<^verbatim>\<open>ondrain\<close> of \<^verbatim>\<open>setWritable\<close>\<close>
  "d_ondrain s = (case dx_ondrain s of None \<Rightarrow> s | Some k \<Rightarrow> call_back k (s\<lparr>dx_ondrain := None\<rparr>))"

definition setWritable :: "denv \<Rightarrow> nat option \<Rightarrow> dstate \<Rightarrow> dstate" where
  \<comment> \<open>\<open>None\<close> is \<^verbatim>\<open>null\<close>\<close>
  "setWritable env w s0 =
     (let s = s0\<lparr>write_eos := None\<rparr> in
      if dx_destroyed s then (case w of Some n \<Rightarrow> d_happens (InnerDestroy n) s | None \<Rightarrow> s)
      else case w of
        None \<Rightarrow> own_end JUndef None s
      | Some n \<Rightarrow>
          (let s1 = (if dx_unwrite s then d_later DDrainTick s else s)
           in d_uncork env (s1\<lparr>dx_writable := Some n, dx_unwrite := True,
                               write_eos := Some (new_eos (Some False) (Some True) True True)\<rparr>)))"

section \<open>Reading\<close>

fun forward_loop :: "denv \<Rightarrow> jsval list \<Rightarrow> dstate \<Rightarrow> dstate" where
  "forward_loop env [] s = s\<lparr>inbox := []\<rparr>"
| "forward_loop env (c # cs) s =
     (if dx_drained s then
        (if dx_destroyed s then forward_loop env cs s
         else forward_loop env cs
           (d_happens (Pushed c) (s\<lparr>dx_drained := wants_more env (dx_pushes s), dx_pushes := Suc (dx_pushes s)\<rparr>)))
      else s\<lparr>inbox := c # cs\<rparr>)"

definition forward :: "denv \<Rightarrow> dstate \<Rightarrow> dstate" where
  "forward env s =
     (if dx_forwarding s \<or> dx_readable s = None \<or> \<not> dx_drained s then s
      else (forward_loop env (inbox s) (s\<lparr>dx_forwarding := True\<rparr>))\<lparr>dx_forwarding := False\<rparr>)"

definition dx_read :: "denv \<Rightarrow> dstate \<Rightarrow> dstate" where
  \<comment> \<open>\<^verbatim>\<open>_read\<close>\<close>
  "dx_read env s = forward env (s\<lparr>dx_drained := True\<rparr>)"

definition setReadable :: "denv \<Rightarrow> nat option \<Rightarrow> jsval list \<Rightarrow> dstate \<Rightarrow> dstate" where
  \<comment> \<open>with the chunks that the stream holds already\<close>
  "setReadable env r cs s0 =
     (let s = s0\<lparr>read_eos := None\<rparr> in
      if dx_destroyed s then (case r of Some n \<Rightarrow> d_happens (InnerDestroy n) s | None \<Rightarrow> s)
      else case r of
        None \<Rightarrow> d_happens OwnResume (d_happens PushedEnd s)
      | Some n \<Rightarrow>
          forward env (s\<lparr>dx_drained := True, dx_readable := Some n, inbox := cs,
                         read_eos := Some (new_eos (Some True) (Some False) True True)\<rparr>))"

section \<open>Events of the attached streams\<close>

definition tell_eos :: "nat \<Rightarrow> eos_event \<Rightarrow> dstate \<Rightarrow> dstate" where
  \<comment> \<open>an event of a stream, the reading side first: that is the order in which \<^verbatim>\<open>websocket-stream\<close> attaches them\<close>
  "tell_eos n ev s =
     (let s1 = (case (if dx_readable s = Some n then read_eos s else None) of
                  None \<Rightarrow> s
                | Some e \<Rightarrow> (let (call, e') = on_eos ev e; s' = s\<lparr>read_eos := Some e'\<rparr>
                             in case call of None \<Rightarrow> s' | Some er \<Rightarrow> destroyer False er s'))
      in case (if dx_writable s1 = Some n then write_eos s1 else None) of
           None \<Rightarrow> s1
         | Some e \<Rightarrow> (let (call, e') = on_eos ev e; s' = s1\<lparr>write_eos := Some e'\<rparr>
                      in case call of None \<Rightarrow> s' | Some er \<Rightarrow> destroyer (forwardEnd s') er s'))"

datatype dop =
    DSetWritable "nat option" | DSetReadable "nat option" "jsval list" | DCork | DUncork
  | DWrite ddata nat | DRead | DDestroy "string option" | DEnd jsval "nat option" | DTick
  | InArrive "jsval list"           \<comment> \<open>data reach the attached readable stream\<close>
  | InReadable | InDrain | InEnd nat | InFinish nat | InClose nat bool bool | InError nat string

fun run_dtick :: "dtick \<Rightarrow> dstate \<Rightarrow> dstate" where
  "run_dtick (DDestroyTick er) s = destroy_now er s"
| "run_dtick DDrainTick s = d_ondrain s"

fun d_step :: "denv \<Rightarrow> dop \<Rightarrow> dstate \<Rightarrow> dstate" where
  "d_step env (DSetWritable w) s = setWritable env w s"
| "d_step env (DSetReadable r cs) s = setReadable env r cs s"
| "d_step env DCork s = d_cork s"
| "d_step env DUncork s = d_uncork env s"
| "d_step env (DWrite data k) s = dx_write env data k (s\<lparr>dx_given := dx_given s @ [(data, k)]\<rparr>)"
| "d_step env DRead s = dx_read env s"
| "d_step env (DDestroy er) s = d_destroy er s"
| "d_step env (DEnd data cb) s = own_end data cb s"
| "d_step env DTick s = (case dx_ticks s of [] \<Rightarrow> s | t # ts \<Rightarrow> run_dtick t (s\<lparr>dx_ticks := ts\<rparr>))"
| "d_step env (InArrive cs) s = s\<lparr>inbox := inbox s @ cs\<rparr>"
| "d_step env InReadable s = forward env s"
| "d_step env InDrain s = (if write_eos s \<noteq> None then d_ondrain s else s)"
| "d_step env (InEnd n) s =
     (let s1 = tell_eos n EEnd s in if read_eos s1 \<noteq> None \<and> dx_readable s1 = Some n then d_happens PushedEnd s1 else s1)"
| "d_step env (InFinish n) s =
     (let s1 = tell_eos n EFinish (s\<lparr>inner_finished := n # inner_finished s\<rparr>);
          ks = map snd (filter (\<lambda>(w, k). w = n) (enders s1))
      in fold finished_fn ks (s1\<lparr>enders := filter (\<lambda>(w, k). w \<noteq> n) (enders s1)\<rparr>))"
| "d_step env (InClose n rsEnded wsEnded) s = tell_eos n (EClose rsEnded wsEnded) s"
| "d_step env (InError n e) s = tell_eos n (EError e) s"

definition new_Duplexify :: "bool \<Rightarrow> bool \<Rightarrow> dstate" where
  \<comment> \<open>without streams\<close>
  "new_Duplexify fd fe =
     \<lparr>dx_writable = None, dx_readable = None, forwardDestroy = fd, forwardEnd = fe, dx_corked = 1, dx_ondrain = None,
      dx_drained = False, dx_forwarding = False, dx_unwrite = False, write_eos = None, read_eos = None,
      dx_ended = False, dx_destroyed = False, own_ending = False, own_prefinished = False, inner_finished = [],
      enders = [], inbox = [], waiting_uncork = [], dx_ticks = [], dx_given = [], dx_writes = 0, dx_pushes = 0,
      dx_events = []\<rparr>"

section \<open>Reachable states\<close>

fun callbacks :: "devent list \<Rightarrow> nat list" where
  "callbacks [] = []"
| "callbacks (Called k er # es) = k # callbacks es"
| "callbacks (_ # es) = callbacks es"

fun handed :: "devent list \<Rightarrow> jsval list" where
  \<comment> \<open>chunks written to an attached stream or dropped\<close>
  "handed [] = []"
| "handed (Wrote n c # es) = c # handed es"
| "handed (Dropped c # es) = c # handed es"
| "handed (_ # es) = handed es"

fun written :: "devent list \<Rightarrow> jsval list" where
  "written [] = []"
| "written (Wrote n c # es) = c # written es"
| "written (_ # es) = written es"

fun data_of :: "ddata list \<Rightarrow> jsval list" where
  "data_of [] = []"
| "data_of (Data c # ds) = c # data_of ds"
| "data_of (Flush # ds) = data_of ds"

text \<open>
  The \<^verbatim>\<open>Writable\<close> half writes after the callback of the write before, and the flush last; the application takes
  back with \<^verbatim>\<open>uncork\<close> only what it has corked itself.
\<close>

fun d_ok :: "dop \<Rightarrow> dstate \<Rightarrow> bool" where
  "d_ok (DWrite data k) s = (map snd (dx_given s) = callbacks (dx_events s) \<and> Flush \<notin> set (map fst (dx_given s)))"
| "d_ok DUncork s = (dx_corked s > (if dx_writable s = None then 1 else 0))"
| "d_ok _ s = True"

inductive d_reach :: "denv \<Rightarrow> dstate \<Rightarrow> bool" for env where
  created: "d_reach env (new_Duplexify fd fe)"
| stepped: "d_reach env s \<Longrightarrow> d_ok oper s \<Longrightarrow> d_reach env (d_step env oper s)"

section \<open>The invariant\<close>

fun wait_pair :: "dwait \<Rightarrow> ddata option \<times> nat" where
  "wait_pair (WWrite d k) = (Some d, k)"
| "wait_pair (WEnding k) = (Some Flush, k)"
| "wait_pair (WCall k) = (Some Flush, k)"

definition pend :: "dstate \<Rightarrow> (ddata option \<times> nat) list" where
  \<comment> \<open>the write that has not been called back, wherever it waits\<close>
  "pend s = map wait_pair (waiting_uncork s) @ (case dx_ondrain s of None \<Rightarrow> [] | Some k \<Rightarrow> [(None, k)])
     @ map (\<lambda>(w, k). (Some Flush, k)) (enders s)"

fun unsent :: "dwait list \<Rightarrow> jsval list" where
  "unsent [] = []"
| "unsent (WWrite (Data c) k # ws) = c # unsent ws"
| "unsent (_ # ws) = unsent ws"

definition flow_ok :: "dstate \<Rightarrow> bool" where
  "flow_ok s \<longleftrightarrow> Flush \<notin> set (butlast (map fst (dx_given s)))
     \<and> (\<forall>c. Dropped c \<in> set (dx_events s) \<longrightarrow> dx_destroyed s)
     \<and> (dx_writable s = None \<longrightarrow> written (dx_events s) = [] \<and> (dx_destroyed s \<or> dx_corked s > 0))
     \<and> ((\<exists>w. InnerEnd w \<in> set (dx_events s)) \<longrightarrow> Flush \<in> set (map fst (dx_given s)))"

definition d_inv :: "dstate \<Rightarrow> bool" where
  "d_inv s \<longleftrightarrow> flow_ok s \<and> length (pend s) \<le> 1 \<and> map snd (dx_given s) = callbacks (dx_events s) @ map snd (pend s)
     \<and> (\<forall>d k. (Some d, k) \<in> set (pend s) \<longrightarrow> d = fst (last (dx_given s)))
     \<and> (dx_ondrain s \<noteq> None \<longrightarrow> fst (last (dx_given s)) \<noteq> Flush)
     \<and> data_of (map fst (dx_given s)) = handed (dx_events s) @ unsent (waiting_uncork s)"

definition in_hand :: "ddata \<Rightarrow> nat \<Rightarrow> jsval list \<Rightarrow> dstate \<Rightarrow> bool" where
  \<comment> \<open>the last write is being worked on, and \<open>cs\<close> is still to be handed on\<close>
  "in_hand d k cs s \<longleftrightarrow> flow_ok s \<and> pend s = [] \<and> map snd (dx_given s) = callbacks (dx_events s) @ [k]
     \<and> d = fst (last (dx_given s)) \<and> data_of (map fst (dx_given s)) = handed (dx_events s) @ cs"

lemma events_append [simp]:
  "callbacks (es @ fs) = callbacks es @ callbacks fs" "handed (es @ fs) = handed es @ handed fs"
  "written (es @ fs) = written es @ written fs" "data_of (ds @ es') = data_of ds @ data_of es'"
  by (induction es rule: callbacks.induct, simp_all, induction es rule: handed.induct, simp_all,
      induction es rule: written.induct, simp_all, induction ds rule: data_of.induct, simp_all)

lemma unsent_write: "unsent (WWrite d k # ws) = data_of [d] @ unsent ws"
  by (cases d) simp_all

lemma pend_Nil: "pend s = [] \<longleftrightarrow> waiting_uncork s = [] \<and> dx_ondrain s = None \<and> enders s = []"
  by (auto simp: pend_def split: option.splits)

lemmas d_defs = d_inv_def in_hand_def flow_ok_def pend_def d_happens_def d_later_def

fun plain_event :: "devent \<Rightarrow> bool" where
  "plain_event (Wrote w c) = False"
| "plain_event (Dropped c) = False"
| "plain_event (Called k er) = False"
| "plain_event (InnerEnd w) = False"
| "plain_event _ = True"

lemma plain_event_lists: "plain_event e \<Longrightarrow> callbacks [e] = [] \<and> handed [e] = [] \<and> written [e] = []"
  by (cases e) auto

lemma call_back_inv: "in_hand d k [] s \<Longrightarrow> d_inv (call_back k s)"
  by (auto simp: call_back_def d_defs split: option.splits)

lemma in_hand_event:
  "plain_event e \<Longrightarrow> in_hand d k cs (d_happens e s) = in_hand d k cs s"
  using plain_event_lists [of e] by (auto simp: in_hand_def flow_ok_def pend_def d_happens_def)

lemma parked_inv:
  assumes "in_hand d k (unsent [w]) s" "wait_pair w = (Some d, k)"
  shows "d_inv (s\<lparr>waiting_uncork := waiting_uncork s @ [w]\<rparr>)"
proof -
  have "waiting_uncork s = []" "dx_ondrain s = None" "enders s = []" using assms(1) by (simp_all add: in_hand_def pend_Nil)
  then show ?thesis using assms by (simp add: d_inv_def in_hand_def flow_ok_def pend_def)
qed

lemma finished_fn_inv:
  assumes "in_hand Flush k [] s"
  shows "d_inv (finished_fn k s)"
proof -
  have "in_hand Flush k [] (d_happens Prefinish (s\<lparr>own_prefinished := True\<rparr>))"
    using assms by (simp add: in_hand_event) (simp add: in_hand_def flow_ok_def pend_def)
  then show ?thesis using parked_inv [of Flush k "WCall k"] call_back_inv by (simp add: finished_fn_def onuncork_def)
qed

lemma in_hand_given: "in_hand d k cs s \<Longrightarrow> d \<in> set (map fst (dx_given s))"
  by (cases "dx_given s" rule: rev_cases) (auto simp: in_hand_def)

lemma end_inner_inv: "in_hand Flush k [] s \<Longrightarrow> d_inv (end_inner k s)"
proof -
  assume h: "in_hand Flush k [] s"
  have g: "Flush \<in> set (map fst (dx_given s))" by (rule in_hand_given [OF h])
  have "d_inv (d_happens (InnerEnd w) (s\<lparr>enders := enders s @ [(w, k)]\<rparr>))" for w
    unfolding d_inv_def flow_ok_def using h g by (simp add: in_hand_def flow_ok_def pend_def d_happens_def split: option.splits)
  then show ?thesis using finished_fn_inv [OF h] by (simp add: end_inner_def split: option.splits)
qed

lemma finish_inv:
  assumes "in_hand Flush k [] s"
  shows "d_inv (finish k s)"
proof -
  have "in_hand Flush k [] (d_happens Preend s)" using assms by (simp add: in_hand_event)
  then show ?thesis using parked_inv [of Flush k "WEnding k"] end_inner_inv by (simp add: finish_def onuncork_def)
qed

lemma dropped_inv: "in_hand d k (data_of [d]) s \<Longrightarrow> dx_destroyed s \<Longrightarrow> d_inv (call_back k (drop_data d s))"
proof (cases d)
  case (Data c)
  assume "in_hand d k (data_of [d]) s" "dx_destroyed s"
  then have "in_hand (Data c) k [] (d_happens (Dropped c) s)" using Data by (auto simp: d_defs)
  then show "d_inv (call_back k (drop_data d s))" using Data call_back_inv by simp
qed (use call_back_inv in simp)

lemma written_inv:
  assumes "in_hand (Data c) k [c] s" "dx_writable s = Some w"
  shows "in_hand (Data c) k [] (d_happens (Wrote w c) (s\<lparr>dx_writes := n\<rparr>))"
  using assms by (auto simp: d_defs)

lemma dx_write_inv:
  assumes "in_hand d k (data_of [d]) s"
  shows "d_inv (dx_write env d k s)"
proof -
  consider "dx_destroyed s" | "\<not> dx_destroyed s" "dx_corked s > 0" | "\<not> dx_destroyed s" "dx_corked s = 0" by blast
  then show ?thesis
  proof cases
    case 1
    then show ?thesis using dropped_inv [OF assms] by (simp add: dx_write_def)
  next
    case 2
    then show ?thesis using assms parked_inv [of d k "WWrite d k" s] by (simp add: dx_write_def unsent_write)
  next
    case 3
    then obtain w where w: "dx_writable s = Some w" using assms by (auto simp: in_hand_def flow_ok_def)
    show ?thesis
    proof (cases d)
      case Flush
      then show ?thesis using 3 finish_inv assms by (simp add: dx_write_def)
    next
      case (Data c)
      define s1 where "s1 = d_happens (Wrote w c) (s\<lparr>dx_writes := Suc (dx_writes s)\<rparr>)"
      have h: "in_hand (Data c) k [] s1" unfolding s1_def by (rule written_inv) (use assms Data w in simp_all)
      then have "d_inv (s1\<lparr>dx_ondrain := Some k\<rparr>)" by (auto simp: d_defs split: option.splits)
      then show ?thesis using 3 Data w h call_back_inv by (simp add: dx_write_def Let_def s1_def)
    qed
  qed
qed

lemma run_wait_inv:
  assumes "d_inv s" "waiting_uncork s = [w]" "dx_writable s \<noteq> None \<or> dx_destroyed s"
  shows "d_inv (run_wait env w (d_happens DUncorked (s\<lparr>dx_corked := 0, waiting_uncork := []\<rparr>)))"
proof -
  let ?s = "d_happens DUncorked (s\<lparr>dx_corked := 0, waiting_uncork := []\<rparr>)"
  have p: "dx_ondrain s = None" "enders s = []" using assms(1,2) by (auto simp: d_inv_def pend_def split: option.splits)
  show ?thesis
  proof (cases w)
    case (WWrite d k)
    have "in_hand d k (data_of [d]) ?s" using assms p WWrite by (auto simp: d_defs unsent_write)
    then show ?thesis using WWrite dx_write_inv by simp
  next
    case (WEnding k)
    have "in_hand Flush k [] ?s" using assms p WEnding by (auto simp: d_defs)
    then show ?thesis using WEnding end_inner_inv by simp
  next
    case (WCall k)
    have "in_hand Flush k [] ?s" using assms p WCall by (auto simp: d_defs)
    then show ?thesis using WCall call_back_inv by simp
  qed
qed

lemma waiting_length: "d_inv s \<Longrightarrow> length (waiting_uncork s) \<le> 1"
  by (simp add: d_inv_def pend_def)

lemma uncork_inv:
  assumes "d_inv s" "dx_writable s \<noteq> None \<or> dx_destroyed s \<or> dx_corked s > 1"
  shows "d_inv (d_uncork env s)"
proof -
  consider "dx_corked s = 0" | "dx_corked s > 1" | "dx_corked s = 1" by linarith
  then show ?thesis
  proof cases
    case 1
    then show ?thesis using assms(1) by (simp add: d_uncork_def)
  next
    case 2
    then show ?thesis using assms(1) by (auto simp: d_uncork_def d_defs)
  next
    case 3
    then have w: "dx_writable s \<noteq> None \<or> dx_destroyed s" using assms(2) by simp
    show ?thesis
    proof (cases "waiting_uncork s")
      case Nil
      then show ?thesis using 3 assms(1) w by (auto simp: d_uncork_def d_defs)
    next
      case (Cons x xs)
      then have "waiting_uncork s = [x]" using waiting_length [OF assms(1)] by simp
      then show ?thesis using 3 run_wait_inv [OF assms(1) _ w] by (simp add: d_uncork_def)
    qed
  qed
qed

section \<open>Every operation keeps the invariant\<close>

lemma d_inv_irrelevant [simp]:
  "d_inv (s\<lparr>dx_readable := x1\<rparr>) = d_inv s" "d_inv (s\<lparr>dx_drained := x2\<rparr>) = d_inv s" "d_inv (s\<lparr>dx_forwarding := x3\<rparr>) = d_inv s"
  "d_inv (s\<lparr>dx_unwrite := x4\<rparr>) = d_inv s" "d_inv (s\<lparr>write_eos := x5\<rparr>) = d_inv s" "d_inv (s\<lparr>read_eos := x6\<rparr>) = d_inv s"
  "d_inv (s\<lparr>dx_ended := x7\<rparr>) = d_inv s" "d_inv (s\<lparr>own_ending := x8\<rparr>) = d_inv s" "d_inv (s\<lparr>own_prefinished := x9\<rparr>) = d_inv s"
  "d_inv (s\<lparr>inner_finished := x10\<rparr>) = d_inv s" "d_inv (s\<lparr>inbox := x11\<rparr>) = d_inv s" "d_inv (s\<lparr>dx_ticks := x12\<rparr>) = d_inv s"
  "d_inv (s\<lparr>dx_writes := x13\<rparr>) = d_inv s" "d_inv (s\<lparr>dx_pushes := x14\<rparr>) = d_inv s" "d_inv (d_later t s) = d_inv s"
  by (simp_all add: d_defs)

lemma d_inv_event [simp]: "plain_event e \<Longrightarrow> d_inv (d_happens e s) = d_inv s"
  using plain_event_lists [of e] by (auto simp: d_defs)

lemma d_inv_destroyed [simp]: "d_inv s \<Longrightarrow> d_inv (s\<lparr>dx_destroyed := True\<rparr>)"
  by (auto simp: d_defs)

lemma own_end_inv [simp]: "d_inv (own_end data cb s) = d_inv s"
  by (simp add: own_end_def Let_def)

lemma d_destroy_inv [simp]: "d_inv s \<Longrightarrow> d_inv (d_destroy er s)"
  by (simp add: d_destroy_def)

lemma destroyer_inv [simp]: "d_inv s \<Longrightarrow> d_inv (destroyer b er s)"
  by (simp add: destroyer_def split: option.splits)

lemma tell_eos_inv [simp]: "d_inv s \<Longrightarrow> d_inv (tell_eos n ev s)"
  by (simp add: tell_eos_def Let_def split: option.splits prod.splits)

lemma d_cork_inv [simp]: "d_inv s \<Longrightarrow> d_inv (d_cork s)"
proof -
  assume "d_inv s"
  then have "d_inv (s\<lparr>dx_corked := Suc n\<rparr>)" for n by (simp add: d_inv_def flow_ok_def pend_def)
  then show ?thesis by (simp add: d_cork_def Let_def)
qed

lemma ondrain_called:
  assumes "d_inv s" "dx_ondrain s = Some k"
  shows "d_inv (d_happens (Called k er) (s\<lparr>dx_ondrain := None\<rparr>))"
  using assms by (auto simp: d_defs)

lemma d_ondrain_inv [simp]: "d_inv s \<Longrightarrow> d_inv (d_ondrain s)"
  using ondrain_called by (auto simp: d_ondrain_def call_back_def split: option.splits)

lemma destroy_now_inv [simp]: "d_inv s \<Longrightarrow> d_inv (destroy_now er s)"
  using ondrain_called by (auto simp: destroy_now_def Let_def split: option.splits)

lemma run_dtick_inv [simp]: "d_inv s \<Longrightarrow> d_inv (run_dtick t s)"
  by (cases t) simp_all

lemma forward_loop_inv [simp]: "d_inv (forward_loop env cs s) = d_inv s"
  by (induction cs arbitrary: s) simp_all

lemma forward_inv [simp]: "d_inv (forward env s) = d_inv s"
  by (simp add: forward_def)

lemma setReadable_inv [simp]: "d_inv s \<Longrightarrow> d_inv (setReadable env r cs s)"
  by (simp add: setReadable_def Let_def split: option.splits)

lemma setWritable_inv [simp]: "d_inv s \<Longrightarrow> d_inv (setWritable env w s)"
proof -
  assume i: "d_inv s"
  then have "d_inv (s'\<lparr>dx_writable := Some n, dx_unwrite := True, write_eos := e\<rparr>)" if "d_inv s'" for s' n e
    using that by (auto simp: d_defs)
  then show "d_inv (setWritable env w s)" using i
    by (auto simp: setWritable_def Let_def intro!: uncork_inv split: option.splits)
qed

lemma finished_fold_inv:
  assumes "d_inv s" "ks = map snd (filter (\<lambda>(w, k). w = n) (enders s))"
  shows "d_inv (fold finished_fn ks (s\<lparr>enders := filter (\<lambda>(w, k). w \<noteq> n) (enders s)\<rparr>))"
proof -
  have l: "length (enders s) \<le> 1" using assms(1) by (simp add: d_inv_def pend_def)
  show ?thesis
  proof (cases "enders s")
    case Nil
    then have "s\<lparr>enders := []\<rparr> = s" by (cases s) simp
    then show ?thesis using assms Nil by (metis (no_types) filter.simps(1) fold_simps(1) list.map_disc_iff)
  next
    case (Cons x xs)
    then obtain w k where e: "enders s = [(w, k)]" using l by (cases x) simp
    have "in_hand Flush k [] (s\<lparr>enders := []\<rparr>)" using assms(1) e by (auto simp: d_defs split: option.splits)
    then have "d_inv (finished_fn k (s\<lparr>enders := []\<rparr>))" by (rule finished_fn_inv)
    moreover have "d_inv (s\<lparr>enders := [(w, k)]\<rparr>)" using e assms(1) by (cases s) simp
    ultimately show ?thesis using assms e by (cases "w = n") simp_all
  qed
qed

lemma given_in_hand:
  assumes "d_inv s" "d_ok (DWrite d k) s"
  shows "in_hand d k (data_of [d]) (s\<lparr>dx_given := dx_given s @ [(d, k)]\<rparr>)"
  using assms by (auto simp: d_defs butlast_append split: option.splits)

lemma d_step_inv:
  assumes "d_inv s" "d_ok oper s"
  shows "d_inv (d_step env oper s)"
proof (cases oper)
  case (DWrite d k)
  then show ?thesis using assms given_in_hand dx_write_inv by simp
next
  case DUncork
  then show ?thesis using assms uncork_inv by (auto split: if_splits)
next
  case DTick
  then show ?thesis using assms by (simp split: list.splits)
next
  case (InFinish n)
  then show ?thesis using assms(1) finished_fold_inv [of "tell_eos n EFinish (s\<lparr>inner_finished := n # inner_finished s\<rparr>)"]
    by (simp add: Let_def)
qed (use assms(1) in \<open>simp_all add: dx_read_def Let_def\<close>)

lemma new_Duplexify_inv: "d_inv (new_Duplexify fd fe)"
  by (simp add: new_Duplexify_def d_defs)

lemma d_reach_inv: "d_reach env s \<Longrightarrow> d_inv s"
  by (induction rule: d_reach.induct) (auto intro: new_Duplexify_inv d_step_inv)

section \<open>What arrives, and when\<close>

lemma handed_written: "\<forall>c. Dropped c \<notin> set es \<Longrightarrow> handed es = written es"
  by (induction es rule: handed.induct) auto

text \<open>
  \<^bold>\<open>C37.\<close> The chunks that the client writes reach the attached stream in their order, each once; while the duplex stream is
  not destroyed none is dropped, and one at most is still waiting for the socket. Nothing is written before a stream
  is attached. Each callback is called once, in order, so that the client's writes go on.
\<close>

theorem duplex_in_order:
  assumes "d_reach env s"
  shows "(\<not> dx_destroyed s \<longrightarrow>
      data_of (map fst (dx_given s)) = written (dx_events s) @ unsent (waiting_uncork s))
    \<and> length (unsent (waiting_uncork s)) \<le> 1
    \<and> (dx_writable s = None \<longrightarrow> written (dx_events s) = [])
    \<and> map snd (dx_given s) = callbacks (dx_events s) @ map snd (pend s) \<and> length (pend s) \<le> 1"
proof -
  have i: "d_inv s" by (rule d_reach_inv [OF assms])
  have "length (unsent ws) \<le> length ws" for ws by (induction ws rule: unsent.induct) auto
  then have "length (unsent (waiting_uncork s)) \<le> 1" using waiting_length [OF i] le_trans by blast
  then show ?thesis using i handed_written [of "dx_events s"] by (auto simp: d_inv_def flow_ok_def)
qed

text \<open>
  \<^bold>\<open>C38.\<close> The attached stream is ended only after every chunk that was given has been written to it (or dropped, if the
  duplex stream was destroyed): \<^verbatim>\<open>end\<close> does not overtake data.
\<close>

theorem duplex_end_last:
  assumes "d_reach env s" "InnerEnd w \<in> set (dx_events s)"
  shows "handed (dx_events s) = data_of (map fst (dx_given s)) \<and> (\<not> dx_destroyed s \<longrightarrow>
    written (dx_events s) = data_of (map fst (dx_given s)))"
proof -
  have i: "d_inv s" by (rule d_reach_inv [OF assms(1)])
  have f: "Flush \<in> set (map fst (dx_given s))" "Flush \<notin> set (butlast (map fst (dx_given s)))"
    using i assms(2) unfolding d_inv_def flow_ok_def by blast+
  then have l: "fst (last (dx_given s)) = Flush"
    by (cases "dx_given s" rule: rev_cases) (auto simp: butlast_append)
  have "unsent ws = []" if "\<forall>(d, k) \<in> set (map wait_pair ws). d = Some Flush" for ws
    using that by (induction ws rule: unsent.induct) auto
  moreover have "\<forall>(d, k) \<in> set (map wait_pair (waiting_uncork s)). d = Some Flush"
  proof clarify
    fix d k
    assume "(d, k) \<in> set (map wait_pair (waiting_uncork s))"
    moreover from this obtain w where "wait_pair w = (d, k)" by auto
    then obtain e where "d = Some e" by (cases w) auto
    ultimately show "d = Some Flush" using i l by (auto simp: d_inv_def pend_def)
  qed
  ultimately have "unsent (waiting_uncork s) = []" by blast
  then show ?thesis using i handed_written [of "dx_events s"] by (auto simp: d_inv_def flow_ok_def)
qed

text \<open>A chunk before the socket opens, one that fills it, the end.\<close>

fun d_steps :: "denv \<Rightarrow> dop list \<Rightarrow> dstate \<Rightarrow> dstate option" where
  "d_steps env [] s = Some s"
| "d_steps env (p # ps) s = (if d_ok p s then d_steps env ps (d_step env p s) else None)"

lemma d_steps_reach: "d_steps env ps s = Some s' \<Longrightarrow> d_reach env s \<Longrightarrow> d_reach env s'"
  by (induction ps arbitrary: s) (auto split: if_splits intro: d_reach.stepped)

definition sample_denv :: denv where
  "sample_denv = \<lparr>accepts = (\<lambda>n. n \<noteq> 1), wants_more = (\<lambda>_. True)\<rparr>"

definition sample_dops :: "dop list" where
  "sample_dops = [DWrite (Data (JBuf [1])) 7, DSetReadable (Some 0) [], DSetWritable (Some 0),
     DWrite (Data (JBuf [2])) 8, InDrain, DEnd JUndef None, DWrite Flush 9]"

lemma sample_duplex:
  "case d_steps sample_denv sample_dops (new_Duplexify True True) of
     None \<Rightarrow> False
   | Some s \<Rightarrow> \<not> dx_destroyed s \<and> InnerEnd 0 \<in> set (dx_events s) \<and> waiting_uncork s = [] \<and> pend s = [(Some Flush, 9)]
       \<and> dx_given s = [(Data (JBuf [1]), 7), (Data (JBuf [2]), 8), (Flush, 9)]"
  by code_simp

lemma sample_duplex_state:
  obtains s where "d_reach sample_denv s" "\<not> dx_destroyed s" "InnerEnd 0 \<in> set (dx_events s)" "waiting_uncork s = []"
    "pend s = [(Some Flush, 9)]" "dx_given s = [(Data (JBuf [1]), 7), (Data (JBuf [2]), 8), (Flush, 9)]"
proof -
  obtain s where s: "d_steps sample_denv sample_dops (new_Duplexify True True) = Some s" "\<not> dx_destroyed s"
    "InnerEnd 0 \<in> set (dx_events s)" "waiting_uncork s = []" "pend s = [(Some Flush, 9)]"
    "dx_given s = [(Data (JBuf [1]), 7), (Data (JBuf [2]), 8), (Flush, 9)]"
    using sample_duplex by (auto split: option.splits)
  show thesis by (rule that [OF d_steps_reach [OF s(1) d_reach.created]]) (use s in simp_all)
qed

theorem duplex_in_order_witness:
  "\<exists>s. d_reach sample_denv s \<and> written (dx_events s) = [JBuf [1], JBuf [2]] \<and> callbacks (dx_events s) = [7, 8]"
proof -
  obtain s where s: "d_reach sample_denv s" "\<not> dx_destroyed s" "waiting_uncork s = []" "pend s = [(Some Flush, 9)]"
    "dx_given s = [(Data (JBuf [1]), 7), (Data (JBuf [2]), 8), (Flush, 9)]"
    using sample_duplex_state by blast
  then show ?thesis using duplex_in_order [OF s(1)] by auto
qed

theorem duplex_end_last_witness:
  "\<exists>s. d_reach sample_denv s \<and> InnerEnd 0 \<in> set (dx_events s) \<and> written (dx_events s) = [JBuf [1], JBuf [2]]"
proof -
  obtain s where s: "d_reach sample_denv s" "\<not> dx_destroyed s" "InnerEnd 0 \<in> set (dx_events s)"
    "dx_given s = [(Data (JBuf [1]), 7), (Data (JBuf [2]), 8), (Flush, 9)]"
    using sample_duplex_state by blast
  then show ?thesis using duplex_end_last [OF s(1,3)] by auto
qed

text \<open>
  The reading side: \<^verbatim>\<open>_forward\<close> passes chunks on in order and stops when \<^verbatim>\<open>push\<close> wants no more; what it did not pass on
  waits. A stream that has no writable side attached and is ended never calls back: the flush waits for an
  \<^verbatim>\<open>uncork\<close> that does not come.
\<close>

fun pushed_chunks :: "devent list \<Rightarrow> jsval list" where
  "pushed_chunks [] = []"
| "pushed_chunks (Pushed c # es) = c # pushed_chunks es"
| "pushed_chunks (_ # es) = pushed_chunks es"

lemma pushed_append [simp]: "pushed_chunks (es @ fs) = pushed_chunks es @ pushed_chunks fs"
  by (induction es rule: pushed_chunks.induct) simp_all

lemma forward_in_order:
  "\<not> dx_destroyed s \<Longrightarrow>
     pushed_chunks (dx_events (forward_loop env cs s)) @ inbox (forward_loop env cs s) = pushed_chunks (dx_events s) @ cs"
  by (induction cs arbitrary: s) (simp_all add: d_happens_def)

lemma forward_all:
  "\<not> dx_destroyed s \<Longrightarrow> dx_drained s \<Longrightarrow> \<forall>n. wants_more env n \<Longrightarrow> inbox (forward_loop env cs s) = []"
  by (induction cs arbitrary: s) (simp_all add: d_happens_def)

lemma null_writable_waits:
  "\<exists>s. d_steps sample_denv [DSetWritable None, DWrite Flush 1] (new_Duplexify True True) = Some s
     \<and> waiting_uncork s = [WWrite Flush 1] \<and> \<not> d_ok DUncork s"
  by (simp add: new_Duplexify_def setWritable_def own_end_def dx_write_def d_happens_def)

end
