(* ===== verification/Web_Socket.thy ===== *)
theory Web_Socket
  imports Duplexify Js_Text
begin

text \<open>
  \<^verbatim>\<open>websocket-stream\<close>: the stream over a browser's WebSocket. A proxy carries the data; a duplex stream stands in front
  of it while the socket is not open. The proxy's \<^verbatim>\<open>_write\<close> holds a chunk back while the socket has too much to send,
  its \<^verbatim>\<open>_flush\<close> closes the socket. Parameters are what the n-th look at \<^verbatim>\<open>bufferedAmount\<close> finds and whether the n-th
  \<^verbatim>\<open>send\<close> throws. The proxy is stream number 0 of \<open>Duplexify\<close>; its own buffers are those of \<open>Writable_Stream\<close> and
  \<open>Readable_Stream\<close>, whose calls and data are logged.
\<close>

datatype wsevent =
    Sent jsval | SocketClose | Connect
  | Next nat "string option"        \<comment> \<open>callback of \<^verbatim>\<open>_write\<close>\<close>
  | FlushDone
  | ProxyPush jsval | ProxyError string | ProxyClose

record ws_state =
  ws_objectMode :: bool
  ws_bufferSize :: int
  ws_bufferTimeout :: int
  ws_duplex :: "dstate option"      \<comment> \<open>\<open>None\<close>: the socket was open when it was passed in\<close>
  ws_timers :: "(int \<times> jsval \<times> nat) list"  \<comment> \<open>delay and arguments of \<^verbatim>\<open>setTimeout\<close>\<close>
  proxy_destroyed :: bool
  proxy_ticks :: "string option list"
  ws_looks :: nat
  ws_sends :: nat
  ws_taken :: "jsval list"          \<comment> \<open>chunks given to \<^verbatim>\<open>_write\<close>\<close>
  ws_events :: "wsevent list"

record ws_env =
  bufferedAmount :: "nat \<Rightarrow> int"
  send_throws :: "nat \<Rightarrow> string option"
  duplex_env :: denv

definition ws_happens :: "wsevent \<Rightarrow> ws_state \<Rightarrow> ws_state" where
  "ws_happens e s = s\<lparr>ws_events := ws_events s @ [e]\<rparr>"

definition new_WebSocketStream ::
  "bool option \<Rightarrow> bool option \<Rightarrow> int option \<Rightarrow> int option \<Rightarrow> bool \<Rightarrow> ws_state" where
  \<comment> \<open>\<^verbatim>\<open>objectMode\<close>, \<^verbatim>\<open>binary\<close>, \<^verbatim>\<open>browserBufferSize\<close>, \<^verbatim>\<open>browserBufferTimeout\<close>, whether the socket is open\<close>
  "new_WebSocketStream obj binary bsize timeout is_open =
     \<lparr>ws_objectMode = (case obj of Some b \<Rightarrow> b | None \<Rightarrow> \<not> (binary = Some True \<or> binary = None)),
      ws_bufferSize = (case bsize of Some n \<Rightarrow> if n \<noteq> 0 then n else 1024 * 512 | None \<Rightarrow> 1024 * 512),
      ws_bufferTimeout = (case timeout of Some n \<Rightarrow> if n \<noteq> 0 then n else 1000 | None \<Rightarrow> 1000),
      ws_duplex = (if is_open then None else Some (new_Duplexify True True)),
      ws_timers = [], proxy_destroyed = False, proxy_ticks = [], ws_looks = 0, ws_sends = 0, ws_taken = [], ws_events = []\<rparr>"

section \<open>Writing\<close>

definition coerce :: "ws_state \<Rightarrow> jsval \<Rightarrow> jsval result" where
  "coerce s chunk =
     (case chunk of
        JStr t \<Rightarrow> if \<not> ws_objectMode s then rbind (fromString t (Some (js ''utf8''))) (\<lambda>b. Inr (JBuf b)) else Inr chunk
      | _ \<Rightarrow> Inr chunk)"

definition socketWrite :: "ws_env \<Rightarrow> jsval \<Rightarrow> nat \<Rightarrow> ws_state \<Rightarrow> ws_state result" where
  \<comment> \<open>\<^verbatim>\<open>socketWriteBrowser\<close>\<close>
  "socketWrite env chunk k s0 =
     (let s = s0\<lparr>ws_looks := Suc (ws_looks s0)\<rparr> in
      if bufferedAmount env (ws_looks s0) > ws_bufferSize s
      then Inr (s\<lparr>ws_timers := ws_timers s @ [(ws_bufferTimeout s, chunk, k)]\<rparr>)
      else
        rbind (coerce s chunk) (\<lambda>c.
          let s1 = s\<lparr>ws_sends := Suc (ws_sends s)\<rparr> in
          Inr (case send_throws env (ws_sends s) of
                 Some e \<Rightarrow> ws_happens (Next k (Some e)) s1
               | None \<Rightarrow> ws_happens (Next k None) (ws_happens (Sent c) s1))))"

definition proxy_write :: "ws_env \<Rightarrow> jsval \<Rightarrow> nat \<Rightarrow> ws_state \<Rightarrow> ws_state result" where
  "proxy_write env chunk k s = socketWrite env chunk k (s\<lparr>ws_taken := ws_taken s @ [chunk]\<rparr>)"

text \<open>
  \<^verbatim>\<open>writev\<close> hands \<^verbatim>\<open>Buffer.from\<close> the request instead of its chunk when the chunk is a string: an object without a
  length, which it refuses.
\<close>

fun writev_chunk :: "jsval \<Rightarrow> buffer result" where
  "writev_chunk (JBuf b) = Inr b"
| "writev_chunk (JStr t) =
     Inl (TypeError ''First argument must be a string, Buffer, ArrayBuffer, Array, or array-like object.'')"
| "writev_chunk v = Inl (TypeError ''\"list\" argument must be an Array of Buffers'')"

definition proxy_writev :: "ws_env \<Rightarrow> jsval list \<Rightarrow> nat \<Rightarrow> ws_state \<Rightarrow> ws_state result" where
  "proxy_writev env chunks k s =
     rbind (map_result writev_chunk chunks) (\<lambda>bs.
     rbind (Buffer_concat bs None) (\<lambda>b. proxy_write env (JBuf b) k s))"

definition socketEnd :: "ws_state \<Rightarrow> ws_state" where
  "socketEnd s = ws_happens FlushDone (ws_happens SocketClose s)"

definition proxy_destroy :: "string option \<Rightarrow> ws_state \<Rightarrow> ws_state" where
  "proxy_destroy er s =
     (if proxy_destroyed s then s else s\<lparr>proxy_destroyed := True, proxy_ticks := proxy_ticks s @ [er]\<rparr>)"

definition proxy_destroy_now :: "string option \<Rightarrow> ws_state \<Rightarrow> ws_state" where
  \<comment> \<open>its tick; \<^verbatim>\<open>close\<close> calls \<^verbatim>\<open>destroy\<close>, which closes the socket\<close>
  "proxy_destroy_now er s =
     (let s1 = (case er of Some e \<Rightarrow> ws_happens (ProxyError e) s | None \<Rightarrow> s)
      in ws_happens SocketClose (ws_happens ProxyClose s1))"

section \<open>Events of the socket\<close>

definition on_duplex :: "(dstate \<Rightarrow> dstate) \<Rightarrow> ws_state \<Rightarrow> ws_state" where
  "on_duplex f s = s\<lparr>ws_duplex := map_option f (ws_duplex s)\<rparr>"

definition onopen :: "ws_env \<Rightarrow> jsval list \<Rightarrow> ws_state \<Rightarrow> ws_state" where
  \<comment> \<open>with the chunks that the proxy holds\<close>
  "onopen env cs s =
     ws_happens Connect
       (on_duplex (\<lambda>d. setWritable (duplex_env env) (Some 0) (setReadable (duplex_env env) (Some 0) cs d)) s)"

definition onclose :: "ws_state \<Rightarrow> ws_state" where
  \<comment> \<open>where the stream is the proxy itself, \<^verbatim>\<open>end\<close> is an operation of its \<^verbatim>\<open>Writable\<close> half\<close>
  "onclose s =
     (case ws_duplex s of
        Some d \<Rightarrow> s\<lparr>ws_duplex := Some (d_destroy None (own_end JUndef None d))\<rparr>
      | None \<Rightarrow> proxy_destroy None s)"

definition onerror :: "string option \<Rightarrow> ws_state \<Rightarrow> ws_state" where
  "onerror er s =
     (case ws_duplex s of Some d \<Rightarrow> s\<lparr>ws_duplex := Some (d_destroy er d)\<rparr> | None \<Rightarrow> proxy_destroy er s)"

datatype message = ArrayBuffer buffer | Text jsstr

definition onmessage :: "message \<Rightarrow> ws_state \<Rightarrow> ws_state result" where
  "onmessage m s =
     (case m of
        ArrayBuffer b \<Rightarrow> Inr (ws_happens (ProxyPush (JBuf b)) s)
      | Text t \<Rightarrow> rbind (fromString t (Some (js ''utf8''))) (\<lambda>b. Inr (ws_happens (ProxyPush (JBuf b)) s)))"

datatype ws_op = WsWrite jsval nat | WsWritev "jsval list" nat | WsTimer | WsFlush | WsDestroy "string option" | WsTick

fun ws_step :: "ws_env \<Rightarrow> ws_op \<Rightarrow> ws_state \<Rightarrow> ws_state result" where
  "ws_step env (WsWrite c k) s = proxy_write env c k s"
| "ws_step env (WsWritev cs k) s = proxy_writev env cs k s"
| "ws_step env WsTimer s =
     (case ws_timers s of [] \<Rightarrow> Inr s | (t, c, k) # ts \<Rightarrow> socketWrite env c k (s\<lparr>ws_timers := ts\<rparr>))"
| "ws_step env WsFlush s = Inr (socketEnd s)"
| "ws_step env (WsDestroy er) s = Inr (proxy_destroy er s)"
| "ws_step env WsTick s = Inr (case proxy_ticks s of [] \<Rightarrow> s | er # ts \<Rightarrow> proxy_destroy_now er (s\<lparr>proxy_ticks := ts\<rparr>))"

section \<open>Chunks reach the socket in order\<close>

text \<open>
  The proxy's \<^verbatim>\<open>Writable\<close> half writes again after the callback of the write before it. However often the socket has
  too much to send, it is given every chunk once and in order, as bytes when the stream is not in object mode.
\<close>

fun sents :: "wsevent list \<Rightarrow> jsval list" where
  "sents [] = []"
| "sents (Sent c # es) = c # sents es"
| "sents (_ # es) = sents es"

lemma sents_append [simp]: "sents (es @ fs) = sents es @ sents fs"
  by (induction es rule: sents.induct) simp_all

fun ws_ok :: "ws_op \<Rightarrow> ws_state \<Rightarrow> bool" where
  "ws_ok (WsWrite c k) s = (ws_timers s = [])"
| "ws_ok (WsWritev cs k) s = (ws_timers s = [])"
| "ws_ok _ s = True"

inductive ws_reach :: "ws_env \<Rightarrow> ws_state \<Rightarrow> bool" for env where
  created: "ws_reach env (new_WebSocketStream obj binary bsize timeout is_open)"
| stepped: "ws_reach env s \<Longrightarrow> ws_ok oper s \<Longrightarrow> ws_step env oper s = Inr s' \<Longrightarrow> ws_reach env s'"

definition ws_inv :: "ws_state \<Rightarrow> bool" where
  "ws_inv s \<longleftrightarrow> length (ws_timers s) \<le> 1
     \<and> (\<exists>sent. ws_taken s = sent @ map (\<lambda>(t, c, k). c) (ws_timers s) \<and> map_result (coerce s) sent = Inr (sents (ws_events s)))"

lemma coerce_same: "ws_objectMode s' = ws_objectMode s \<Longrightarrow> coerce s' = coerce s"
  by (rule ext) (simp add: coerce_def cong: jsval.case_cong)

lemma socketWrite_inv:
  assumes "socketWrite env c k s = Inr s'" "\<forall>n. send_throws env n = None" "ws_timers s = []"
    and "ws_taken s = sent @ [c]" "map_result (coerce s) sent = Inr (sents (ws_events s))"
  shows "ws_inv s'"
proof (cases "bufferedAmount env (ws_looks s) > ws_bufferSize s")
  case True
  then have "s' = s\<lparr>ws_looks := Suc (ws_looks s), ws_timers := [(ws_bufferTimeout s, c, k)]\<rparr>"
    using assms(1,3) by (simp add: socketWrite_def)
  then show ?thesis using assms(4,5) coerce_same [of s' s] by (simp add: ws_inv_def)
next
  case False
  define s0 where "s0 = s\<lparr>ws_looks := Suc (ws_looks s)\<rparr>"
  obtain d where d: "coerce s c = Inr d"
    and s': "s' = ws_happens (Next k None) (ws_happens (Sent d) (s0\<lparr>ws_sends := Suc (ws_sends s0)\<rparr>))"
    using assms(1,2) False coerce_same [of s0 s] by (auto simp: socketWrite_def rbind_eq_Inr Let_def s0_def)
  then show ?thesis using assms(3-5) coerce_same [of s' s]
    by (auto simp: ws_inv_def ws_happens_def s0_def map_result_append)
qed

lemma ws_write_inv:
  assumes "proxy_write env c k s = Inr s'" "\<forall>n. send_throws env n = None" "ws_inv s" "ws_timers s = []"
  shows "ws_inv s'"
proof -
  have "map_result (coerce s) (ws_taken s) = Inr (sents (ws_events s))" using assms(3,4) by (simp add: ws_inv_def)
  then show ?thesis using socketWrite_inv [of env c k "s\<lparr>ws_taken := ws_taken s @ [c]\<rparr>" s' "ws_taken s"]
      assms(1,2,4) coerce_same [of "s\<lparr>ws_taken := ws_taken s @ [c]\<rparr>" s]
    by (simp add: proxy_write_def)
qed

lemma ws_inv_events [simp]:
  "sents [e] = [] \<Longrightarrow> ws_inv (ws_happens e s) = ws_inv s" "ws_inv (s\<lparr>proxy_destroyed := b\<rparr>) = ws_inv s"
  "ws_inv (s\<lparr>proxy_ticks := ts\<rparr>) = ws_inv s"
  using coerce_same [of "ws_happens e s" s] coerce_same [of "s\<lparr>proxy_destroyed := b\<rparr>" s] coerce_same [of "s\<lparr>proxy_ticks := ts\<rparr>" s]
  by (simp_all add: ws_inv_def ws_happens_def)

lemma ws_step_inv:
  assumes "ws_step env oper s = Inr s'" "ws_inv s" "ws_ok oper s" "\<forall>n. send_throws env n = None"
  shows "ws_inv s'"
proof (cases oper)
  case (WsWrite c k)
  then show ?thesis using assms ws_write_inv by simp
next
  case (WsWritev cs k)
  then show ?thesis using assms ws_write_inv by (auto simp: proxy_writev_def rbind_eq_Inr)
next
  case WsTimer
  show ?thesis
  proof (cases "ws_timers s")
    case (Cons x ts)
    then obtain t c k where t: "ws_timers s = [(t, c, k)]" using assms(2) by (cases x) (simp add: ws_inv_def)
    then obtain sent where "ws_taken s = sent @ [c]" "map_result (coerce s) sent = Inr (sents (ws_events s))"
      using assms(2) by (auto simp: ws_inv_def)
    then show ?thesis using socketWrite_inv [of env c k "s\<lparr>ws_timers := []\<rparr>" s' sent] assms(1,4) WsTimer t
        coerce_same [of "s\<lparr>ws_timers := []\<rparr>" s] by simp
  qed (use assms WsTimer in simp)
next
  case WsFlush
  then show ?thesis using assms(1,2) by (auto simp: socketEnd_def)
next
  case (WsDestroy er)
  then show ?thesis using assms(1,2) by (auto simp: proxy_destroy_def)
next
  case WsTick
  then show ?thesis using assms(1,2) by (auto simp: proxy_destroy_now_def Let_def split: list.splits option.splits)
qed

text \<open>One chunk at most is held back, and a timer is set for it.\<close>

lemma socket_in_order:
  assumes "ws_reach env s" "\<forall>n. send_throws env n = None"
  shows "length (ws_timers s) \<le> 1
    \<and> (\<exists>sent. ws_taken s = sent @ map (\<lambda>(t, c, k). c) (ws_timers s) \<and> map_result (coerce s) sent = Inr (sents (ws_events s)))"
proof -
  have "ws_inv s" using assms(1)
  proof induction
    case (created obj binary bsize timeout is_open)
    then show ?case by (simp add: ws_inv_def new_WebSocketStream_def)
  next
    case (stepped s oper s')
    then show ?case using ws_step_inv assms(2) by blast
  qed
  then show ?thesis by (simp add: ws_inv_def)
qed

definition sample_ws_env :: ws_env where
  "sample_ws_env = \<lparr>bufferedAmount = (\<lambda>n. if n = 0 then 600000 else 0), send_throws = (\<lambda>_. None),
     duplex_env = \<lparr>accepts = (\<lambda>_. True), wants_more = (\<lambda>_. True)\<rparr>\<rparr>"

lemma sample_ws:
  "\<exists>s. ws_reach sample_ws_env s \<and> ws_taken s = [JBuf [1], JBuf [2]] \<and> ws_timers s = [] \<and> \<not> ws_objectMode s"
proof -
  define s0 where "s0 = new_WebSocketStream None None None None True"
  obtain s1 where s1: "ws_step sample_ws_env (WsWrite (JBuf [1]) 1) s0 = Inr s1" "ws_looks s1 = 1" "ws_taken s1 = [JBuf [1]]"
    "ws_timers s1 = [(1000, JBuf [1], 1)]" "ws_bufferSize s1 = 524288" "\<not> ws_objectMode s1"
    by (simp add: s0_def new_WebSocketStream_def proxy_write_def socketWrite_def sample_ws_env_def)
  obtain s2 where s2: "ws_step sample_ws_env WsTimer s1 = Inr s2" "ws_looks s2 = 2" "ws_taken s2 = [JBuf [1]]"
    "ws_timers s2 = []" "ws_bufferSize s2 = 524288" "\<not> ws_objectMode s2"
    using s1 by (simp add: socketWrite_def sample_ws_env_def coerce_def ws_happens_def)
  obtain s3 where s3: "ws_step sample_ws_env (WsWrite (JBuf [2]) 2) s2 = Inr s3" "ws_taken s3 = [JBuf [1], JBuf [2]]"
    "ws_timers s3 = []" "\<not> ws_objectMode s3"
    using s2 by (simp add: proxy_write_def socketWrite_def sample_ws_env_def coerce_def ws_happens_def)
  have "ws_timers s0 = []" by (simp add: s0_def new_WebSocketStream_def)
  then have "ws_reach sample_ws_env s3"
    using ws_reach.stepped [OF _ _ s3(1)] ws_reach.stepped [OF _ _ s2(1)] ws_reach.stepped [OF _ _ s1(1)]
      ws_reach.created [of sample_ws_env None None None None True] s2(4) by (simp add: s0_def)
  then show ?thesis using s3(2-4) by blast
qed

lemma socket_sample:
  "\<exists>s. ws_reach sample_ws_env s \<and> ws_taken s = [JBuf [1], JBuf [2]] \<and> sents (ws_events s) = [JBuf [1], JBuf [2]]"
proof -
  obtain s where s: "ws_reach sample_ws_env s" "ws_taken s = [JBuf [1], JBuf [2]]" "ws_timers s = []" "\<not> ws_objectMode s"
    using sample_ws by blast
  have "\<forall>n. send_throws sample_ws_env n = None" by (simp add: sample_ws_env_def)
  from socket_in_order [OF s(1) this] show ?thesis using s by (auto simp: coerce_def)
qed

text \<open>Opening the socket: the chunk that the duplex stream was given before goes to the proxy.\<close>

lemma onopen_sends_waiting:
  assumes "ws_duplex s = Some d" "dx_corked d = 1" "\<not> dx_destroyed d" "waiting_uncork d = [WWrite (Data c) k]"
  shows "\<exists>d'. ws_duplex (onopen env [] s) = Some d' \<and> written (dx_events d') = written (dx_events d) @ [c]"
  using assms by (simp add: onopen_def on_duplex_def ws_happens_def setReadable_def setWritable_def forward_def d_uncork_def
      dx_write_def d_happens_def d_later_def call_back_def Let_def)

text \<open>A string that \<^verbatim>\<open>writev\<close> meets makes it throw, although the stream would take the string by itself.\<close>

lemma writev_string_throws:
  "\<exists>e. proxy_writev env [JStr (js ''a''), JBuf [1]] k s = Inl e"
  by (simp add: proxy_writev_def)

end
