(* ===== verification/Re_Interval.thy ===== *)
theory Re_Interval
  imports Js_Prelude
begin

text \<open>
  Two helpers of the client: \<^verbatim>\<open>reinterval\<close>, a repeating timer that can be set again (the client's keepalive timer), and
  \<^verbatim>\<open>once\<close>, which lets a function be called one time only. The timers of the browser are a list of handles with what they
  call and how often; a handle is a positive number. A callback is named by a number.
\<close>

section \<open>Repeating timers\<close>

record timer =
  t_handle :: int
  t_callback :: "nat option"
  t_interval :: int
  t_args :: "jsval list option"     \<comment> \<open>the array is passed as one argument\<close>

record timers =
  next_handle :: int
  live :: "timer list"

definition setInterval :: "nat option \<Rightarrow> int \<Rightarrow> jsval list option \<Rightarrow> timers \<Rightarrow> int \<times> timers" where
  "setInterval cb interval args ts =
     (next_handle ts,
      ts\<lparr>next_handle := next_handle ts + 1,
         live := live ts @ [\<lparr>t_handle = next_handle ts, t_callback = cb, t_interval = interval, t_args = args\<rparr>]\<rparr>)"

definition clearInterval :: "int \<Rightarrow> timers \<Rightarrow> timers" where
  "clearInterval h ts = ts\<lparr>live := filter (\<lambda>t. t_handle t \<noteq> h) (live ts)\<rparr>"

record re_interval =
  ri_callback :: "nat option"
  ri_args :: "jsval list option"
  ri_interval :: "int option"       \<comment> \<open>\<^verbatim>\<open>_interval\<close>, which holds the handle\<close>

definition ReInterval :: "nat \<Rightarrow> int \<Rightarrow> jsval list \<Rightarrow> timers \<Rightarrow> re_interval \<times> timers" where
  "ReInterval cb interval args ts =
     (let (h, ts1) = setInterval (Some cb) interval (Some args) ts
      in (\<lparr>ri_callback = Some cb, ri_args = Some args, ri_interval = Some h\<rparr>, ts1))"

definition clear_old :: "re_interval \<Rightarrow> timers \<Rightarrow> timers" where
  "clear_old r ts = (case ri_interval r of Some h \<Rightarrow> if h \<noteq> 0 then clearInterval h ts else ts | None \<Rightarrow> ts)"

definition reschedule :: "int option \<Rightarrow> re_interval \<Rightarrow> timers \<Rightarrow> re_interval \<times> timers" where
  "reschedule interval r ts =
     (let i = (case interval of Some n \<Rightarrow> if n \<noteq> 0 then n else (case ri_interval r of Some h \<Rightarrow> h | None \<Rightarrow> 0)
               | None \<Rightarrow> (case ri_interval r of Some h \<Rightarrow> h | None \<Rightarrow> 0));
          (h, ts1) = setInterval (ri_callback r) i (ri_args r) (clear_old r ts)
      in (r\<lparr>ri_interval := Some h\<rparr>, ts1))"

definition ri_clear :: "re_interval \<Rightarrow> timers \<Rightarrow> re_interval \<times> timers" where
  "ri_clear r ts = (if ri_interval r \<noteq> None then (r\<lparr>ri_interval := None\<rparr>, clear_old r ts) else (r, ts))"

definition ri_destroy :: "re_interval \<Rightarrow> timers \<Rightarrow> re_interval \<times> timers" where
  "ri_destroy r ts = (\<lparr>ri_callback = None, ri_args = None, ri_interval = None\<rparr>, clear_old r ts)"

datatype js_arg = AFunction nat | AValue jsval

definition reInterval :: "js_arg list \<Rightarrow> timers \<Rightarrow> (re_interval \<times> timers) result" where
  "reInterval arguments ts =
     (case arguments of
        AFunction cb # AValue (JNum interval) # args \<Rightarrow>
          Inr (ReInterval cb interval (map (\<lambda>a. case a of AValue v \<Rightarrow> v | AFunction f \<Rightarrow> JObj) args) ts)
      | AFunction cb # _ \<Rightarrow> Inl (JsError ''interval needed'')
      | _ \<Rightarrow> Inl (JsError ''callback needed''))"

datatype ri_op = RiReschedule "int option" | RiClear | RiDestroy

fun ri_step :: "ri_op \<Rightarrow> re_interval \<times> timers \<Rightarrow> re_interval \<times> timers" where
  "ri_step (RiReschedule n) (r, ts) = reschedule n r ts"
| "ri_step RiClear (r, ts) = ri_clear r ts"
| "ri_step RiDestroy (r, ts) = ri_destroy r ts"

definition handles_ok :: "timers \<Rightarrow> bool" where
  "handles_ok ts \<longleftrightarrow> next_handle ts > 0 \<and> (\<forall>t \<in> set (live ts). 0 < t_handle t \<and> t_handle t < next_handle ts)"

text \<open>The timers of others stay as they are, and the object has one timer, or none after \<^verbatim>\<open>clear\<close> and \<^verbatim>\<open>destroy\<close>.\<close>

definition owns_one :: "timer list \<Rightarrow> re_interval \<times> timers \<Rightarrow> bool" where
  "owns_one others st \<longleftrightarrow> handles_ok (snd st) \<and>
     (case ri_interval (fst st) of
        None \<Rightarrow> live (snd st) = others
      | Some h \<Rightarrow> h > 0 \<and> (\<exists>t. t_handle t = h \<and> live (snd st) = others @ [t]) \<and> (\<forall>t \<in> set others. t_handle t \<noteq> h))"

lemma owns_clear:
  assumes "owns_one others (r, ts)"
  shows "live (clear_old r ts) = others" "handles_ok (clear_old r ts)" "next_handle (clear_old r ts) = next_handle ts"
proof -
  show "live (clear_old r ts) = others"
    using assms by (auto simp: owns_one_def clear_old_def clearInterval_def filter_id_conv split: option.splits)
  show "handles_ok (clear_old r ts)" "next_handle (clear_old r ts) = next_handle ts"
    using assms by (auto simp: owns_one_def clear_old_def clearInterval_def handles_ok_def split: option.splits)
qed

lemma owns_set:
  assumes "handles_ok ts" "live ts = others" "setInterval cb i args ts = (h, ts')" "ri_interval r = Some h"
  shows "owns_one others (r, ts')"
proof -
  have "t_handle t < h + 1 \<and> t_handle t \<noteq> h" if "t \<in> set others" for t
    using that assms by (force simp: setInterval_def handles_ok_def)
  then show ?thesis using assms by (auto simp: owns_one_def setInterval_def handles_ok_def)
qed

lemma one_timer:
  assumes "owns_one others st"
  shows "owns_one others (ri_step oper st)"
proof -
  obtain r ts where st: "st = (r, ts)" by (cases st)
  note c = owns_clear [OF assms [unfolded st]]
  have quiet: "owns_one others (r', clear_old r ts)" if "ri_interval r' = None" for r'
    using c that by (simp add: owns_one_def)
  show ?thesis
  proof (cases oper)
    case (RiReschedule n)
    then show ?thesis using owns_set [OF c(2,1)] st by (auto simp: reschedule_def Let_def split: prod.splits)
  next
    case RiClear
    then show ?thesis using quiet assms st by (simp add: ri_clear_def)
  next
    case RiDestroy
    then show ?thesis using quiet st by (simp add: ri_destroy_def)
  qed
qed

lemma new_timer: "handles_ok ts \<Longrightarrow> owns_one (live ts) (ReInterval cb interval args ts)"
  by (auto simp: ReInterval_def owns_one_def setInterval_def handles_ok_def)

text \<open>
  Without an argument \<^verbatim>\<open>reschedule\<close> is meant to use the interval given on creation; it uses the handle of the timer.
\<close>

lemma reschedule_uses_handle:
  "map t_interval (live (snd (ri_step (RiReschedule None) (ReInterval cb 10000 args \<lparr>next_handle = 1, live = []\<rparr>)))) = [1]"
  by (simp add: ReInterval_def setInterval_def reschedule_def clear_old_def clearInterval_def)

section \<open>Functions called once\<close>

record 'v once_fn =
  o_called :: bool
  o_value :: "'v option"            \<comment> \<open>\<open>None\<close> is \<^verbatim>\<open>undefined\<close>\<close>
  o_error :: string

definition once :: "'v once_fn" where
  "once = \<lparr>o_called = False, o_value = None, o_error = []\<rparr>"

definition call_once :: "('a \<Rightarrow> 'v result) \<Rightarrow> 'a \<Rightarrow> 'v once_fn \<Rightarrow> ('v option result) \<times> 'v once_fn" where
  "call_once fn x f =
     (if o_called f then (Inr (o_value f), f)
      else case fn x of
        Inl e \<Rightarrow> (Inl e, f\<lparr>o_called := True\<rparr>)
      | Inr v \<Rightarrow> (Inr (Some v), f\<lparr>o_called := True, o_value := Some v\<rparr>))"

definition onceStrict :: "string \<Rightarrow> 'v once_fn" where
  "onceStrict name =
     \<lparr>o_called = False, o_value = None,
      o_error = (if name \<noteq> [] then name else ''Function wrapped with `once`'') @ '' shouldn't be called more than once''\<rparr>"

definition call_onceStrict :: "('a \<Rightarrow> 'v result) \<Rightarrow> 'a \<Rightarrow> 'v once_fn \<Rightarrow> ('v option result) \<times> 'v once_fn" where
  "call_onceStrict fn x f = (if o_called f then (Inl (JsError (o_error f)), f) else call_once fn x f)"

lemma once_same:
  assumes "call_once fn x once = (Inr v, f)"
  shows "call_once fn y f = (Inr v, f)"
  using assms by (auto simp: call_once_def once_def split: sum.splits)

lemma onceStrict_throws:
  assumes "call_onceStrict fn x (onceStrict name) = (v, f)"
  shows "\<exists>e. call_onceStrict fn y f = (Inl (JsError e), f)"
  using assms by (auto simp: call_onceStrict_def call_once_def onceStrict_def split: sum.splits)

end
