(* ===== verification/Buffer_More.thy ===== *)
theory Buffer_More
  imports Js_Text
begin

text \<open>
  \<^verbatim>\<open>Buffer\<close>: the ways to make one (\<^verbatim>\<open>from\<close>, \<^verbatim>\<open>alloc\<close>, the constructor), \<^verbatim>\<open>fill\<close>, the byte swaps and the search for a value.
  An \<^verbatim>\<open>ArrayBuffer\<close> is its bytes, and a Buffer made of one is a copy here. The numeric arguments are numbers or absent.
\<close>

section \<open>Making a Buffer\<close>

datatype from_arg =
    FNumber int
  | FString jsstr
  | FArrayBuffer buffer
  | FBuffer buffer
  | FArray "int list"               \<comment> \<open>an array, a typed array, or another object with a length\<close>
  | FNoLength                       \<comment> \<open>an object whose \<^verbatim>\<open>length\<close> is not a number\<close>
  | FJson "int list"                \<comment> \<open>\<^verbatim>\<open>{type: 'Buffer', data: [...]}\<close>\<close>
  | FOther                          \<comment> \<open>any other object, \<^verbatim>\<open>null\<close> and \<^verbatim>\<open>undefined\<close>\<close>

definition fromArrayBuffer :: "buffer \<Rightarrow> int option \<Rightarrow> int option \<Rightarrow> buffer result" where
  "fromArrayBuffer array byteOffset len =
     (let n = int (length array); off = (case byteOffset of None \<Rightarrow> 0 | Some k \<Rightarrow> k) in
      if byteOffset \<noteq> None \<and> (off < 0 \<or> n < off) then Inl (RangeError '''offset' is out of bounds'')
      else if byteOffset \<noteq> None \<and> n < off + (case len of None \<Rightarrow> 0 | Some l \<Rightarrow> l)
      then Inl (RangeError '''length' is out of bounds'')
      else case len of
        None \<Rightarrow> Inr (drop (nat off) array)
      | Some l \<Rightarrow>
          if l < 0 \<or> n < off + l then Inl (RangeError ''Invalid typed array length'')
          else Inr (take (nat l) (drop (nat off) array)))"

definition fromObject :: "from_arg \<Rightarrow> buffer result" where
  "fromObject obj =
     (case obj of
        FBuffer b \<Rightarrow>
          rbind (checked (int (length b))) (\<lambda>len.
          rbind (createBuffer len) (\<lambda>buf.
            if buf = [] then Inr buf
            else rbind (Buffer_copy b buf 0 0 (Some len)) (\<lambda>(buf, _). Inr buf)))
      | FArray xs \<Rightarrow> fromArrayLike xs
      | FNoLength \<Rightarrow> createBuffer 0
      | FJson xs \<Rightarrow> fromArrayLike xs
      | _ \<Rightarrow> Inl (TypeError ''First argument must be a string, Buffer, ArrayBuffer, Array, or array-like object.''))"

text \<open>The second argument is an encoding or an offset.\<close>

definition Buffer_from :: "from_arg \<Rightarrow> jsval \<Rightarrow> int option \<Rightarrow> buffer result" where
  "Buffer_from v encodingOrOffset len =
     (case v of
        FNumber n \<Rightarrow> Inl (TypeError ''\"value\" argument must not be a number'')
      | FArrayBuffer b \<Rightarrow> fromArrayBuffer b (case encodingOrOffset of JNum k \<Rightarrow> Some k | _ \<Rightarrow> None) len
      | FString t \<Rightarrow> fromString t (case encodingOrOffset of JStr e \<Rightarrow> Some e | _ \<Rightarrow> None)
      | _ \<Rightarrow> fromObject v)"

definition Buffer_new :: "from_arg \<Rightarrow> jsval \<Rightarrow> int option \<Rightarrow> buffer result" where
  "Buffer_new v encodingOrOffset len =
     (case v of
        FNumber n \<Rightarrow>
          if is_string encodingOrOffset
          then Inl (JsError ''If encoding is specified then the first argument must be a string'')
          else allocUnsafe (JNum n)
      | _ \<Rightarrow> Buffer_from v encodingOrOffset len)"

section \<open>Filling\<close>

fun to_from_arg :: "jsval \<Rightarrow> from_arg" where
  "to_from_arg (JNum n) = FNumber n"
| "to_from_arg (JFrac t s) = FNumber t"
| "to_from_arg (JStr s) = FString s"
| "to_from_arg (JBuf b) = FBuffer b"
| "to_from_arg _ = FOther"

definition fill_range :: "buffer \<Rightarrow> nat \<Rightarrow> nat \<Rightarrow> (nat \<Rightarrow> byte) \<Rightarrow> buffer" where
  \<comment> \<open>the loops: position \<open>start + i\<close> becomes \<open>f i\<close>\<close>
  "fill_range b start end f = take start b @ map f [0..<end - start] @ drop end b"

definition fill_args :: "jsval \<Rightarrow> jsval \<Rightarrow> jsval \<Rightarrow> jsval \<Rightarrow> int \<Rightarrow> (jsval \<times> jsval \<times> jsval \<times> jsval) result" where
  \<comment> \<open>value, start, end and encoding after the string cases\<close>
  "fill_args val start end encoding len =
     (case val of
        JStr t \<Rightarrow>
          (let (start, end, encoding) =
             (if is_string start then (JNum 0, JNum len, start)
              else if is_string end then (start, JNum len, end)
              else (start, end, encoding));
               v = (case t of [c] \<Rightarrow> if uint c < 256 then JNum (uint c) else val | _ \<Rightarrow> val)
           in case encoding of
                JUndef \<Rightarrow> Inr (v, start, end, encoding)
              | JStr e \<Rightarrow> if isEncoding e then Inr (v, start, end, encoding) else Inl (TypeError ''Unknown encoding'')
              | _ \<Rightarrow> Inl (TypeError ''encoding must be a string''))
      | JNum n \<Rightarrow> Inr (JNum (n AND 255), start, end, encoding)
      | JFrac t s \<Rightarrow> Inr (JNum (t AND 255), start, end, encoding)
      | _ \<Rightarrow> Inr (val, start, end, encoding))"

fun num_arg :: "jsval \<Rightarrow> int option" where
  "num_arg (JNum n) = Some n"
| "num_arg _ = None"

definition Buffer_fill :: "buffer \<Rightarrow> jsval \<Rightarrow> jsval \<Rightarrow> jsval \<Rightarrow> jsval \<Rightarrow> buffer result" where
  "Buffer_fill this val0 start0 end0 encoding0 =
     (let len = int (length this) in
      rbind (fill_args val0 start0 end0 encoding0 len) (\<lambda>(val, start, end, encoding).
        let s = num_arg start; e = num_arg end in
        if (case s of Some n \<Rightarrow> n < 0 \<or> len < n | None \<Rightarrow> False) \<or> (case e of Some n \<Rightarrow> len < n | None \<Rightarrow> False)
        then Inl (RangeError ''Out of range index'')
        else if (case (s, e) of (Some a, Some b) \<Rightarrow> b \<le> a | _ \<Rightarrow> False) then Inr this
        else
          (let a = nat (to_uint32 (case s of Some n \<Rightarrow> n | None \<Rightarrow> 0));
               b = nat (case e of Some n \<Rightarrow> to_uint32 n | None \<Rightarrow> len);
               v = (if truthy val then val else JNum 0)
           in case v of
                JNum n \<Rightarrow> Inr (fill_range this a (max a b) (\<lambda>i. word_of_int n))
              | _ \<Rightarrow>
                  rbind (case v of JBuf c \<Rightarrow> Inr c | _ \<Rightarrow> Buffer_new (to_from_arg v) encoding None) (\<lambda>bytes.
                    Inr (fill_range this a (max a b) (\<lambda>i. if bytes = [] then 0 else bytes ! (i mod length bytes)))))))"

definition Buffer_alloc :: "jsval \<Rightarrow> jsval \<Rightarrow> jsval \<Rightarrow> buffer result" where
  "Buffer_alloc sz val encoding =
     rbind (assertSize sz) (\<lambda>n.
       if n \<le> 0 then createBuffer n
       else if val \<noteq> JUndef then
         rbind (createBuffer n) (\<lambda>b.
           if is_string encoding then Buffer_fill b val encoding JUndef JUndef else Buffer_fill b val JUndef JUndef JUndef)
       else createBuffer n)"

definition toJSON :: "buffer \<Rightarrow> from_arg" where
  "toJSON b = FJson (map uint b)"

section \<open>Byte swaps\<close>

definition swap :: "buffer \<Rightarrow> nat \<Rightarrow> nat \<Rightarrow> buffer" where
  "swap b n m = (let i = b ! n in (b[n := b ! m])[m := i])"

fun swap_loop :: "nat \<Rightarrow> nat \<Rightarrow> buffer \<Rightarrow> buffer" where
  \<comment> \<open>the first k elements of n bytes each\<close>
  "swap_loop n 0 b = b"
| "swap_loop n (Suc k) b = fold (\<lambda>j b. swap b (k * n + j) (k * n + n - 1 - j)) [0..<n div 2] (swap_loop n k b)"

definition swap_bytes :: "nat \<Rightarrow> string \<Rightarrow> buffer \<Rightarrow> buffer result" where
  "swap_bytes n msg b = (if length b mod n \<noteq> 0 then Inl (RangeError msg) else Inr (swap_loop n (length b div n) b))"

definition swap16 :: "buffer \<Rightarrow> buffer result" where
  "swap16 = swap_bytes 2 ''Buffer size must be a multiple of 16-bits''"

definition swap32 :: "buffer \<Rightarrow> buffer result" where
  "swap32 = swap_bytes 4 ''Buffer size must be a multiple of 32-bits''"

definition swap64 :: "buffer \<Rightarrow> buffer result" where
  "swap64 = swap_bytes 8 ''Buffer size must be a multiple of 64-bits''"

section \<open>Searching\<close>

text \<open>
  Positions are positions of bytes: an element has \<open>w = 1\<close> byte, or \<open>w = 2\<close> when the encoding is UTF-16. The code counts
  elements and so may have half a position.
\<close>

definition elem_at :: "nat \<Rightarrow> buffer \<Rightarrow> nat \<Rightarrow> int option result" where
  \<comment> \<open>\<^verbatim>\<open>read\<close>; \<open>None\<close> is \<^verbatim>\<open>undefined\<close>\<close>
  "elem_at w buf p =
     (if w = 1 then Inr (if p < length buf then Some (uint (buf ! p)) else None)
      else rbind (readUInt16BE buf (int p)) (\<lambda>n. Inr (Some n)))"

function search_forward :: "nat \<Rightarrow> buffer \<Rightarrow> buffer \<Rightarrow> nat \<Rightarrow> nat option \<Rightarrow> int result" where
  \<comment> \<open>\<^verbatim>\<open>i\<close> and \<^verbatim>\<open>foundIndex\<close>; the width is \<open>Suc k\<close>\<close>
  "search_forward k arr val i found =
     (if i < length arr then
        rbind (elem_at (Suc k) arr i) (\<lambda>x. rbind (elem_at (Suc k) val (case found of None \<Rightarrow> 0 | Some f \<Rightarrow> i - f)) (\<lambda>y.
          if x = y then
            (let f = (case found of None \<Rightarrow> i | Some f \<Rightarrow> f) in
             if i - f + Suc k = length val then Inr (int f) else search_forward k arr val (i + Suc k) (Some f))
          else search_forward k arr val ((case found of None \<Rightarrow> i | Some f \<Rightarrow> f) + Suc k) None))
      else Inr (-1))"
  by pat_completeness auto

termination
  by (relation "measures [\<lambda>(k, arr, val, i, found). length arr - (case found of None \<Rightarrow> i | Some f \<Rightarrow> min f i),
                          \<lambda>(k, arr, val, i, found). length arr - i]")
     (auto split: option.splits)

fun same_at :: "nat \<Rightarrow> buffer \<Rightarrow> buffer \<Rightarrow> nat \<Rightarrow> nat list \<Rightarrow> bool result" where
  \<comment> \<open>the inner loop of the backward search, over the positions in the value\<close>
  "same_at w arr val p [] = Inr True"
| "same_at w arr val p (q # qs) =
     rbind (elem_at w arr (p + q)) (\<lambda>x. rbind (elem_at w val q) (\<lambda>y. if x \<noteq> y then Inr False else same_at w arr val p qs))"

definition elem_positions :: "nat \<Rightarrow> buffer \<Rightarrow> nat list" where
  "elem_positions w val = map (\<lambda>j. j * w) [0..<(length val + w - 1) div w]"

function search_backward :: "nat \<Rightarrow> buffer \<Rightarrow> buffer \<Rightarrow> int \<Rightarrow> int option result" where
  \<comment> \<open>the position, if there is one; the width is \<open>Suc k\<close>\<close>
  "search_backward k arr val p =
     (if p \<ge> 0 then
        rbind (same_at (Suc k) arr val (nat p) (elem_positions (Suc k) val)) (\<lambda>found.
          if found then Inr (Some p) else search_backward k arr val (p - int (Suc k)))
      else Inr None)"
  by pat_completeness auto

termination
  by (relation "measure (\<lambda>(k, arr, val, p). nat (p + 1))") auto

definition elem_index :: "nat \<Rightarrow> int \<Rightarrow> jsval" where
  \<comment> \<open>a position as the number of elements before it\<close>
  "elem_index w p = (if p mod int w = 0 then JNum (p div int w) else JFrac (p div int w) (int_text (p div int w) @ js ''.5''))"

definition arrayIndexOf :: "buffer \<Rightarrow> buffer \<Rightarrow> nat \<Rightarrow> jsval \<Rightarrow> bool \<Rightarrow> jsval result" where
  "arrayIndexOf arr val byteOffset encoding dir =
     (let enc = (case encoding of JUndef \<Rightarrow> [] | JStr e \<Rightarrow> toLowerCase e | _ \<Rightarrow> []);
          wide = enc \<in> {js ''ucs2'', js ''ucs-2'', js ''utf16le'', js ''utf-16le''};
          k = (if wide then 1 else 0)
      in if wide \<and> (length arr < 2 \<or> length val < 2) then Inr (JNum (-1))
         else if dir then rbind (search_forward k arr val byteOffset None) (\<lambda>r. Inr (JNum r))
         else
           (let p = (if byteOffset + length val > length arr then int (length arr) - int (length val) else int byteOffset)
            in rbind (search_backward k arr val p) (\<lambda>r. Inr (case r of None \<Rightarrow> JNum (-1) | Some p \<Rightarrow> elem_index (Suc k) p))))"

text \<open>The search of \<^verbatim>\<open>Uint8Array\<close> for a byte.\<close>

definition byte_search :: "buffer \<Rightarrow> byte \<Rightarrow> nat \<Rightarrow> bool \<Rightarrow> int" where
  "byte_search b c off dir =
     (case (if dir then find (\<lambda>p. b ! p = c) [off..<length b] else find (\<lambda>p. b ! p = c) (rev [0..<Suc off])) of
        None \<Rightarrow> -1 | Some p \<Rightarrow> int p)"

fun offset_number :: "jsval \<Rightarrow> int option" where
  \<comment> \<open>\<open>None\<close> is NaN; the argument is an integer or not a number\<close>
  "offset_number (JNum n) = Some (if n > 0x7FFFFFFF then 0x7FFFFFFF else if n < - 0x80000000 then - 0x80000000 else n)"
| "offset_number JNull = Some 0"
| "offset_number (JBool b) = Some (if b then 1 else 0)"
| "offset_number _ = None"

definition bidirectionalIndexOf :: "buffer \<Rightarrow> jsval \<Rightarrow> jsval \<Rightarrow> jsval \<Rightarrow> bool \<Rightarrow> jsval result" where
  "bidirectionalIndexOf buffer val byteOffset0 encoding0 dir =
     (let n = int (length buffer) in
      if n = 0 then Inr (JNum (-1))
      else
        (let (off0, encoding) = (case byteOffset0 of JStr e \<Rightarrow> (Some 0, JStr e) | _ \<Rightarrow> (offset_number byteOffset0, encoding0));
             off1 = (case off0 of None \<Rightarrow> if dir then 0 else n - 1 | Some k \<Rightarrow> k);
             off2 = (if off1 < 0 then n + off1 else off1)
         in if off2 \<ge> n \<and> dir \<or> off2 < 0 \<and> \<not> dir then Inr (JNum (-1))
            else
              (let off = nat (if off2 \<ge> n then n - 1 else if off2 < 0 then 0 else off2);
                   search = (\<lambda>v. if v = [] then Inr (JNum (-1)) else arrayIndexOf buffer v off encoding dir)
               in case val of
                    JStr t \<Rightarrow> rbind (fromString t (case encoding of JStr e \<Rightarrow> Some e | _ \<Rightarrow> None)) search
                  | JBuf v \<Rightarrow> search v
                  | JNum k \<Rightarrow> Inr (JNum (byte_search buffer (word_of_int k) off dir))
                  | JFrac k s \<Rightarrow> Inr (JNum (byte_search buffer (word_of_int k) off dir))
                  | _ \<Rightarrow> Inl (TypeError ''val must be string, number or Buffer''))))"

definition Buffer_indexOf :: "buffer \<Rightarrow> jsval \<Rightarrow> jsval \<Rightarrow> jsval \<Rightarrow> jsval result" where
  "Buffer_indexOf b val off enc = bidirectionalIndexOf b val off enc True"

definition Buffer_lastIndexOf :: "buffer \<Rightarrow> jsval \<Rightarrow> jsval \<Rightarrow> jsval \<Rightarrow> jsval result" where
  "Buffer_lastIndexOf b val off enc = bidirectionalIndexOf b val off enc False"

definition Buffer_includes :: "buffer \<Rightarrow> jsval \<Rightarrow> jsval \<Rightarrow> jsval \<Rightarrow> bool result" where
  "Buffer_includes b val off enc = rbind (Buffer_indexOf b val off enc) (\<lambda>r. Inr (r \<noteq> JNum (-1)))"

section \<open>The search finds the first and the last occurrence\<close>

definition occurs_at :: "buffer \<Rightarrow> buffer \<Rightarrow> nat \<Rightarrow> bool" where
  "occurs_at val arr p \<longleftrightarrow> p + length val \<le> length arr \<and> take (length val) (drop p arr) = val"

lemma elem_byte: "p < length b \<Longrightarrow> elem_at (Suc 0) b p = Inr (Some (uint (b ! p)))"
  by (simp add: elem_at_def)

lemma uint_byte_eq: "uint (a :: byte) = uint b \<longleftrightarrow> a = b"
  by (simp add: word_uint_eq_iff)

lemma occurs_nth: "occurs_at val arr p \<Longrightarrow> i < length val \<Longrightarrow> arr ! (p + i) = val ! i"
  by (auto simp: occurs_at_def) (metis add_leD1 nth_drop nth_take)

lemma occurs_extend:
  "p + n < length arr \<Longrightarrow> n < length val \<Longrightarrow> take n (drop p arr) = take n val \<Longrightarrow> arr ! (p + n) = val ! n \<Longrightarrow>
     take (Suc n) (drop p arr) = take (Suc n) val"
  by (simp add: take_Suc_conv_app_nth)

declare search_forward.simps [simp del] search_backward.simps [simp del]

definition first_from :: "buffer \<Rightarrow> buffer \<Rightarrow> nat \<Rightarrow> int \<Rightarrow> bool" where
  "first_from val arr p r \<longleftrightarrow>
     (if r < 0 then r = -1 \<and> (\<forall>q \<ge> p. \<not> occurs_at val arr q)
      else p \<le> nat r \<and> occurs_at val arr (nat r) \<and> (\<forall>q. p \<le> q \<and> q < nat r \<longrightarrow> \<not> occurs_at val arr q))"

lemma first_from_step: "\<not> occurs_at val arr p \<Longrightarrow> first_from val arr (Suc p) r \<Longrightarrow> first_from val arr p r"
  by (auto simp: first_from_def split: if_splits) (metis Suc_leI le_neq_implies_less)+

lemma first_from_none: "val \<noteq> [] \<Longrightarrow> length arr < p + length val \<Longrightarrow> first_from val arr p (-1)"
  by (auto simp: first_from_def occurs_at_def)

lemma first_from_here: "occurs_at val arr p \<Longrightarrow> first_from val arr p (int p)"
  by (auto simp: first_from_def)

lemma search_forward_spec:
  assumes "val \<noteq> []" "p = (case found of None \<Rightarrow> i | Some f \<Rightarrow> f)" "p \<le> i" "i - p < length val" "i \<le> length arr"
    and "take (i - p) (drop p arr) = take (i - p) val"
  shows "\<exists>r. search_forward 0 arr val i found = Inr r \<and> first_from val arr p r"
  using assms
proof (induction "0::nat" arr val i found arbitrary: p rule: search_forward.induct)
  case (1 arr val i found)
  show ?case
  proof (cases "i < length arr")
    case False
    then have "length arr < p + length val" using 1(6-8) by simp
    then show ?thesis using first_from_none [OF 1(3)] False by (simp add: search_forward.simps)
  next
    case True
    define j where "j = i - p"
    have j: "j < length val" "p + j = i" using 1(5,6) by (simp_all add: j_def)
    have start: "val \<noteq> [] \<Longrightarrow> length val > 0" by simp
    have le: "Suc p \<le> length arr" using True 1(5) by simp
    have idx: "(case found of None \<Rightarrow> 0 | Some f \<Rightarrow> i - f) = j" using 1(4) j by (auto split: option.splits)
    have step: "search_forward 0 arr val i found =
        (if arr ! i = val ! j then
           (if i - p + 1 = length val then Inr (int p) else search_forward 0 arr val (Suc i) (Some p))
         else search_forward 0 arr val (Suc p) None)"
      using True j(1) 1(4) idx by (subst search_forward.simps) (simp add: elem_byte Let_def uint_byte_eq)
    show ?thesis
    proof (cases "arr ! i = val ! j")
      case False
      have "\<not> occurs_at val arr p" using occurs_nth [of val arr p j] j False by auto
      moreover have "\<exists>r. search_forward 0 arr val (Suc p) None = Inr r \<and> first_from val arr (Suc p) r"
        using 1(2) [OF True, of None "Some 0" "Suc p"] 1(3) start le by (simp add: 1(4) [symmetric])
      ultimately show ?thesis using step False first_from_step by auto
    next
      case same: True
      have ext: "take (Suc j) (drop p arr) = take (Suc j) val"
        by (rule occurs_extend) (use True j 1(8) same in \<open>simp_all add: j_def\<close>)
      show ?thesis
      proof (cases "Suc j = length val")
        case True
        have "occurs_at val arr p" using ext True j \<open>i < length arr\<close> by (simp add: occurs_at_def)
        then show ?thesis using step same True j first_from_here by auto
      next
        case False
        have "\<exists>r. search_forward 0 arr val (Suc i) (Some p) = Inr r \<and> first_from val arr p r"
          using 1(1) [OF \<open>i < length arr\<close>, of None None p p] 1(3,5) True j(1) ext False
          by (simp add: Suc_diff_le j_def 1(4) [symmetric])
        then show ?thesis using step same False j by auto
      qed
    qed
  qed
qed

lemma elem_positions_byte: "elem_positions (Suc 0) val = [0..<length val]"
  by (simp add: elem_positions_def)

lemma same_at_byte:
  "p + length val \<le> length arr \<Longrightarrow> \<forall>q \<in> set qs. q < length val \<Longrightarrow>
     same_at (Suc 0) arr val p qs = Inr (\<forall>q \<in> set qs. arr ! (p + q) = val ! q)"
  by (induction qs) (auto simp: elem_byte uint_byte_eq)

lemma occurs_all: "p + length val \<le> length arr \<Longrightarrow> occurs_at val arr p \<longleftrightarrow> (\<forall>q < length val. arr ! (p + q) = val ! q)"
  by (auto simp: occurs_at_def list_eq_iff_nth_eq)

definition last_upto :: "buffer \<Rightarrow> buffer \<Rightarrow> int \<Rightarrow> int option \<Rightarrow> bool" where
  "last_upto val arr p r \<longleftrightarrow>
     (case r of None \<Rightarrow> \<forall>q. int q \<le> p \<longrightarrow> \<not> occurs_at val arr q
      | Some m \<Rightarrow> 0 \<le> m \<and> m \<le> p \<and> occurs_at val arr (nat m) \<and> (\<forall>q. m < int q \<and> int q \<le> p \<longrightarrow> \<not> occurs_at val arr q))"

lemma last_upto_step:
  assumes "\<not> occurs_at val arr (nat p)" "last_upto val arr (p - 1) r"
  shows "last_upto val arr p r"
proof -
  have "q = nat p" if "int q \<le> p" "\<not> int q \<le> p - 1" for q using that by simp
  then show ?thesis using assms by (fastforce simp: last_upto_def split: option.splits)
qed

lemma search_backward_spec:
  assumes "p + int (length val) \<le> int (length arr)"
  shows "\<exists>r. search_backward 0 arr val p = Inr r \<and> last_upto val arr p r"
  using assms
proof (induction "0::nat" arr val p rule: search_backward.induct)
  case (1 arr val p)
  show ?case
  proof (cases "p \<ge> 0")
    case False
    then show ?thesis by (auto simp: search_backward.simps last_upto_def)
  next
    case True
    then have l: "nat p + length val \<le> length arr" using 1(2) by linarith
    have s: "same_at (Suc 0) arr val (nat p) (elem_positions (Suc 0) val) = Inr (occurs_at val arr (nat p))"
      using same_at_byte [OF l, of "[0..<length val]"] occurs_all [OF l] by (simp add: elem_positions_byte atLeast0LessThan Ball_def)
    have step: "search_backward 0 arr val p = (if occurs_at val arr (nat p) then Inr (Some p) else search_backward 0 arr val (p - 1))"
      using True s by (subst search_backward.simps) simp
    show ?thesis
    proof (cases "occurs_at val arr (nat p)")
      case True
      then have "last_upto val arr p (Some p)" using \<open>p \<ge> 0\<close> by (auto simp: last_upto_def)
      then show ?thesis using step True by simp
    next
      case False
      have "\<exists>r. search_backward 0 arr val (p - 1) = Inr r \<and> last_upto val arr (p - 1) r"
        using 1(1) [OF True, of False] False 1(2) by simp
      then show ?thesis using step False last_upto_step by auto
    qed
  qed
qed

text \<open>
  \<^bold>\<open>C39.\<close> The search for a Buffer is right: \<^verbatim>\<open>indexOf\<close> returns the first position at which the bytes occur, from the offset
  on, and \<^verbatim>\<open>lastIndexOf\<close> the last one up to the offset; both return \<open>-1\<close> exactly when there is none. The loop that
  goes back after a partial match misses no occurrence.
\<close>

theorem buffer_search:
  assumes "val \<noteq> []" "off < length b" "int (length b) < 2 ^ 31" "length val \<le> length b"
  shows "(\<exists>r. Buffer_indexOf b (JBuf val) (JNum (int off)) JUndef = Inr (JNum r) \<and> first_from val b off r)
    \<and> (\<exists>r. Buffer_lastIndexOf b (JBuf val) (JNum (int off)) JUndef = Inr (JNum (case r of None \<Rightarrow> -1 | Some m \<Rightarrow> m))
         \<and> last_upto val b (min (int off) (int (length b) - int (length val))) r)"
proof -
  define m where "m = min (int off) (int (length b) - int (length val))"
  have n: "int off < 2 ^ 31" using assms(2,3) by linarith
  have off: "offset_number (JNum (int off)) = Some (int off)" using n by simp
  obtain x where f: "search_forward 0 b val off None = Inr x" "first_from val b off x"
    using search_forward_spec [where val = val and p = off and found = None and i = off and arr = b] assms by auto
  obtain r where l: "search_backward 0 b val m = Inr r" "last_upto val b m r"
    using search_backward_spec [of m val b] by (force simp: m_def)
  have m: "(if off + length val > length b then int (length b) - int (length val) else int off) = m"
    by (auto simp: m_def)
  have "arrayIndexOf b val off JUndef True = Inr (JNum x)" using f(1) by (simp add: arrayIndexOf_def js_def)
  moreover have "arrayIndexOf b val off JUndef False = Inr (JNum (case r of None \<Rightarrow> -1 | Some m \<Rightarrow> m))"
    using l(1) m by (simp add: arrayIndexOf_def js_def Let_def elem_index_def split: option.splits)
  moreover have "bidirectionalIndexOf b (JBuf val) (JNum (int off)) JUndef dir = arrayIndexOf b val off JUndef dir" for dir
    using assms(1,2) off by (auto simp: bidirectionalIndexOf_def Let_def)
  ultimately show ?thesis using f(2) l(2) unfolding m_def Buffer_indexOf_def Buffer_lastIndexOf_def by auto
qed

theorem buffer_search_witness:
  "\<exists>r. Buffer_indexOf [1, 1, 2, 1, 1, 2] (JBuf [1, 2]) (JNum 2) JUndef = Inr (JNum r) \<and> first_from [1, 2] [1, 1, 2, 1, 1, 2] 2 r"
  using buffer_search [of "[1, 2]" 2 "[1, 1, 2, 1, 1, 2]"] by simp

text \<open>In UTF-16 \<^verbatim>\<open>lastIndexOf\<close> answers with the number of code units before the match, \<^verbatim>\<open>indexOf\<close> with that of bytes.\<close>

lemma last_index_halved:
  "Buffer_indexOf [0, 0, 5, 0] (JBuf [5, 0]) JUndef (JStr (js ''ucs2'')) = Inr (JNum 2)"
  "Buffer_lastIndexOf [0, 0, 5, 0] (JBuf [5, 0]) JUndef (JStr (js ''ucs2'')) = Inr (JNum 1)"
  by code_simp+

text \<open>An offset of \<^verbatim>\<open>null\<close> is 0, where the comment of the code promises a search of the whole buffer.\<close>

lemma null_offset: "Buffer_lastIndexOf [1, 2] (JBuf [2]) JNull JUndef = Inr (JNum (-1))"
  by code_simp

section \<open>Swaps and filling\<close>

definition swap_group :: "nat \<Rightarrow> nat \<Rightarrow> buffer \<Rightarrow> buffer" where
  "swap_group n off b = fold (\<lambda>j b. swap b (off + j) (off + n - 1 - j)) [0..<n div 2] b"

lemma swap_inside:
  assumes "i < length g" "j < length g"
  shows "swap (xs @ g @ ys) (length xs + i) (length xs + j) = xs @ swap g i j @ ys"
  using assms by (simp add: swap_def Let_def nth_append list_update_append)

lemma length_swap [simp]: "length (swap b n m) = length b"
  by (simp add: swap_def Let_def)

lemma swap_group_inside:
  "length g = n \<Longrightarrow> swap_group n (length xs) (xs @ g @ ys) = xs @ swap_group n 0 g @ ys"
proof -
  assume n: "length g = n"
  have "fold (\<lambda>j b. swap b (length xs + j) (length xs + n - 1 - j)) qs (xs @ g' @ ys)
      = xs @ fold (\<lambda>j b. swap b (0 + j) (0 + n - 1 - j)) qs g' @ ys"
    if "\<forall>q \<in> set qs. q < n" "length g' = n" for qs g'
    using that
  proof (induction qs arbitrary: g')
    case (Cons q qs)
    have "length xs + n - 1 - q = length xs + (n - 1 - q)" using Cons.prems by simp
    then have "swap (xs @ g' @ ys) (length xs + q) (length xs + n - 1 - q) = xs @ swap g' q (n - 1 - q) @ ys"
      using swap_inside [of q g' "n - 1 - q" xs ys] Cons.prems by simp
    then show ?case using Cons.IH [of "swap g' q (n - 1 - q)"] Cons.prems by simp
  qed simp
  moreover have "\<forall>q \<in> set [0..<n div 2]. q < n" by auto
  ultimately show ?thesis using n by (simp add: swap_group_def)
qed

lemma length_Suc: "length g = Suc n \<longleftrightarrow> (\<exists>x xs. g = x # xs \<and> length xs = n)"
  by (cases g) auto

lemma swap_group_rev: "length g = n \<Longrightarrow> n \<in> {2, 4, 8} \<Longrightarrow> swap_group n 0 g = rev g"
proof -
  assume g: "length g = n" "n \<in> {2, 4, 8}"
  have u: "[0..<2 div 2] = [0 :: nat]" "[0..<4 div 2] = [0, Suc 0]"
    "[0..<8 div 2] = [0, Suc 0, Suc (Suc 0), Suc (Suc (Suc 0))]" by code_simp+
  have d: "8 - Suc (Suc 0) - Suc 0 = (5 :: nat)" "8 - Suc (Suc (Suc 0)) - Suc 0 = (4 :: nat)" by simp_all
  show ?thesis using g(2)
  proof (elim insertE emptyE)
    assume "n = 2"
    then obtain a b where "g = [a, b]" using g(1) by (auto simp: length_Suc numeral_eq_Suc)
    then show ?thesis using \<open>n = 2\<close> by (simp add: swap_group_def u swap_def)
  next
    assume "n = 4"
    then obtain a b c d where "g = [a, b, c, d]" using g(1) by (auto simp: length_Suc numeral_eq_Suc)
    then show ?thesis using \<open>n = 4\<close> by (simp add: swap_group_def u swap_def) (simp add: numeral_eq_Suc)
  next
    assume "n = 8"
    then obtain a b c d e f h i where "g = [a, b, c, d, e, f, h, i]" using g(1) by (auto simp: length_Suc numeral_eq_Suc)
    then show ?thesis using \<open>n = 8\<close> by (simp add: swap_group_def u swap_def) (simp add: numeral_eq_Suc)
  qed
qed

text \<open>\<^verbatim>\<open>swap16\<close>, \<^verbatim>\<open>swap32\<close> and \<^verbatim>\<open>swap64\<close> turn the order of the bytes of each element round.\<close>

lemma swap_loop_groups:
  assumes "\<forall>g \<in> set gs. length g = n" "n \<in> {2, 4, 8}"
  shows "swap_loop n (length gs) (concat gs @ ys) = concat (map rev gs) @ ys"
  using assms(1)
proof (induction gs arbitrary: ys rule: rev_induct)
  case (snoc g gs)
  have l: "length (concat (map rev gs)) = length gs * n" using snoc.prems by (induction gs) auto
  have "swap_loop n (length (gs @ [g])) (concat (gs @ [g]) @ ys) = swap_group n (length gs * n) (swap_loop n (length gs) (concat gs @ g @ ys))"
    by (simp add: swap_group_def)
  also have "\<dots> = swap_group n (length (concat (map rev gs))) (concat (map rev gs) @ g @ ys)"
    using snoc.IH [of "g @ ys"] snoc.prems l by simp
  also have "\<dots> = concat (map rev gs) @ rev g @ ys"
    using swap_group_inside [of g n "concat (map rev gs)" ys] swap_group_rev [of g n] snoc.prems assms(2) by simp
  finally show ?case by simp
qed simp

lemma swap_bytes_groups:
  assumes "\<forall>g \<in> set gs. length g = n" "n \<in> {2, 4, 8}"
  shows "swap_bytes n msg (concat gs) = Inr (concat (map rev gs))"
proof -
  have "length (concat gs) = length gs * n" using assms(1) by (induction gs) auto
  then show ?thesis using swap_loop_groups [OF assms, of "[]"] assms(2) by (auto simp: swap_bytes_def)
qed

text \<open>
  A character below 256 fills with its code, whatever the encoding: the Buffer that \<^verbatim>\<open>alloc\<close> makes of it is not the one
  that \<^verbatim>\<open>from\<close> makes.
\<close>

lemma fill_ignores_encoding:
  "Buffer_alloc (JNum 2) (JStr [0xE9]) (JStr (js ''utf8'')) = Inr [0xE9, 0xE9]"
  "Buffer_from (FString [0xE9]) (JStr (js ''utf8'')) None = Inr [0xC3, 0xA9]"
proof -
  show "Buffer_alloc (JNum 2) (JStr [0xE9]) (JStr (js ''utf8'')) = Inr [0xE9, 0xE9]"
    by (simp add: Buffer_alloc_def createBuffer_def K_MAX_LENGTH_def Buffer_fill_def fill_args_def isEncoding_utf8 fill_range_def
        upt_rec Let_def)
  have u: "utf8 [0xE9] = [0xC3, 0xA9]" by code_simp
  have "fromString [0xE9] (Some (js ''utf8'')) = fromString [0xE9] None" by (simp add: fromString_def js_def)
  then show "Buffer_from (FString [0xE9]) (JStr (js ''utf8'')) None = Inr [0xC3, 0xA9]"
    using fromString_utf8 [of "[0xE9]"] u by (simp add: Buffer_from_def)
qed

lemma json_roundtrip: "int (length b) < K_MAX_LENGTH \<Longrightarrow> fromObject (toJSON b) = Inr b"
  by (simp add: fromObject_def toJSON_def fromArrayLike_def checked_def createBuffer_def K_MAX_LENGTH_def comp_def
      word_of_int_and_FF)

end
