(* ===== verification/Parser_Typing.thy ===== *)
theory Parser_Typing
  imports Packet_Loop
begin

text \<open>
  The types of what the parser builds. Every property of the packet object holds a value of its own
  kind and range at every moment, also in packets that are abandoned after an error; and a packet
  that is emitted has the properties its command calls for.
\<close>

section \<open>Types of packets\<close>

fun is_boolean :: "jsval \<Rightarrow> bool" where
  "is_boolean (JBool b) = True"
| "is_boolean _ = False"

fun num_in :: "int \<Rightarrow> int \<Rightarrow> jsval \<Rightarrow> bool" where
  "num_in a b (JNum n) = (a \<le> n \<and> n \<le> b)"
| "num_in a b _ = False"

definition unset_or :: "(jsval \<Rightarrow> bool) \<Rightarrow> jsval \<Rightarrow> bool" where
  [simp]: "unset_or T v \<longleftrightarrow> v = JUndef \<or> T v"

definition typed_will :: "will_val \<Rightarrow> bool" where
  "typed_will v = (case v of NoWill \<Rightarrow> True | WillOther \<Rightarrow> False
     | WillObj w \<Rightarrow> is_boolean (w_retain w) \<and> num_in 0 3 (w_qos w)
         \<and> unset_or is_string (w_topic w) \<and> unset_or is_buffer (w_payload w))"

definition typed_sub :: "sub \<Rightarrow> bool" where
  "typed_sub s \<longleftrightarrow> is_string (sub_topic s) \<and> num_in 0 255 (sub_qos s)"

definition typed_flags :: "packet \<Rightarrow> bool" where
  "typed_flags k \<longleftrightarrow> is_boolean (p_retain k) \<and> is_boolean (p_dup k) \<and> num_in 0 3 (p_qos k)"

definition typed_lists :: "packet \<Rightarrow> bool" where
  "typed_lists k \<longleftrightarrow> pred_option (list_all typed_sub) (p_subscriptions k)
     \<and> pred_option (list_all (num_in 0 255)) (p_granted k)
     \<and> pred_option (list_all is_string) (p_unsubscriptions k)"

definition typed_fields :: "packet \<Rightarrow> bool" where
  "typed_fields k \<longleftrightarrow> (p_topic k = JNull \<or> is_string (p_topic k))
     \<and> (p_payload k = JNull \<or> is_buffer (p_payload k))
     \<and> unset_or (num_in (-1) 65535) (p_messageId k)
     \<and> unset_or is_string (p_protocolId k) \<and> unset_or (num_in 0 255) (p_protocolVersion k)
     \<and> unset_or is_boolean (p_clean k) \<and> unset_or (num_in (-1) 65535) (p_keepalive k)
     \<and> unset_or is_string (p_clientId k) \<and> unset_or is_string (p_username k)
     \<and> unset_or is_buffer (p_password k) \<and> unset_or is_boolean (p_sessionPresent k)
     \<and> unset_or (num_in 0 255) (p_returnCode k)"

definition typed_packet :: "packet \<Rightarrow> bool" where
  "typed_packet k \<longleftrightarrow> typed_flags k \<and> typed_fields k \<and> typed_will (p_will k) \<and> typed_lists k"

definition will_complete :: "will_val \<Rightarrow> bool" where
  "will_complete v = (case v of WillObj w \<Rightarrow> is_string (w_topic w) \<and> is_buffer (w_payload w) | _ \<Rightarrow> True)"

definition complete :: "packet \<Rightarrow> bool" where
  \<comment> \<open>the properties the packet must have, command by command\<close>
  "complete k = (case p_cmd k of
       Connect \<Rightarrow> p_protocolId k \<in> {JStr (js ''MQTT''), JStr (js ''MQIsdp'')}
         \<and> num_in 3 4 (p_protocolVersion k) \<and> is_boolean (p_clean k)
         \<and> num_in 0 65535 (p_keepalive k) \<and> is_string (p_clientId k) \<and> will_complete (p_will k)
     | Connack \<Rightarrow> is_boolean (p_sessionPresent k) \<longleftrightarrow> num_in 0 255 (p_returnCode k)
     | Publish \<Rightarrow> is_string (p_topic k) \<and> is_buffer (p_payload k)
         \<and> (p_qos k \<noteq> JNum 0 \<longrightarrow> num_in (-1) 65535 (p_messageId k))
     | Puback \<Rightarrow> num_in (-1) 65535 (p_messageId k)
     | Pubrec \<Rightarrow> num_in (-1) 65535 (p_messageId k)
     | Pubrel \<Rightarrow> num_in (-1) 65535 (p_messageId k)
     | Pubcomp \<Rightarrow> num_in (-1) 65535 (p_messageId k)
     | Subscribe \<Rightarrow> num_in (-1) 65535 (p_messageId k) \<and> p_qos k = JNum 1 \<and> p_subscriptions k \<noteq> None
     | Suback \<Rightarrow> num_in (-1) 65535 (p_messageId k) \<and> p_granted k \<noteq> None
     | Unsubscribe \<Rightarrow> num_in (-1) 65535 (p_messageId k) \<and> p_unsubscriptions k \<noteq> None
     | Unsuback \<Rightarrow> num_in (-1) 65535 (p_messageId k)
     | Pingreq \<Rightarrow> True | Pingresp \<Rightarrow> True | Disconnect \<Rightarrow> True
     | _ \<Rightarrow> False)"

definition sound_events :: "parser_event list \<Rightarrow> bool" where
  "sound_events es \<longleftrightarrow> (\<forall>k. EvPacket k \<in> set es \<longrightarrow> typed_packet k \<and> complete k)"

definition untouched :: "packet \<Rightarrow> bool" where
  \<comment> \<open>no payload parser has run on the packet\<close>
  "untouched k \<longleftrightarrow> p_will k = NoWill \<and> p_sessionPresent k = JUndef \<and> p_returnCode k = JUndef"

definition ps_typed :: "parser \<Rightarrow> bool" where
  "ps_typed p \<longleftrightarrow> typed_packet (ps_packet p) \<and> sound_events (ps_events p)
     \<and> (ps_error p = None \<longrightarrow> (if ps_counter p < 3 then untouched (ps_packet p) else complete (ps_packet p)))"

section \<open>Ranges of what is read\<close>

lemma bl_readUInt8_range: "bl_readUInt8 l i = Inr n \<Longrightarrow> 0 \<le> n \<and> n < 256"
  using byte_at_range by (auto simp: bl_readUInt8_def bl_read_def readUInt8_def result_simps Let_def)

lemma bl_readUInt16BE_range: "bl_readUInt16BE l i = Inr n \<Longrightarrow> 0 \<le> n \<and> n \<le> 65535"
proof -
  assume "bl_readUInt16BE l i = Inr n"
  then obtain b where "n = push_bit 8 (byte_at b 0) OR byte_at b 1"
    by (auto simp: bl_readUInt16BE_def bl_read_def readUInt16BE_def result_simps Let_def)
  then have "n = byte_at b 0 * 256 + byte_at b 1"
    using int_or_add [of "byte_at b 1" "byte_at b 0"] byte_at_range [of b 1] by simp
  then show ?thesis
    using byte_at_range [of b 0] byte_at_range [of b 1] by linarith
qed

lemma byte_here_range: "byte_here p = Inr n \<Longrightarrow> n \<le> 255"
  by (auto simp: byte_here_def result_simps dest!: bl_readUInt8_range)

lemma same_pos [simp]: "\<exists>m. p\<lparr>ps_pos := y\<rparr> = p\<lparr>ps_pos := m\<rparr>"
  by blast

lemma no_move [simp]: "\<exists>m. p = p\<lparr>ps_pos := m\<rparr>"
  by (rule exI [of _ "ps_pos p"]) simp

lemma parseNum_result:
  "parseNum p = Inr (n, q) \<Longrightarrow> -1 \<le> n \<and> n \<le> 65535 \<and> (\<exists>m. q = p\<lparr>ps_pos := m\<rparr>)"
  by (auto simp: parseNum_def result_simps split: if_splits dest!: bl_readUInt16BE_range)

lemma field_bounds_result: "field_bounds p = Inr (b, q) \<Longrightarrow> \<exists>m. q = p\<lparr>ps_pos := m\<rparr>"
  by (auto simp: field_bounds_def result_simps Let_def split: if_splits dest!: parseNum_result)

lemma parseString_result: "parseString p = Inr (x, q) \<Longrightarrow> \<exists>m. q = p\<lparr>ps_pos := m\<rparr>"
  by (auto simp: parseString_def result_simps split: option.splits dest!: field_bounds_result)

lemma parseBuffer_result: "parseBuffer p = Inr (x, q) \<Longrightarrow> \<exists>m. q = p\<lparr>ps_pos := m\<rparr>"
  by (auto simp: parseBuffer_def result_simps split: option.splits dest!: field_bounds_result)

section \<open>The payload parsers\<close>

definition good :: "parser \<Rightarrow> bool" where
  \<comment> \<open>what a payload parser leaves: a typed packet, complete unless an error was reported\<close>
  "good q \<longleftrightarrow> typed_packet (ps_packet q) \<and> sound_events (ps_events q)
     \<and> (ps_error q = None \<longrightarrow> complete (ps_packet q))"

definition gives_good :: "parser result \<Rightarrow> bool" where
  "gives_good m \<longleftrightarrow> (\<forall>q. m = Inr q \<longrightarrow> good q)"

lemma sound_error [simp]: "sound_events (es @ [EvError e]) = sound_events es"
  by (simp add: sound_events_def)

lemma good_error: "typed_packet (ps_packet q) \<Longrightarrow> sound_events (ps_events q) \<Longrightarrow> good (emitError q e)"
  by (simp add: good_def emitError_def)

lemma good_rules:
  "good q \<Longrightarrow> gives_good (Inr q)"
  "(\<And>x m. gives_good (f (x, p\<lparr>ps_pos := m\<rparr>))) \<Longrightarrow> gives_good (rbind (parseString p) f)"
  "(\<And>x m. gives_good (g (x, p\<lparr>ps_pos := m\<rparr>))) \<Longrightarrow> gives_good (rbind (parseBuffer p) g)"
  "(\<And>n m. -1 \<le> n \<Longrightarrow> n \<le> 65535 \<Longrightarrow> gives_good (h (n, p\<lparr>ps_pos := m\<rparr>))) \<Longrightarrow> gives_good (rbind (parseNum p) h)"
  "(\<And>n. n \<le> 255 \<Longrightarrow> gives_good (k n)) \<Longrightarrow> gives_good (rbind (byte_here p) k)"
  "typed_packet (ps_packet p) \<Longrightarrow> sound_events (ps_events p) \<Longrightarrow> (\<And>v. gives_good (c v)) \<Longrightarrow>
     gives_good (require x e p c)"
  by (auto simp: gives_good_def result_simps require_Inr intro!: good_error
      dest!: parseString_result parseBuffer_result parseNum_result byte_here_range)

lemmas typing = typed_packet_def typed_flags_def typed_fields_def typed_lists_def

lemma two_bits: "(n :: nat) AND QOS_MASK \<le> 3" "int (drop_bit WILL_QOS_SHIFT (n AND WILL_QOS_MASK)) \<le> 3"
proof -
  show "n AND QOS_MASK \<le> 3" by (simp add: QOS_MASK_def byte_simps)
  show "int (drop_bit WILL_QOS_SHIFT (n AND WILL_QOS_MASK)) \<le> 3"
    unfolding WILL_QOS_SHIFT_def WILL_QOS_MASK_def drop_bit_and by (simp add: byte_simps)
qed

section \<open>Each payload parser leaves a good state\<close>

lemma typed_updates [simp]:
  assumes "typed_packet k"
  shows "-1 \<le> n \<Longrightarrow> n \<le> 65535 \<Longrightarrow> typed_packet (k\<lparr>p_messageId := JNum n\<rparr>)"
    "-1 \<le> n \<Longrightarrow> n \<le> 65535 \<Longrightarrow> typed_packet (k\<lparr>p_keepalive := JNum n\<rparr>)"
    "b \<le> 255 \<Longrightarrow> typed_packet (k\<lparr>p_protocolVersion := JNum (int b)\<rparr>)"
    "b \<le> 255 \<Longrightarrow> typed_packet (k\<lparr>p_returnCode := JNum (int b)\<rparr>)"
    "typed_packet (k\<lparr>p_protocolId := JStr t\<rparr>)" "typed_packet (k\<lparr>p_clientId := JStr t\<rparr>)"
    "typed_packet (k\<lparr>p_username := JStr t\<rparr>)" "typed_packet (k\<lparr>p_password := JBuf u\<rparr>)"
    "typed_packet (k\<lparr>p_topic := JStr t\<rparr>)" "typed_packet (k\<lparr>p_topic := JNull\<rparr>)"
    "typed_packet (k\<lparr>p_payload := JBuf u\<rparr>)" "typed_packet (k\<lparr>p_clean := JBool c\<rparr>)"
    "typed_packet (k\<lparr>p_sessionPresent := JBool c\<rparr>)"
    "typed_will v \<Longrightarrow> typed_packet (k\<lparr>p_will := v\<rparr>)"
  using assms by (simp_all add: typing)

lemma complete_credentials [simp]:
  "complete (k\<lparr>p_username := v\<rparr>) = complete k" "complete (k\<lparr>p_password := v\<rparr>) = complete k"
  by (simp_all add: complete_def split: cmd.split)

lemma good_if: "(c \<Longrightarrow> gives_good a) \<Longrightarrow> (\<not> c \<Longrightarrow> gives_good b) \<Longrightarrow> gives_good (if c then a else b)"
  by simp

lemma rbind_if: "rbind (if c then a else b) f = (if c then rbind a f else rbind b f)"
  by simp

lemma good_intro:
  "typed_packet (ps_packet q) \<Longrightarrow> sound_events (ps_events q) \<Longrightarrow> complete (ps_packet q) \<Longrightarrow> good q"
  by (simp add: good_def)

lemma connect_password_good:
  assumes "typed_packet (ps_packet p)" "sound_events (ps_events p)" "complete (ps_packet p)"
  shows "gives_good (rbind (parseBuffer p) (\<lambda>(u, r).
      require u ''Cannot parse password'' r (\<lambda>v.
        Inr (upd_packet (\<lambda>k. k\<lparr>p_password := JBuf v\<rparr>) r))))"
  using assms by (auto intro!: good_rules good_intro)

lemma connect_credentials_good:
  assumes "typed_packet (ps_packet p)" "sound_events (ps_events p)" "complete (ps_packet p)"
  shows "gives_good (connect_credentials flags p)"
  unfolding connect_credentials_def rbind_if rbind_assoc split rbind_simps if_False
proof (intro good_if good_rules(2), goal_cases)
  case (1 x m)
  then show ?case
    using assms by (cases x)
      (simp_all add: good_rules(1) good_error good_intro connect_password_good)
next
  case 2
  then show ?case using connect_password_good [OF assms] by simp
next
  case 3
  then show ?case using assms by (simp add: good_rules(1) good_intro)
qed

lemma set_will_object:
  assumes "typed_packet k" "p_will k = WillObj w"
  shows "typed_packet (set_will (w_topic_update (\<lambda>_. JStr t)) k)"
    "p_will (set_will (w_topic_update (\<lambda>_. JStr t)) k) = WillObj (w\<lparr>w_topic := JStr t\<rparr>)"
    "typed_packet (set_will (w_payload_update (\<lambda>_. JBuf b)) k)"
    "is_string (w_topic w) \<Longrightarrow> complete (k\<lparr>p_will := NoWill\<rparr>) \<Longrightarrow>
       complete (set_will (w_payload_update (\<lambda>_. JBuf b)) k)"
    "complete (k\<lparr>p_will := NoWill\<rparr>) \<Longrightarrow>
       complete ((set_will (w_topic_update (\<lambda>_. JStr t)) k)\<lparr>p_will := NoWill\<rparr>)"
  using assms
  by (simp_all add: set_will_def typed_packet_def typed_flags_def typed_fields_def typed_lists_def
      typed_will_def complete_def will_complete_def split: cmd.splits)

lemma connect_will_good:
  assumes "typed_packet (ps_packet p)" "sound_events (ps_events p)"
    "complete ((ps_packet p)\<lparr>p_will := NoWill\<rparr>)"
    "if flags AND WILL_FLAG_MASK \<noteq> 0 then \<exists>w. p_will (ps_packet p) = WillObj w
     else p_will (ps_packet p) = NoWill"
  shows "gives_good (connect_will flags p)"
  unfolding connect_will_def
proof (rule good_if)
  assume "flags AND WILL_FLAG_MASK \<noteq> 0"
  with assms(4) obtain w where w: "p_will (ps_packet p) = WillObj w" by auto
  note t = set_will_object(1,2,5) [OF assms(1) w]
  show "gives_good (rbind (parseString p) (\<lambda>(t, q).
          require t ''Cannot parse will topic'' q (\<lambda>topic.
          rbind (parseBuffer (upd_packet (set_will (w_topic_update (\<lambda>_. JStr topic))) q)) (\<lambda>(b, r).
            require b ''Cannot parse will payload'' r (\<lambda>payload.
              connect_credentials flags
                (upd_packet (set_will (w_payload_update (\<lambda>_. JBuf payload))) r))))))"
    using assms(1-3) t set_will_object(3,4) [OF t(1,2)]
    by (auto intro!: good_rules connect_credentials_good)
next
  assume "\<not> flags AND WILL_FLAG_MASK \<noteq> 0"
  with assms have "p_will (ps_packet p) = NoWill" by simp
  then have "(ps_packet p)\<lparr>p_will := NoWill\<rparr> = ps_packet p" by simp
  then show "gives_good (connect_credentials flags p)"
    using assms(1-3) by (simp add: connect_credentials_good)
qed

lemma start_will_facts:
  "ps_events (start_will flags p) = ps_events p" "ps_list (start_will flags p) = ps_list p"
  "typed_packet (ps_packet p) \<Longrightarrow> typed_packet (ps_packet (start_will flags p))"
  "p_cmd (ps_packet (start_will flags p)) = p_cmd (ps_packet p)"
  "p_protocolId (ps_packet (start_will flags p)) = p_protocolId (ps_packet p)"
  "p_protocolVersion (ps_packet (start_will flags p)) = p_protocolVersion (ps_packet p)"
  "p_will (ps_packet (start_will flags p)) =
     (if flags AND WILL_FLAG_MASK = 0 then p_will (ps_packet p)
      else WillObj \<lparr>w_retain = JBool (flags AND WILL_RETAIN_MASK \<noteq> 0),
          w_qos = JNum (int (drop_bit WILL_QOS_SHIFT (flags AND WILL_QOS_MASK))),
          w_topic = JUndef, w_payload = JUndef\<rparr>)"
  using two_bits(2) [of flags] by (auto simp: start_will_def typed_will_def)

definition connect_head :: "packet \<Rightarrow> bool" where
  \<comment> \<open>what the first half of \<^verbatim>\<open>_parseConnect\<close> has established\<close>
  "connect_head k \<longleftrightarrow> p_cmd k = Connect \<and> p_protocolId k \<in> {JStr (js ''MQTT''), JStr (js ''MQIsdp'')}
     \<and> num_in 3 4 (p_protocolVersion k) \<and> is_boolean (p_clean k)"

lemma connect_tail_good:
  assumes "typed_packet (ps_packet p)" "sound_events (ps_events p)" "connect_head (ps_packet p)"
    "if flags AND WILL_FLAG_MASK \<noteq> 0 then \<exists>w. p_will (ps_packet p) = WillObj w
     else p_will (ps_packet p) = NoWill"
  shows "gives_good (rbind (parseNum p) (\<lambda>(keepalive, p6).
     let p7 = upd_packet (\<lambda>k. k\<lparr>p_keepalive := JNum keepalive\<rparr>) p6 in
     if keepalive = -1 then Inr (emitError p7 ''Packet too short'')
     else
       rbind (parseString p7) (\<lambda>(c, p8).
         require c ''Packet too short'' p8 (\<lambda>clientId.
           connect_will flags
             (upd_packet (\<lambda>k. k\<lparr>p_clientId := JStr clientId\<rparr>) p8)))))"
proof (rule good_rules(4), unfold Let_def split, goal_cases)
  case (1 n m)
  have "gives_good (connect_will flags (p\<lparr>ps_pos := m', ps_packet :=
      (ps_packet p)\<lparr>p_keepalive := JNum n, p_clientId := JStr c\<rparr>\<rparr>))" if "n \<noteq> -1" for m' c
    using assms 1 that
    by (intro connect_will_good) (auto simp: connect_head_def complete_def will_complete_def)
  then show ?case
    using assms 1 by (auto intro!: good_rules good_error)
qed

lemma good_Let: "(\<And>x. x = a \<Longrightarrow> gives_good (f x)) \<Longrightarrow> gives_good (Let a f)"
  by simp

lemma parseConnect_good:
  assumes "typed_packet (ps_packet p)" "sound_events (ps_events p)" "p_cmd (ps_packet p) = Connect"
    "p_will (ps_packet p) = NoWill"
  shows "gives_good (parseConnect p)"
  unfolding parseConnect_def
proof (rule good_rules(2), unfold split,
    intro good_rules(1,5,6) good_if good_Let good_error connect_tail_good)
qed (use assms in \<open>auto simp: start_will_facts connect_head_def\<close>)

lemma parseConnack_good:
  assumes "good p" "ps_error p = None" "p_cmd (ps_packet p) = Connack" 
  shows "gives_good (parseConnack p)"
  unfolding parseConnack_def
  using assms
  by (intro good_rules(1,5) good_if good_Let) (auto simp: good_def complete_def)

lemma parseMessageId_good:
  assumes "\<And>n m. -1 \<le> n \<Longrightarrow> n \<le> 65535 \<Longrightarrow>
    gives_good (f (True, p\<lparr>ps_pos := m, ps_packet := (ps_packet p)\<lparr>p_messageId := JNum n\<rparr>\<rparr>))"
  shows "gives_good (rbind (parseMessageId p) f)"
  unfolding parseMessageId_def rbind_assoc
  by (rule good_rules(4)) (simp add: assms)

lemma ack_good:
  assumes "typed_packet (ps_packet p)" "sound_events (ps_events p)"
    "p_cmd (ps_packet p) \<in> {Puback, Pubrec, Pubrel, Pubcomp, Unsuback}"
  shows "gives_good (rbind (parseMessageId p) (\<lambda>(_, q). Inr q))" "gives_good (parseUnsuback p)"
  unfolding parseUnsuback_def
  using assms
  by (auto intro!: parseMessageId_good good_rules(1) good_intro simp: complete_def)

lemma parsePublish_good:
  assumes "typed_packet (ps_packet p)" "sound_events (ps_events p)" "p_cmd (ps_packet p) = Publish"
  shows "gives_good (parsePublish p)"
proof -
  have q: "p_qos (ps_packet p) = JNum 0 \<or> qos_of (ps_packet p) > 0"
    using assms(1) by (cases "p_qos (ps_packet p)") (auto simp: typed_packet_def typed_flags_def qos_of_def)
  have slice: "(\<And>u. gives_good (g u)) \<Longrightarrow> gives_good (rbind (bl_slice l a b) g)" for l a b g
    by (auto simp: gives_good_def result_simps)
  have same: "qos_of (k\<lparr>p_topic := t\<rparr>) = qos_of k" for k t
    by (simp add: qos_of_def)
  show ?thesis
    unfolding parsePublish_def rbind_if
    using assms q
    by (auto intro!: good_rules(1,2) good_Let good_if parseMessageId_good good_error slice
        simp: same good_intro complete_def split: option.split)
qed

section \<open>The lists\<close>

lemma typed_lists_only:
  assumes "typed_packet k" "typed_lists (h k)" "typed_flags (h k) = typed_flags k"
    "typed_fields (h k) = typed_fields k" "p_will (h k) = p_will k"
  shows "typed_packet (h k)"
  using assms by (simp add: typed_packet_def)

lemma typed_appends [simp]:
  assumes "typed_packet k"
  shows "q \<le> 255 \<Longrightarrow> typed_packet (k\<lparr>p_subscriptions :=
      map_option (\<lambda>xs. xs @ [\<lparr>sub_topic = JStr t, sub_qos = JNum (int q)\<rparr>]) (p_subscriptions k)\<rparr>)"
    "q \<le> 255 \<Longrightarrow> typed_packet (k\<lparr>p_granted := map_option (\<lambda>xs. xs @ [JNum (int q)]) (p_granted k)\<rparr>)"
    "typed_packet (k\<lparr>p_unsubscriptions := map_option (\<lambda>xs. xs @ [JStr t]) (p_unsubscriptions k)\<rparr>)"
    "typed_packet (k\<lparr>p_subscriptions := Some []\<rparr>)" "typed_packet (k\<lparr>p_granted := Some []\<rparr>)"
    "typed_packet (k\<lparr>p_unsubscriptions := Some []\<rparr>)"
proof -
  have l: "typed_lists k" using assms by (simp add: typed_packet_def)
  note parts = assms l
  show "typed_packet (k\<lparr>p_subscriptions :=
      map_option (\<lambda>xs. xs @ [\<lparr>sub_topic = JStr t, sub_qos = JNum (int q)\<rparr>]) (p_subscriptions k)\<rparr>)" if "q \<le> 255"
    using l that
    by (intro typed_lists_only [OF assms]; cases "p_subscriptions k")
       (simp_all add: typed_lists_def typed_flags_def typed_fields_def typed_sub_def)
  show "typed_packet (k\<lparr>p_granted := map_option (\<lambda>xs. xs @ [JNum (int q)]) (p_granted k)\<rparr>)" if "q \<le> 255"
    using l that
    by (intro typed_lists_only [OF assms]; cases "p_granted k")
       (simp_all add: typed_lists_def typed_flags_def typed_fields_def)
  show "typed_packet (k\<lparr>p_unsubscriptions := map_option (\<lambda>xs. xs @ [JStr t]) (p_unsubscriptions k)\<rparr>)"
    using l
    by (intro typed_lists_only [OF assms]; cases "p_unsubscriptions k")
       (simp_all add: typed_lists_def typed_flags_def typed_fields_def)
qed (use assms in \<open>simp_all add: typing\<close>)

lemma complete_appends [simp]:
  assumes "complete k"
  shows "complete (k\<lparr>p_subscriptions := map_option f (p_subscriptions k)\<rparr>)"
    "complete (k\<lparr>p_granted := map_option g (p_granted k)\<rparr>)"
    "complete (k\<lparr>p_unsubscriptions := map_option h (p_unsubscriptions k)\<rparr>)"
  using assms by (simp_all add: complete_def split: cmd.splits)

lemma parseSubscribe_loop_good:
  assumes "typed_packet (ps_packet p)" "sound_events (ps_events p)" "complete (ps_packet p)"
  shows "gives_good (parseSubscribe_loop p)"
  using assms
proof (induction p rule: parseSubscribe_loop.induct)
  case (1 p)
  show ?case
  proof (cases "ps_pos p < p_length (ps_packet p) \<and> (\<exists>r. parseString p = Inr r)")
    case True
    then obtain x q where x: "parseString p = Inr (x, q)" by auto
    then obtain m where m: "q = p\<lparr>ps_pos := m\<rparr>" using parseString_result by blast
    then have q: "ps_packet q = ps_packet p" "ps_events q = ps_events p" by simp_all
    show ?thesis
    proof (cases x)
      case None
      then show ?thesis using True x q "1.prems"
        by (subst parseSubscribe_loop.simps) (auto intro!: good_rules(1) good_error)
    next
      case (Some t)
      have "gives_good (parseSubscribe_loop
          ((upd_packet (\<lambda>k. k\<lparr>p_subscriptions :=
              map_option (\<lambda>xs. xs @ [\<lparr>sub_topic = JStr t, sub_qos = JNum (int n)\<rparr>]) (p_subscriptions k)\<rparr>) q)
            \<lparr>ps_pos := ps_pos q + 1\<rparr>))" if "n \<le> 255" for n
        using True q "1.prems" that by (intro "1.IH" [OF _ x _ Some]) simp_all
      with True x Some show ?thesis
        by (subst parseSubscribe_loop.simps) (simp add: good_rules(5))
    qed
  next
    case False
    then show ?thesis using "1.prems"
      by (subst parseSubscribe_loop.simps)
         (auto intro!: good_rules(1) good_intro simp: gives_good_def split: sum.splits)
  qed
qed

lemma parseSuback_loop_good:
  assumes "typed_packet (ps_packet p)" "sound_events (ps_events p)" "complete (ps_packet p)"
  shows "gives_good (parseSuback_loop p)"
  using assms
proof (induction p rule: parseSuback_loop.induct)
  case (1 p)
  then show ?case
    by (subst parseSuback_loop.simps) (auto intro!: good_rules(1,5) good_intro)
qed

lemma parseUnsubscribe_loop_good:
  assumes "typed_packet (ps_packet p)" "sound_events (ps_events p)" "complete (ps_packet p)"
  shows "gives_good (parseUnsubscribe_loop p)"
  using assms
proof (induction p rule: parseUnsubscribe_loop.induct)
  case (1 p)
  show ?case
  proof (cases "ps_pos p < p_length (ps_packet p) \<and> (\<exists>r. parseString p = Inr r)")
    case True
    then obtain x q where x: "parseString p = Inr (x, q)" by auto
    then obtain m where m: "q = p\<lparr>ps_pos := m\<rparr>" using parseString_result by blast
    then have q: "ps_packet q = ps_packet p" "ps_events q = ps_events p" by simp_all
    show ?thesis
    proof (cases x)
      case None
      then show ?thesis using True x q "1.prems"
        by (subst parseUnsubscribe_loop.simps) (auto intro!: good_rules(1) good_error)
    next
      case (Some t)
      have "gives_good (parseUnsubscribe_loop
          (upd_packet (\<lambda>k. k\<lparr>p_unsubscriptions :=
              map_option (\<lambda>xs. xs @ [JStr t]) (p_unsubscriptions k)\<rparr>) q))"
        using True q "1.prems" by (intro "1.IH" [OF _ x _ Some]) simp_all
      with True x Some show ?thesis
        by (subst parseUnsubscribe_loop.simps) simp
    qed
  next
    case False
    then show ?thesis using "1.prems"
      by (subst parseUnsubscribe_loop.simps)
         (auto intro!: good_rules(1) good_intro simp: gives_good_def split: sum.splits)
  qed
qed

lemma parse_lists_good:
  assumes "typed_packet (ps_packet p)" "sound_events (ps_events p)"
  shows "p_cmd (ps_packet p) = Subscribe \<Longrightarrow> gives_good (parseSubscribe p)"
    "p_cmd (ps_packet p) = Suback \<Longrightarrow> gives_good (parseSuback p)"
    "p_cmd (ps_packet p) = Unsubscribe \<Longrightarrow> gives_good (parseUnsubscribe p)"
proof -
  have "qos_of (ps_packet p) = 1 \<Longrightarrow> p_qos (ps_packet p) = JNum 1"
    by (auto simp: qos_of_def split: jsval.splits)
  then show "p_cmd (ps_packet p) = Subscribe \<Longrightarrow> gives_good (parseSubscribe p)"
    unfolding parseSubscribe_def using assms
    by (auto intro!: good_if good_rules(1) good_error parseMessageId_good parseSubscribe_loop_good
        simp: complete_def)
  show "p_cmd (ps_packet p) = Suback \<Longrightarrow> gives_good (parseSuback p)"
    unfolding parseSuback_def using assms
    by (auto intro!: parseMessageId_good parseSuback_loop_good simp: complete_def)
  show "p_cmd (ps_packet p) = Unsubscribe \<Longrightarrow> gives_good (parseUnsubscribe p)"
    unfolding parseUnsubscribe_def using assms
    by (auto intro!: parseMessageId_good parseUnsubscribe_loop_good simp: complete_def)
qed

section \<open>The states and the loop\<close>

lemma dispatch_payload_good:
  assumes "typed_packet (ps_packet p)" "sound_events (ps_events p)" "ps_error p = None"
    "untouched (ps_packet p)"
  shows "gives_good (dispatch_payload p)"
  unfolding dispatch_payload_def
  using assms
  by (auto intro!: parseConnect_good parseConnack_good parsePublish_good ack_good parse_lists_good
      good_rules(1) good_error good_intro simp: untouched_def complete_def good_def split: cmd.split)

lemma typed_header [simp]:
  assumes "typed_packet k" "r \<le> 3"
  shows "typed_packet (k\<lparr>p_cmd := c, p_retain := JBool a, p_qos := JNum (int r), p_dup := JBool b\<rparr>)"
  using assms by (simp add: typing)

lemma typed_length [simp]: "typed_packet (k\<lparr>p_length := n\<rparr>) = typed_packet k"
  by (simp add: typing)

lemma new_Packet_typed: "typed_packet new_Packet" "untouched new_Packet"
  by (simp_all add: typing typed_will_def untouched_def new_Packet_def bare_packet_def)

lemma new_Parser_typed: "ps_typed new_Parser"
  by (simp add: ps_typed_def new_Parser_def resetState_def new_Packet_typed sound_events_def)

lemma run_state_typed:
  assumes "ps_typed p" "ps_error p = None" "run_state p = Inr (res, q)"
  shows "ps_typed q \<or> res \<and> ps_error q = None" "res \<and> ps_error q = None \<longrightarrow> ps_typed (advance q)"
proof -
  have "(\<not> res \<longrightarrow> ps_typed q) \<and> (ps_error q \<noteq> None \<longrightarrow> ps_typed q)
    \<and> (res \<and> ps_error q = None \<longrightarrow> ps_typed (advance q))"
  proof (cases "ps_counter p = 2")
    case True
    have "gives_good (dispatch_payload (p\<lparr>ps_pos := 0\<rparr>))"
      using assms True by (intro dispatch_payload_good) (auto simp: ps_typed_def)
    then show ?thesis
      using assms True
      by (auto simp: run_state_def parsePayload_def result_simps gives_good_def good_def ps_typed_def advance_def frame_of_def
          dest: dispatch_payload_frame split: if_splits)
  next
    case False
    with assms two_bits(1) show ?thesis
      by (auto simp: run_state_def parseHeader_def parseLength_def newPacket_def result_simps Let_def ps_typed_def
          advance_def untouched_def new_Packet_typed new_Packet_typed(2) [unfolded untouched_def] sound_events_def split: if_splits)
  qed
  then show "ps_typed q \<or> res \<and> ps_error q = None" "res \<and> ps_error q = None \<longrightarrow> ps_typed (advance q)"
    by auto
qed

lemma parse_loop_typed:
  assumes "ps_typed p" "ps_error p = None" "parse_loop fuel p = Some (Inr q)"
  shows "ps_typed q"
  using assms
proof (induction fuel arbitrary: p)
  case 0
  then show ?case by simp
next
  case (Suc fuel)
  show ?case
  proof (cases "busy p \<and> (\<exists>r. run_state p = Inr r)")
    case True
    then obtain res r where r: "run_state p = Inr (res, r)" by auto
    note t = run_state_typed [OF Suc.prems(1,2) r]
    show ?thesis
    proof (cases "res \<and> ps_error r = None")
      case True
      with Suc.prems(3) r \<open>busy p \<and> _\<close> have "parse_loop fuel (advance r) = Some (Inr q)"
        by (simp add: busy_def advance_def)
      moreover have "ps_error (advance r) = None" using True by (simp add: advance_def)
      ultimately show ?thesis using Suc.IH t(2) True by blast
    next
      case False
      then show ?thesis using Suc.prems(3) r t(1) \<open>busy p \<and> _\<close> by (auto simp: busy_def)
    qed
  next
    case False
    then show ?thesis using Suc.prems by (auto simp: busy_def split: if_splits sum.splits)
  qed
qed

text \<open>
  \<^bold>\<open>C8.\<close> What the parser builds is well typed, on any bytes: in every state between two calls and for
  every chunk, \<^verbatim>\<open>parse\<close> ends, and in the state it leaves each property of the packet under construction and
  of every packet emitted so far holds a value of its own kind and range (flags are booleans, a QoS is
  at most 3, an identifier is -1 to 65535, topics are strings, payloads and passwords are buffers, lists
  have typed members), and every emitted packet has the properties its command calls for.
\<close>

theorem parser_typed:
  assumes "ps_inv p" "ps_typed p"
    "(if ps_error p = None then bl_length (ps_list p) else 0) + int (length buf) < K_MAX_LENGTH"
  shows "\<exists>r. parse p buf = Some r \<and> (\<forall>q. r = Inr q \<longrightarrow> ps_typed q
    \<and> (\<forall>k. EvPacket k \<in> set (ps_events q) \<longrightarrow> typed_packet k \<and> complete k))"
proof -
  define p1 where "p1 = (if ps_error p \<noteq> None then resetState p else p)"
  define p2 where "p2 = p1\<lparr>ps_list := appendBuffer (ps_list p1) buf\<rparr>"
  have "ps_error p2 = None" "ps_typed p2"
    using assms(2) by (auto simp: p2_def p1_def resetState_def ps_typed_def new_Packet_typed)
  from parse_loop_typed [OF this(2,1)] have "ps_typed q" if "parse p buf = Some (Inr q)" for q
    using that by (auto simp: parse_def Let_def p1_def p2_def)
  moreover have "sound_events (ps_events q)" if "ps_typed q" for q
    using that by (simp add: ps_typed_def)
  ultimately show ?thesis
    using parse_returns [OF assms(1,3)] by (auto simp: sound_events_def)
qed

theorem parser_typed_witness:
  "\<exists>r. parse new_Parser [0x32, 5, 0, 1, 97, 0, 7] = Some r \<and> (\<forall>q. r = Inr q \<longrightarrow> ps_typed q
    \<and> (\<forall>k. EvPacket k \<in> set (ps_events q) \<longrightarrow> typed_packet k \<and> complete k))"
  by (rule parser_typed)
     (simp_all add: new_Parser_inv new_Parser_typed, simp add: new_Parser_def resetState_def bl_new_def K_MAX_LENGTH_def)

section \<open>Packets that are too short\<close>

text \<open>
  Where the code returns early, or takes -1 for a number, a short packet is emitted all the same: a
  CONNACK without a return code, an acknowledgement with the identifier -1.
\<close>

definition emits_one :: "buffer \<Rightarrow> (packet \<Rightarrow> bool) \<Rightarrow> bool" where
  "emits_one buf P = (case parse new_Parser buf of
       Some (Inr q) \<Rightarrow> (case ps_events q of [EvPacket k] \<Rightarrow> P k | _ \<Rightarrow> False)
     | _ \<Rightarrow> False)"

lemma connack_without_code: "emits_one [0x20, 0] (\<lambda>k. p_cmd k = Connack \<and> p_returnCode k = JUndef)"
  by code_simp

lemma puback_without_id: "emits_one [0x40, 0] (\<lambda>k. p_cmd k = Puback \<and> p_messageId k = JNum (-1))"
  by code_simp

end
