(* ===== verification/Process_Tick.thy ===== *)
theory Process_Tick
  imports Js_Prelude "HOL-Library.Sublist"
begin

text \<open>
  The browser shim of \<^verbatim>\<open>process\<close>: the queue of \<^verbatim>\<open>process.nextTick\<close>, on which the streams and the client
  build. A task is a finite program: it calls \<^verbatim>\<open>nextTick\<close> on other tasks and then returns or throws. The
  browser's timer functions are parameters: \<open>throws n f\<close> says whether the function \<open>n\<close> throws when
  it is called in the way \<open>f\<close>. The fields \<open>executed\<close> and \<open>pushed\<close> are records of what happened and are not read
  by the code.
\<close>

section \<open>State\<close>

datatype tick_task = TickTask nat "tick_task list" bool

datatype timer_fn =
    NoFn            \<comment> \<open>\<^verbatim>\<open>undefined\<close>\<close>
  | DefaultFn       \<comment> \<open>\<^verbatim>\<open>defaultSetTimout\<close>, \<^verbatim>\<open>defaultClearTimeout\<close>\<close>
  | HostFn nat

datatype call_form = Plain | OnNull | OnThis

datatype tick_job = DrainJob | CleanJob

type_synonym host = "nat \<Rightarrow> call_form \<Rightarrow> bool"

record proc =
  globalSet :: "timer_fn option"       \<comment> \<open>\<open>None\<close>: the name is not declared\<close>
  globalClear :: "timer_fn option"
  cachedSetTimeout :: timer_fn
  cachedClearTimeout :: timer_fn
  queue :: "tick_task list"
  draining :: bool
  currentQueue :: "tick_task list option"
  queueIndex :: int
  host_timers :: "(nat \<times> tick_job) list"
  next_timer :: nat
  executed :: "tick_task list"
  pushed :: "tick_task list"

definition cache_fn :: "timer_fn option \<Rightarrow> timer_fn" where
  "cache_fn g = (case g of Some (HostFn n) \<Rightarrow> HostFn n | _ \<Rightarrow> DefaultFn)"

definition new_proc :: "timer_fn option \<Rightarrow> timer_fn option \<Rightarrow> proc" where
  "new_proc g g' = \<lparr>globalSet = g, globalClear = g', cachedSetTimeout = cache_fn g,
     cachedClearTimeout = cache_fn g', queue = [], draining = False, currentQueue = None, queueIndex = -1,
     host_timers = [], next_timer = 1, executed = [], pushed = []\<rparr>"

section \<open>Timers\<close>

definition defaultSetTimout :: "'a result" where
  "defaultSetTimout = Inl (JsError ''setTimeout has not been defined'')"

definition defaultClearTimeout :: "'a result" where
  "defaultClearTimeout = Inl (JsError ''clearTimeout has not been defined'')"

definition call_set :: "host \<Rightarrow> timer_fn \<Rightarrow> call_form \<Rightarrow> tick_job \<Rightarrow> proc \<Rightarrow> nat result \<times> proc" where
  "call_set throws f form job s = (case f of
       NoFn \<Rightarrow> (Inl (TypeError ''setTimeout is not a function''), s)
     | DefaultFn \<Rightarrow> (defaultSetTimout, s)
     | HostFn n \<Rightarrow>
         if throws n form then (Inl (JsError ''host''), s)
         else (Inr (next_timer s),
               s\<lparr>host_timers := host_timers s @ [(next_timer s, job)], next_timer := next_timer s + 1\<rparr>))"

definition runTimeout :: "host \<Rightarrow> tick_job \<Rightarrow> proc \<Rightarrow> nat result \<times> proc" where
  "runTimeout throws job s = (case globalSet s of
       None \<Rightarrow> (Inl (JsError ''setTimeout is not defined''), s)
     | Some g \<Rightarrow>
         if cachedSetTimeout s = g then call_set throws g Plain job s
         else if (cachedSetTimeout s = DefaultFn \<or> cachedSetTimeout s = NoFn) \<and> g \<noteq> NoFn then
           call_set throws g Plain job (s\<lparr>cachedSetTimeout := g\<rparr>)
         else
           (case call_set throws (cachedSetTimeout s) Plain job s of
              (Inr i, s1) \<Rightarrow> (Inr i, s1)
            | (Inl _, s1) \<Rightarrow>
                (case call_set throws (cachedSetTimeout s1) OnNull job s1 of
                   (Inr i, s2) \<Rightarrow> (Inr i, s2)
                 | (Inl _, s2) \<Rightarrow> call_set throws (cachedSetTimeout s2) OnThis job s2)))"

definition call_clear :: "host \<Rightarrow> timer_fn \<Rightarrow> call_form \<Rightarrow> nat \<Rightarrow> proc \<Rightarrow> unit result \<times> proc" where
  "call_clear throws f form marker s = (case f of
       NoFn \<Rightarrow> (Inl (TypeError ''clearTimeout is not a function''), s)
     | DefaultFn \<Rightarrow> (defaultClearTimeout, s)
     | HostFn n \<Rightarrow>
         if throws n form then (Inl (JsError ''host''), s)
         else (Inr (), s\<lparr>host_timers := filter (\<lambda>(i, _). i \<noteq> marker) (host_timers s)\<rparr>))"

definition runClearTimeout :: "host \<Rightarrow> nat \<Rightarrow> proc \<Rightarrow> unit result \<times> proc" where
  "runClearTimeout throws marker s = (case globalClear s of
       None \<Rightarrow> (Inl (JsError ''clearTimeout is not defined''), s)
     | Some g \<Rightarrow>
         if cachedClearTimeout s = g then call_clear throws g Plain marker s
         else if (cachedClearTimeout s = DefaultFn \<or> cachedClearTimeout s = NoFn) \<and> g \<noteq> NoFn then
           call_clear throws g Plain marker (s\<lparr>cachedClearTimeout := g\<rparr>)
         else
           (case call_clear throws (cachedClearTimeout s) Plain marker s of
              (Inr u, s1) \<Rightarrow> (Inr u, s1)
            | (Inl _, s1) \<Rightarrow>
                (case call_clear throws (cachedClearTimeout s1) OnNull marker s1 of
                   (Inr u, s2) \<Rightarrow> (Inr u, s2)
                 | (Inl _, s2) \<Rightarrow> call_clear throws (cachedClearTimeout s2) OnThis marker s2)))"

section \<open>The queue\<close>

definition nextTick :: "host \<Rightarrow> tick_task \<Rightarrow> proc \<Rightarrow> unit result \<times> proc" where
  "nextTick throws t s =
     (let s1 = s\<lparr>queue := queue s @ [t], pushed := pushed s @ [t]\<rparr>
      in if length (queue s1) = 1 \<and> \<not> draining s1 then
           (case runTimeout throws DrainJob s1 of (Inl e, s2) \<Rightarrow> (Inl e, s2) | (Inr _, s2) \<Rightarrow> (Inr (), s2))
         else (Inr (), s1))"

fun schedule :: "host \<Rightarrow> tick_task list \<Rightarrow> proc \<Rightarrow> unit result \<times> proc" where
  "schedule throws [] s = (Inr (), s)"
| "schedule throws (t # ts) s =
     (case nextTick throws t s of (Inl e, s1) \<Rightarrow> (Inl e, s1) | (Inr _, s1) \<Rightarrow> schedule throws ts s1)"

definition run_item :: "host \<Rightarrow> tick_task \<Rightarrow> proc \<Rightarrow> unit result \<times> proc" where
  \<comment> \<open>\<^verbatim>\<open>Item.prototype.run\<close> on the model of a function\<close>
  "run_item throws t s = (case t of TickTask n ts fails \<Rightarrow>
     (case schedule throws ts (s\<lparr>executed := executed s @ [t]\<rparr>) of
        (Inl e, s1) \<Rightarrow> (Inl e, s1)
      | (Inr _, s1) \<Rightarrow> (if fails then Inl (JsError ''task'') else Inr (), s1)))"

lemma runTimeout_frame:
  "runTimeout throws job s = (r, s') \<Longrightarrow> queue s' = queue s \<and> draining s' = draining s
     \<and> currentQueue s' = currentQueue s \<and> queueIndex s' = queueIndex s \<and> executed s' = executed s \<and> pushed s' = pushed s"
  by (auto simp: runTimeout_def call_set_def defaultSetTimout_def
      split: option.splits timer_fn.splits sum.splits prod.splits if_splits)

lemma nextTick_frame:
  "nextTick throws t s = (r, s') \<Longrightarrow> queue s' = queue s @ [t] \<and> draining s' = draining s
     \<and> currentQueue s' = currentQueue s \<and> queueIndex s' = queueIndex s \<and> executed s' = executed s
     \<and> pushed s' = pushed s @ [t]"
  by (auto simp: nextTick_def Let_def split: if_splits sum.splits prod.splits dest: runTimeout_frame)

lemma schedule_frame:
  "schedule throws ts s = (r, s') \<Longrightarrow> \<exists>us. prefix us ts \<and> (r = Inr () \<longrightarrow> us = ts)
     \<and> queue s' = queue s @ us \<and> draining s' = draining s
     \<and> currentQueue s' = currentQueue s \<and> queueIndex s' = queueIndex s \<and> executed s' = executed s
     \<and> pushed s' = pushed s @ us"
proof (induction ts arbitrary: s)
  case Nil
  then show ?case by simp
next
  case (Cons t ts)
  obtain r1 s1 where n: "nextTick throws t s = (r1, s1)" by (cases "nextTick throws t s")
  note f = nextTick_frame [OF n]
  show ?case
  proof (cases r1)
    case (Inl e)
    with Cons.prems n f show ?thesis by (intro exI [of _ "[t]"]) auto
  next
    case (Inr u)
    with Cons.prems n have "schedule throws ts s1 = (r, s')" by simp
    from Cons.IH [OF this] obtain us where "prefix us ts \<and> (r = Inr () \<longrightarrow> us = ts)
      \<and> queue s' = queue s1 @ us \<and> draining s' = draining s1
      \<and> currentQueue s' = currentQueue s1 \<and> queueIndex s' = queueIndex s1 \<and> executed s' = executed s1
      \<and> pushed s' = pushed s1 @ us" by blast
    with f show ?thesis by (intro exI [of _ "t # us"]) auto
  qed
qed

fun called :: "tick_task \<Rightarrow> tick_task list" where
  "called (TickTask n ts fails) = ts"

lemma run_item_frame:
  "run_item throws t s = (r, s') \<Longrightarrow> \<exists>us. prefix us (called t)
     \<and> queue s' = queue s @ us \<and> draining s' = draining s
     \<and> currentQueue s' = currentQueue s \<and> queueIndex s' = queueIndex s \<and> executed s' = executed s @ [t]
     \<and> pushed s' = pushed s @ us"
  by (cases t) (auto simp: run_item_def split: sum.splits prod.splits dest!: schedule_frame)

section \<open>The loops of \<^verbatim>\<open>drainQueue\<close>\<close>

function drain_inner :: "host \<Rightarrow> nat \<Rightarrow> proc \<Rightarrow> unit result \<times> proc" where
  "drain_inner throws len s0 =
     (let s = s0\<lparr>queueIndex := queueIndex s0 + 1\<rparr> in
      if queueIndex s < int len then
        (case currentQueue s of
           None \<Rightarrow> drain_inner throws len s
         | Some cq \<Rightarrow>
             if 0 \<le> queueIndex s \<and> queueIndex s < int (length cq) then
               (case run_item throws (cq ! nat (queueIndex s)) s of
                  (Inl e, s1) \<Rightarrow> (Inl e, s1)
                | (Inr _, s1) \<Rightarrow> drain_inner throws len s1)
             else (Inl (TypeError ''Cannot read property 'run' of undefined''), s))
      else (Inr (), s))"
  by pat_completeness auto
termination
  by (relation "measure (\<lambda>(h, len, s). nat (int len - queueIndex s))") (auto dest!: run_item_frame [OF sym])

declare drain_inner.simps [simp del]

definition task_weight :: "tick_task list \<Rightarrow> nat" where
  "task_weight ts = sum_list (map size ts)"

lemma task_weight_simps [simp]:
  "task_weight [] = 0" "task_weight (t # ts) = size t + task_weight ts" "task_weight (ts @ us) = task_weight ts + task_weight us"
  by (simp_all add: task_weight_def)

lemma task_weight_called: "prefix us (called t) \<Longrightarrow> task_weight us < size t"
proof (cases t)
  case (TickTask n ts fails)
  have "task_weight ts \<le> size_list size ts" by (induction ts) auto
  moreover assume "prefix us (called t)"
  then obtain vs where "ts = us @ vs" using TickTask by (auto simp: prefix_def)
  ultimately show ?thesis using TickTask by simp
qed

lemma task_weight_drop: "i < length ts \<Longrightarrow> task_weight (drop i ts) = size (ts ! i) + task_weight (drop (Suc i) ts)"
  by (metis Cons_nth_drop_Suc task_weight_simps(2))

lemma task_weight_drop_le: "task_weight (drop i ts) \<le> task_weight ts"
  by (metis append_take_drop_id le_add2 task_weight_simps(3))

lemma drain_inner_stop: "int len \<le> queueIndex s + 1 \<Longrightarrow>
    drain_inner throws len s = (Inr (), s\<lparr>queueIndex := queueIndex s + 1\<rparr>)"
  by (subst drain_inner.simps) simp

lemma drain_inner_outside:
  "queueIndex s + 1 < int len \<Longrightarrow> currentQueue s = Some cq \<Longrightarrow>
     \<not> (0 \<le> queueIndex s + 1 \<and> queueIndex s + 1 < int (length cq)) \<Longrightarrow>
     drain_inner throws len s = (Inl (TypeError ''Cannot read property 'run' of undefined''),
       s\<lparr>queueIndex := queueIndex s + 1\<rparr>)"
  by (subst drain_inner.simps) (auto simp: Let_def)

lemma drain_inner_next:
  assumes "currentQueue s = Some cq" "queueIndex s + 1 = int i" "i < len" "i < length cq"
    "run_item throws (cq ! i) (s\<lparr>queueIndex := int i\<rparr>) = (r, s1)"
  shows "drain_inner throws len s = (case r of Inl e \<Rightarrow> (Inl e, s1) | Inr _ \<Rightarrow> drain_inner throws len s1)"
  using assms by (subst drain_inner.simps) (simp add: Let_def)

lemma drain_inner_weight:
  assumes "drain_inner throws len s = (Inr u, s')" "currentQueue s = Some cq"
  shows "queue s' = queue s \<or>
    task_weight (queue s') < task_weight (queue s) + task_weight (drop (nat (queueIndex s + 1)) cq)"
  using assms
proof (induction "nat (int len - queueIndex s)" arbitrary: s rule: less_induct)
  case less
  show ?case
  proof (cases "queueIndex s + 1 < int len")
    case True
    then obtain i where i: "queueIndex s + 1 = int i" "i < len" "i < length cq"
      using less.prems drain_inner_outside [OF True less.prems(2)]
      by (cases "0 \<le> queueIndex s + 1 \<and> queueIndex s + 1 < int (length cq)")
         (auto dest: nonneg_int_cases)
    obtain r s1 where r: "run_item throws (cq ! i) (s\<lparr>queueIndex := int i\<rparr>) = (r, s1)"
      by (cases "run_item throws (cq ! i) (s\<lparr>queueIndex := int i\<rparr>)")
    from drain_inner_next [OF less.prems(2) i r] less.prems(1)
    have d: "drain_inner throws len s1 = (Inr u, s')" by (cases r) auto
    from run_item_frame [OF r] obtain us where us: "prefix us (called (cq ! i))"
      "queue s1 = queue s @ us" "currentQueue s1 = Some cq" "queueIndex s1 = int i"
      using less.prems(2) by auto
    have "queue s' = queue s1 \<or>
      task_weight (queue s') < task_weight (queue s1) + task_weight (drop (nat (queueIndex s1 + 1)) cq)"
      using i us by (intro less.hyps d) auto
    moreover have "nat (queueIndex s1 + 1) = Suc i" "nat (queueIndex s + 1) = i" using us(4) i(1) by simp_all
    ultimately show ?thesis
      using task_weight_called [OF us(1)] us(2) task_weight_drop [OF i(3)] by auto
  next
    case False
    with less.prems drain_inner_stop [of len s throws] show ?thesis by auto
  qed
qed

function drain_loop :: "host \<Rightarrow> nat \<Rightarrow> proc \<Rightarrow> unit result \<times> proc" where
  "drain_loop throws len s =
     (if len = 0 then (Inr (), s)
      else
        (case drain_inner throws len (s\<lparr>currentQueue := Some (queue s), queue := []\<rparr>) of
           (Inl e, s1) \<Rightarrow> (Inl e, s1)
         | (Inr _, s1) \<Rightarrow> drain_loop throws (length (queue s1)) (s1\<lparr>queueIndex := -1\<rparr>)))"
  by pat_completeness auto
termination
proof (relation "measure (\<lambda>(h, len, s). 2 * task_weight (queue s) + (if len = 0 then 0 else 1))", simp, goal_cases)
  case (1 throws len s r s1 u)
  from drain_inner_weight [of throws len "s\<lparr>currentQueue := Some (queue s), queue := []\<rparr>" u s1 "queue s"] 1
  have "queue s1 = [] \<or> task_weight (queue s1) < task_weight (drop (nat (queueIndex s + 1)) (queue s))" by auto
  then show ?case
    using 1 task_weight_drop_le [of "nat (queueIndex s + 1)" "queue s"] by auto
qed

declare drain_loop.simps [simp del]

definition drainQueue :: "host \<Rightarrow> proc \<Rightarrow> unit result \<times> proc" where
  "drainQueue throws s =
     (if draining s then (Inr (), s)
      else
        (case runTimeout throws CleanJob s of
           (Inl e, s1) \<Rightarrow> (Inl e, s1)
         | (Inr timeout, s1) \<Rightarrow>
             (case drain_loop throws (length (queue s1)) (s1\<lparr>draining := True\<rparr>) of
                (Inl e, s2) \<Rightarrow> (Inl e, s2)
              | (Inr _, s2) \<Rightarrow> runClearTimeout throws timeout (s2\<lparr>currentQueue := None, draining := False\<rparr>))))"

definition cleanUpNextTick :: "host \<Rightarrow> proc \<Rightarrow> unit result \<times> proc" where
  "cleanUpNextTick throws s =
     (case currentQueue s of
        None \<Rightarrow> (Inr (), s)
      | Some cq \<Rightarrow>
          if \<not> draining s then (Inr (), s)
          else
            let s1 = s\<lparr>draining := False\<rparr>;
                s2 = (if cq \<noteq> [] then s1\<lparr>queue := cq @ queue s1\<rparr> else s1\<lparr>queueIndex := -1\<rparr>)
            in if queue s2 \<noteq> [] then drainQueue throws s2 else (Inr (), s2))"

definition run_job :: "host \<Rightarrow> tick_job \<Rightarrow> proc \<Rightarrow> unit result \<times> proc" where
  "run_job throws j s = (case j of DrainJob \<Rightarrow> drainQueue throws s | CleanJob \<Rightarrow> cleanUpNextTick throws s)"

section \<open>Steps\<close>

text \<open>
  What happens from outside: a program that calls \<^verbatim>\<open>nextTick\<close>, the oldest pending timer that fires (the browser
  removes it, runs its job and ignores what the job throws), and a script that replaces the timer functions.
\<close>

datatype tick_op = OpTick tick_task | OpFire | OpStub nat nat

fun tick_step :: "host \<Rightarrow> tick_op \<Rightarrow> proc \<Rightarrow> proc" where
  "tick_step throws (OpTick t) s = snd (nextTick throws t s)"
| "tick_step throws OpFire s = (case host_timers s of
     [] \<Rightarrow> s
   | (i, j) # rest \<Rightarrow> snd (run_job throws j (s\<lparr>host_timers := rest\<rparr>)))"
| "tick_step throws (OpStub f g) s = s\<lparr>globalSet := Some (HostFn f), globalClear := Some (HostFn g)\<rparr>"

inductive tick_reach :: "host \<Rightarrow> proc \<Rightarrow> bool" for throws where
  start: "tick_reach throws (new_proc (Some (HostFn f)) (Some (HostFn g)))"
| step: "tick_reach throws s \<Longrightarrow> tick_reach throws (tick_step throws op s)"

section \<open>The invariant\<close>

definition timers_work :: "host \<Rightarrow> bool" where
  \<comment> \<open>a timer function of the browser does not throw when it is called\<close>
  "timers_work throws \<longleftrightarrow> (\<forall>n. \<not> throws n Plain)"

definition fns_ok :: "proc \<Rightarrow> bool" where
  "fns_ok s \<longleftrightarrow> (\<exists>a b c d. globalSet s = Some (HostFn a) \<and> globalClear s = Some (HostFn b)
     \<and> cachedSetTimeout s = HostFn c \<and> cachedClearTimeout s = HostFn d)"

definition outstanding :: "proc \<Rightarrow> tick_task list" where
  "outstanding s = (if draining s then drop (nat (queueIndex s + 1)) (case currentQueue s of Some cq \<Rightarrow> cq | None \<Rightarrow> [])
     else []) @ queue s"

definition crashed :: "proc \<Rightarrow> bool" where
  \<comment> \<open>a task threw, and the rest of its queue waits\<close>
  "crashed s \<longleftrightarrow> (\<exists>cq j. currentQueue s = Some cq \<and> queueIndex s = int j \<and> j < length cq)"

definition tick_inv :: "proc \<Rightarrow> bool" where
  "tick_inv s \<longleftrightarrow> fns_ok s \<and> executed s @ outstanding s = pushed s \<and> list_all (\<lambda>(i, _). i < next_timer s) (host_timers s)
     \<and> (if draining s then crashed s \<and> (\<exists>i. host_timers s = [(i, CleanJob)])
        else currentQueue s = None \<and> queueIndex s = -1
          \<and> (if queue s = [] then host_timers s = [] else \<exists>i. host_timers s = [(i, DrainJob)]))"

lemma runTimeout_ok:
  assumes "timers_work throws" "fns_ok s"
  shows "runTimeout throws job s = (Inr (next_timer s),
    s\<lparr>host_timers := host_timers s @ [(next_timer s, job)], next_timer := next_timer s + 1\<rparr>)"
  using assms by (auto simp: runTimeout_def call_set_def fns_ok_def timers_work_def)

lemma runClearTimeout_ok:
  assumes "timers_work throws" "fns_ok s"
  shows "runClearTimeout throws i s = (Inr (), s\<lparr>host_timers := filter (\<lambda>(k, _). k \<noteq> i) (host_timers s)\<rparr>)"
  using assms by (auto simp: runClearTimeout_def call_clear_def fns_ok_def timers_work_def)

lemma schedule_draining:
  "draining s \<Longrightarrow> schedule throws ts s = (Inr (), s\<lparr>queue := queue s @ ts, pushed := pushed s @ ts\<rparr>)"
  by (induction ts arbitrary: s) (simp_all add: nextTick_def Let_def)

lemma run_item_draining:
  "draining s \<Longrightarrow> \<exists>r. run_item throws t s =
     (r, s\<lparr>executed := executed s @ [t], queue := queue s @ called t, pushed := pushed s @ called t\<rparr>)"
  by (cases t) (auto simp: run_item_def schedule_draining)

definition moved :: "proc \<Rightarrow> int \<Rightarrow> tick_task list \<Rightarrow> tick_task list \<Rightarrow> proc" where
  \<comment> \<open>the state after some tasks ran that scheduled others\<close>
  "moved s i ts us = s\<lparr>queueIndex := i, executed := executed s @ ts, queue := queue s @ us, pushed := pushed s @ us\<rparr>"

lemma moved_fields [simp]:
  "queueIndex (moved s i ts us) = i" "executed (moved s i ts us) = executed s @ ts" "queue (moved s i ts us) = queue s @ us"
  "pushed (moved s i ts us) = pushed s @ us" "draining (moved s i ts us) = draining s"
  "currentQueue (moved s i ts us) = currentQueue s"
  "moved (moved s i ts us) i' ts' us' = moved s i' (ts @ ts') (us @ us')"
  by (simp_all add: moved_def)

lemma drain_inner_spec:
  assumes "draining s" "currentQueue s = Some cq" "queueIndex s + 1 = int i" "i \<le> length cq"
  shows "\<exists>j us r. drain_inner throws (length cq) s = (r, moved s (if j < length cq then int j else int (length cq))
      (take (Suc j - i) (drop i cq)) us) \<and> i \<le> j \<and> (if j < length cq then \<exists>e. r = Inl e else r = Inr ())"
  using assms
proof (induction "length cq - i" arbitrary: s i)
  case 0
  then show ?case
    using drain_inner_stop [of "length cq" s throws]
    by (intro exI [of _ i] exI [of _ "[]"] exI [of _ "Inr ()"]) (simp add: moved_def)
next
  case (Suc n)
  then have i: "i < length cq" by simp
  obtain r where r: "run_item throws (cq ! i) (s\<lparr>queueIndex := int i\<rparr>) =
      (r, moved s (int i) [cq ! i] (called (cq ! i)))"
    using run_item_draining [of "s\<lparr>queueIndex := int i\<rparr>" throws "cq ! i"] Suc.prems(1) by (auto simp: moved_def)
  note d = drain_inner_next [OF Suc.prems(2,3) i i r]
  have c: "drop i cq = cq ! i # drop (Suc i) cq" using i by (rule Cons_nth_drop_Suc [symmetric])
  show ?case
  proof (cases r)
    case (Inl e)
    with d i c show ?thesis
      by (intro exI [of _ i] exI [of _ "called (cq ! i)"] exI [of _ r]) simp
  next
    case (Inr u)
    have n: "n = length cq - Suc i" using Suc.hyps(2) by simp
    from Suc.hyps(1) [OF n, of "moved s (int i) [cq ! i] (called (cq ! i))"] Suc.prems i
    obtain j us r' where j: "drain_inner throws (length cq) (moved s (int i) [cq ! i] (called (cq ! i))) =
        (r', moved s (if j < length cq then int j else int (length cq))
          (cq ! i # take (j - i) (drop (Suc i) cq)) (called (cq ! i) @ us))"
      "Suc i \<le> j" "if j < length cq then \<exists>e. r' = Inl e else r' = Inr ()"
      by auto
    then have "take (Suc j - i) (drop i cq) = cq ! i # take (j - i) (drop (Suc i) cq)"
      by (simp add: c Suc_diff_le)
    with d Inr j show ?thesis
      by (intro exI [of _ j] exI [of _ "called (cq ! i) @ us"] exI [of _ r']) simp
  qed
qed

definition same_host :: "proc \<Rightarrow> proc \<Rightarrow> bool" where
  "same_host s s' \<longleftrightarrow> globalSet s' = globalSet s \<and> globalClear s' = globalClear s
     \<and> cachedSetTimeout s' = cachedSetTimeout s \<and> cachedClearTimeout s' = cachedClearTimeout s
     \<and> host_timers s' = host_timers s \<and> next_timer s' = next_timer s"

definition drained :: "unit result \<Rightarrow> proc \<Rightarrow> bool" where
  \<comment> \<open>how \<^verbatim>\<open>drainQueue\<close> leaves its loops: all tasks ran, or one threw\<close>
  "drained r s \<longleftrightarrow> draining s
     \<and> (case r of Inr _ \<Rightarrow> queue s = [] \<and> executed s = pushed s \<and> queueIndex s = -1
        | Inl _ \<Rightarrow> crashed s \<and> executed s @ outstanding s = pushed s)"

lemma drain_loop_spec:
  assumes "draining s" "queueIndex s + 1 = int i" "i \<le> length (queue s)" "queue s \<noteq> []"
    "executed s @ drop i (queue s) = pushed s"
  shows "\<exists>r s'. drain_loop throws (length (queue s)) s = (r, s') \<and> drained r s' \<and> same_host s s'
    \<and> length (executed s) + (if i < length (queue s) then 1 else 0) \<le> length (executed s')"
  using assms
proof (induction "task_weight (queue s)" arbitrary: s i rule: less_induct)
  case less
  define cq where "cq = queue s"
  define s0 where "s0 = s\<lparr>currentQueue := Some cq, queue := []\<rparr>"
  have "draining s0" "currentQueue s0 = Some cq" "queueIndex s0 + 1 = int i" "i \<le> length cq"
    using less.prems by (simp_all add: s0_def cq_def)
  from drain_inner_spec [OF this, of throws] obtain j us r where
    d: "drain_inner throws (length cq) s0 = (r, moved s0 (if j < length cq then int j else int (length cq))
        (take (Suc j - i) (drop i cq)) us)"
    "i \<le> j" "if j < length cq then \<exists>e. r = Inl e else r = Inr ()" by blast
  have l: "drain_loop throws (length cq) s = (case drain_inner throws (length cq) s0 of
           (Inl e, s1) \<Rightarrow> (Inl e, s1)
         | (Inr _, s1) \<Rightarrow> drain_loop throws (length (queue s1)) (s1\<lparr>queueIndex := -1\<rparr>))"
    using less.prems(4) by (subst drain_loop.simps) (simp add: s0_def cq_def)
  show ?case
  proof (cases "j < length cq")
    case True
    have "executed s @ take (Suc j - i) (drop i cq) @ drop (Suc j) cq = executed s @ drop i cq"
      using d(2) append_take_drop_id [of "Suc j - i" "drop i cq"] by simp
    moreover obtain e where "r = Inl e" using d(3) True by auto
    ultimately show ?thesis
      using l d True less.prems
      by (auto simp: drained_def outstanding_def crashed_def same_host_def moved_def s0_def cq_def
          nat_add_distrib)
  next
    case False
    define s1 where "s1 = s0\<lparr>executed := executed s @ drop i cq, queue := us, pushed := pushed s @ us, queueIndex := -1\<rparr>"
    have r: "r = Inr ()" and t: "take (Suc j - i) (drop i cq) = drop i cq" using d(3) False by auto
    then have n: "drain_loop throws (length cq) s = drain_loop throws (length us) s1"
      using l d(1) False by (simp add: moved_def s1_def s0_def)
    have len: "length (pushed s) = length (executed s) + (length (queue s) - i)"
      using less.prems(5) by (metis length_append length_drop)
    show ?thesis
    proof (cases "us = []")
      case True
      then have "drain_loop throws (length us) s1 = (Inr (), s1)" by (subst drain_loop.simps) simp
      then show ?thesis using n True less.prems len
        by (auto simp: drained_def outstanding_def same_host_def s1_def s0_def cq_def)
    next
      case False
      have "task_weight us < task_weight cq"
        using drain_inner_weight [of throws "length cq" s0 "()" _ cq] d(1) r False
          task_weight_drop_le [of "nat (queueIndex s0 + 1)" cq] by (fastforce simp: s0_def)
      then obtain r' s' where "drain_loop throws (length us) s1 = (r', s')" "drained r' s'" "same_host s1 s'"
        "length (executed s1) \<le> length (executed s')"
        using less.hyps [of s1 0] less.prems False by (auto simp: s1_def s0_def cq_def)
      then show ?thesis using n less.prems len
        by (auto simp: same_host_def s1_def s0_def cq_def)
    qed
  qed
qed

lemma drainQueue_ok:
  assumes "timers_work throws" "fns_ok s" "\<not> draining s" "queueIndex s + 1 = int i" "i \<le> length (queue s)"
    "queue s \<noteq> []" "executed s @ drop i (queue s) = pushed s" "host_timers s = []"
  shows "\<exists>r s'. drainQueue throws s = (r, s') \<and> tick_inv s'
    \<and> length (executed s) + (if i < length (queue s) then 1 else 0) \<le> length (executed s')"
proof -
  define s1 where "s1 = s\<lparr>host_timers := [(next_timer s, CleanJob)], next_timer := next_timer s + 1, draining := True\<rparr>"
  have "draining s1" "queueIndex s1 + 1 = int i" "i \<le> length (queue s1)" "queue s1 \<noteq> []"
    "executed s1 @ drop i (queue s1) = pushed s1" using assms by (simp_all add: s1_def)
  from drain_loop_spec [OF this, of throws] obtain r s2 where
    l: "drain_loop throws (length (queue s1)) s1 = (r, s2)" "drained r s2" "same_host s1 s2"
      "length (executed s1) + (if i < length (queue s1) then 1 else 0) \<le> length (executed s2)" by blast
  have f: "fns_ok s2" using l(3) assms(2) by (auto simp: fns_ok_def same_host_def s1_def)
  have q: "drainQueue throws s = (case r of Inl e \<Rightarrow> (Inl e, s2)
      | Inr _ \<Rightarrow> (Inr (), s2\<lparr>currentQueue := None, draining := False, host_timers := []\<rparr>))"
  proof (cases r)
    case (Inl e)
    with l(1) assms show ?thesis
      by (simp add: drainQueue_def runTimeout_ok s1_def)
  next
    case (Inr u)
    have "fns_ok (s2\<lparr>currentQueue := None, draining := False\<rparr>)" using f by (simp add: fns_ok_def)
    with l(1,3) assms Inr show ?thesis
      by (simp add: drainQueue_def runTimeout_ok s1_def runClearTimeout_ok same_host_def)
  qed
  show ?thesis
  proof (cases r)
    case (Inl e)
    with l q f show ?thesis
      by (intro exI [of _ "Inl e"] exI [of _ s2]) (auto simp: tick_inv_def drained_def same_host_def s1_def)
  next
    case (Inr u)
    with l q f show ?thesis
      by (intro exI [of _ "Inr ()"] exI [of _ "s2\<lparr>currentQueue := None, draining := False, host_timers := []\<rparr>"])
         (auto simp: tick_inv_def drained_def same_host_def s1_def fns_ok_def outstanding_def)
  qed
qed

lemma fire_ok:
  assumes "timers_work throws" "tick_inv s" "host_timers s = (k, j) # rest"
  shows "tick_inv (tick_step throws OpFire s)"
    "outstanding s \<noteq> [] \<Longrightarrow> length (executed s) < length (executed (tick_step throws OpFire s))"
proof -
  have "tick_inv (tick_step throws OpFire s) \<and>
    length (executed s) + (if outstanding s = [] then 0 else 1) \<le> length (executed (tick_step throws OpFire s))"
  proof (cases "draining s")
    case True
    with assms(2,3) obtain cq n where c: "currentQueue s = Some cq" "queueIndex s = int n" "n < length cq"
      and j: "j = CleanJob" "rest = []"
      by (auto simp: tick_inv_def crashed_def)
    define s1 where "s1 = s\<lparr>host_timers := [], draining := False, queue := cq @ queue s\<rparr>"
    have "\<exists>r s'. drainQueue throws s1 = (r, s') \<and> tick_inv s'
      \<and> length (executed s1) + (if Suc n < length (queue s1) then 1 else 0) \<le> length (executed s')"
      using assms(1,2) True c
      by (intro drainQueue_ok) (auto simp: s1_def tick_inv_def fns_ok_def outstanding_def nat_add_distrib)
    moreover have "tick_step throws OpFire s = snd (drainQueue throws s1)"
      using assms(3) j c True by (auto simp: run_job_def cleanUpNextTick_def s1_def Let_def)
    moreover have "outstanding s = drop (Suc n) cq @ queue s" using c True by (simp add: outstanding_def nat_add_distrib)
    ultimately show ?thesis using c
      by (cases "queue s") (auto simp: s1_def simp del: tick_step.simps split: if_splits)
  next
    case False
    with assms(2,3) have j: "j = DrainJob" "rest = []" "queue s \<noteq> []"
      by (auto simp: tick_inv_def split: if_splits)
    have "\<exists>r s'. drainQueue throws (s\<lparr>host_timers := []\<rparr>) = (r, s') \<and> tick_inv s'
      \<and> length (executed s) + (if 0 < length (queue s) then 1 else 0) \<le> length (executed s')"
      using assms(1,2) False j drainQueue_ok [of throws "s\<lparr>host_timers := []\<rparr>" 0]
      by (auto simp: tick_inv_def fns_ok_def outstanding_def)
    then show ?thesis using assms(3) j by (auto simp: run_job_def)
  qed
  then show "tick_inv (tick_step throws OpFire s)"
    "outstanding s \<noteq> [] \<Longrightarrow> length (executed s) < length (executed (tick_step throws OpFire s))" by auto
qed

lemma tick_keeps:
  assumes "timers_work throws" "tick_inv s"
  shows "tick_inv (tick_step throws (OpTick t) s)"
proof (cases "draining s")
  case True
  with assms(2) show ?thesis
    by (auto simp: nextTick_def Let_def tick_inv_def fns_ok_def outstanding_def crashed_def)
next
  case False
  define s1 where "s1 = s\<lparr>queue := queue s @ [t], pushed := pushed s @ [t]\<rparr>"
  have "fns_ok s1" using assms(2) by (simp add: s1_def tick_inv_def fns_ok_def)
  from runTimeout_ok [OF assms(1) this, of DrainJob] assms(2) False show ?thesis
    by (cases "queue s = []")
       (auto simp: nextTick_def Let_def tick_inv_def fns_ok_def outstanding_def s1_def)
qed

lemma tick_inv_reach:
  assumes "tick_reach throws s" "timers_work throws"
  shows "tick_inv s"
  using assms(1)
proof (induction rule: tick_reach.induct)
  case (start f g)
  then show ?case by (simp add: new_proc_def cache_fn_def tick_inv_def fns_ok_def outstanding_def)
next
  case (step s op)
  then show ?case
  proof (cases op)
    case (OpTick t)
    with step tick_keeps [OF assms(2)] show ?thesis by simp
  next
    case OpFire
    with step fire_ok(1) [OF assms(2)] show ?thesis by (cases "host_timers s") auto
  next
    case (OpStub f g)
    with step show ?thesis
      by (auto simp: tick_inv_def fns_ok_def outstanding_def crashed_def)
  qed
qed

section \<open>Properties\<close>

text \<open>
  \<^bold>\<open>C11.\<close> \<^verbatim>\<open>process.nextTick\<close> keeps its promise: at every moment, and also after tasks that threw, the
  tasks that ran, followed by those that wait, are the tasks that were scheduled, in the order of the calls of
  \<^verbatim>\<open>nextTick\<close>, so that none is lost, run twice or overtaken; and while one waits, a timer is pending
  whose firing runs at least the next one.
\<close>

theorem ticks_in_order:
  assumes "timers_work throws" "tick_reach throws s"
  shows "executed s @ outstanding s = pushed s
    \<and> (outstanding s \<noteq> [] \<longrightarrow> (\<exists>i j. host_timers s = [(i, j)])
        \<and> length (executed s) < length (executed (tick_step throws OpFire s)))"
proof -
  have i: "tick_inv s" using tick_inv_reach assms by blast
  then have "outstanding s \<noteq> [] \<Longrightarrow> \<exists>k j. host_timers s = [(k, j)]"
    by (auto simp: tick_inv_def outstanding_def split: if_splits)
  then show ?thesis
    using i fire_ok(2) [OF assms(1) i] by (auto simp: tick_inv_def simp del: tick_step.simps)
qed

definition sample_ticks :: "tick_task list" where
  "sample_ticks = [TickTask 1 [TickTask 2 [] False] True, TickTask 3 [TickTask 4 [] False, TickTask 5 [] True] False]"

definition after_ops :: "host \<Rightarrow> tick_op list \<Rightarrow> proc" where
  "after_ops throws ops = fold (tick_step throws) ops (new_proc (Some (HostFn 1)) (Some (HostFn 2)))"

lemma after_ops_reach: "tick_reach throws (after_ops throws ops)"
proof -
  have "tick_reach throws s \<Longrightarrow> tick_reach throws (fold (tick_step throws) ops s)" for s
    by (induction ops arbitrary: s) (auto intro: tick_reach.step)
  then show ?thesis by (simp add: after_ops_def tick_reach.start)
qed

theorem ticks_in_order_witness:
  "let s = after_ops (\<lambda>n f. f \<noteq> Plain) (map OpTick sample_ticks @ [OpFire]);
       s' = tick_step (\<lambda>n f. f \<noteq> Plain) OpFire s
   in map (\<lambda>t. case t of TickTask n _ _ \<Rightarrow> n) (outstanding s) = [3, 2] \<and> executed s @ outstanding s = pushed s
      \<and> length (executed s) < length (executed s')"
proof -
  have "timers_work (\<lambda>n f. f \<noteq> Plain)" by (simp add: timers_work_def)
  note t = ticks_in_order [OF this after_ops_reach]
  have "map (\<lambda>t. case t of TickTask n _ _ \<Rightarrow> n)
      (outstanding (after_ops (\<lambda>n f. f \<noteq> Plain) (map OpTick sample_ticks @ [OpFire]))) = [3, 2]" by code_simp
  with t [of "map OpTick sample_ticks @ [OpFire]"] show ?thesis
    unfolding Let_def by (metis list.distinct(1) list.simps(8))
qed

lemma missing_timers_stick:
  \<comment> \<open>without timer functions the first call throws and later ones schedule nothing\<close>
  "let r1 = nextTick h (TickTask 1 [] False) (new_proc (Some NoFn) (Some NoFn));
       s = (snd r1)\<lparr>globalSet := Some (HostFn 1), globalClear := Some (HostFn 2)\<rparr>;
       r2 = nextTick h (TickTask 2 [] False) s
   in fst r1 = Inl (JsError ''setTimeout has not been defined'') \<and> fst r2 = Inr ()
      \<and> host_timers (snd r2) = [] \<and> length (outstanding (snd r2)) = 2"
  by (simp add: nextTick_def new_proc_def cache_fn_def runTimeout_def call_set_def defaultSetTimout_def
      outstanding_def Let_def)

lemma timeout_ways:
  \<comment> \<open>a saved function that throws when it is called plainly is called on \<^verbatim>\<open>null\<close> and on the module\<close>
  assumes "globalSet s = Some g" "cachedSetTimeout s = HostFn n" "g \<noteq> HostFn n"
    "\<not> throws n Plain \<or> \<not> throws n OnNull \<or> \<not> throws n OnThis"
  shows "fst (runTimeout throws job s) = Inr (next_timer s)"
  using assms by (auto simp: runTimeout_def call_set_def)

end
