(* ===== verification/Url_Resolve.thy ===== *)
theory Url_Resolve
  imports Url
begin

text \<open>
  \<^verbatim>\<open>Url.prototype.resolveObject\<close>: a reference resolved against a base. The method is cut at the cases of the
  source; the result comes with the object of the reference, which the method changes. A value that is \<^verbatim>\<open>null\<close> or
  \<^verbatim>\<open>undefined\<close> is \<open>None\<close>. The theorem is that the dot segments are removed the way a walk from the front
  with a stack does it.
\<close>

section \<open>Paths\<close>

definition set_texts :: "jsstr option \<Rightarrow> bool" where
  \<comment> \<open>a value that counts as true\<close>
  "set_texts s \<longleftrightarrow> or_empty s \<noteq> []"

definition path_parts :: "jsstr option \<Rightarrow> jsstr list" where
  "path_parts p = (if set_texts p then split_on 47 (or_empty p) else [])"

definition starts_slash :: "jsstr option \<Rightarrow> bool" where
  "starts_slash p \<longleftrightarrow> set_texts p \<and> hd (or_empty p) = 47"

fun take_host :: "jsstr list \<Rightarrow> jsstr \<times> jsstr list" where
  \<comment> \<open>the loop that takes the first part that is not empty as the host\<close>
  "take_host [] = ([], [])"
| "take_host (p # ps) = (if p = [] then take_host ps else (p, ps))"

fun strip_dots :: "nat \<Rightarrow> jsstr list \<Rightarrow> jsstr list \<times> nat" where
  \<comment> \<open>the loop from the last part to the first; the list is in this order\<close>
  "strip_dots up [] = ([], up)"
| "strip_dots up (x # xs) =
     (if x = js ''.'' then strip_dots up xs
      else if x = js ''..'' then strip_dots (up + 1) xs
      else if up > 0 then strip_dots (up - 1) xs
      else (let (ys, u) = strip_dots up xs in (x # ys, u)))"

definition part_absolute :: "jsstr list \<Rightarrow> bool" where
  \<comment> \<open>\<^verbatim>\<open>srcPath[0] === '' || srcPath[0] && srcPath[0].charAt(0) === '/'\<close>\<close>
  "part_absolute ps \<longleftrightarrow> (case ps of [] \<Rightarrow> False | p # _ \<Rightarrow> p = [] \<or> hd p = 47)"

definition trailing_slash :: "bool \<Rightarrow> jsstr list \<Rightarrow> bool" where
  "trailing_slash hosts ps \<longleftrightarrow>
     (hosts \<or> length ps > 1) \<and> (last ps = js ''.'' \<or> last ps = js ''..'') \<or> last ps = []"

definition clean_path :: "bool \<Rightarrow> bool \<Rightarrow> bool \<Rightarrow> jsstr list \<Rightarrow> jsstr list" where
  \<comment> \<open>from the removal of the dots to the slash at the end\<close>
  "clean_path mustEndAbs removeAllDots trailing ps =
     (let (qs, up) = strip_dots 0 (rev ps);
          ps1 = rev qs;
          ps2 = (if \<not> mustEndAbs \<and> \<not> removeAllDots then replicate up (js ''..'') @ ps1 else ps1);
          ps3 = (if mustEndAbs \<and> \<not> part_absolute ps2 then [] # ps2 else ps2);
          t = join [47] ps3
      in if trailing \<and> (t = [] \<or> last t \<noteq> 47) then ps3 @ [[]] else ps3)"

section \<open>The cases of the method\<close>

definition with_href :: "url \<Rightarrow> url result" where
  "with_href u = rbind (url_format u) (\<lambda>h. Inr (u\<lparr>u_href := Some h\<rparr>))"

definition with_path :: "url \<Rightarrow> url" where
  "with_path u = (if u_pathname u \<noteq> None \<or> u_search u \<noteq> None
     then u\<lparr>u_path := Some (or_empty (u_pathname u) @ or_empty (u_search u))\<rparr> else u)"

definition same_protocol_host :: "url \<Rightarrow> url \<Rightarrow> url result" where
  \<comment> \<open>\<^verbatim>\<open>//host/path\<close>: everything but the protocol comes from the reference\<close>
  "same_protocol_host result relative =
     (let r1 = relative\<lparr>u_protocol := u_protocol result\<rparr>;
          r2 = (if slashedProtocol (u_protocol r1) \<and> set_texts (u_hostname r1) \<and> \<not> set_texts (u_pathname r1)
                then r1\<lparr>u_path := Some [47], u_pathname := Some [47]\<rparr> else r1)
      in with_href r2)"

definition other_protocol :: "url \<Rightarrow> url \<Rightarrow> url result \<times> url" where
  "other_protocol result relative =
     (if \<not> slashedProtocol (u_protocol relative) then (with_href relative, relative)
      else
        let (rel, pathname) =
              (if \<not> set_texts (u_host relative) \<and> \<not> hostlessProtocol (u_protocol relative) then
                 (let (h, ps) = take_host (split_on 47 (or_empty (u_pathname relative)));
                      ps1 = (if ps = [] \<or> hd ps \<noteq> [] then [] # ps else ps);
                      ps2 = (if length ps1 < 2 then [] # ps1 else ps1)
                  in (relative\<lparr>u_host := Some h,
                        u_hostname := (if set_texts (u_hostname relative) then u_hostname relative else Some [])\<rparr>,
                      Some (join [47] ps2)))
               else (relative, u_pathname relative));
            r1 = result\<lparr>u_protocol := u_protocol relative, u_pathname := pathname, u_search := u_search rel,
              u_query := u_query rel, u_host := Some (or_empty (u_host rel)), u_auth := u_auth rel,
              u_hostname := (if set_texts (u_hostname rel) then u_hostname rel else u_host rel), u_port := u_port rel\<rparr>;
            r2 = (if set_texts (u_pathname r1) \<or> set_texts (u_search r1)
                  then r1\<lparr>u_path := Some (or_empty (u_pathname r1) @ or_empty (u_search r1))\<rparr> else r1)
        in (with_href (r2\<lparr>u_slashes := u_slashes result \<or> u_slashes rel\<rparr>), rel))"

definition host_in_front :: "jsstr option \<Rightarrow> jsstr list \<Rightarrow> jsstr list" where
  "host_in_front host ps =
     (if set_texts host then
        (if ps \<noteq> [] \<and> hd ps = [] then or_empty host # tl ps else or_empty host # ps)
      else ps)"

definition auth_in_host :: "url \<Rightarrow> url" where
  "auth_in_host u =
     (let h = or_empty (u_host u) in
      if h \<noteq> [] \<and> indexOf h 64 > 0 then
        (let ps = split_on 64 h
         in u\<lparr>u_auth := Some (hd ps), u_host := Some (hd (tl ps)), u_hostname := Some (hd (tl ps))\<rparr>)
      else u)"

definition finish_path :: "bool \<Rightarrow> bool \<Rightarrow> bool \<Rightarrow> url \<Rightarrow> url \<Rightarrow> jsstr list \<Rightarrow> url result" where
  \<comment> \<open>from the dots to the end, for a path that has parts\<close>
  "finish_path psychotic mustEndAbs removeAllDots relative result srcPath =
     (let trailing = trailing_slash (set_texts (u_host result) \<or> set_texts (u_host relative)) srcPath;
          ps = clean_path mustEndAbs removeAllDots trailing srcPath;
          isAbsolute = part_absolute ps;
          (r1, ps1) =
            (if psychotic then
               (let h = (if isAbsolute \<or> ps = [] then [] else hd ps)
                in (auth_in_host (result\<lparr>u_host := Some h, u_hostname := Some h\<rparr>),
                    if isAbsolute then ps else tl ps))
             else (result, ps));
          must = (mustEndAbs \<or> set_texts (u_host r1) \<and> ps1 \<noteq> []);
          ps2 = (if must \<and> \<not> isAbsolute then [] # ps1 else ps1);
          r2 = (if ps2 = [] then r1\<lparr>u_pathname := None, u_path := None\<rparr>
                else r1\<lparr>u_pathname := Some (join [47] ps2)\<rparr>);
          r3 = with_path r2
      in with_href (r3\<lparr>u_auth := (if set_texts (u_auth relative) then u_auth relative else u_auth r3),
           u_slashes := u_slashes r3 \<or> u_slashes relative\<rparr>))"

definition merge_paths :: "url \<Rightarrow> url \<Rightarrow> url result \<times> url" where
  \<comment> \<open>the reference has the protocol of the base or none\<close>
  "merge_paths result0 relative0 =
     (let isSourceAbs = starts_slash (u_pathname result0);
          isRelAbs = (set_texts (u_host relative0) \<or> starts_slash (u_pathname relative0));
          must0 = (isRelAbs \<or> isSourceAbs \<or> set_texts (u_host result0) \<and> set_texts (u_pathname relative0));
          src0 = path_parts (u_pathname result0);
          rel0 = path_parts (u_pathname relative0);
          psychotic = (set_texts (u_protocol result0) \<and> \<not> slashedProtocol (u_protocol result0));
          (result, relative, srcPath, relPath) =
            (if psychotic then
               (let srcPath = host_in_front (u_host result0) src0;
                    result = result0\<lparr>u_hostname := Some [], u_port := None, u_host := Some []\<rparr>
                in if set_texts (u_protocol relative0)
                   then (result, relative0\<lparr>u_hostname := None, u_port := None, u_host := None\<rparr>, srcPath,
                         host_in_front (u_host relative0) rel0)
                   else (result, relative0, srcPath, rel0))
             else (result0, relative0, src0, rel0));
          starts_empty = (\<lambda>ps. ps \<noteq> [] \<and> hd ps = []);
          mustEndAbs = (must0 \<and> (psychotic \<longrightarrow> starts_empty relPath \<or> starts_empty srcPath));
          no_path = (\<lambda>r. with_href (r\<lparr>u_pathname := None,
             u_path := (if set_texts (u_search r) then Some (47 # or_empty (u_search r)) else None)\<rparr>));
          go_on = (\<lambda>r ps. if ps = [] then no_path r else finish_path psychotic mustEndAbs must0 relative r ps)
      in if isRelAbs then
           (go_on (result\<lparr>u_host := (if u_host relative \<noteq> None then u_host relative else u_host result),
              u_hostname := (if u_hostname relative \<noteq> None then u_hostname relative else u_hostname result),
              u_search := u_search relative, u_query := u_query relative\<rparr>) relPath, relative)
         else if relPath \<noteq> [] then
           (go_on (result\<lparr>u_search := u_search relative, u_query := u_query relative\<rparr>)
              (butlast srcPath @ relPath), relative)
         else if u_search relative \<noteq> None then
           (let r1 = (if psychotic then
                        (let h = (case srcPath of [] \<Rightarrow> None | p # _ \<Rightarrow> Some p)
                         in auth_in_host (result\<lparr>u_host := h, u_hostname := h\<rparr>))
                      else result)
            in (with_href (with_path (r1\<lparr>u_search := u_search relative, u_query := u_query relative\<rparr>)), relative))
         else (go_on result srcPath, relative))"

definition resolveObject :: "url \<Rightarrow> url \<Rightarrow> url result \<times> url" where
  "resolveObject this relative =
     (let result = this\<lparr>u_hash := u_hash relative\<rparr> in
      if u_href relative = Some [] then (with_href result, relative)
      else if u_slashes relative \<and> \<not> set_texts (u_protocol relative) then (same_protocol_host result relative, relative)
      else if set_texts (u_protocol relative) \<and> u_protocol relative \<noteq> u_protocol result then other_protocol result relative
      else merge_paths result relative)"

definition resolve :: "(jsstr \<Rightarrow> jsstr) \<Rightarrow> url \<Rightarrow> url + jsval \<Rightarrow> jsstr result" where
  "resolve uni this relative =
     rbind (urlParse uni relative False True) (\<lambda>rel. rbind (fst (resolveObject this rel)) url_format)"

definition urlResolve :: "(jsstr \<Rightarrow> jsstr) \<Rightarrow> url + jsval \<Rightarrow> url + jsval \<Rightarrow> jsstr result" where
  "urlResolve uni source relative =
     rbind (urlParse uni source False True) (\<lambda>this. resolve uni this relative)"

definition resolveObject_of :: "(jsstr \<Rightarrow> jsstr) \<Rightarrow> url \<Rightarrow> url + jsstr \<Rightarrow> url result" where
  \<comment> \<open>the method with a text or an object\<close>
  "resolveObject_of uni this relative =
     (case relative of
        Inl rel \<Rightarrow> fst (resolveObject this rel)
      | Inr s \<Rightarrow> rbind (url_parse uni (JStr s) False True) (\<lambda>rel. fst (resolveObject this rel)))"

definition urlResolveObject :: "(jsstr \<Rightarrow> jsstr) \<Rightarrow> url + jsval \<Rightarrow> url + jsstr \<Rightarrow> (url + jsstr) result" where
  "urlResolveObject uni source relative =
     (if (case source of Inl u \<Rightarrow> False | Inr v \<Rightarrow> \<not> truthy v) then Inr relative
      else
        rbind (urlParse uni source False True) (\<lambda>this.
        rbind (resolveObject_of uni this relative) (\<lambda>u. Inr (Inl u))))"

section \<open>Dot segments\<close>

fun dots :: "jsstr list \<Rightarrow> nat \<Rightarrow> jsstr list \<Rightarrow> jsstr list \<times> nat" where
  \<comment> \<open>a walk from the front with a stack; the number counts the steps above the root\<close>
  "dots st up [] = (st, up)"
| "dots st up (x # xs) =
     (if x = js ''.'' then dots st up xs
      else if x = js ''..'' then (case st of [] \<Rightarrow> dots [] (up + 1) xs | _ # st' \<Rightarrow> dots st' up xs)
      else dots (x # st) up xs)"

lemma dots_append: "dots st up (xs @ ys) = (let (st', up') = dots st up xs in dots st' up' ys)"
  by (induction xs arbitrary: st up) (auto split: list.split)

lemma js_dots [simp]: "js ''.'' \<noteq> js ''..''" "js ''..'' \<noteq> js ''.''"
  by (simp_all add: js_def)

lemma strip_dots_spec:
  "dots [] 0 xs = (st, ups) \<Longrightarrow> strip_dots u (rev xs) = (drop u st, ups + (u - length st))"
proof (induction xs arbitrary: st ups u rule: rev_induct)
  case Nil
  then show ?case by simp
next
  case (snoc x xs)
  obtain st0 ups0 where d: "dots [] 0 xs = (st0, ups0)" by (cases "dots [] 0 xs")
  note s = snoc.IH [OF d] and p = snoc.prems [unfolded dots_append d Let_def split]
  consider "x = js ''.''" | "x = js ''..''" | "x \<noteq> js ''.''" "x \<noteq> js ''..''" by blast
  then show ?case
  proof cases
    case 2
    with s [of "Suc u"] p show ?thesis by (cases st0) auto
  next
    case 3
    with s [of "u - 1"] s [of 0] p show ?thesis by (cases u) auto
  qed (use s p in simp)
qed

theorem dots_removed:
  "strip_dots 0 (rev xs) = dots [] 0 xs"
  using strip_dots_spec [of xs _ _ 0] by (cases "dots [] 0 xs") simp

text \<open>
  A path under the root: the empty first part stands for the root, and steps above it are dropped. Inner
  parts must not be empty: \<^verbatim>\<open>..\<close> takes away an empty part like any other.
\<close>

lemma dots_bottom:
  "fst (dots (st @ [[]]) u xs) = fst (dots st v xs) @ [[]] \<or> fst (dots (st @ [[]]) u xs) = fst (dots st v xs)"
proof (induction xs arbitrary: st u v)
  case Nil
  then show ?case by simp
next
  case (Cons x xs)
  have free: "fst (dots s a ys) = fst (dots s b ys)" for s a b and ys :: "jsstr list"
    by (induction ys arbitrary: s a b) (auto split: list.split)
  show ?case
  proof (cases "x = js ''..'' \<and> st = []")
    case True
    then show ?thesis using free [of "[]" u xs "v + 1"] by simp
  next
    case False
    then consider "x = js ''.''" | "x = js ''..''" "st \<noteq> []" | "x \<noteq> js ''.''" "x \<noteq> js ''..''" by blast
    then show ?thesis
    proof cases
      case 2
      then obtain a st' where "st = a # st'" by (cases st) auto
      with 2 Cons.IH [of st' u v] show ?thesis by simp
    next
      case 3
      with Cons.IH [of "x # st" u v] show ?thesis by simp
    qed (use Cons.IH in simp)
  qed
qed

lemma dots_parts: "set (fst (dots st u xs)) \<subseteq> set st \<union> set xs"
  by (induction xs arbitrary: st u) (auto split: list.split, fastforce+)

lemma dots_last:
  "xs \<noteq> [] \<Longrightarrow> last xs \<noteq> js ''.'' \<Longrightarrow> last xs \<noteq> js ''..'' \<Longrightarrow>
     fst (dots st u xs) = last xs # fst (dots st u (butlast xs))"
  using dots_append [of st u "butlast xs" "[last xs]"] by (auto split: prod.split)

definition walked :: "jsstr list \<Rightarrow> jsstr list" where
  \<comment> \<open>the parts of an absolute path after the walk\<close>
  "walked qs = [] # rev (fst (dots [] 0 qs)) @ (if last qs \<in> {js ''.'', js ''..''} then [[]] else [])"

lemma join_last: "ps \<noteq> [] \<Longrightarrow> last ps \<noteq> [] \<Longrightarrow> last (join s ps) = last (last ps) \<and> join s ps \<noteq> []"
  by (induction s ps rule: join.induct) auto

lemma join_empty_last: "ps \<noteq> [] \<Longrightarrow> join [c] (ps @ [[]]) = join [c] ps @ [c]"
  by (induction "[c]" ps rule: join.induct) auto

lemma clean_path_absolute:
  "clean_path True True t ps0 =
     (let ps1 = rev (fst (dots [] 0 ps0)); ps = (if part_absolute ps1 then ps1 else [] # ps1);
          w = join [47] ps
      in if t \<and> (w = [] \<or> last w \<noteq> 47) then ps @ [[]] else ps)"
  unfolding clean_path_def dots_removed by (cases "dots [] 0 ps0") (simp add: Let_def)

lemma dots_root: "dots [] 0 ([] # qs) = dots [[]] 0 qs"
  by (simp add: js_def)

lemma in_butlast_last: "xs \<noteq> [] \<Longrightarrow> set xs = set (butlast xs) \<union> {last xs}"
  by (induction xs rule: rev_induct) auto

lemma clean_path_walked:
  assumes "qs \<noteq> []" "list_all (\<lambda>p. p \<noteq> []) (butlast qs)" "list_all (\<lambda>p. 47 \<notin> set p) qs"
  shows "clean_path True True (trailing_slash True ([] # qs)) ([] # qs) = walked qs"
proof -
  define d where "d = rev (fst (dots [] 0 qs))"
  define ps where "ps = (if part_absolute (rev (fst (dots [[]] 0 qs))) then rev (fst (dots [[]] 0 qs))
    else [] # rev (fst (dots [[]] 0 qs)))"
  have c: "clean_path True True t ([] # qs) =
    (if t \<and> (join [47] ps = [] \<or> last (join [47] ps) \<noteq> 47) then ps @ [[]] else ps)" for t
    unfolding clean_path_absolute Let_def dots_root ps_def [symmetric] ..
  have sub: "set d \<subseteq> set qs" using dots_parts [of "[]" 0 qs] by (auto simp: d_def)
  define b where "b = rev (fst (dots [[]] 0 qs))"
  have b: "b = [] # d \<or> b = d"
    using dots_bottom [of "[]" 0 qs 0] by (auto simp: d_def b_def)
  have ps: "ps = (if part_absolute b then b else [] # b)" by (simp add: ps_def b_def)
  have plain: "\<not> part_absolute (p # r)" if "p \<noteq> [] \<and> 47 \<notin> set p" for p r
    using that by (cases p) (auto simp: part_absolute_def)
  have root: "part_absolute ([] # r)" "\<not> part_absolute []" for r by (simp_all add: part_absolute_def)
  have mem: "p \<in> set (butlast qs) \<or> p = last qs" if "p \<in> set qs" for p
    using in_butlast_last [OF assms(1)] that by blast
  have parts: "p \<in> set (butlast qs) \<Longrightarrow> p \<noteq> []" "p \<in> set qs \<Longrightarrow> 47 \<notin> set p" for p
    using assms(2,3) by (auto simp: list_all_iff)
  show ?thesis
  proof (cases "last qs \<in> {js ''.'', js ''..''}")
    case True
    then have ne: "p \<noteq> [] \<and> 47 \<notin> set p" if "p \<in> set d" for p
      using that sub mem [of p] parts [of p] True by (auto simp: js_def)
    then have ps: "ps = [] # d"
      using b ps plain root by (cases d) auto
    have l47: "last (last d) \<noteq> 47" if "d \<noteq> []"
      using ne [of "last d"] that last_in_set [of d] last_in_set [of "last d"] by metis
    have "join [47] ps = [] \<or> last (join [47] ps) \<noteq> 47"
      using l47 ne join_last [of d "[47]"] ps by (cases d) auto
    then show ?thesis
      using True ps assms(1) c by (auto simp: walked_def trailing_slash_def d_def)
  next
    case False
    then have l: "d = rev (fst (dots [] 0 (butlast qs))) @ [last qs]"
      using dots_last [of qs "[]" 0] assms(1) by (simp add: d_def)
    show ?thesis
    proof (cases "last qs = []")
      case True
      define e where "e = rev (fst (dots [] 0 (butlast qs)))"
      have d: "d = e @ [[]]" using l True by (simp add: e_def)
      have ne: "p \<noteq> [] \<and> 47 \<notin> set p" if "p \<in> set e" for p
        using that dots_parts [of "[]" 0 "butlast qs"] parts [of p] in_butlast_last [OF assms(1)]
        by (auto simp: e_def)
      have t: "trailing_slash True ([] # qs)" using True assms(1) by (simp add: trailing_slash_def)
      have "ps = [] # d \<or> ps = [[]] \<and> d = [[]]"
        using b ne d ps plain root by (cases e) auto
      moreover have "join [47] ([] # d) \<noteq> [] \<and> last (join [47] ([] # d)) = 47"
        using join_empty_last [of "[] # e" 47] d by simp
      ultimately show ?thesis using c t False by (auto simp: walked_def d_def)
    next
      case ne: False
      then have "\<not> trailing_slash True ([] # qs)" using False assms(1) by (auto simp: trailing_slash_def)
      moreover have "p \<noteq> [] \<and> 47 \<notin> set p" if "p \<in> set d" for p
        using that sub mem [of p] parts [of p] ne by auto
      then have "ps = [] # d"
        using b ps plain root by (cases d) auto
      ultimately show ?thesis using c False by (simp add: walked_def d_def)
    qed
  qed
qed

text \<open>
  \<^bold>\<open>C40.\<close> A relative path against a base with a host and an absolute path: the last part of the base is replaced
  by the reference and the dots are walked; query and fragment come from the reference, the rest from the base.
\<close>

theorem resolve_path:
  assumes base: "u_protocol this = Some p" "slashedProtocol (Some p)" "set_texts (u_host this)"
      "u_pathname this = Some (47 # s)"
    and rel: "u_protocol rel = None" "\<not> u_slashes rel" "\<not> set_texts (u_host rel)" "u_href rel \<noteq> Some []"
      "u_pathname rel = Some (c # r)" "c \<noteq> 47"
    and parts: "qs = butlast (split_on 47 s) @ split_on 47 (c # r)" "list_all (\<lambda>q. q \<noteq> []) (butlast qs)"
  shows "fst (resolveObject this rel) = with_href
    (this\<lparr>u_hash := u_hash rel, u_search := u_search rel, u_query := u_query rel,
       u_pathname := Some (join [47] (walked qs)), u_path := Some (join [47] (walked qs) @ or_empty (u_search rel)),
       u_auth := (if set_texts (u_auth rel) then u_auth rel else u_auth this)\<rparr>)"
proof -
  have ne: "split_on 47 s \<noteq> []" "split_on 47 (c # r) \<noteq> []" using split_on_ne by blast+
  then have src: "butlast (path_parts (Some (47 # s))) @ path_parts (Some (c # r)) = [] # qs"
    by (simp add: path_parts_def set_texts_def or_empty_def parts(1) del: split_on.simps(2))
       (simp add: parts(1))
  have "list_all (\<lambda>q. 47 \<notin> set q) qs"
    using split_on_clean [of _ 47] by (auto simp: parts(1) list_all_iff simp del: split_on.simps dest: in_set_butlastD)
  moreover have q: "qs \<noteq> []" using ne parts(1) by simp
  ultimately have clean: "clean_path True True (trailing_slash True ([] # qs)) ([] # qs) = walked qs"
    using parts(2) by (intro clean_path_walked)
  define res where "res = this\<lparr>u_hash := u_hash rel\<rparr>"
  define res2 where "res2 = res\<lparr>u_search := u_search rel, u_query := u_query rel\<rparr>"
  have e: "or_empty None = []" "or_empty (Some t) = t" for t by (simp_all add: or_empty_def)
  have texts: "set_texts (u_protocol this)" "\<not> set_texts (u_protocol rel)" "set_texts (u_pathname rel)"
    using base rel by (simp_all add: set_texts_def e slashedProtocol_def js_def) auto
  have ends: "\<not> starts_slash (u_pathname rel)" "starts_slash (u_pathname this)" "path_parts (u_pathname rel) \<noteq> []"
    using base rel ne by (simp_all add: starts_slash_def set_texts_def e path_parts_def del: split_on.simps)
  have "fst (merge_paths res rel) = finish_path False True True rel res2 ([] # qs)"
    unfolding merge_paths_def
    using base rel src ends texts q by (simp add: res_def res2_def Let_def)
  moreover have "finish_path False True True rel res2 ([] # qs) = with_href
    (this\<lparr>u_hash := u_hash rel, u_search := u_search rel, u_query := u_query rel,
       u_pathname := Some (join [47] (walked qs)), u_path := Some (join [47] (walked qs) @ or_empty (u_search rel)),
       u_auth := (if set_texts (u_auth rel) then u_auth rel else u_auth this)\<rparr>)"
    using base rel clean
    by (simp add: finish_path_def res_def res2_def Let_def walked_def part_absolute_def with_path_def e)
  ultimately show ?thesis
    using rel texts by (simp add: resolveObject_def res_def Let_def)
qed

definition sample_base :: url where
  "sample_base = new_Url\<lparr>u_protocol := Some (js ''http:''), u_slashes := True, u_host := Some (js ''a''),
     u_hostname := Some (js ''a''), u_pathname := Some (js ''/b/c/d''), u_path := Some (js ''/b/c/d''),
     u_href := Some (js ''http://a/b/c/d'')\<rparr>"

definition sample_reference :: url where
  "sample_reference = new_Url\<lparr>u_pathname := Some (js ''../g/.''), u_path := Some (js ''../g/.''),
     u_href := Some (js ''../g/.'')\<rparr>"

theorem resolve_path_witness:
  "fst (resolveObject sample_base sample_reference) = with_href
    (sample_base\<lparr>u_hash := None, u_search := None, u_query := QNull, u_pathname := Some (js ''/b/g/''),
       u_path := Some (js ''/b/g/''), u_auth := None\<rparr>)"
proof -
  have w: "join [47] (walked (map js [''b'', ''c'', ''..'', ''g'', ''.''])) = js ''/b/g/''"
    by code_simp
  have q: "map js [''b'', ''c'', ''..'', ''g'', ''.''] = butlast (split_on 47 (js ''b/c/d'')) @ split_on 47 (js ''../g/.'')"
    "list_all (\<lambda>q. q \<noteq> []) (butlast (map js [''b'', ''c'', ''..'', ''g'', ''.'']))"
    by code_simp+
  have "js ''/b/c/d'' = 47 # js ''b/c/d''" "js ''../g/.'' = 46 # js ''./g/.''"
    by code_simp+
  with q(1) show ?thesis
    using resolve_path [of sample_base "js ''http:''" "js ''b/c/d''" sample_reference 46 "js ''./g/.''"
        "map js [''b'', ''c'', ''..'', ''g'', ''.'']"] q(2) unfolding w
    by (simp add: sample_base_def sample_reference_def new_Url_def slashedProtocol_def set_texts_def or_empty_def)
qed

end
