(* ===== verification/Transform_Stream.thy ===== *)
theory Transform_Stream
  imports Js_Prelude
begin

text \<open>
  \<^verbatim>\<open>Transform\<close> and \<^verbatim>\<open>PassThrough\<close> of the bundled \<^verbatim>\<open>readable-stream\<close>: the glue between the writing half, which hands over
  a chunk and waits for its callback, and the reading half, which asks for data. Each function runs up to its
  next call of foreign code; what it still has to do is put on a stack (\<open>t_todo\<close>), and the foreign code
  may call back first: these calls are a parameter of each step, and so is what the reading half says when it
  is asked whether it wants more (\<^verbatim>\<open>rs.needReadable || rs.length < rs.highWaterMark\<close>) and the writing half whether it
  holds chunks (\<^verbatim>\<open>ws.length\<close>). A callback is named by a number.
\<close>

section \<open>State\<close>

datatype tevent =
    TeTransform jsval           \<comment> \<open>call of \<^verbatim>\<open>_transform\<close>\<close>
  | TeFlush
  | TePush jsval                \<comment> \<open>\<^verbatim>\<open>Readable.prototype.push\<close>\<close>
  | TeCalled nat "string option"
  | TeError string
  | TeThrow string

datatype t_call =
    CWrite jsval nat            \<comment> \<open>\<^verbatim>\<open>_write\<close>\<close>
  | CRead                       \<comment> \<open>\<^verbatim>\<open>_read\<close>\<close>
  | CDone "string option" jsval \<comment> \<open>the callback given to \<^verbatim>\<open>_transform\<close>\<close>
  | CPush jsval                 \<comment> \<open>\<^verbatim>\<open>push\<close>, called by the transformation\<close>
  | CPrefinish                  \<comment> \<open>the event \<^verbatim>\<open>prefinish\<close>\<close>
  | CFlushed "string option" jsval

datatype t_todo = DoCall t_call | DoPush jsval | DoCb nat "string option" | DoTail | DoDone

record tstate =
  t_hasTransform :: bool
  t_hasFlush :: bool
  t_needTransform :: bool
  t_transforming :: bool
  t_writecb :: "nat option"
  t_writechunk :: "jsval option"
  t_reading :: bool             \<comment> \<open>\<^verbatim>\<open>reading\<close> of the reading half\<close>
  t_prefinish :: bool           \<comment> \<open>the listener of \<^verbatim>\<open>prefinish\<close> is there\<close>
  t_todos :: "t_todo list"
  t_events :: "tevent list"
  t_writes :: "(jsval \<times> nat) list"
  t_given :: "jsval list"       \<comment> \<open>what the transformation gave to its callbacks and to \<^verbatim>\<open>push\<close>\<close>

definition new_Transform :: "bool \<Rightarrow> bool \<Rightarrow> tstate" where
  "new_Transform tr fl = \<lparr>t_hasTransform = tr, t_hasFlush = fl, t_needTransform = False, t_transforming = False,
     t_writecb = None, t_writechunk = None, t_reading = False, t_prefinish = True, t_todos = [], t_events = [],
     t_writes = [], t_given = []\<rparr>"

abbreviation t_happens :: "tevent \<Rightarrow> tstate \<Rightarrow> tstate" where
  "t_happens e s \<equiv> s\<lparr>t_events := t_events s @ [e]\<rparr>"

definition foreign :: "t_call list \<Rightarrow> tevent \<Rightarrow> tstate \<Rightarrow> tstate" where
  \<comment> \<open>call foreign code, which makes these calls before it returns\<close>
  "foreign cs e s = (t_happens e s)\<lparr>t_todos := map DoCall cs @ t_todos s\<rparr>"

definition t_throw :: "string \<Rightarrow> tstate \<Rightarrow> tstate" where
  \<comment> \<open>an exception leaves all functions that are running\<close>
  "t_throw e s = (t_happens (TeThrow e) s)\<lparr>t_todos := []\<rparr>"

definition present :: "jsval \<Rightarrow> bool" where
  "present d \<longleftrightarrow> d \<noteq> JNull \<and> d \<noteq> JUndef"

section \<open>The methods\<close>

definition transform_read :: "t_call list \<Rightarrow> tstate \<Rightarrow> tstate" where
  "transform_read cs s =
     (case t_writechunk s of
        Some chunk \<Rightarrow>
          if t_writecb s \<noteq> None \<and> \<not> t_transforming s then
            (let s1 = s\<lparr>t_transforming := True\<rparr> in
             if t_hasTransform s1 then foreign cs (TeTransform chunk) s1
             else t_throw ''_transform() is not implemented'' s1)
          else s\<lparr>t_needTransform := True\<rparr>
      | None \<Rightarrow> s\<lparr>t_needTransform := True\<rparr>)"

definition transform_write :: "t_call list \<Rightarrow> bool \<Rightarrow> jsval \<Rightarrow> nat \<Rightarrow> tstate \<Rightarrow> tstate" where
  "transform_write cs wants chunk cb s =
     (let s1 = s\<lparr>t_writecb := Some cb, t_writechunk := (if chunk = JNull then None else Some chunk),
                 t_writes := t_writes s @ [(chunk, cb)]\<rparr>
      in if \<not> t_transforming s1 \<and> (t_needTransform s1 \<or> wants) then transform_read cs s1 else s1)"

definition afterTransform :: "string option \<Rightarrow> jsval \<Rightarrow> tstate \<Rightarrow> tstate" where
  "afterTransform er d s =
     (let s1 = s\<lparr>t_transforming := False\<rparr> in
      case t_writecb s1 of
        None \<Rightarrow> t_happens (TeError ''no writecb in Transform class'') s1
      | Some cb \<Rightarrow>
          s1\<lparr>t_writechunk := None, t_writecb := None,
             t_given := t_given s @ (if present d then [d] else []),
             t_todos := (if present d then [DoPush d] else []) @ [DoCb cb er, DoTail] @ t_todos s\<rparr>)"

definition after_cb :: "t_call list \<Rightarrow> bool \<Rightarrow> tstate \<Rightarrow> tstate" where
  \<comment> \<open>the end of \<^verbatim>\<open>afterTransform\<close>\<close>
  "after_cb cs wants s = (let s1 = s\<lparr>t_reading := False\<rparr> in if wants then transform_read cs s1 else s1)"

definition transform_push :: "t_call list \<Rightarrow> jsval \<Rightarrow> tstate \<Rightarrow> tstate" where
  "transform_push cs d s = foreign cs (TePush d) (s\<lparr>t_needTransform := False\<rparr>)"

definition transform_done :: "string option \<Rightarrow> jsval \<Rightarrow> tstate \<Rightarrow> tstate" where
  "transform_done er d s =
     (case er of
        Some e \<Rightarrow> t_happens (TeError e) s
      | None \<Rightarrow> s\<lparr>t_given := t_given s @ (if present d then [d] else []),
                t_todos := (if present d then [DoPush d] else []) @ [DoDone] @ t_todos s\<rparr>)"

definition done_rest :: "t_call list \<Rightarrow> bool \<Rightarrow> tstate \<Rightarrow> tstate" where
  \<comment> \<open>the end of \<^verbatim>\<open>done\<close>\<close>
  "done_rest cs holds s =
     (if holds then t_throw ''Calling transform done when ws.length != 0'' s
      else if t_transforming s then t_throw ''Calling transform done when still transforming'' s
      else transform_push cs JNull s)"

definition on_prefinish :: "t_call list \<Rightarrow> tstate \<Rightarrow> tstate" where
  "on_prefinish cs s =
     (if \<not> t_prefinish s then s
      else
        let s1 = s\<lparr>t_prefinish := False\<rparr> in
        if t_hasFlush s1 then foreign cs TeFlush s1 else transform_done None JUndef s1)"

fun do_call :: "t_call list \<Rightarrow> bool \<Rightarrow> t_call \<Rightarrow> tstate \<Rightarrow> tstate" where
  "do_call cs wants (CWrite c cb) s = transform_write cs wants c cb s"
| "do_call cs wants CRead s = transform_read cs s"
| "do_call cs wants (CDone er d) s = afterTransform er d s"
| "do_call cs wants (CPush d) s = transform_push cs d (s\<lparr>t_given := t_given s @ (if present d then [d] else [])\<rparr>)"
| "do_call cs wants CPrefinish s = on_prefinish cs s"
| "do_call cs wants (CFlushed er d) s = transform_done er d s"

fun t_perform :: "t_call list \<Rightarrow> bool \<Rightarrow> t_todo \<Rightarrow> tstate \<Rightarrow> tstate" where
  "t_perform cs wants (DoCall c) s = do_call cs wants c s"
| "t_perform cs wants (DoPush d) s = transform_push cs d s"
| "t_perform cs wants (DoCb cb er) s = foreign cs (TeCalled cb er) s"
| "t_perform cs wants DoTail s = after_cb cs wants s"
| "t_perform cs wants DoDone s = done_rest cs wants s"

section \<open>Runs\<close>

text \<open>
  The contract of the callers: the writing half hands over a chunk, not \<^verbatim>\<open>null\<close>, when the last one was acknowledged, and
  the transformation calls its callback while it is transforming.
\<close>

definition t_due :: "t_todo list \<Rightarrow> nat list" where
  "t_due ts = concat (map (\<lambda>t. case t of DoCb cb _ \<Rightarrow> [cb] | _ \<Rightarrow> []) ts)"

fun t_allowed :: "tstate \<Rightarrow> t_todo \<Rightarrow> bool" where
  "t_allowed s (DoCall (CWrite c cb)) = (c \<noteq> JNull \<and> t_writecb s = None \<and> t_due (t_todos s) = [])"
| "t_allowed s (DoCall (CDone er d)) = t_transforming s"
| "t_allowed s _ = True"

inductive t_reach :: "tstate \<Rightarrow> bool" where
  start: "t_reach (new_Transform tr fl)"
| call: "t_reach s \<Longrightarrow> t_todos s = [] \<Longrightarrow> t_reach (s\<lparr>t_todos := [DoCall c]\<rparr>)"
| step: "t_reach s \<Longrightarrow> t_todos s = d # rest \<Longrightarrow> t_allowed (s\<lparr>t_todos := rest\<rparr>) d \<Longrightarrow>
    t_reach (t_perform cs wants d (s\<lparr>t_todos := rest\<rparr>))"

section \<open>Order\<close>

definition transformed :: "tevent list \<Rightarrow> jsval list" where
  "transformed es = concat (map (\<lambda>e. case e of TeTransform c \<Rightarrow> [c] | _ \<Rightarrow> []) es)"

definition acked :: "tevent list \<Rightarrow> nat list" where
  "acked es = concat (map (\<lambda>e. case e of TeCalled cb _ \<Rightarrow> [cb] | _ \<Rightarrow> []) es)"

definition t_pushed :: "tevent list \<Rightarrow> jsval list" where
  "t_pushed es = concat (map (\<lambda>e. case e of TePush d \<Rightarrow> if present d then [d] else [] | _ \<Rightarrow> []) es)"

definition thrown :: "tevent list \<Rightarrow> bool" where
  "thrown es \<longleftrightarrow> (\<exists>e. TeThrow e \<in> set es)"

definition to_push :: "t_todo list \<Rightarrow> jsval list" where
  "to_push ts = concat (map (\<lambda>t. case t of DoPush d \<Rightarrow> [d] | _ \<Rightarrow> []) ts)"

definition t_inv :: "tstate \<Rightarrow> bool" where
  "t_inv s \<longleftrightarrow> to_push (tl (t_todos s)) = [] \<and> list_all present (to_push (t_todos s)) \<and> (thrown (t_events s) \<or>
     map snd (t_writes s) = acked (t_events s) @ t_due (t_todos s) @ (case t_writecb s of Some cb \<Rightarrow> [cb] | None \<Rightarrow> [])
      \<and> (t_due (t_todos s) = [] \<or> t_writecb s = None) \<and> length (t_due (t_todos s)) \<le> 1
      \<and> map fst (t_writes s) = transformed (t_events s) @
          (if t_transforming s then [] else case t_writechunk s of Some c \<Rightarrow> [c] | None \<Rightarrow> [])
      \<and> (t_transforming s \<longrightarrow> t_writecb s \<noteq> None) \<and> (t_writecb s = None \<longleftrightarrow> t_writechunk s = None)
      \<and> t_given s = t_pushed (t_events s) @ to_push (t_todos s))"

lemma log_append [simp]:
  "transformed (es @ fs) = transformed es @ transformed fs" "acked (es @ fs) = acked es @ acked fs"
  "t_pushed (es @ fs) = t_pushed es @ t_pushed fs" "thrown (es @ fs) \<longleftrightarrow> thrown es \<or> thrown fs"
  "t_due (ts @ us) = t_due ts @ t_due us" "to_push (ts @ us) = to_push ts @ to_push us"
  by (auto simp: transformed_def acked_def t_pushed_def thrown_def t_due_def to_push_def)

lemma log_simps [simp]:
  "transformed [] = []" "acked [] = []" "t_pushed [] = []" "\<not> thrown []" "t_due [] = []" "to_push [] = []"
  "transformed (e # es) = (case e of TeTransform c \<Rightarrow> c # transformed es | _ \<Rightarrow> transformed es)"
  "acked (e # es) = (case e of TeCalled cb _ \<Rightarrow> cb # acked es | _ \<Rightarrow> acked es)"
  "t_pushed (e # es) = (case e of TePush d \<Rightarrow> if present d then d # t_pushed es else t_pushed es | _ \<Rightarrow> t_pushed es)"
  "thrown (e # es) \<longleftrightarrow> (case e of TeThrow _ \<Rightarrow> True | _ \<Rightarrow> thrown es)"
  "t_due (t # ts) = (case t of DoCb cb _ \<Rightarrow> cb # t_due ts | _ \<Rightarrow> t_due ts)"
  "to_push (t # ts) = (case t of DoPush d \<Rightarrow> d # to_push ts | _ \<Rightarrow> to_push ts)"
  by (auto simp: transformed_def acked_def t_pushed_def thrown_def t_due_def to_push_def
      split: tevent.split t_todo.split)

lemma log_calls [simp]: "t_due (map DoCall cs) = []" "to_push (map DoCall cs) = []"
  by (induction cs) simp_all

lemma tail_pushes: "to_push ts = [] \<Longrightarrow> to_push (tl (map DoCall cs @ ts)) = []"
  by (cases cs; cases ts) (auto split: t_todo.splits)

lemma tail_todos: "to_push ts = [] \<Longrightarrow> to_push (tl ts) = []"
  by (cases ts) (auto split: t_todo.splits)

text \<open>What holds while one entry of the stack runs: the others hold no push.\<close>

definition t_mid :: "tstate \<Rightarrow> bool" where
  "t_mid s \<longleftrightarrow> t_inv s \<and> to_push (t_todos s) = []"

lemma foreign_inv:
  assumes "t_mid s" "case e of TeTransform _ \<Rightarrow> False | TePush _ \<Rightarrow> False | TeCalled _ _ \<Rightarrow> False | _ \<Rightarrow> True"
  shows "t_inv (foreign cs e s)"
  using assms tail_pushes [of "t_todos s" cs]
  by (cases e) (auto simp: t_mid_def t_inv_def foreign_def)

lemma throw_inv: "t_inv (t_throw e s)"
  by (simp add: t_inv_def t_throw_def)

lemma mid_inv: "t_mid s \<Longrightarrow> t_inv s"
  by (simp add: t_mid_def)

lemma transform_read_inv: "t_mid s \<Longrightarrow> t_inv (transform_read cs s)"
  using tail_pushes [of "t_todos s" cs]
  by (auto simp: transform_read_def t_mid_def t_inv_def foreign_def t_throw_def Let_def
      split: option.splits if_splits)

lemma transform_write_inv:
  assumes "t_mid s" "chunk \<noteq> JNull" "t_writecb s = None" "t_due (t_todos s) = []"
  shows "t_inv (transform_write cs wants chunk cb s)"
proof -
  have m: "t_mid (s\<lparr>t_writecb := Some cb, t_writechunk := Some chunk, t_writes := t_writes s @ [(chunk, cb)]\<rparr>)"
    using assms by (auto simp: t_mid_def t_inv_def split: list.splits)
  from transform_read_inv [OF m, of cs] mid_inv [OF m] show ?thesis
    using assms(2) by (simp add: transform_write_def Let_def)
qed

lemma transform_push_inv:
  assumes "t_mid s"
  shows "t_inv (transform_push cs d (s\<lparr>t_given := t_given s @ (if present d then [d] else [])\<rparr>))"
  using assms tail_pushes [of "t_todos s" cs]
  by (auto simp: transform_push_def foreign_def t_mid_def t_inv_def)

lemma afterTransform_inv: "t_mid s \<Longrightarrow> t_transforming s \<Longrightarrow> t_inv (afterTransform er d s)"
  by (auto simp: afterTransform_def t_mid_def t_inv_def Let_def split: option.splits)

lemma transform_done_inv: "t_mid s \<Longrightarrow> t_inv (transform_done er d s)"
  by (auto simp: transform_done_def t_mid_def t_inv_def split: option.splits list.splits)

lemma not_present: "\<not> present JNull" "\<not> present JUndef"
  by (simp_all add: present_def)

lemma done_rest_inv: "t_mid s \<Longrightarrow> t_inv (done_rest cs holds s)"
  using transform_push_inv [of s cs JNull] by (simp add: done_rest_def throw_inv not_present)

lemma mid_irrelevant [simp]:
  "t_mid (s\<lparr>t_reading := r\<rparr>) = t_mid s" "t_mid (s\<lparr>t_prefinish := r\<rparr>) = t_mid s"
  by (simp_all add: t_mid_def t_inv_def)

lemma do_call_inv:
  assumes "t_mid s" "t_allowed s (DoCall c)"
  shows "t_inv (do_call cs wants c s)"
proof (cases c)
  case (CPush d)
  then show ?thesis using transform_push_inv [OF assms(1), of cs d] by simp
next
  case CPrefinish
  then show ?thesis using assms(1)
    by (auto simp: on_prefinish_def Let_def mid_inv intro: transform_done_inv foreign_inv)
qed (use assms in \<open>simp_all add: transform_write_inv transform_read_inv afterTransform_inv transform_done_inv\<close>)

lemma popped_mid: "t_inv s \<Longrightarrow> t_todos s = d # rest \<Longrightarrow> (\<And>x. d \<noteq> DoPush x) \<Longrightarrow> (\<And>cb er. d \<noteq> DoCb cb er) \<Longrightarrow>
    t_mid (s\<lparr>t_todos := rest\<rparr>)"
  by (cases d) (auto simp: t_mid_def t_inv_def tail_todos)

lemma t_step_inv:
  assumes "t_inv s" "t_todos s = d # rest" "t_allowed (s\<lparr>t_todos := rest\<rparr>) d"
  shows "t_inv (t_perform cs wants d (s\<lparr>t_todos := rest\<rparr>))"
proof (cases d)
  case (DoCall c)
  have "t_mid (s\<lparr>t_todos := rest\<rparr>)" using popped_mid [OF assms(1,2)] \<open>d = _\<close> by simp
  with DoCall assms(3) show ?thesis by (simp add: do_call_inv)
next
  case (DoPush x)
  with assms(1,2) tail_pushes [of rest cs] show ?thesis
    by (auto simp: transform_push_def foreign_def t_inv_def)
next
  case (DoCb cb er)
  with assms(1,2) tail_pushes [of rest cs] show ?thesis
    by (auto simp: foreign_def t_inv_def)
next
  case DoTail
  have "t_mid (s\<lparr>t_todos := rest\<rparr>)" using popped_mid [OF assms(1,2)] \<open>d = _\<close> by simp
  with DoTail show ?thesis by (simp add: after_cb_def Let_def transform_read_inv mid_inv)
next
  case DoDone
  have "t_mid (s\<lparr>t_todos := rest\<rparr>)" using popped_mid [OF assms(1,2)] \<open>d = _\<close> by simp
  with DoDone show ?thesis by (simp add: done_rest_inv)
qed

lemma t_reach_inv: "t_reach s \<Longrightarrow> t_inv s"
proof (induction rule: t_reach.induct)
  case (start tr fl)
  then show ?case by (simp add: t_inv_def new_Transform_def)
next
  case (call s c)
  then show ?case by (auto simp: t_inv_def)
next
  case (step s d rest cs wants)
  then show ?case by (simp add: t_step_inv)
qed

section \<open>What arrives\<close>

text \<open>
  Unless a function threw: chunks are transformed in the order they were written, each once, all but the last at
  any moment; each callback is called once, in the same order; and what the transformation gave is pushed
  in the order it was given, at the latest when the stack is empty.
\<close>

lemma transform_in_order:
  assumes "t_reach s" "\<not> thrown (t_events s)"
  shows "\<exists>cs. map fst (t_writes s) = transformed (t_events s) @ cs \<and> length cs \<le> 1"
    "\<exists>cbs. map snd (t_writes s) = acked (t_events s) @ cbs \<and> length cbs \<le> 1"
    "t_given s = t_pushed (t_events s) @ to_push (t_todos s)"
  using t_reach_inv [OF assms(1)] assms(2) by (auto simp: t_inv_def split: option.splits if_splits)

lemma waiting_chunk:
  \<comment> \<open>a chunk that waits is transformed when the reading half asks\<close>
  assumes "t_reach s" "\<not> thrown (t_events s)" "t_writecb s = Some cb" "\<not> t_transforming s" "t_hasTransform s"
  shows "\<exists>c. t_writechunk s = Some c \<and> transformed (t_events (transform_read cs s)) = map fst (t_writes s)
    \<and> t_transforming (transform_read cs s)"
  using t_reach_inv [OF assms(1)] assms(2-5)
  by (auto simp: t_inv_def transform_read_def foreign_def Let_def)

text \<open>\<^verbatim>\<open>PassThrough\<close>: the transformation gives the chunk back, at once or later.\<close>

fun pass_allowed :: "tstate \<Rightarrow> t_todo \<Rightarrow> bool" where
  "pass_allowed s (DoCall (CDone er d)) = (er = None \<and> t_writechunk s = Some d)"
| "pass_allowed s (DoCall (CPush d)) = False"
| "pass_allowed s (DoCall (CFlushed er d)) = False"
| "pass_allowed s _ = True"

inductive pass_reach :: "tstate \<Rightarrow> bool" where
  start: "pass_reach (new_Transform True False)"
| call: "pass_reach s \<Longrightarrow> t_todos s = [] \<Longrightarrow> pass_reach (s\<lparr>t_todos := [DoCall c]\<rparr>)"
| step: "pass_reach s \<Longrightarrow> t_todos s = d # rest \<Longrightarrow> t_allowed (s\<lparr>t_todos := rest\<rparr>) d \<Longrightarrow>
    pass_allowed (s\<lparr>t_todos := rest\<rparr>) d \<Longrightarrow> pass_reach (t_perform cs wants d (s\<lparr>t_todos := rest\<rparr>))"

definition passed :: "tstate \<Rightarrow> bool" where
  "passed s \<longleftrightarrow> t_given s @ filter present (case t_writechunk s of Some c \<Rightarrow> [c] | None \<Rightarrow> []) =
     filter present (map fst (t_writes s))"

lemma pass_reach_t_reach: "pass_reach s \<Longrightarrow> t_reach s"
  by (induction rule: pass_reach.induct) (auto intro: t_reach.intros)

lemma passed_irrelevant [simp]:
  "passed (transform_read cs s) = passed s" "passed (foreign cs e s) = passed s" "passed (t_throw x s) = passed s"
  "passed (s\<lparr>t_todos := ts\<rparr>) = passed s" "passed (s\<lparr>t_needTransform := b\<rparr>) = passed s"
  "passed (s\<lparr>t_reading := b\<rparr>) = passed s" "passed (s\<lparr>t_prefinish := b\<rparr>) = passed s"
  "thrown (t_events (foreign cs e s)) \<longleftrightarrow> thrown (t_events s) \<or> (case e of TeThrow _ \<Rightarrow> True | _ \<Rightarrow> False)"
  by (auto simp: passed_def transform_read_def foreign_def t_throw_def Let_def split: option.split tevent.split)

lemma thrown_stays:
  "thrown (t_events s) \<Longrightarrow> thrown (t_events (t_perform cs wants d s))"
proof (cases d)
  case (DoCall c)
  moreover assume "thrown (t_events s)"
  ultimately show ?thesis
    by (cases c) (auto simp: transform_write_def transform_read_def afterTransform_def transform_push_def on_prefinish_def
        transform_done_def foreign_def t_throw_def Let_def split: option.split tevent.split)
qed (auto simp: transform_push_def after_cb_def done_rest_def transform_read_def foreign_def t_throw_def Let_def
    split: option.split tevent.split)

lemma pass_step:
  assumes "passed s" "t_allowed s d" "pass_allowed s d" "t_writecb s = None \<longleftrightarrow> t_writechunk s = None"
    "t_transforming s \<longrightarrow> t_writecb s \<noteq> None"
  shows "passed (t_perform cs wants d s)"
proof (cases d)
  case (DoCall c)
  then show ?thesis
  proof (cases c)
    case (CWrite x cb)
    then have "passed (s\<lparr>t_writecb := Some cb, t_writechunk := Some x, t_writes := t_writes s @ [(x, cb)]\<rparr>)"
      using DoCall assms by (auto simp: passed_def)
    then show ?thesis using DoCall CWrite assms by (simp add: transform_write_def Let_def)
  next
    case (CDone er x)
    then show ?thesis using DoCall assms by (auto simp: afterTransform_def Let_def passed_def)
  next
    case CPrefinish
    then show ?thesis using DoCall assms
      by (auto simp: on_prefinish_def Let_def transform_done_def not_present)
  qed (use DoCall assms in simp_all)
qed (use assms in \<open>auto simp: transform_push_def after_cb_def done_rest_def Let_def\<close>)

lemma pass_reach_passed: "pass_reach s \<Longrightarrow> thrown (t_events s) \<or> passed s"
proof (induction rule: pass_reach.induct)
  case start
  then show ?case by (simp add: passed_def new_Transform_def)
next
  case (call s c)
  then show ?case by simp
next
  case (step s d rest cs wants)
  show ?case
  proof (cases "thrown (t_events s)")
    case True
    then show ?thesis using thrown_stays [of "s\<lparr>t_todos := rest\<rparr>" cs wants d] by simp
  next
    case False
    with t_reach_inv [OF pass_reach_t_reach [OF step.hyps(1)]]
    have "t_writecb s = None \<longleftrightarrow> t_writechunk s = None" "t_transforming s \<longrightarrow> t_writecb s \<noteq> None"
      by (auto simp: t_inv_def)
    with step False show ?thesis by (intro disjI2 pass_step) simp_all
  qed
qed

lemma pass_through_copies:
  assumes "pass_reach s" "\<not> thrown (t_events s)" "t_todos s = []"
  shows "t_pushed (t_events s) @ filter present (case t_writechunk s of Some c \<Rightarrow> [c] | None \<Rightarrow> []) =
    filter present (map fst (t_writes s))"
  using pass_reach_passed [OF assms(1)] transform_in_order(3) [OF pass_reach_t_reach [OF assms(1)] assms(2)] assms(2,3)
  by (simp add: passed_def)

end
