(* ===== verification/Chunk_List.thy ===== *)
theory Chunk_List
  imports Js_Text
begin

text \<open>
  The linked list that holds the chunks of a \<^verbatim>\<open>Readable\<close> (\<^verbatim>\<open>BufferList\<close> of \<^verbatim>\<open>readable-stream\<close>), with its entries in
  a store: an entry is a place that holds the data and the place of the next entry, and \<^verbatim>\<open>push\<close> changes the
  entry that \<^verbatim>\<open>tail\<close> names. The list of the chunks in their order is the specification; the locale
  \<open>chunk_queue\<close> holds the laws, and the streams' models use lists.
\<close>

section \<open>Entries\<close>

record 'a entry =
  e_data :: 'a
  e_next :: "nat option"

record 'a chunk_list =
  head :: "nat option"
  tail :: "nat option"
  cl_length :: nat
  store :: "nat \<Rightarrow> 'a entry option"
  unused :: nat                      \<comment> \<open>the place the next entry gets\<close>

definition new_list :: "'a chunk_list" where
  "new_list = \<lparr>head = None, tail = None, cl_length = 0, store = (\<lambda>_. None), unused = 0\<rparr>"

definition new_entry :: "'a \<Rightarrow> nat option \<Rightarrow> 'a chunk_list \<Rightarrow> 'a chunk_list" where
  "new_entry v n b = b\<lparr>store := (store b)(unused b \<mapsto> \<lparr>e_data = v, e_next = n\<rparr>), unused := unused b + 1\<rparr>"

definition entry_at :: "'a chunk_list \<Rightarrow> nat option \<Rightarrow> 'a entry result" where
  "entry_at b p = (case p of
       None \<Rightarrow> Inl (TypeError ''null has no properties'')
     | Some a \<Rightarrow> (case store b a of Some e \<Rightarrow> Inr e | None \<Rightarrow> Inl (TypeError ''undefined has no properties'')))"

section \<open>Operations\<close>

definition cl_push :: "'a \<Rightarrow> 'a chunk_list \<Rightarrow> 'a chunk_list result" where
  "cl_push v b =
     (let entry = Some (unused b); b1 = new_entry v None b in
      rbind (if cl_length b1 > 0 then
               rbind (entry_at b1 (tail b1)) (\<lambda>e.
                 Inr (b1\<lparr>store := (store b1)(the (tail b1) \<mapsto> e\<lparr>e_next := entry\<rparr>)\<rparr>))
             else Inr (b1\<lparr>head := entry\<rparr>))
        (\<lambda>b2. Inr (b2\<lparr>tail := entry, cl_length := cl_length b2 + 1\<rparr>)))"

definition cl_unshift :: "'a \<Rightarrow> 'a chunk_list \<Rightarrow> 'a chunk_list" where
  "cl_unshift v b =
     (let entry = Some (unused b); b1 = new_entry v (head b) b;
          b2 = (if cl_length b1 = 0 then b1\<lparr>tail := entry\<rparr> else b1)
      in b2\<lparr>head := entry, cl_length := cl_length b2 + 1\<rparr>)"

definition cl_shift :: "'a chunk_list \<Rightarrow> ('a option \<times> 'a chunk_list) result" where
  "cl_shift b =
     (if cl_length b = 0 then Inr (None, b)
      else
        rbind (entry_at b (head b)) (\<lambda>e.
          let b1 = (if cl_length b = 1 then b\<lparr>head := None, tail := None\<rparr> else b\<lparr>head := e_next e\<rparr>)
          in Inr (Some (e_data e), b1\<lparr>cl_length := cl_length b1 - 1\<rparr>)))"

definition cl_clear :: "'a chunk_list \<Rightarrow> 'a chunk_list" where
  "cl_clear b = b\<lparr>head := None, tail := None, cl_length := 0\<rparr>"

text \<open>The loops of \<^verbatim>\<open>join\<close> and \<^verbatim>\<open>concat\<close> follow the entries; on a list with a cycle they would not end.\<close>

partial_function (option) join_rest :: "jsstr chunk_list \<Rightarrow> jsstr \<Rightarrow> nat option \<Rightarrow> jsstr \<Rightarrow> jsstr option" where
  "join_rest b s p ret =
     (case entry_at b p of
        Inl _ \<Rightarrow> Some ret
      | Inr e \<Rightarrow> join_rest b s (e_next e) (ret @ s @ e_data e))"

definition cl_join :: "jsstr \<Rightarrow> jsstr chunk_list \<Rightarrow> jsstr result option" where
  "cl_join s b =
     (if cl_length b = 0 then Some (Inr [])
      else case entry_at b (head b) of
        Inl e \<Rightarrow> Some (Inl e)
      | Inr e \<Rightarrow> map_option Inr (join_rest b s (e_next e) (e_data e)))"

partial_function (option) concat_rest ::
  "buffer chunk_list \<Rightarrow> nat option \<Rightarrow> int \<Rightarrow> buffer \<Rightarrow> buffer result option" where
  "concat_rest b p i ret =
     (case entry_at b p of
        Inl _ \<Rightarrow> Some (Inr ret)
      | Inr e \<Rightarrow>
          (case Buffer_copy (e_data e) ret i 0 None of
             Inl x \<Rightarrow> Some (Inl x)
           | Inr (ret', _) \<Rightarrow> concat_rest b (e_next e) (i + int (length (e_data e))) ret'))"

definition cl_concat :: "int \<Rightarrow> buffer chunk_list \<Rightarrow> buffer result option" where
  "cl_concat n b =
     (if cl_length b = 0 then Some (createBuffer 0)
      else if cl_length b = 1 then Some (rbind (entry_at b (head b)) (\<lambda>e. Inr (e_data e)))
      else case allocUnsafe (JNum (to_uint32 n)) of
        Inl e \<Rightarrow> Some (Inl e)
      | Inr ret \<Rightarrow> concat_rest b (head b) 0 ret)"

section \<open>Representation\<close>


fun chain :: "(nat \<Rightarrow> 'a entry option) \<Rightarrow> nat option \<Rightarrow> nat list \<Rightarrow> 'a list \<Rightarrow> bool" where
  \<comment> \<open>from a place on, the entries at these places hold these data, and the last one ends the list\<close>
  "chain st p [] xs \<longleftrightarrow> p = None \<and> xs = []"
| "chain st p (a # as) xs \<longleftrightarrow> p = Some a \<and>
     (\<exists>e ys. st a = Some e \<and> xs = e_data e # ys \<and> chain st (e_next e) as ys)"

definition holds_at :: "'a chunk_list \<Rightarrow> nat list \<Rightarrow> 'a list \<Rightarrow> bool" where
  "holds_at b as xs \<longleftrightarrow> chain (store b) (head b) as xs \<and> distinct as \<and> (\<forall>a \<in> set as. a < unused b)
     \<and> cl_length b = length as \<and> tail b = (if as = [] then None else Some (last as))"

definition holds :: "'a chunk_list \<Rightarrow> 'a list \<Rightarrow> bool" where
  "holds b xs \<longleftrightarrow> (\<exists>as. holds_at b as xs)"

lemma chain_length: "chain st p as xs \<Longrightarrow> length xs = length as"
  by (induction as arbitrary: p xs) auto

lemma chain_other: "a \<notin> set as \<Longrightarrow> chain (st(a := e)) p as xs = chain st p as xs"
  by (induction as arbitrary: p xs) auto

lemma chain_snoc:
  assumes "chain st p as xs" "as \<noteq> []" "distinct as" "n \<notin> set as"
  shows "\<exists>e. st (last as) = Some e \<and>
    chain (st(n \<mapsto> \<lparr>e_data = v, e_next = None\<rparr>, last as \<mapsto> e\<lparr>e_next := Some n\<rparr>)) p (as @ [n]) (xs @ [v])"
  using assms
proof (induction as arbitrary: p xs)
  case Nil
  then show ?case by simp
next
  case (Cons a as)
  then obtain e ys where e: "p = Some a" "st a = Some e" "xs = e_data e # ys" "chain st (e_next e) as ys" by auto
  show ?case
  proof (cases "as = []")
    case True
    then show ?thesis using Cons.prems e by auto
  next
    case False
    have "distinct as" "n \<notin> set as" using Cons.prems by auto
    from Cons.IH [OF e(4) False this] obtain e' where e': "st (last as) = Some e'"
      "chain (st(n \<mapsto> \<lparr>e_data = v, e_next = None\<rparr>, last as \<mapsto> e'\<lparr>e_next := Some n\<rparr>)) (e_next e) (as @ [n]) (ys @ [v])"
      by blast
    moreover have "last as \<noteq> a" "n \<noteq> a" using Cons.prems False by auto
    then have "(st(n \<mapsto> \<lparr>e_data = v, e_next = None\<rparr>, last as \<mapsto> e'\<lparr>e_next := Some n\<rparr>)) a = Some e"
      using e(2) by simp
    ultimately show ?thesis using e False by (simp del: fun_upd_apply)
  qed
qed

lemma holds_new: "holds new_list []"
  by (auto simp: holds_def holds_at_def new_list_def)

lemma holds_length: "holds b xs \<Longrightarrow> cl_length b = length xs"
  by (auto simp: holds_def holds_at_def dest: chain_length)

lemma holds_push:
  assumes "holds b xs"
  shows "\<exists>b'. cl_push v b = Inr b' \<and> holds b' (xs @ [v])"
proof -
  obtain as where as: "holds_at b as xs" using assms by (auto simp: holds_def)
  define n where "n = unused b"
  have n: "n \<notin> set as" using as by (auto simp: holds_at_def n_def)
  show ?thesis
  proof (cases "as = []")
    case True
    with as have b: "cl_length b = 0" "xs = []" by (simp_all add: holds_at_def)
    define b' where "b' = (new_entry v None b)\<lparr>head := Some n, tail := Some n, cl_length := 1\<rparr>"
    have "holds_at b' [n] (xs @ [v])" by (simp add: holds_at_def new_entry_def n_def b'_def b)
    moreover have "cl_push v b = Inr b'"
      by (simp add: cl_push_def Let_def new_entry_def n_def b'_def b)
    ultimately show ?thesis by (auto simp: holds_def)
  next
    case False
    with as n have "chain (store b) (head b) as xs" "distinct as" by (auto simp: holds_at_def)
    from chain_snoc [OF this(1) False this(2) n, of v] obtain e where e: "store b (last as) = Some e"
      "chain ((store b)(n \<mapsto> \<lparr>e_data = v, e_next = None\<rparr>, last as \<mapsto> e\<lparr>e_next := Some n\<rparr>)) (head b) (as @ [n]) (xs @ [v])"
      by blast
    have l: "last as \<noteq> n" "tail b = Some (last as)" "cl_length b > 0" using n False as by (auto simp: holds_at_def)
    define b' where "b' = (new_entry v None b)\<lparr>store := (store b)(n \<mapsto> \<lparr>e_data = v, e_next = None\<rparr>,
      last as \<mapsto> e\<lparr>e_next := Some n\<rparr>), tail := Some n, cl_length := cl_length b + 1\<rparr>"
    have "cl_push v b = Inr b'"
      using e l by (simp add: cl_push_def Let_def entry_at_def new_entry_def n_def b'_def)
    moreover have "holds_at b' (as @ [n]) (xs @ [v])"
      using as e n by (auto simp: holds_at_def b'_def new_entry_def n_def less_SucI)
    ultimately show ?thesis by (auto simp: holds_def)
  qed
qed

lemma holds_unshift:
  assumes "holds b xs"
  shows "holds (cl_unshift v b) (v # xs)"
proof -
  obtain as where as: "holds_at b as xs" using assms by (auto simp: holds_def)
  then have "unused b \<notin> set as" by (auto simp: holds_at_def)
  with as have "holds_at (cl_unshift v b) (unused b # as) (v # xs)"
    by (auto simp: holds_at_def cl_unshift_def new_entry_def Let_def chain_other less_SucI)
  then show ?thesis by (auto simp: holds_def)
qed

lemma holds_shift:
  assumes "holds b xs"
  shows "\<exists>b'. cl_shift b = Inr (case xs of [] \<Rightarrow> None | x # _ \<Rightarrow> Some x, b') \<and> holds b' (tl xs)"
proof -
  obtain as where as: "holds_at b as xs" using assms by (auto simp: holds_def)
  show ?thesis
  proof (cases as)
    case Nil
    then show ?thesis using as assms by (auto simp: holds_at_def cl_shift_def)
  next
    case (Cons a as')
    with as obtain e ys where e: "head b = Some a" "store b a = Some e" "xs = e_data e # ys"
      "chain (store b) (e_next e) as' ys" by (auto simp: holds_at_def)
    define b' where "b' = (if cl_length b = 1 then b\<lparr>head := None, tail := None, cl_length := 0\<rparr>
      else b\<lparr>head := e_next e, cl_length := cl_length b - 1\<rparr>)"
    have "cl_shift b = Inr (Some (e_data e), b')"
      using as Cons e by (auto simp: cl_shift_def Let_def entry_at_def b'_def holds_at_def)
    moreover have "holds_at b' as' ys"
      using as Cons e by (cases as') (auto simp: holds_at_def b'_def)
    ultimately show ?thesis using e by (auto simp: holds_def)
  qed
qed

lemma holds_clear: "holds (cl_clear b) []"
  by (auto simp: holds_def holds_at_def cl_clear_def)

section \<open>Join and concat\<close>

lemma chain_entry:
  "chain (store b) p (a # as) xs \<Longrightarrow>
     \<exists>e ys. entry_at b p = Inr e \<and> xs = e_data e # ys \<and> chain (store b) (e_next e) as ys"
  by (auto simp: entry_at_def)

lemma join_rest_chain: "chain (store b) p as xs \<Longrightarrow> join_rest b s p ret = Some (ret @ concat (map (\<lambda>x. s @ x) xs))"
proof (induction as arbitrary: p xs ret)
  case Nil
  then show ?case by (subst join_rest.simps) (simp add: entry_at_def)
next
  case (Cons a as)
  from chain_entry [OF Cons.prems] obtain e ys where
    "entry_at b p = Inr e" "xs = e_data e # ys" "chain (store b) (e_next e) as ys" by blast
  then show ?case using Cons.IH by (subst join_rest.simps) simp
qed

lemma cl_join_eq:
  "holds b xs \<Longrightarrow> cl_join s b =
     Some (Inr (case xs of [] \<Rightarrow> [] | x # ys \<Rightarrow> x @ concat (map (\<lambda>y. s @ y) ys)))"
proof -
  assume "holds b xs"
  then obtain as where as: "holds_at b as xs" by (auto simp: holds_def)
  show ?thesis
  proof (cases as)
    case Nil
    then show ?thesis using as by (simp add: holds_at_def cl_join_def)
  next
    case (Cons a as')
    with as have "chain (store b) (head b) (a # as') xs" by (simp add: holds_at_def)
    from chain_entry [OF this] obtain e ys where
      "entry_at b (head b) = Inr e" "xs = e_data e # ys" "chain (store b) (e_next e) as' ys" by blast
    then show ?thesis using as Cons by (simp add: cl_join_def holds_at_def join_rest_chain)
  qed
qed

lemma concat_rest_chain:
  "chain (store b) p as xs \<Longrightarrow> length ret = n + length (concat xs) \<Longrightarrow>
     concat_rest b p (int n) ret = Some (Inr (take n ret @ concat xs))"
proof (induction as arbitrary: p xs ret n)
  case Nil
  then show ?case by (subst concat_rest.simps) (simp add: entry_at_def)
next
  case (Cons a as)
  from chain_entry [OF Cons.prems(1)] obtain e ys where
    e: "entry_at b p = Inr e" "xs = e_data e # ys" "chain (store b) (e_next e) as ys" by blast
  let ?ret = "take n ret @ e_data e @ drop (n + length (e_data e)) ret"
  have "Buffer_copy (e_data e) ret (int n) 0 None = Inr (?ret, int (length (e_data e)))"
    using Cons.prems(2) e(2) by (intro Buffer_copy_all) simp
  moreover have "concat_rest b (e_next e) (int (n + length (e_data e))) ?ret =
      Some (Inr (take (n + length (e_data e)) ?ret @ concat ys))"
    using Cons.prems(2) e(2) by (intro Cons.IH [OF e(3)]) simp
  ultimately show ?case using Cons.prems(2) e by (subst concat_rest.simps) (simp add: min_def)
qed

lemma cl_concat_eq:
  assumes "holds b xs" "n = int (length (concat xs))" "n < K_MAX_LENGTH"
  shows "cl_concat n b = Some (Inr (concat xs))"
proof -
  obtain as where as: "holds_at b as xs" using assms(1) by (auto simp: holds_def)
  then have c: "chain (store b) (head b) as xs" "cl_length b = length xs" "length as = length xs"
    by (auto simp: holds_at_def dest: chain_length)
  consider "xs = []" | x where "xs = [x]" | "length xs > 1" by (cases xs; cases "tl xs") auto
  then show ?thesis
  proof cases
    case 1
    then show ?thesis using c by (simp add: cl_concat_def createBuffer_def K_MAX_LENGTH_def)
  next
    case 2
    with c obtain a where "as = [a]" by (cases as) auto
    with c 2 show ?thesis by (auto simp: cl_concat_def entry_at_def)
  next
    case 3
    have "to_uint32 n = n" using assms(2,3) by (intro to_uint32_id) (auto simp: K_MAX_LENGTH_def)
    moreover have "concat_rest b (head b) (int 0) (replicate (length (concat xs)) 0) = Some (Inr (concat xs))"
      using concat_rest_chain [OF c(1), of "replicate (length (concat xs)) 0" 0] by simp
    moreover have "allocUnsafe (JNum (int (length (concat xs)))) = Inr (replicate (length (concat xs)) 0)"
      using assms(2,3) by (intro allocUnsafe_nat) simp
    moreover have "xs \<noteq> []" using 3 by auto
    ultimately show ?thesis using 3 c assms(2) by (simp add: cl_concat_def)
  qed
qed

section \<open>The interface\<close>

fun push_each :: "('a \<Rightarrow> 'q \<Rightarrow> 'q result) \<Rightarrow> 'a list \<Rightarrow> 'q \<Rightarrow> 'q result" where
  "push_each push [] q = Inr q"
| "push_each push (x # xs) q = rbind (push x q) (push_each push xs)"

fun shift_each :: "('q \<Rightarrow> ('a option \<times> 'q) result) \<Rightarrow> nat \<Rightarrow> 'q \<Rightarrow> ('a list \<times> 'q) result" where
  "shift_each shift 0 q = Inr ([], q)"
| "shift_each shift (Suc n) q =
     rbind (shift q) (\<lambda>(x, q1). rbind (shift_each shift n q1) (\<lambda>(xs, q2). Inr (the x # xs, q2)))"

locale chunk_queue =
  fixes rep :: "'q \<Rightarrow> 'a list \<Rightarrow> bool"
    and push :: "'a \<Rightarrow> 'q \<Rightarrow> 'q result"
    and unshift :: "'a \<Rightarrow> 'q \<Rightarrow> 'q"
    and shift :: "'q \<Rightarrow> ('a option \<times> 'q) result"
  assumes push: "rep q xs \<Longrightarrow> \<exists>q'. push x q = Inr q' \<and> rep q' (xs @ [x])"
    and unshift: "rep q xs \<Longrightarrow> rep (unshift x q) (x # xs)"
    and shift: "rep q xs \<Longrightarrow> \<exists>q'. shift q = Inr (case xs of [] \<Rightarrow> None | x # _ \<Rightarrow> Some x, q') \<and> rep q' (tl xs)"
begin

lemma push_all: "rep q ws \<Longrightarrow> \<exists>q'. push_each push xs q = Inr q' \<and> rep q' (ws @ xs)"
proof (induction xs arbitrary: q ws)
  case Nil
  then show ?case by simp
next
  case (Cons x xs)
  from push [OF Cons.prems, of x] obtain q1 where q1: "push x q = Inr q1" "rep q1 (ws @ [x])" by blast
  from Cons.IH [OF q1(2)] q1(1) show ?case by simp
qed

lemma shift_all: "rep q xs \<Longrightarrow> n \<le> length xs \<Longrightarrow> \<exists>q'. shift_each shift n q = Inr (take n xs, q') \<and> rep q' (drop n xs)"
proof (induction n arbitrary: q xs)
  case 0
  then show ?case by simp
next
  case (Suc n)
  then obtain x ys where xs: "xs = x # ys" by (cases xs) auto
  from shift [OF Suc.prems(1)] xs obtain q1 where q1: "shift q = Inr (Some x, q1)" "rep q1 ys" by auto
  from Suc.IH [OF q1(2)] Suc.prems(2) xs q1(1) show ?case by auto
qed

lemma fifo:
  assumes "rep q []"
  shows "\<exists>q1 q2. push_each push xs q = Inr q1 \<and> shift_each shift (length xs) (unshift x q1) = Inr (take (length xs) (x # xs), q2)"
proof -
  obtain q1 where q1: "push_each push xs q = Inr q1" "rep q1 xs" using push_all [OF assms, of xs] by auto
  from shift_all [OF unshift [OF q1(2), of x], of "length xs"] q1(1) show ?thesis by auto
qed

end

interpretation cl: chunk_queue holds cl_push cl_unshift cl_shift
  by unfold_locales (auto intro: holds_push holds_unshift holds_shift)

lemma chunk_list_fifo:
  "\<exists>b b'. push_each cl_push xs new_list = Inr b \<and> shift_each cl_shift (length xs) b = Inr (xs, b') \<and> holds b' []"
proof -
  obtain b where b: "push_each cl_push xs new_list = Inr b" "holds b xs"
    using cl.push_all [OF holds_new, of xs] by auto
  from cl.shift_all [OF b(2), of "length xs"] b(1) show ?thesis by auto
qed

end
