(* ===== verification/End_Of_Stream.thy ===== *)
theory End_Of_Stream
  imports Js_Prelude
begin

text \<open>
  \<^verbatim>\<open>end-of-stream\<close>: one call of a callback when a stream has ended, finished, failed or closed too early. The watched
  stream is a parameter: its flags at the moment of each event come with the event. Listeners are kept with
  their event in the order of registration.
\<close>

section \<open>The watched stream\<close>

record watched =
  write_half :: "bool option"       \<comment> \<open>\<^verbatim>\<open>_writableState\<close>, with its \<^verbatim>\<open>ended\<close>\<close>
  read_half :: "bool option"       \<comment> \<open>\<^verbatim>\<open>_readableState\<close>, with its \<^verbatim>\<open>ended\<close>\<close>
  s_readable :: bool
  s_writable :: bool
  setHeader_abort :: bool
  stdio3 :: bool                  \<comment> \<open>\<^verbatim>\<open>stdio\<close> is an array of three\<close>
  s_req :: bool                   \<comment> \<open>\<^verbatim>\<open>stream.req\<close> is there\<close>

datatype eos_name = EComplete | EAbort | ERequest | EEnd | EFinish | EClose | EExit | EError | EReqFinish

datatype eos_handler = HLegacyFinish | HFinish | HEnd | HExit | HClose | HRequest | HCallback

record eos_opts =
  opt_readable :: "bool option"
  opt_writable :: "bool option"
  opt_error :: "bool option"

record eos_state =
  eos_readable :: bool
  eos_writable :: bool
  eos_had_ws :: bool              \<comment> \<open>\<^verbatim>\<open>ws\<close> and \<^verbatim>\<open>rs\<close> are read once, when the stream is handed over\<close>
  eos_had_rs :: bool
  eos_called :: bool              \<comment> \<open>the flag of \<^verbatim>\<open>once\<close>\<close>
  eos_listeners :: "(eos_name \<times> eos_handler) list"
  eos_calls :: "string option list"

definition isRequest :: "watched \<Rightarrow> bool" where
  "isRequest st = setHeader_abort st"

definition isChildProcess :: "watched \<Rightarrow> bool" where
  "isChildProcess st = stdio3 st"

definition wanted :: "bool option \<Rightarrow> bool \<Rightarrow> bool" where
  "wanted opt flag \<longleftrightarrow> opt = Some True \<or> opt \<noteq> Some False \<and> flag"

section \<open>Registration\<close>

abbreviation listen :: "eos_name \<Rightarrow> eos_handler \<Rightarrow> eos_state \<Rightarrow> eos_state" where
  "listen n h s \<equiv> s\<lparr>eos_listeners := eos_listeners s @ [(n, h)]\<rparr>"

definition onrequest :: "watched \<Rightarrow> eos_state \<Rightarrow> eos_state result" where
  "onrequest st s =
     (if s_req st then Inr (listen EReqFinish HFinish s) else Inl (TypeError ''Cannot read property on of undefined''))"

definition eos_listen :: "watched \<Rightarrow> eos_opts \<Rightarrow> eos_state result" where
  "eos_listen st opts =
     (let s0 = \<lparr>eos_readable = wanted (opt_readable opts) (s_readable st), eos_writable = wanted (opt_writable opts) (s_writable st),
            eos_had_ws = (write_half st \<noteq> None), eos_had_rs = (read_half st \<noteq> None), eos_called = False,
            eos_listeners = [], eos_calls = []\<rparr>
      in rbind (if isRequest st then
                  (let s1 = listen EAbort HClose (listen EComplete HFinish s0)
                   in if s_req st then onrequest st s1 else Inr (listen ERequest HRequest s1))
                else if eos_writable s0 \<and> \<not> eos_had_ws s0 then
                  Inr (listen EClose HLegacyFinish (listen EEnd HLegacyFinish s0))
                else Inr s0) (\<lambda>s1.
           let s2 = (if isChildProcess st then listen EExit HExit s1 else s1);
               s3 = listen EFinish HFinish (listen EEnd HEnd s2);
               s4 = (if opt_error opts \<noteq> Some False then listen EError HCallback s3 else s3)
           in Inr (listen EClose HClose s4)))"

definition eos_pairs :: "(eos_name \<times> eos_handler) set" where
  \<comment> \<open>the listeners that are taken away\<close>
  "eos_pairs = {(EComplete, HFinish), (EAbort, HClose), (ERequest, HRequest), (EReqFinish, HFinish),
     (EEnd, HLegacyFinish), (EClose, HLegacyFinish), (EFinish, HFinish), (EExit, HExit), (EEnd, HEnd),
     (EError, HCallback), (EClose, HClose)}"

definition eos_remove :: "eos_state \<Rightarrow> eos_state" where
  \<comment> \<open>the function that \<^verbatim>\<open>eos\<close> returns\<close>
  "eos_remove s = s\<lparr>eos_listeners := filter (\<lambda>l. l \<notin> eos_pairs) (eos_listeners s)\<rparr>"

section \<open>Events\<close>

definition callback_once :: "string option \<Rightarrow> eos_state \<Rightarrow> eos_state" where
  "callback_once er s = (if eos_called s then s else s\<lparr>eos_called := True, eos_calls := eos_calls s @ [er]\<rparr>)"

definition onfinish :: "eos_state \<Rightarrow> eos_state" where
  "onfinish s = (let s1 = s\<lparr>eos_writable := False\<rparr> in if \<not> eos_readable s1 then callback_once None s1 else s1)"

definition onend :: "eos_state \<Rightarrow> eos_state" where
  "onend s = (let s1 = s\<lparr>eos_readable := False\<rparr> in if \<not> eos_writable s1 then callback_once None s1 else s1)"

definition onlegacyfinish :: "watched \<Rightarrow> eos_state \<Rightarrow> eos_state" where
  "onlegacyfinish st s = (if \<not> s_writable st then onfinish s else s)"

definition onexit :: "string \<Rightarrow> eos_state \<Rightarrow> eos_state" where
  \<comment> \<open>the text is the exit code, empty for 0\<close>
  "onexit code s = callback_once (if code \<noteq> [] then Some (''exited with error code: '' @ code) else None) s"

definition eos_onclose :: "watched \<Rightarrow> eos_state \<Rightarrow> eos_state" where
  "eos_onclose st s =
     (if eos_readable s \<and> \<not> (eos_had_rs s \<and> read_half st = Some True) then callback_once (Some ''premature close'') s
      else if eos_writable s \<and> \<not> (eos_had_ws s \<and> write_half st = Some True) then callback_once (Some ''premature close'') s
      else s)"

text \<open>An event with its text: the message of an error, the exit code. A handler that throws ends the emission.\<close>

fun handle :: "watched \<Rightarrow> string \<Rightarrow> eos_handler \<Rightarrow> eos_state \<Rightarrow> eos_state result" where
  "handle st t HLegacyFinish s = Inr (onlegacyfinish st s)"
| "handle st t HFinish s = Inr (onfinish s)"
| "handle st t HEnd s = Inr (onend s)"
| "handle st t HExit s = Inr (onexit t s)"
| "handle st t HClose s = Inr (eos_onclose st s)"
| "handle st t HRequest s = onrequest st s"
| "handle st t HCallback s = Inr (callback_once (Some t) s)"

fun handle_all :: "watched \<Rightarrow> string \<Rightarrow> eos_handler list \<Rightarrow> eos_state \<Rightarrow> eos_state result" where
  "handle_all st t [] s = Inr s"
| "handle_all st t (h # hs) s = rbind (handle st t h s) (handle_all st t hs)"

definition eos_emit :: "watched \<Rightarrow> eos_name \<Rightarrow> string \<Rightarrow> eos_state \<Rightarrow> eos_state result" where
  "eos_emit st n t s = handle_all st t (map snd (filter (\<lambda>l. fst l = n) (eos_listeners s))) s"

inductive eos_reach :: "eos_state \<Rightarrow> bool" where
  start: "eos_listen st opts = Inr s \<Longrightarrow> eos_reach s"
| emitted: "eos_reach s \<Longrightarrow> eos_emit st n t s = Inr s' \<Longrightarrow> eos_reach s'"
| removed: "eos_reach s \<Longrightarrow> eos_reach (eos_remove s)"

section \<open>One call\<close>

definition once_inv :: "eos_state \<Rightarrow> bool" where
  "once_inv s \<longleftrightarrow> length (eos_calls s) = (if eos_called s then 1 else 0)
     \<and> set (eos_listeners s) \<subseteq> eos_pairs"

lemma eos_pairs_in [simp]:
  "(EComplete, HFinish) \<in> eos_pairs" "(EAbort, HClose) \<in> eos_pairs" "(ERequest, HRequest) \<in> eos_pairs"
  "(EReqFinish, HFinish) \<in> eos_pairs" "(EEnd, HLegacyFinish) \<in> eos_pairs" "(EClose, HLegacyFinish) \<in> eos_pairs"
  "(EFinish, HFinish) \<in> eos_pairs" "(EExit, HExit) \<in> eos_pairs" "(EEnd, HEnd) \<in> eos_pairs"
  "(EError, HCallback) \<in> eos_pairs" "(EClose, HClose) \<in> eos_pairs"
  by (simp_all add: eos_pairs_def)

lemma handle_inv: "once_inv s \<Longrightarrow> handle st t h s = Inr s' \<Longrightarrow> once_inv s'"
  by (cases h) (auto simp: once_inv_def onlegacyfinish_def onfinish_def onend_def onexit_def eos_onclose_def onrequest_def
      callback_once_def Let_def split: if_splits)

lemma handle_all_inv: "once_inv s \<Longrightarrow> handle_all st t hs s = Inr s' \<Longrightarrow> once_inv s'"
  by (induction hs arbitrary: s) (auto simp: result_simps dest: handle_inv)

lemma eos_reach_inv: "eos_reach s \<Longrightarrow> once_inv s"
proof (induction rule: eos_reach.induct)
  case (start st opts s)
  then show ?case
    by (auto simp: eos_listen_def once_inv_def onrequest_def Let_def result_simps split: if_splits)
next
  case (emitted s st n t s')
  then show ?case by (auto simp: eos_emit_def dest: handle_all_inv)
next
  case (removed s)
  then show ?case by (auto simp: once_inv_def eos_remove_def)
qed

lemma eos_calls_once: "eos_reach s \<Longrightarrow> length (eos_calls s) \<le> 1"
  using eos_reach_inv by (auto simp: once_inv_def)

lemma eos_removed_silent: "eos_reach s \<Longrightarrow> eos_emit st n t (eos_remove s) = Inr (eos_remove s)"
proof -
  assume "eos_reach s"
  then have "eos_listeners (eos_remove s) = []"
    using eos_reach_inv [of s] by (auto simp: once_inv_def eos_remove_def filter_empty_conv)
  then show ?thesis by (simp add: eos_emit_def)
qed

text \<open>
  A stream with both states and no request: the callback is called without an error when the last of the halves
  that count is done, and with one when the stream closes while a half that counts is still open.
\<close>

definition plain_stream :: "watched \<Rightarrow> bool" where
  "plain_stream st \<longleftrightarrow> \<not> isRequest st \<and> \<not> isChildProcess st \<and> write_half st \<noteq> None \<and> read_half st \<noteq> None"

fun eos_events :: "watched \<Rightarrow> eos_name list \<Rightarrow> eos_state \<Rightarrow> eos_state result" where
  "eos_events st [] s = Inr s"
| "eos_events st (n # ns) s = rbind (eos_emit st n [] s) (eos_events st ns)"

definition watching :: "bool \<Rightarrow> bool \<Rightarrow> bool \<Rightarrow> eos_state" where
  "watching r w c = \<lparr>eos_readable = r, eos_writable = w, eos_had_ws = True, eos_had_rs = True, eos_called = c,
     eos_listeners = [(EEnd, HEnd), (EFinish, HFinish), (EError, HCallback), (EClose, HClose)],
     eos_calls = (if c then [None] else [])\<rparr>"

lemma eos_plain:
  "plain_stream st \<Longrightarrow> opt_error opts \<noteq> Some False \<Longrightarrow>
     eos_listen st opts = Inr (watching (wanted (opt_readable opts) (s_readable st)) (wanted (opt_writable opts) (s_writable st)) False)"
  by (auto simp: eos_listen_def plain_stream_def Let_def watching_def)

lemma watching_step:
  "eos_emit st EEnd [] (watching r w c) = Inr (watching False w (c \<or> \<not> w))"
  "eos_emit st EFinish [] (watching r w c) = Inr (watching r False (c \<or> \<not> r))"
  by (auto simp: eos_emit_def watching_def onend_def onfinish_def callback_once_def Let_def)

lemma watching_cong: "r = r' \<Longrightarrow> w = w' \<Longrightarrow> c = c' \<Longrightarrow> watching r w c = watching r' w' c'"
  by simp

lemma eos_both_done:
  "set ns \<subseteq> {EEnd, EFinish} \<Longrightarrow> eos_events st ns (watching r w c) =
     Inr (watching (r \<and> EEnd \<notin> set ns) (w \<and> EFinish \<notin> set ns)
       (c \<or> ns \<noteq> [] \<and> (w \<longrightarrow> EFinish \<in> set ns) \<and> (r \<longrightarrow> EEnd \<in> set ns)))"
proof (induction ns arbitrary: r w c)
  case Nil
  then show ?case by (simp add: watching_def)
next
  case (Cons n ns)
  consider "n = EEnd" | "n = EFinish" using Cons.prems by auto
  then show ?case
    using Cons by cases (auto simp: watching_step intro!: watching_cong)
qed

lemma eos_premature_close:
  assumes "r \<and> read_half st \<noteq> Some True \<or> w \<and> write_half st \<noteq> Some True"
  shows "\<exists>s. eos_emit st EClose [] (watching r w False) = Inr s \<and> eos_calls s = [Some ''premature close'']"
  using assms by (auto simp: eos_emit_def watching_def eos_onclose_def callback_once_def)

end
