(* ===== verification/Buffer_Shims.thy ===== *)
theory Buffer_Shims
  imports Buffer_More
begin

text \<open>
  \<^verbatim>\<open>buffer-shims\<close>, through which the streams make their buffers: it uses the functions of \<^verbatim>\<open>Buffer\<close> if they are
  there and builds them from the old constructor otherwise. What is there is a parameter. The lemmas show that
  both ways give the same buffers.
\<close>

record shim_host =
  native_alloc :: bool
  native_allocUnsafe :: bool
  native_from :: bool               \<comment> \<open>a \<^verbatim>\<open>Buffer.from\<close> that is not the one of \<^verbatim>\<open>Uint8Array\<close>\<close>
  native_allocUnsafeSlow :: bool
  has_ArrayBuffer :: bool

fun size_above :: "int \<Rightarrow> jsval \<Rightarrow> bool" where
  "size_above m (JNum n) = (n > m)"
| "size_above m (JFrac t s) = (t \<ge> m)"
| "size_above m _ = False"

fun size_from :: "int \<Rightarrow> jsval \<Rightarrow> bool" where
  "size_from m (JNum n) = (n \<ge> m)"
| "size_from m (JFrac t s) = (t \<ge> m)"
| "size_from m _ = False"

definition shim_alloc :: "shim_host \<Rightarrow> jsval \<Rightarrow> jsval \<Rightarrow> jsval \<Rightarrow> buffer result" where
  "shim_alloc h sz val encoding =
     (if native_alloc h then Buffer_alloc sz val encoding
      else if is_number encoding then Inl (TypeError ''encoding must not be number'')
      else if \<not> is_number sz then Inl (TypeError ''size must be a number'')
      else if size_above K_MAX_LENGTH sz then Inl (RangeError ''size is too large'')
      else
        (let (enc, v) = (if val = JUndef then (JUndef, JNum 0) else (encoding, val))
         in rbind (Buffer_new (to_from_arg sz) JUndef None) (\<lambda>buf.
              case v of
                JStr t \<Rightarrow>
                  rbind (Buffer_new (FString t) enc None) (\<lambda>fillBuf.
                    Inr (map (\<lambda>i. if fillBuf = [] then 0 else fillBuf ! (i mod length fillBuf)) [0..<length buf]))
              | _ \<Rightarrow> Buffer_fill buf v JUndef JUndef JUndef)))"

definition shim_allocUnsafe :: "shim_host \<Rightarrow> jsval \<Rightarrow> buffer result" where
  "shim_allocUnsafe h sz =
     (if native_allocUnsafe h then allocUnsafe sz
      else if \<not> is_number sz then Inl (TypeError ''size must be a number'')
      else if size_above K_MAX_LENGTH sz then Inl (RangeError ''size is too large'')
      else Buffer_new (to_from_arg sz) JUndef None)"

definition array_slice :: "buffer \<Rightarrow> int \<Rightarrow> int \<Rightarrow> buffer" where
  \<comment> \<open>\<^verbatim>\<open>ArrayBuffer.prototype.slice\<close>\<close>
  "array_slice b start end =
     (let s = clamp_index start (int (length b)); e = clamp_index end (int (length b))
      in take (nat e - nat s) (drop (nat s) b))"

definition shim_from :: "shim_host \<Rightarrow> from_arg \<Rightarrow> (jsval \<times> jsval) option \<Rightarrow> buffer result" where
  \<comment> \<open>the value, and the further arguments if there are any\<close>
  "shim_from h val args =
     (let encodingOrOffset = (case args of Some (a, _) \<Rightarrow> a | None \<Rightarrow> JUndef);
          len = (case args of Some (_, l) \<Rightarrow> l | None \<Rightarrow> JUndef)
      in if native_from h then Buffer_from val encodingOrOffset (num_arg len)
      else case val of
        FNumber n \<Rightarrow> Inl (TypeError ''\"value\" argument must not be a number'')
      | FString t \<Rightarrow> Buffer_new (FString t) encodingOrOffset None
      | FArrayBuffer b \<Rightarrow>
          if \<not> has_ArrayBuffer h then Inl (TypeError ''First argument must be a string, Buffer, ArrayBuffer, Array, or array-like object.'')
          else if args = None then Buffer_new val JUndef None
          else
            (let n = int (length b);
                 offset = (case num_arg encodingOrOffset of Some k \<Rightarrow> k | None \<Rightarrow> 0);
                 l = (case num_arg len of Some k \<Rightarrow> k | None \<Rightarrow> n - offset)
             in if offset \<ge> n then Inl (RangeError '''offset' is out of bounds'')
                else if l > n - offset then Inl (RangeError '''length' is out of bounds'')
                else Buffer_new (FArrayBuffer (array_slice b offset (offset + l))) JUndef None)
      | FBuffer b \<Rightarrow>
          rbind (Buffer_new (FNumber (int (length b))) JUndef None) (\<lambda>out.
          rbind (Buffer_copy b out 0 0 (Some (int (length b)))) (\<lambda>(out', _). Inr out'))
      | FArray xs \<Rightarrow> Buffer_new val JUndef None
      | FNoLength \<Rightarrow> Buffer_new val JUndef None
      | FJson xs \<Rightarrow> Buffer_new (FArray xs) JUndef None
      | FOther \<Rightarrow> Inl (TypeError ''First argument must be a string, Buffer, ArrayBuffer, Array, or array-like object.''))"

definition SlowBuffer :: "jsval option \<Rightarrow> buffer result" where
  \<comment> \<open>the number that equals the argument, if one does\<close>
  "SlowBuffer len = Buffer_alloc (case len of Some n \<Rightarrow> n | None \<Rightarrow> JNum 0) JUndef JUndef"

definition shim_allocUnsafeSlow :: "shim_host \<Rightarrow> jsval \<Rightarrow> buffer result" where
  "shim_allocUnsafeSlow h sz =
     (if native_allocUnsafeSlow h then allocUnsafe sz
      else if \<not> is_number sz then Inl (TypeError ''size must be a number'')
      else if size_from K_MAX_LENGTH sz then Inl (RangeError ''size is too large'')
      else SlowBuffer (Some sz))"

section \<open>Both ways agree\<close>

lemma alloc_zero: "int n < K_MAX_LENGTH \<Longrightarrow> Buffer_new (FNumber (int n)) JUndef None = Inr (replicate n 0)"
  by (simp add: Buffer_new_def allocUnsafe_nat)

lemma alloc_none: "Buffer_new (FNumber 0) JUndef None = Inr []"
  using alloc_zero [of 0] by (simp add: K_MAX_LENGTH_def)

lemma fill_number:
  "int (length b) < 2 ^ 31 \<Longrightarrow> Buffer_fill b (JNum v) JUndef JUndef JUndef =
     Inr (replicate (length b) (word_of_int (v AND 255)))"
  by (auto simp: Buffer_fill_def fill_args_def Let_def fill_range_def to_uint32_def map_replicate_const)

lemma shim_alloc_same:
  assumes "int n < K_MAX_LENGTH" "val = JUndef \<or> (\<exists>v. val = JNum v)"
  shows "shim_alloc h (JNum (int n)) val JUndef = Buffer_alloc (JNum (int n)) val JUndef"
  using assms fill_number [of "replicate n 0"]
  by (auto simp: shim_alloc_def alloc_zero alloc_none Buffer_alloc_def createBuffer_def K_MAX_LENGTH_def
      intro: replicate_eqI)

lemma shim_allocUnsafe_same:
  "int n < K_MAX_LENGTH \<Longrightarrow> shim_allocUnsafe h (JNum (int n)) = Inr (replicate n 0)"
  by (auto simp: shim_allocUnsafe_def alloc_zero allocUnsafe_nat)

lemma shim_from_same:
  assumes "case v of FString t \<Rightarrow> True | FArray xs \<Rightarrow> True | FJson xs \<Rightarrow> True | FBuffer b \<Rightarrow> int (length b) < K_MAX_LENGTH
    | FNumber n \<Rightarrow> True | FOther \<Rightarrow> True | _ \<Rightarrow> False"
  shows "shim_from h v None = Buffer_from v JUndef None"
proof (cases v)
  case (FBuffer b)
  have "Buffer_copy b (replicate (length b) 0) (int 0) 0 None = Inr (b, int (length b))"
    using Buffer_copy_all [of 0 b "replicate (length b) 0"] by simp
  then show ?thesis using FBuffer assms
    by (auto simp: shim_from_def alloc_zero alloc_none Buffer_from_def fromObject_def Buffer_copy_def checked_def
        createBuffer_def K_MAX_LENGTH_def Let_def)
qed (use assms in \<open>auto simp: shim_from_def Buffer_new_def Buffer_from_def fromObject_def Let_def\<close>)

end
