(* ===== verification/Bl_Stream.thy ===== *)
theory Bl_Stream
  imports Buffer_List
begin

text \<open>
  \<^verbatim>\<open>BufferList\<close> (\<^verbatim>\<open>bl\<close>) as a stream: what is written is appended, what is read is sliced off the front, and the
  callback of the constructor gets all bytes at the end, or the first error of a stream that is piped into it.
  The chunks pushed to the reading half and the calls of the callback are logged.
\<close>

record bl_stream =
  bs_list :: buffer_list
  bs_callback :: bool                         \<comment> \<open>\<^verbatim>\<open>_callback\<close> is set\<close>
  bs_collects :: bool                         \<comment> \<open>made with a callback: \<^verbatim>\<open>pipe\<close> and \<^verbatim>\<open>unpipe\<close> are watched\<close>
  bs_sources :: "nat list"                    \<comment> \<open>sources whose errors are watched\<close>
  bs_pushed :: "buffer option list"           \<comment> \<open>\<open>None\<close> is \<^verbatim>\<open>null\<close>\<close>
  bs_results :: "(string + buffer) list"

definition new_bl_stream :: "append_arg option \<Rightarrow> bl_stream result" where
  \<comment> \<open>\<open>None\<close>: the argument is a function\<close>
  "new_bl_stream arg =
     (let s = \<lparr>bs_list = bl_new, bs_callback = False, bs_collects = False, bs_sources = [], bs_pushed = [], bs_results = []\<rparr>
      in case arg of
        None \<Rightarrow> Inr (s\<lparr>bs_callback := True, bs_collects := True\<rparr>)
      | Some a \<Rightarrow> rbind (bl_append bl_new a) (\<lambda>l. Inr (s\<lparr>bs_list := l\<rparr>)))"

definition bs_give :: "string + buffer \<Rightarrow> bl_stream \<Rightarrow> bl_stream" where
  \<comment> \<open>call the callback if it is still there\<close>
  "bs_give r s = (if bs_callback s then s\<lparr>bs_results := bs_results s @ [r], bs_callback := False\<rparr> else s)"

definition on_pipe :: "nat \<Rightarrow> bl_stream \<Rightarrow> bl_stream" where
  "on_pipe src s = (if bs_collects s then s\<lparr>bs_sources := bs_sources s @ [src]\<rparr> else s)"

definition on_unpipe :: "nat \<Rightarrow> bl_stream \<Rightarrow> bl_stream" where
  \<comment> \<open>\<^verbatim>\<open>removeListener\<close> takes the listener away that was added last\<close>
  "on_unpipe src s = (if bs_collects s then s\<lparr>bs_sources := rev (remove1 src (rev (bs_sources s)))\<rparr> else s)"

definition piper :: "nat \<Rightarrow> string \<Rightarrow> bl_stream \<Rightarrow> bl_stream" where
  \<comment> \<open>the source emits an error: each of its listeners is called\<close>
  "piper src e s = fold (\<lambda>_. bs_give (Inl e)) (filter (\<lambda>x. x = src) (bs_sources s)) s"

definition bs_write :: "buffer \<Rightarrow> bl_stream \<Rightarrow> bl_stream" where
  \<comment> \<open>\<^verbatim>\<open>_write\<close>; its callback is called at once\<close>
  "bs_write buf s = s\<lparr>bs_list := appendBuffer (bs_list s) buf\<rparr>"

definition bs_read :: "int \<Rightarrow> bl_stream \<Rightarrow> bl_stream result" where
  "bs_read sz0 s =
     (if bl_length (bs_list s) = 0 then Inr (s\<lparr>bs_pushed := bs_pushed s @ [None]\<rparr>)
      else
        (let sz = min sz0 (bl_length (bs_list s)) in
         rbind (bl_slice (bs_list s) (Some 0) (Some sz)) (\<lambda>b.
           Inr (s\<lparr>bs_pushed := bs_pushed s @ [Some b], bs_list := bl_consume (bs_list s) sz\<rparr>))))"

definition bs_end :: "buffer option \<Rightarrow> bl_stream \<Rightarrow> bl_stream result" where
  \<comment> \<open>\<^verbatim>\<open>end\<close>, whose chunk the writing half hands to \<^verbatim>\<open>_write\<close> at once\<close>
  "bs_end chunk s =
     (let s1 = (case chunk of Some c \<Rightarrow> bs_write c s | None \<Rightarrow> s) in
      if bs_callback s1 then
        rbind (bl_slice (bs_list s1) None None) (\<lambda>b. Inr (bs_give (Inr b) s1))
      else Inr s1)"

section \<open>Bytes and results\<close>

definition pushed_bytes :: "bl_stream \<Rightarrow> buffer" where
  "pushed_bytes s = concat (map (\<lambda>c. case c of Some b \<Rightarrow> b | None \<Rightarrow> []) (bs_pushed s))"

lemma bs_write_bytes:
  "bl_bytes (bs_list (bs_write b s)) = bl_bytes (bs_list s) @ b" "pushed_bytes (bs_write b s) = pushed_bytes s"
  by (simp_all add: bs_write_def pushed_bytes_def)

lemma bs_read_bytes:
  assumes "bl_inv (bs_list s)" "0 \<le> sz"
  shows "\<exists>s'. bs_read sz s = Inr s' \<and> bl_inv (bs_list s')
    \<and> pushed_bytes s' @ bl_bytes (bs_list s') = pushed_bytes s @ bl_bytes (bs_list s)
    \<and> length (bl_bytes (bs_list s')) = length (bl_bytes (bs_list s)) - nat sz"
proof (cases "bl_length (bs_list s) = 0")
  case True
  then show ?thesis using assms bl_inv_length [OF assms(1)] by (simp add: bs_read_def pushed_bytes_def)
next
  case False
  define n where "n = min (nat sz) (length (bl_bytes (bs_list s)))"
  have n: "min sz (bl_length (bs_list s)) = int n"
    using assms(2) bl_inv_length [OF assms(1)] by (simp add: n_def min_def, linarith)
  have "bl_slice (bs_list s) (Some 0) (Some (int n)) = Inr (take n (bl_bytes (bs_list s)))"
    using bl_slice_eq [OF assms(1), of 0 n] by simp
  then have "bs_read sz s = Inr (s\<lparr>bs_pushed := bs_pushed s @ [Some (take n (bl_bytes (bs_list s)))],
      bs_list := bl_consume (bs_list s) (int n)\<rparr>)"
    using False n by (simp add: bs_read_def)
  then show ?thesis
    using bl_consume_facts [OF assms(1), of n] by (auto simp: pushed_bytes_def n_def min_def)
qed

lemma bl_slice_whole: "bl_inv l \<Longrightarrow> bl_slice l None None = Inr (bl_bytes l)"
proof -
  assume i: "bl_inv l"
  have "bl_slice l None None = bl_slice l (Some (int 0)) (Some (int (length (bl_bytes l))))"
    using bl_inv_length [OF i] by (simp add: bl_slice_def bl_copy_def)
  then show ?thesis using bl_slice_eq [OF i, of 0 "length (bl_bytes l)"] by simp
qed

lemma bs_end_collects:
  assumes "bl_inv (bs_list s)" "bs_callback s"
    "bl_length (bs_list s) + int (case chunk of Some c \<Rightarrow> length c | None \<Rightarrow> 0) < K_MAX_LENGTH"
  shows "\<exists>s'. bs_end chunk s = Inr s' \<and> \<not> bs_callback s'
    \<and> bs_results s' = bs_results s @ [Inr (bl_bytes (bs_list s) @ (case chunk of Some c \<Rightarrow> c | None \<Rightarrow> []))]"
proof -
  define s1 where "s1 = (case chunk of Some c \<Rightarrow> bs_write c s | None \<Rightarrow> s)"
  have i: "bl_inv (bs_list s1)" using assms(1,3)
    by (auto simp: s1_def bs_write_def bl_inv_appendBuffer split: option.splits)
  have "bs_callback s1" "bs_results s1 = bs_results s"
    "bl_bytes (bs_list s1) = bl_bytes (bs_list s) @ (case chunk of Some c \<Rightarrow> c | None \<Rightarrow> [])"
    using assms(2) by (auto simp: s1_def bs_write_def split: option.splits)
  with bl_slice_whole [OF i] show ?thesis by (simp add: bs_end_def s1_def [symmetric] bs_give_def)
qed

text \<open>The callback is called once: with the first error of a source, and then not at the end.\<close>

lemma give_spent: "\<not> bs_callback s \<Longrightarrow> fold (\<lambda>_. bs_give r) xs s = s"
  by (induction xs) (simp_all add: bs_give_def)

lemma piper_once:
  assumes "bs_callback s" "src \<in> set (bs_sources s)"
  shows "bs_results (piper src e s) = bs_results s @ [Inl e] \<and> \<not> bs_callback (piper src e s)"
proof -
  obtain x xs where "filter (\<lambda>x. x = src) (bs_sources s) = x # xs"
    using assms(2) by (cases "filter (\<lambda>x. x = src) (bs_sources s)") (auto simp: filter_empty_conv)
  then have "piper src e s = fold (\<lambda>_. bs_give (Inl e)) xs (bs_give (Inl e) s)" by (simp add: piper_def)
  with give_spent [of "bs_give (Inl e) s" "Inl e" xs] assms(1) show ?thesis by (simp add: bs_give_def)
qed

lemma spent_silent:
  assumes "\<not> bs_callback s"
  shows "bs_results (piper src e s) = bs_results s" "bs_end None s = Inr s"
  using assms by (simp_all add: piper_def bs_end_def give_spent [OF assms])

end
