(* ===== verification/Spec2Isabelle.thy ===== *)
theory Spec2Isabelle
  imports Client_Queue Mqtt_Connect Event_Emitter Readable_Stream Writable_Stream Web_Socket
    Re_Interval Buffer_More Parser_Typing Process_Tick Url_Resolve
    Transform_Stream Chunk_List End_Of_Stream Buffer_Shims Bl_Stream
begin

text \<open>
  \<^bold>\<open>The MQTT client of the broker's web pages.\<close>

  The repository is an MQTT broker with a web front end. The JavaScript side is the bundle
  \<^verbatim>\<open>src/www/libs/mqtt.js\<close>: the MQTT.js client together with the modules it needs, in particular the packet
  codec \<^verbatim>\<open>mqtt-packet\<close>, the byte queue \<^verbatim>\<open>bl\<close> and the browser implementation of \<^verbatim>\<open>buffer\<close>. This development
  models these parts and proves them correct. All line numbers below are lines of that file.

  \<^bold>\<open>Parts and how they interact.\<close> The application calls \<^verbatim>\<open>publish\<close>, \<^verbatim>\<open>subscribe\<close>, \<^verbatim>\<open>unsubscribe\<close> and
  \<^verbatim>\<open>end\<close> of the client (64--950). The client validates topics (1236--1272), keeps packets in flight in two
  message stores (1123--1219), writes packets to its stream with the generator (5236--5772), and feeds what
  the stream delivers to the parser (4858--5222). The parser keeps the bytes it has not consumed in a
  BufferList (1550--1822); generator and parser rest on \<^verbatim>\<open>Buffer\<close> (1848--3527) and on base64 (1435--1542).

  \<^bold>\<open>Theories.\<close>
  \<^item> \<open>Js_Prelude\<close>: strings as UTF-16 code units, bytes, dynamically typed values, exceptions as values,
    integer coercions; shared lemmas and the collections \<open>result_simps\<close>, \<open>byte_simps\<close>, \<open>defs\<close>.
  \<^item> \<open>Js_Utf8\<close>, \<open>Base64_Js\<close>, \<open>Js_Buffer\<close>, \<open>Js_Text\<close>: the transcoders, integer reads and writes, slices,
    copies, comparison, the encodings behind \<^verbatim>\<open>write\<close> and \<^verbatim>\<open>toString\<close>. Round trips of UTF-8, base64, hex,
    of strings through \<^verbatim>\<open>Buffer.from\<close>, and of signed integers of every width.
  \<^item> \<open>Buffer_List\<close>: the chunked byte queue; locale \<open>byte_queue\<close> is the interface the parser relies on,
    interpreted on the model. A list of chunks refines its concatenation.
  \<^item> \<open>Packet_Types\<close>, \<open>Packet_Write\<close>, \<open>Packet_Parser\<close>: constants and packet objects, the generator, the parser;
    every raised error and every emitted error is a branch of the model.
  \<^item> \<open>Packet_Length\<close>: the remaining-length field and its cache. \<open>Packet_Loop\<close>: the parser's loop ends; the
    model carries fuel, \<open>parse_fuel\<close> (four per buffered byte and four more), and the loop theorem shows
    that it always suffices. \<open>Packet_Stream\<close>: parsing does not depend on how bytes are cut into chunks.
    \<open>Parser_Typing\<close>: the types and ranges of the properties of every packet the parser builds, and which
    properties a packet of each command has when it is emitted.
  \<^item> \<open>Codec_Spec\<close>, \<open>Codec_Read\<close>, \<open>Codec_Write\<close>, \<open>Packet_Codec\<close>: the wire format as a specification
    (\<open>wire_frame\<close>, \<open>decoded\<close>), that the parser reads it and the generator writes it, and the round trip.
  \<^item> \<open>Mqtt_Store\<close>: the in-memory store with its replay stream; locale \<open>message_store\<close> with its interpretation.
    \<open>Mqtt_Validations\<close>: topic validation against its two rules.
  \<^item> \<open>Mqtt_Client\<close>: the client. The record \<open>client\<close> is the object; closures are values of type \<open>callback\<close>; a
    callback the code invokes is put in front of \<open>todo\<close>, so the order of synchronous calls is kept; timers
    are flags, \<^verbatim>\<open>setImmediate\<close> is a queue; \<open>react\<close> takes an event of the environment, \<open>perform\<close> one pending
    continuation, \<open>run\<close> all of them (with fuel; the liveness theorems state that it returns), and
    \<open>reachable\<close> is the inductive set of states.
  \<^item> \<open>Client_Frame\<close>, \<open>Client_Ids\<close>: the invariant of all reachable states, message ids.
    \<open>Client_Receive\<close>: QoS 2 delivery refines an exactly-once specification. \<open>Client_Send\<close>: QoS 1 and 2
    publication until its acknowledgement. \<open>Client_Queue\<close>: the offline queue, \<^verbatim>\<open>end\<close>, keepalive.
  \<^item> \<open>Js_String\<close>, \<open>Query_String\<close>, \<open>Punycode\<close>, \<open>Url\<close>, \<open>Mqtt_Connect\<close>: methods of strings and URI escapes; query
    strings (6592--6736; locale \<open>field_codec\<close>) and their round trip; host names outside ASCII (6029--6507), encoder and
    decoder run in step; \<^verbatim>\<open>parse\<close> and \<^verbatim>\<open>format\<close> of URLs (8987--9389, 9674--9685),
    in \<open>Url_Resolve\<close> the resolution of a reference against a base (9391--9672); \<^verbatim>\<open>mqtt.connect\<close> with the stream
    builders (955--1108, 1280--1421), from the address to the socket and the CONNECT packet.
  \<^item> \<open>Event_Emitter\<close>: listener tables and emission (4195--4499); locale \<open>listener_table\<close>. \<open>Writable_Stream\<close>: the
    writing half of a stream (8019--8516), what is written arrives once and in order. \<open>Readable_Stream\<close>: the
    reading half (6923--7790, 8570--8582), with one piped destination; \<open>r_reach\<close> is the inductive set of its states, \<open>flow\<close> carries fuel, and \<open>length (r_buffer s) + 1\<close>
    suffices for a source that pushes later. \<open>Duplexify\<close>, \<open>Web_Socket\<close>: the stream in front of the WebSocket before it is
    open (3763--3990, 4002--4063), which keeps the order of writes and ends last, and the proxy that throttles them
    (10386--10558). \<open>String_Decoder\<close>: text from chunks of bytes (8586--8860); locale
    \<open>chunked_text\<close>, one interpretation per kind of encoding.
  \<^item> \<open>Transform_Stream\<close>: \<^verbatim>\<open>Transform\<close> and \<^verbatim>\<open>PassThrough\<close> (7844--7970, 6846--6848) between the two halves of a stream,
    with a stack of what the running functions still have to do. \<open>Chunk_List\<close>: the linked list of chunks
    (8528--8582) on a store of entries; locale \<open>chunk_queue\<close>. \<open>End_Of_Stream\<close>: the one call when a stream is
    done (4071--4147). \<open>Bl_Stream\<close>: \<^verbatim>\<open>bl\<close> as a stream that collects (1550--1652). \<open>Buffer_Shims\<close>: \<^verbatim>\<open>buffer-shims\<close>
    (3546--3647), whose two ways give the same buffers.
  \<^item> \<open>Buffer_More\<close>: construction, filling, swaps and search of a \<^verbatim>\<open>Buffer\<close> (1906--2108, 2315--2571, 3331--3388); the search
    against its specification. \<open>Re_Interval\<close>: repeating timers (8872--8924), of which an object has one at most, and
    \<^verbatim>\<open>once\<close> (4172--4193). \<open>Process_Tick\<close>: the queue of \<^verbatim>\<open>process.nextTick\<close> (5855--6000), whose tasks are finite
    programs that schedule others and may throw; the loops end because the tasks get smaller, and every task
    runs once and in order.

  \<^bold>\<open>Assumptions of the model.\<close> The stream handed to the client is its list of written chunks, its errors and
  the result of its next \<^verbatim>\<open>write\<close>, which the environment changes (\<open>InFull\<close>, \<open>InDrain\<close>). Emitting \<^verbatim>\<open>error\<close> logs an
  event: the application is assumed to listen for it. Numbers are integers or fractions; NaN and the
  infinities do not occur. Callbacks of the application do not call back into the client synchronously; a
  call made from one is the next event.

  \<^bold>\<open>Not modelled.\<close> The wiring of the two halves of each stream into one run (each half is proved against its
  callers' contract, which the other theories establish); several destinations of a \<^verbatim>\<open>Readable\<close>, its \<^verbatim>\<open>wrap\<close>, and
  the half-open rule of \<^verbatim>\<open>Duplex\<close>; the printing of objects (\<^verbatim>\<open>util.inspect\<close>) and the type tests of \<^verbatim>\<open>core-util-is\<close>,
  which only look at values of the language; \<^verbatim>\<open>ieee754\<close> and the floating-point access of \<^verbatim>\<open>Buffer\<close>, which no packet
  uses; \<^verbatim>\<open>util-deprecate\<close>, \<^verbatim>\<open>wrappy\<close> and \<^verbatim>\<open>inherits\<close>; the Vue runtime and the dashboard's user interface; the
  broker itself, which is written in Go.
\<close>

end
